(* ===== verification/Prelude.thy ===== *)
theory Prelude
  imports Main "HOL-Library.Word"
begin

text \<open>
  Shared vocabulary of the development: the widths of the C++ integers, the faults a
  handler can end in, sequencing of fallible operations, the counted \<^verbatim>\<open>for\<close> loop over
  \<^verbatim>\<open>uint32_t\<close>, \<^verbatim>\<open>std::map::operator[]\<close>, raw memory (\<^verbatim>\<open>memcpy\<close>, little-endian fields), and
  the interface \<open>fixed_codec\<close> of a fixed-width encoding with its array lemma.
\<close>

named_theorems res_simps \<open>rules that run a fallible computation\<close>
named_theorems layout \<open>numeric facts about the on-disk and in-memory layouts\<close>

section \<open>Machine integers\<close>

type_synonym byte = "8 word"
type_synonym u16 = "16 word"
type_synonym u32 = "32 word"
type_synonym u64 = "64 word"

lemma unat_Suc_u32 [simp]:
  fixes i e :: u32
  assumes "i < e"
  shows "unat (i + 1) = Suc (unat i)"
proof -
  have "Suc (unat i) < 2 ^ 32"
    using assms unsigned_less [of e, where ?'a = nat] by (simp add: word_less_nat_alt)
  then show ?thesis by (simp add: unat_word_ariths)
qed

section \<open>Faults and fallible computations\<close>

text \<open>
  \<open>Exit\<close> is a call of \<^verbatim>\<open>exit(0)\<close>, \<open>Abort\<close> a failed \<^verbatim>\<open>assert\<close>/\<^verbatim>\<open>VERIFY\<close> or an uncaught C++
  exception, \<open>Undefined\<close> an access the C++ standard leaves undefined (a read past the end
  of a buffer, of an indeterminate value, through a null pointer), \<open>Deadlock\<close> a thread that
  waits for itself.
\<close>

datatype fault = Exit | Abort | Undefined | Deadlock

type_synonym 'a res = "fault + 'a"

definition bindR :: "'a res \<Rightarrow> ('a \<Rightarrow> 'b res) \<Rightarrow> 'b res" where
  "bindR m f = (case m of Inl e \<Rightarrow> Inl e | Inr x \<Rightarrow> f x)"

lemma bindR_Inl [simp, res_simps]: "bindR (Inl e) f = Inl e"
  by (simp add: bindR_def)

lemma bindR_Inr [simp, res_simps]: "bindR (Inr x) f = f x"
  by (simp add: bindR_def)

lemma bindR_eq_Inr: "bindR m f = Inr y \<longleftrightarrow> (\<exists>x. m = Inr x \<and> f x = Inr y)"
  by (cases m) auto

lemma bindR_eq_Inl: "bindR m f = Inl e \<longleftrightarrow> m = Inl e \<or> (\<exists>x. m = Inr x \<and> f x = Inl e)"
  by (cases m) auto

lemma bindR_assoc: "bindR (bindR m f) g = bindR m (\<lambda>x. bindR (f x) g)"
  by (cases m) auto

lemma bindR_cong [fundef_cong]:
  "m = m' \<Longrightarrow> (\<And>x. m' = Inr x \<Longrightarrow> f x = g x) \<Longrightarrow> bindR m f = bindR m' g"
  by (cases m') auto

lemma InrE:
  assumes "bindR m f = Inr y"
  obtains x where "m = Inr x" and "f x = Inr y"
  using assms by (auto simp: bindR_eq_Inr)

definition guardR :: "bool \<Rightarrow> fault \<Rightarrow> unit res" where
  "guardR b e = (if b then Inr () else Inl e)"

lemma guardR_simps [simp, res_simps]:
  "guardR True e = Inr ()" "guardR False e = Inl e"
  by (simp_all add: guardR_def)

lemma guardR_eq_Inr [simp]: "guardR b e = Inr u \<longleftrightarrow> b"
  by (simp add: guardR_def)

lemma guardR_eq_Inl [simp]: "guardR b e = Inl f \<longleftrightarrow> \<not> b \<and> f = e"
  by (auto simp: guardR_def)

section \<open>The counted loop\<close>

text \<open>
  \<^verbatim>\<open>for (uint32_t i = s; i < e; i++) body\<close>, where the body may fault. The counter does not
  wrap: it is incremented only below \<open>e\<close>.
\<close>

function for_u32 :: "u32 \<Rightarrow> u32 \<Rightarrow> (u32 \<Rightarrow> 's \<Rightarrow> 's res) \<Rightarrow> 's \<Rightarrow> 's res" where
  "for_u32 i e body s =
     (if i < e then bindR (body i s) (for_u32 (i + 1) e body) else Inr s)"
  by pat_completeness auto
termination
  by (relation "measure (\<lambda>(i, e, body, s). unat e - unat i)")
     (auto simp: word_less_nat_alt)

declare for_u32.simps [simp del]

lemma for_u32_done: "\<not> i < e \<Longrightarrow> for_u32 i e body s = Inr s"
  by (simp add: for_u32.simps)

lemma for_u32_step: "i < e \<Longrightarrow> for_u32 i e body s = bindR (body i s) (for_u32 (i + 1) e body)"
  by (simp add: for_u32.simps)

text \<open>
  The loop rule: an invariant indexed by the counter's value that the body keeps, and a
  predicate on the faults the body can end in.
\<close>

lemma for_u32_rule:
  assumes "i \<le> e" and "P (unat i) s"
    and "\<And>k s. unat i \<le> k \<Longrightarrow> k < unat e \<Longrightarrow> P k s \<Longrightarrow>
           (case body (of_nat k) s of Inl f \<Rightarrow> F f | Inr s' \<Rightarrow> P (Suc k) s')"
  shows "case for_u32 i e body s of Inl f \<Rightarrow> F f | Inr s' \<Rightarrow> P (unat e) s'"
  using assms
proof (induction i e body s rule: for_u32.induct)
  case (1 i e body s)
  show ?case
  proof (cases "i < e")
    case False
    with "1.prems"(1) have "i = e" by simp
    with "1.prems"(2) show ?thesis by (simp add: for_u32_done)
  next
    case True
    then have lt: "unat i < unat e" by (simp add: word_less_nat_alt)
    note body = "1.prems"(3) [OF le_refl lt "1.prems"(2)]
    show ?thesis
    proof (cases "body i s")
      case (Inl f)
      with body True show ?thesis by (simp add: for_u32_step)
    next
      case (Inr s1)
      from True have le: "i + 1 \<le> e" by (simp add: inc_le)
      have "case for_u32 (i + 1) e body s1 of Inl f \<Rightarrow> F f | Inr s' \<Rightarrow> P (unat e) s'"
        by (rule "1.IH" [OF True Inr le])
           (use True Inr body "1.prems"(3) in \<open>auto simp: unat_Suc_u32 [OF True]\<close>)
      with True Inr show ?thesis by (simp add: for_u32_step)
    qed
  qed
qed

text \<open>The total form: a body that never faults under the invariant.\<close>

lemma for_u32_total:
  assumes "i \<le> e" and "P (unat i) s"
    and "\<And>k s. unat i \<le> k \<Longrightarrow> k < unat e \<Longrightarrow> P k s \<Longrightarrow>
           \<exists>s'. body (of_nat k) s = Inr s' \<and> P (Suc k) s'"
  shows "\<exists>s'. for_u32 i e body s = Inr s' \<and> P (unat e) s'"
proof -
  have "case for_u32 i e body s of Inl f \<Rightarrow> False | Inr s' \<Rightarrow> P (unat e) s'"
    by (rule for_u32_rule [where P = P, OF assms(1,2)]) (use assms(3) in fastforce)
  then show ?thesis by (cases "for_u32 i e body s") auto
qed

section \<open>std::map::operator[]\<close>

text \<open>
  \<^verbatim>\<open>m[k]\<close> on a \<^verbatim>\<open>std::map\<close>: an absent key is inserted with the value-initialised element
  \<open>d\<close>. The result is the element and the map afterwards.
\<close>

definition map_get :: "('k \<rightharpoonup> 'v) \<Rightarrow> 'k \<Rightarrow> 'v \<Rightarrow> 'v" where
  "map_get m k d = (case m k of None \<Rightarrow> d | Some v \<Rightarrow> v)"

definition map_index :: "('k \<rightharpoonup> 'v) \<Rightarrow> 'k \<Rightarrow> 'v \<Rightarrow> 'v \<times> ('k \<rightharpoonup> 'v)" where
  "map_index m k d = (case m k of None \<Rightarrow> (d, m(k \<mapsto> d)) | Some v \<Rightarrow> (v, m))"

lemma fst_map_index [simp]: "fst (map_index m k d) = map_get m k d"
  by (simp add: map_index_def map_get_def split: option.splits)

lemma map_get_map_index [simp]: "map_get (snd (map_index m k d)) j d = map_get m j d"
  by (auto simp: map_index_def map_get_def split: option.splits)

lemma map_get_upd [simp]: "map_get (m(k \<mapsto> v)) j d = (if j = k then v else map_get m j d)"
  by (simp add: map_get_def)

lemma map_get_empty [simp]: "map_get (\<lambda>_. None) k d = d"
  by (simp add: map_get_def)

section \<open>Raw memory\<close>

text \<open>
  \<open>read_mem off n bs\<close> reads \<open>n\<close> bytes at \<open>off\<close> of a buffer of known extent, \<open>mem_splice off new bs\<close>
  is \<^verbatim>\<open>memcpy(bs + off, new, n)\<close>, and \<open>resize n c s\<close> is \<^verbatim>\<open>std::string::resize\<close>.
\<close>

definition read_mem :: "nat \<Rightarrow> nat \<Rightarrow> byte list \<Rightarrow> byte list res" where
  "read_mem off n bs = (if off + n \<le> length bs then Inr (take n (drop off bs)) else Inl Undefined)"

definition mem_splice :: "nat \<Rightarrow> 'a list \<Rightarrow> 'a list \<Rightarrow> 'a list" where
  "mem_splice off new bs = take off bs @ new @ drop (off + length new) bs"

definition resize :: "nat \<Rightarrow> 'a \<Rightarrow> 'a list \<Rightarrow> 'a list" where
  "resize n c s = take n s @ replicate (n - length s) c"

lemma length_mem_splice [simp]: "off + length new \<le> length bs \<Longrightarrow> length (mem_splice off new bs) = length bs"
  by (simp add: mem_splice_def)

lemma take_drop_splice_same:
  "off + length new \<le> length bs \<Longrightarrow> take (length new) (drop off (mem_splice off new bs)) = new"
  by (simp add: mem_splice_def)

lemma take_drop_splice_other:
  assumes "off + length new \<le> length bs" and "a + n \<le> off \<or> off + length new \<le> a"
  shows "take n (drop a (mem_splice off new bs)) = take n (drop a bs)"
proof (rule nth_equalityI)
  show "length (take n (drop a (mem_splice off new bs))) = length (take n (drop a bs))"
    using assms by simp
  fix i assume i: "i < length (take n (drop a (mem_splice off new bs)))"
  with assms show "take n (drop a (mem_splice off new bs)) ! i = take n (drop a bs) ! i"
    by (auto simp: mem_splice_def nth_append)
qed

lemma length_resize [simp]: "length (resize n c s) = n"
  by (simp add: resize_def)

lemma take_resize [simp]: "k \<le> n \<Longrightarrow> k \<le> length s \<Longrightarrow> take k (resize n c s) = take k s"
  by (simp add: resize_def min_def)

subsection \<open>Little-endian integers\<close>

fun le_bytes :: "nat \<Rightarrow> nat \<Rightarrow> byte list" where
  "le_bytes 0 n = []"
| "le_bytes (Suc k) n = of_nat n # le_bytes k (n div 256)"

fun le_val :: "byte list \<Rightarrow> nat" where
  "le_val [] = 0"
| "le_val (b # bs) = unat b + 256 * le_val bs"

lemma length_le_bytes [simp]: "length (le_bytes k n) = k"
  by (induction k arbitrary: n) auto

lemma le_val_le_bytes: "le_val (le_bytes k n) = n mod 256 ^ k"
proof (induction k arbitrary: n)
  case 0
  then show ?case by simp
next
  case (Suc k)
  then show ?case by (simp add: unat_of_nat mod_mult2_eq)
qed

lemma le_bytes_le_val: "le_bytes (length bs) (le_val bs) = bs"
proof (induction bs)
  case (Cons b bs)
  have "unat b < 256" using unsigned_less [of b, where ?'a = nat] by simp
  then have "(unat b + 256 * le_val bs) mod 256 = unat b" "(unat b + 256 * le_val bs) div 256 = le_val bs" by simp_all
  moreover have "unat (of_nat (unat b + 256 * le_val bs) :: byte) = (unat b + 256 * le_val bs) mod 256" by (simp only: unat_of_nat) simp
  ultimately have "(of_nat (unat b + 256 * le_val bs) :: byte) = b" by (simp only: word_unat_eq_iff)
  then show ?case using Cons.IH \<open>(unat b + 256 * le_val bs) div 256 = le_val bs\<close> by (simp only: le_bytes.simps le_val.simps list.size)
      (simp only: le_bytes.simps add_0_right add_Suc_right)
qed simp

lemma le_val_less: "le_val bs < 256 ^ length bs"
proof (induction bs)
  case (Cons b bs)
  have "unat b < 256" using unsigned_less [of b, where ?'a = nat] by simp
  then show ?case using Cons.IH by simp
qed simp

definition enc16 :: "u16 \<Rightarrow> byte list" where "enc16 w = le_bytes 2 (unat w)"
definition enc32 :: "u32 \<Rightarrow> byte list" where "enc32 w = le_bytes 4 (unat w)"
definition enc64 :: "u64 \<Rightarrow> byte list" where "enc64 w = le_bytes 8 (unat w)"
definition dec16 :: "byte list \<Rightarrow> u16" where "dec16 bs = of_nat (le_val bs)"
definition dec32 :: "byte list \<Rightarrow> u32" where "dec32 bs = of_nat (le_val bs)"
definition dec64 :: "byte list \<Rightarrow> u64" where "dec64 bs = of_nat (le_val bs)"

lemma length_enc [simp]: "length (enc16 v) = 2" "length (enc32 w) = 4" "length (enc64 x) = 8"
  by (simp_all add: enc16_def enc32_def enc64_def)

lemma dec_enc [simp]: "dec16 (enc16 v) = v" "dec32 (enc32 w) = w" "dec64 (enc64 x) = x"
  using unsigned_less [of v, where ?'a = nat] unsigned_less [of w, where ?'a = nat]
    unsigned_less [of x, where ?'a = nat]
  by (simp_all add: enc16_def enc32_def enc64_def dec16_def dec32_def dec64_def le_val_le_bytes)

lemma enc64_onto: "length bs = 8 \<Longrightarrow> enc64 (dec64 bs) = bs"
  using le_bytes_le_val [of bs] le_val_less [of bs] by (simp add: enc64_def dec64_def unat_of_nat)

section \<open>Strings and bytes\<close>

text \<open>A C++ string as a list of characters and as the bytes that travel and are stored.\<close>

definition sbytes :: "string \<Rightarrow> byte list" where
  "sbytes s = map (\<lambda>c. of_nat (of_char c)) s"

definition bstring :: "byte list \<Rightarrow> string" where
  "bstring bs = map (\<lambda>b. char_of (unat b)) bs"

lemma bstring_sbytes [simp]: "bstring (sbytes s) = s"
proof -
  have "char_of (unat (of_nat (of_char c) :: byte)) = c" for c
  proof -
    have "unat (of_nat (of_char c) :: byte) = of_char c" by (simp add: unat_of_nat)
    then show ?thesis by simp
  qed
  then show ?thesis by (simp add: bstring_def sbytes_def comp_def)
qed

lemma sbytes_bstring [simp]: "sbytes (bstring b) = b"
proof -
  have "of_nat (of_char (char_of (unat x) :: char)) = x" for x :: byte
    using unsigned_less [of x, where ?'a = nat] by simp
  then show ?thesis by (simp add: bstring_def sbytes_def comp_def)
qed

lemma sbytes_inj: "sbytes s = sbytes t \<longleftrightarrow> s = t"
  by (metis bstring_sbytes)

lemma length_sbytes [simp]: "length (sbytes s) = length s" "length (bstring b) = length b"
  by (simp_all add: sbytes_def bstring_def)

lemma bstring_parts: "bstring (take n b) = take n (bstring b)" "bstring (drop n b) = drop n (bstring b)" "bstring (b @ b') = bstring b @ bstring b'"
  by (simp_all add: bstring_def take_map drop_map)

lemma sbytes_zero: "CHR 0x00 \<notin> set s \<Longrightarrow> 0 \<notin> set (sbytes s)"
proof
  assume s: "CHR 0x00 \<notin> set s" and "0 \<in> set (sbytes s)"
  then obtain c where "c \<in> set s" "of_nat (of_char c) = (0 :: byte)" by (auto simp: sbytes_def)
  moreover have "unat (of_nat (of_char c) :: byte) = of_char c" for c :: char by (simp add: unat_of_nat)
  ultimately have "of_char c = (0 :: nat)" by (metis unat_0)
  then have "of_char c = (of_char (CHR 0x00) :: nat)" by simp
  then have "c = CHR 0x00" by (simp only: of_char_eq_iff)
  with s \<open>c \<in> set s\<close> show False by simp
qed

section \<open>Decimal numbers\<close>

text \<open>What \<^verbatim>\<open>%d\<close> and \<^verbatim>\<open><<\<close> print for a number that is not negative, and its value read back.\<close>

fun decimal :: "nat \<Rightarrow> string" where
  "decimal n = (if n < 10 then [] else decimal (n div 10)) @ [char_of (n mod 10 + 48)]"

declare decimal.simps [simp del]

definition is_digit :: "char \<Rightarrow> bool" where
  "is_digit c \<longleftrightarrow> 48 \<le> (of_char c :: nat) \<and> (of_char c :: nat) \<le> 57"

definition digits_val :: "string \<Rightarrow> nat" where
  "digits_val = foldl (\<lambda>n c. n * 10 + (of_char c - 48)) 0"

lemma decimal_digits: "c \<in> set (decimal n) \<Longrightarrow> is_digit c"
proof (induction n rule: decimal.induct)
  case (1 n)
  from "1.prems" consider "n \<ge> 10" "c \<in> set (decimal (n div 10))" | "c = char_of (n mod 10 + 48)"
    by (subst (asm) decimal.simps) (auto split: if_splits)
  then show ?case
  proof cases
    case 1
    then show ?thesis using "1.IH" by simp
  next
    case 2
    have "(n mod 10 + 48) mod 256 = n mod 10 + 48" by simp
    then show ?thesis using 2 by (simp add: is_digit_def)
  qed
qed

lemma digits_val_decimal: "digits_val (decimal n) = n"
proof (induction n rule: decimal.induct)
  case (1 n)
  show ?case
  proof (cases "n < 10")
    case True
    then show ?thesis by (subst decimal.simps) (simp add: digits_val_def)
  next
    case False
    with 1 have "digits_val (decimal (n div 10)) = n div 10" by simp
    with False show ?thesis by (subst decimal.simps) (simp add: digits_val_def)
  qed
qed

lemma decimal_not_Nil: "decimal n \<noteq> []"
  by (subst decimal.simps) simp

lemma length_decimal: "n < 10 ^ k \<Longrightarrow> 0 < k \<Longrightarrow> length (decimal n) \<le> k"
proof (induction n arbitrary: k rule: decimal.induct)
  case (1 n)
  show ?case
  proof (cases "n < 10")
    case True
    then show ?thesis using 1(3) by (subst decimal.simps) simp
  next
    case False
    with 1(2) obtain j where k: "k = Suc j" "0 < j" by (cases k; cases "k - 1") auto
    with 1(2) have "n div 10 < 10 ^ j" by (simp add: less_mult_imp_div_less mult.commute)
    from 1(1) [OF False this k(2)] show ?thesis using False k(1) by (subst decimal.simps) simp
  qed
qed

lemma decimal_inj: "decimal m = decimal n \<longleftrightarrow> m = n"
  by (metis digits_val_decimal)

definition is_blank :: "char \<Rightarrow> bool" where
  "is_blank c \<longleftrightarrow> (of_char c :: nat) = 32 \<or> 9 \<le> (of_char c :: nat) \<and> (of_char c :: nat) \<le> 13"

definition print_int :: "int \<Rightarrow> string" where
  "print_int i = (if i < 0 then ''-'' @ decimal (nat (- i)) else decimal (nat i))"

text \<open>
  \<^verbatim>\<open>atoi\<close>: blanks, a sign and digits, read as a \<^verbatim>\<open>long\<close> that stops at its limits, and the low 32 bits of that.
\<close>

definition atoi :: "string \<Rightarrow> int" where
  "atoi s =
     (let s = dropWhile is_blank s;
          (neg, s) = (case s of c # cs \<Rightarrow> if c = CHR ''-'' then (True, cs) else if c = CHR ''+'' then (False, cs) else (False, s)
                              | [] \<Rightarrow> (False, s));
          v = int (digits_val (takeWhile is_digit s)); v = (if neg then - v else v)
      in sint (word_of_int (max (- (2 ^ 63)) (min (2 ^ 63 - 1) v)) :: u32))"

lemma dropWhile_decimal: "dropWhile is_blank (decimal n @ s) = decimal n @ s"
  and hd_decimal: "\<exists>c cs. decimal n = c # cs \<and> c \<noteq> CHR ''-'' \<and> c \<noteq> CHR ''+''"
  and takeWhile_decimal: "takeWhile is_digit (decimal n) = decimal n"
proof -
  obtain c cs where c: "decimal n = c # cs" using decimal_not_Nil by (cases "decimal n") auto
  have d: "is_digit c" using decimal_digits [of c n] c by simp
  then have "\<not> is_blank c" "c \<noteq> CHR ''-''" "c \<noteq> CHR ''+''" by (auto simp: is_digit_def is_blank_def)
  then show "dropWhile is_blank (decimal n @ s) = decimal n @ s" "\<exists>c cs. decimal n = c # cs \<and> c \<noteq> CHR ''-'' \<and> c \<noteq> CHR ''+''"
    using c by simp_all
  show "takeWhile is_digit (decimal n) = decimal n" using decimal_digits [of _ n] by (metis takeWhile_eq_all_conv)
qed

lemma atoi_decimal:
  assumes n: "n < 2 ^ 31"
  shows "atoi (decimal n) = int n"
proof -
  obtain c cs where c: "decimal n = c # cs" "c \<noteq> CHR ''-''" "c \<noteq> CHR ''+''" using hd_decimal by blast
  have "takeWhile is_digit (c # cs) = c # cs" "digits_val (c # cs) = n" "dropWhile is_blank (c # cs) = c # cs"
    using takeWhile_decimal [of n] digits_val_decimal [of n] dropWhile_decimal [of n "[]"] by (simp_all only: c append_Nil2)
  then have "atoi (decimal n) = sint (word_of_int (max (- (2 ^ 63)) (min (2 ^ 63 - 1) (int n))) :: u32)"
    unfolding atoi_def Let_def c(1) by (simp only: list.case c(2,3) if_False prod.case)
  moreover have "max (- (2 ^ 63)) (min (2 ^ 63 - 1) (int n)) = int n" using n by simp
  ultimately show ?thesis using n by (simp add: signed_of_int signed_take_bit_int_eq_self)
qed

text \<open>The arguments of the server programs: a port, and the variable \<^verbatim>\<open>RPC_COUNT\<close> of the environment; \<open>None\<close> is \<^verbatim>\<open>exit(1)\<close>.\<close>

definition server_args :: "string list \<Rightarrow> string option \<Rightarrow> (int \<times> int) option" where
  "server_args argv rpc_count =
     (if length argv \<noteq> 2 then None
      else Some (atoi (argv ! 1), case rpc_count of None \<Rightarrow> 0 | Some count \<Rightarrow> atoi count))"

section \<open>Keyed stores\<close>

text \<open>
  The interface shared by every table of the system that is read and written by key (disk
  blocks, the inode table, file contents): a write is seen by its own key and by no other.
  Reading after a sequence of writes to distinct keys then gives each key its own value.
\<close>

definition write_all :: "('s \<Rightarrow> 'k \<Rightarrow> 'v \<Rightarrow> 's) \<Rightarrow> 'k list \<Rightarrow> 'v list \<Rightarrow> 's \<Rightarrow> 's" where
  "write_all wr ks vs s = fold (\<lambda>(k, v) s. wr s k v) (zip ks vs) s"

locale keyed_store =
  fixes rd :: "'s \<Rightarrow> 'k \<Rightarrow> 'v" and wr :: "'s \<Rightarrow> 'k \<Rightarrow> 'v \<Rightarrow> 's"
    and inv :: "'s \<Rightarrow> bool" and key :: "'k \<Rightarrow> bool" and val :: "'v \<Rightarrow> bool"
  assumes inv_wr: "inv s \<Longrightarrow> key k \<Longrightarrow> val v \<Longrightarrow> inv (wr s k v)"
    and rd_same: "inv s \<Longrightarrow> key k \<Longrightarrow> val v \<Longrightarrow> rd (wr s k v) k = v"
    and rd_other: "inv s \<Longrightarrow> key k \<Longrightarrow> val v \<Longrightarrow> key j \<Longrightarrow> j \<noteq> k \<Longrightarrow> rd (wr s k v) j = rd s j"
begin

lemma write_all_simps:
  "write_all wr [] vs s = s" "write_all wr ks [] s = s"
  "write_all wr (k # ks) (v # vs) s = write_all wr ks vs (wr s k v)"
  by (simp_all add: write_all_def)

lemma write_all_snoc:
  "length vs = length ks \<Longrightarrow> write_all wr (ks @ [k]) (vs @ [v]) s = wr (write_all wr ks vs s) k v"
  by (simp add: write_all_def)

lemma inv_write_all:
  "inv s \<Longrightarrow> \<forall>k \<in> set ks. key k \<Longrightarrow> \<forall>v \<in> set vs. val v \<Longrightarrow> inv (write_all wr ks vs s)"
proof (induction ks arbitrary: vs s)
  case (Cons k ks)
  then show ?case by (cases vs) (simp_all add: write_all_simps inv_wr)
qed (simp add: write_all_simps)

lemma rd_write_all_other:
  "inv s \<Longrightarrow> \<forall>k \<in> set ks. key k \<Longrightarrow> \<forall>v \<in> set vs. val v \<Longrightarrow> key j \<Longrightarrow> j \<notin> set ks \<Longrightarrow>
     rd (write_all wr ks vs s) j = rd s j"
proof (induction ks arbitrary: vs s)
  case (Cons k ks)
  then show ?case by (cases vs) (simp_all add: write_all_simps inv_wr rd_other)
qed (simp add: write_all_simps)

lemma rd_write_all_nth:
  "inv s \<Longrightarrow> \<forall>k \<in> set ks. key k \<Longrightarrow> \<forall>v \<in> set vs. val v \<Longrightarrow> distinct ks \<Longrightarrow>
     length vs = length ks \<Longrightarrow> i < length ks \<Longrightarrow> rd (write_all wr ks vs s) (ks ! i) = vs ! i"
proof (induction ks arbitrary: vs s i)
  case (Cons k ks)
  then obtain v vs' where vs: "vs = v # vs'" by (cases vs) auto
  with Cons show ?case
    by (cases i) (simp_all add: write_all_simps inv_wr rd_write_all_other rd_same)
qed simp

lemma map_rd_write_all:
  "inv s \<Longrightarrow> \<forall>k \<in> set ks. key k \<Longrightarrow> \<forall>v \<in> set vs. val v \<Longrightarrow> distinct ks \<Longrightarrow>
     length vs = length ks \<Longrightarrow> map (rd (write_all wr ks vs s)) ks = vs"
  by (rule nth_equalityI) (simp_all add: rd_write_all_nth)

end

section \<open>Fixed-width codecs\<close>

text \<open>
  An array of \<open>n\<close> elements of \<open>w\<close> bytes each, read element by element as the code does
  with a cast pointer or with \<^verbatim>\<open>memcpy\<close> at \<^verbatim>\<open>i * sizeof(T)\<close>.
\<close>

definition elem_at :: "nat \<Rightarrow> byte list \<Rightarrow> nat \<Rightarrow> byte list" where
  "elem_at w bs i = take w (drop (i * w) bs)"

definition decode_array :: "(byte list \<Rightarrow> 'b) \<Rightarrow> nat \<Rightarrow> nat \<Rightarrow> byte list \<Rightarrow> 'b list" where
  "decode_array dec w n bs = map (\<lambda>i. dec (elem_at w bs i)) [0..<n]"

lemma length_decode_array [simp]: "length (decode_array dec w n bs) = n"
  by (simp add: decode_array_def)

locale fixed_codec =
  fixes enc :: "'a \<Rightarrow> byte list" and dec :: "byte list \<Rightarrow> 'b"
    and view :: "'a \<Rightarrow> 'b" and w :: nat and ok :: "'a \<Rightarrow> bool"
  assumes enc_length: "ok x \<Longrightarrow> length (enc x) = w"
    and dec_enc: "ok x \<Longrightarrow> dec (enc x) = view x"
begin

lemma length_concat_enc: "\<forall>x \<in> set xs. ok x \<Longrightarrow> length (concat (map enc xs)) = length xs * w"
  by (induction xs) (auto simp: enc_length)

lemma drop_concat_enc:
  "\<forall>x \<in> set xs. ok x \<Longrightarrow> i \<le> length xs \<Longrightarrow>
     drop (i * w) (concat (map enc xs) @ rest) = concat (map enc (drop i xs)) @ rest"
proof (induction xs arbitrary: i)
  case Nil
  then show ?case by simp
next
  case (Cons x xs)
  then show ?case by (cases i) (simp_all add: enc_length)
qed

lemma elem_at_concat:
  assumes "\<forall>x \<in> set xs. ok x" and "i < length xs"
  shows "elem_at w (concat (map enc xs) @ rest) i = enc (xs ! i)"
proof -
  have i: "drop i xs = xs ! i # drop (Suc i) xs" using assms(2) by (simp add: Cons_nth_drop_Suc)
  have "drop (i * w) (concat (map enc xs) @ rest) = concat (map enc (drop i xs)) @ rest"
    using assms by (intro drop_concat_enc) auto
  with assms i show ?thesis
    by (simp add: elem_at_def enc_length del: drop_append)
qed

lemma decode_array_concat:
  assumes "\<forall>x \<in> set xs. ok x"
  shows "decode_array dec w (length xs) (concat (map enc xs) @ rest) = map view xs"
proof (rule nth_equalityI)
  fix i assume "i < length (decode_array dec w (length xs) (concat (map enc xs) @ rest))"
  with assms show "decode_array dec w (length xs) (concat (map enc xs) @ rest) ! i = map view xs ! i"
    by (simp add: decode_array_def elem_at_concat dec_enc)
qed simp

end

interpretation c16: fixed_codec enc16 dec16 id 2 "\<lambda>_. True"
  by unfold_locales simp_all

interpretation c32: fixed_codec enc32 dec32 id 4 "\<lambda>_. True"
  by unfold_locales simp_all

interpretation c64: fixed_codec enc64 dec64 id 8 "\<lambda>_. True"
  by unfold_locales simp_all

section \<open>Counting\<close>

text \<open>How many threads are in a place, when one of them moves.\<close>

lemma card_fun_upd:
  fixes p :: "'t :: finite \<Rightarrow> 'b"
  shows "card {u. P ((p(t := x)) u)} + (if P (p t) then 1 else 0) = card {u. P (p u)} + (if P x then 1 else 0)"
proof -
  let ?A = "{u. P (p u)} - {t}"
  have count: "card S = card ?A + (if b then 1 else 0)" if "S = (if b then insert t ?A else ?A)" for S b
    using that by (simp add: card.insert_remove)
  have "card {u. P (p u)} = card ?A + (if P (p t) then 1 else 0)" by (rule count) auto
  moreover have "card {u. P ((p(t := x)) u)} = card ?A + (if P x then 1 else 0)" by (rule count) auto
  ultimately show ?thesis by simp
qed

section \<open>Transition systems\<close>

inductive reach :: "('s \<Rightarrow> bool) \<Rightarrow> ('s \<Rightarrow> 's \<Rightarrow> bool) \<Rightarrow> 's \<Rightarrow> bool" for start step where
  reach_start: "start s \<Longrightarrow> reach start step s"
| reach_step: "reach start step s \<Longrightarrow> step s t \<Longrightarrow> reach start step t"

text \<open>An invariant that every start state has and every step keeps holds in all reachable states.\<close>

locale invariant_system =
  fixes start :: "'s \<Rightarrow> bool" and step :: "'s \<Rightarrow> 's \<Rightarrow> bool" and invar :: "'s \<Rightarrow> bool"
  assumes invar_start: "start s \<Longrightarrow> invar s"
    and invar_step: "invar s \<Longrightarrow> step s t \<Longrightarrow> invar t"
begin

lemma reach_invar: "reach start step s \<Longrightarrow> invar s"
  by (induction rule: reach.induct) (blast intro: invar_start invar_step)+

lemma steps_invar: "step\<^sup>*\<^sup>* s t \<Longrightarrow> invar s \<Longrightarrow> invar t"
  by (induction rule: rtranclp_induct) (blast intro: invar_step)+

end

end
