(* ===== verification/Block_Layer.thy ===== *)
theory Block_Layer
  imports Prelude
begin

text \<open>
  The disk and the block manager of \<^verbatim>\<open>inode_manager.h\<close> and \<^verbatim>\<open>inode_manager.cc\<close>: a 16 MB disk of
  512-byte blocks, the in-memory table of used blocks and first-fit allocation.
  The inode layer relies on it as a \<open>keyed_store\<close> of blocks.
\<close>

section \<open>Layout constants\<close>

definition DISK_SIZE :: nat where
  DISK_SIZE_def [simp, layout]: "DISK_SIZE = 1024 * 1024 * 16"

definition BLOCK_SIZE :: nat where
  BLOCK_SIZE_def [simp, layout]: "BLOCK_SIZE = 512"

definition BLOCK_NUM :: nat where
  BLOCK_NUM_def [simp, layout]: "BLOCK_NUM = DISK_SIZE div BLOCK_SIZE"

definition INODE_NUM :: nat where
  INODE_NUM_def [simp, layout]: "INODE_NUM = 1024"

definition IPB :: nat where
  IPB_def [simp, layout]: "IPB = 1"

definition BPB :: nat where
  BPB_def [simp, layout]: "BPB = BLOCK_SIZE * 8"

text \<open>The macro \<^verbatim>\<open>IBLOCK(i, nblocks)\<close>, in unsigned 32-bit arithmetic.\<close>

definition IBLOCK :: "u32 \<Rightarrow> u32 \<Rightarrow> u32" where
  "IBLOCK i nblocks = nblocks div of_nat BPB + i div of_nat IPB + 3"

section \<open>The disk\<close>

text \<open>
  A \<^verbatim>\<open>char *\<close> argument: a null pointer, an array that was never written, or an array with
  known bytes.
\<close>

datatype buffer = Null | Uninit | Bytes "byte list"

record disk =
  blocks :: "u32 \<Rightarrow> byte list"

definition disk_init :: disk where
  "disk_init = \<lparr>blocks = (\<lambda>_. replicate BLOCK_SIZE 0)\<rparr>"

definition disk_read_block :: "disk \<Rightarrow> u32 \<Rightarrow> buffer \<Rightarrow> buffer" where
  "disk_read_block dk bid buf =
     (if unat bid \<ge> BLOCK_NUM \<or> buf = Null then buf else Bytes (blocks dk bid))"

text \<open>
  \<^verbatim>\<open>memcpy(blocks[id], buf, BLOCK_SIZE)\<close> needs \<^verbatim>\<open>BLOCK_SIZE\<close> readable and determinate bytes
  at \<^verbatim>\<open>buf\<close>.
\<close>

definition disk_write_block :: "disk \<Rightarrow> u32 \<Rightarrow> buffer \<Rightarrow> disk res" where
  "disk_write_block dk bid buf =
     (if unat bid \<ge> BLOCK_NUM then Inr dk
      else case buf of
        Null \<Rightarrow> Inr dk
      | Uninit \<Rightarrow> Inl Undefined
      | Bytes bs \<Rightarrow>
          bindR (read_mem 0 BLOCK_SIZE bs) (\<lambda>b. Inr (dk\<lparr>blocks := (blocks dk)(bid := b)\<rparr>)))"

section \<open>The block manager\<close>

record superblock =
  sb_size :: u32
  nblocks :: u32
  ninodes :: u32

record block_manager =
  bm_disk :: disk
  using_blocks :: "u32 \<rightharpoonup> int"
  bm_sb :: superblock

definition bm_init :: block_manager where
  "bm_init =
     \<lparr>bm_disk = disk_init,
      using_blocks = Map.empty,
      bm_sb = \<lparr>sb_size = of_nat (BLOCK_SIZE * BLOCK_NUM), nblocks = of_nat BLOCK_NUM,
               ninodes = of_nat INODE_NUM\<rparr>\<rparr>"

text \<open>The scan of \<^verbatim>\<open>alloc_block\<close> from \<open>i\<close>; each probe is \<^verbatim>\<open>using_blocks[i]\<close>, which inserts.\<close>

function alloc_scan :: "u32 \<Rightarrow> (u32 \<rightharpoonup> int) \<Rightarrow> (u32 \<times> (u32 \<rightharpoonup> int)) option" where
  "alloc_scan i ub =
     (if unat i < BLOCK_NUM then
        let (is_used, ub1) = map_index ub i 0 in
        if is_used = 0 then Some (i, ub1(i \<mapsto> 1)) else alloc_scan (i + 1) ub1
      else None)"
  by pat_completeness auto
termination
proof (relation "measure (\<lambda>(i, ub). BLOCK_NUM - unat i)")
  fix i :: u32 and ub :: "u32 \<rightharpoonup> int" and x is_used ub1
  assume "unat i < BLOCK_NUM"
  then have "unat (i + 1) = Suc (unat i)" by (simp add: unat_word_ariths)
  with \<open>unat i < BLOCK_NUM\<close>
  show "((i + 1, ub1), i, ub) \<in> measure (\<lambda>(i, ub). BLOCK_NUM - unat i)" by simp
qed simp

declare alloc_scan.simps [simp del]

definition alloc_start :: u32 where
  "alloc_start = IBLOCK (of_nat INODE_NUM) (of_nat BLOCK_NUM) + 1"

definition alloc_block :: "block_manager \<Rightarrow> (u32 \<times> block_manager) res" where
  "alloc_block bm =
     (case alloc_scan alloc_start (using_blocks bm) of
        None \<Rightarrow> Inl Exit
      | Some (i, ub) \<Rightarrow> Inr (i, bm\<lparr>using_blocks := ub\<rparr>))"

definition free_block :: "u32 \<Rightarrow> block_manager \<Rightarrow> block_manager" where
  "free_block bid bm = bm\<lparr>using_blocks := (using_blocks bm)(bid \<mapsto> 0)\<rparr>"

definition bm_read_block :: "block_manager \<Rightarrow> u32 \<Rightarrow> buffer \<Rightarrow> buffer" where
  "bm_read_block bm bid buf = disk_read_block (bm_disk bm) bid buf"

definition bm_write_block :: "block_manager \<Rightarrow> u32 \<Rightarrow> buffer \<Rightarrow> block_manager res" where
  "bm_write_block bm bid buf =
     bindR (disk_write_block (bm_disk bm) bid buf) (\<lambda>dk. Inr (bm\<lparr>bm_disk := dk\<rparr>))"

section \<open>Views of the state used by the proofs\<close>

definition block_at :: "block_manager \<Rightarrow> u32 \<Rightarrow> byte list" where
  "block_at bm bid = blocks (bm_disk bm) bid"

definition set_block :: "block_manager \<Rightarrow> u32 \<Rightarrow> byte list \<Rightarrow> block_manager" where
  "set_block bm bid b = bm\<lparr>bm_disk := (bm_disk bm)\<lparr>blocks := (blocks (bm_disk bm))(bid := b)\<rparr>\<rparr>"

definition used :: "block_manager \<Rightarrow> u32 \<Rightarrow> bool" where
  "used bm bid \<longleftrightarrow> map_get (using_blocks bm) bid 0 \<noteq> 0"

definition data_block :: "u32 \<Rightarrow> bool" where
  "data_block bid \<longleftrightarrow> unat alloc_start \<le> unat bid \<and> unat bid < BLOCK_NUM"

definition bm_wf :: "block_manager \<Rightarrow> bool" where
  "bm_wf bm \<longleftrightarrow> bm_sb bm = bm_sb bm_init \<and>
     (\<forall>bid. unat bid < BLOCK_NUM \<longrightarrow> length (block_at bm bid) = BLOCK_SIZE)"

lemma alloc_start_val [simp, layout]: "alloc_start = 1036"
  by (simp add: alloc_start_def IBLOCK_def)

lemma bm_wf_init: "bm_wf bm_init"
  by (simp add: bm_wf_def bm_init_def disk_init_def block_at_def)

lemma set_block_frame [simp]:
  "using_blocks (set_block bm i b) = using_blocks bm" "bm_sb (set_block bm i b) = bm_sb bm"
  "used (set_block bm i b) = used bm"
  by (simp_all add: set_block_def used_def fun_eq_iff)

lemma block_at_set_block [simp]: "block_at (set_block bm i b) j = (if j = i then b else block_at bm j)"
  by (simp add: block_at_def set_block_def)

lemma bm_wf_set_block: "bm_wf bm \<Longrightarrow> length b = BLOCK_SIZE \<Longrightarrow> bm_wf (set_block bm i b)"
  by (simp add: bm_wf_def)

lemma bm_read_block_valid:
  "unat bid < BLOCK_NUM \<Longrightarrow> buf \<noteq> Null \<Longrightarrow> bm_read_block bm bid buf = Bytes (block_at bm bid)"
  by (simp add: bm_read_block_def disk_read_block_def block_at_def)

lemma bm_write_block_valid:
  "unat bid < BLOCK_NUM \<Longrightarrow> length b = BLOCK_SIZE \<Longrightarrow>
     bm_write_block bm bid (Bytes b) = Inr (set_block bm bid b)"
  by (simp add: bm_write_block_def disk_write_block_def read_mem_def set_block_def)

lemma bm_write_block_out:
  "unat bid \<ge> BLOCK_NUM \<Longrightarrow> bm_write_block bm bid buf = Inr bm"
  by (simp add: bm_write_block_def disk_write_block_def)

section \<open>The interface the inode layer uses\<close>

interpretation bms: keyed_store block_at set_block "\<lambda>_. True" "\<lambda>_. True" "\<lambda>_. True"
  by unfold_locales simp_all

lemma write_all_frame:
  "using_blocks (write_all set_block ids bs bm) = using_blocks bm"
  "bm_sb (write_all set_block ids bs bm) = bm_sb bm"
  "used (write_all set_block ids bs bm) = used bm"
proof -
  have "using_blocks (write_all set_block ids bs bm) = using_blocks bm \<and>
        bm_sb (write_all set_block ids bs bm) = bm_sb bm" for bm
    unfolding write_all_def
  proof (induction ids arbitrary: bs bm)
    case (Cons i ids)
    then show ?case by (cases bs) simp_all
  qed simp
  then show "using_blocks (write_all set_block ids bs bm) = using_blocks bm"
    "bm_sb (write_all set_block ids bs bm) = bm_sb bm"
    "used (write_all set_block ids bs bm) = used bm"
    by (simp_all add: used_def [abs_def])
qed

lemma bm_wf_write_all:
  "bm_wf bm \<Longrightarrow> \<forall>b \<in> set bs. length b = BLOCK_SIZE \<Longrightarrow> bm_wf (write_all set_block ids bs bm)"
  unfolding write_all_def
proof (induction ids arbitrary: bs bm)
  case (Cons i ids)
  then show ?case by (cases bs) (simp_all add: bm_wf_set_block)
qed simp

section \<open>Allocation\<close>

lemma alloc_scan_Some:
  assumes "alloc_scan i ub = Some (j, ub')"
  shows "unat i \<le> unat j" "unat j < BLOCK_NUM" "map_get ub j 0 = 0"
    "\<forall>k. unat i \<le> unat k \<and> unat k < unat j \<longrightarrow> map_get ub k 0 \<noteq> 0"
    "\<forall>k. map_get ub' k 0 = (if k = j then 1 else map_get ub k 0)"
proof -
  have "unat i \<le> unat j \<and> unat j < BLOCK_NUM \<and> map_get ub j 0 = 0 \<and>
    (\<forall>k. unat i \<le> unat k \<and> unat k < unat j \<longrightarrow> map_get ub k 0 \<noteq> 0) \<and>
    (\<forall>k. map_get ub' k 0 = (if k = j then 1 else map_get ub k 0))"
    using assms
  proof (induction i ub rule: alloc_scan.induct)
    case (1 i ub)
    obtain is_used ub1 where idx: "map_index ub i 0 = (is_used, ub1)" by fastforce
    have v: "is_used = map_get ub i 0" using idx by (metis fst_map_index fst_conv)
    have g: "map_get ub1 k 0 = map_get ub k 0" for k using idx by (metis map_get_map_index snd_conv)
    from "1.prems" have lt: "unat i < BLOCK_NUM"
      by (subst (asm) alloc_scan.simps) (auto split: if_splits)
    have suc: "unat (i + 1) = Suc (unat i)" using lt by (simp add: unat_word_ariths)
    show ?case
    proof (cases "is_used = 0")
      case True
      with "1.prems" lt idx have "j = i" "ub' = ub1(i \<mapsto> 1)"
        by (subst (asm) alloc_scan.simps, simp)+
      then have "\<forall>k. map_get ub' k 0 = (if k = i then 1 else map_get ub k 0)"
        by (simp only: map_get_upd g) simp
      with \<open>j = i\<close> show ?thesis using True v lt by simp
    next
      case False
      with "1.prems" lt idx have rest: "alloc_scan (i + 1) ub1 = Some (j, ub')"
        by (subst (asm) alloc_scan.simps) simp
      have scanned: "map_get ub k 0 \<noteq> 0" if "unat k = unat i" for k
        using that False v by (simp add: word_unat_eq_iff [symmetric])
      note ih = "1.IH" [OF lt refl idx [symmetric] False rest, unfolded g suc]
      have "\<forall>k. unat i \<le> unat k \<and> unat k < unat j \<longrightarrow> map_get ub k 0 \<noteq> 0"
        using ih scanned by (metis Suc_leI le_neq_implies_less)
      with ih show ?thesis by simp
    qed
  qed
  then show "unat i \<le> unat j" "unat j < BLOCK_NUM" "map_get ub j 0 = 0"
    "\<forall>k. unat i \<le> unat k \<and> unat k < unat j \<longrightarrow> map_get ub k 0 \<noteq> 0"
    "\<forall>k. map_get ub' k 0 = (if k = j then 1 else map_get ub k 0)" by blast+
qed

lemma alloc_scan_None:
  "alloc_scan i ub = None \<longleftrightarrow> (\<forall>k. unat i \<le> unat k \<and> unat k < BLOCK_NUM \<longrightarrow> map_get ub k 0 \<noteq> 0)"
proof (induction i ub rule: alloc_scan.induct)
  case (1 i ub)
  obtain is_used ub1 where idx: "map_index ub i 0 = (is_used, ub1)" by fastforce
  have v: "is_used = map_get ub i 0" using idx by (metis fst_map_index fst_conv)
  have g: "map_get ub1 k 0 = map_get ub k 0" for k using idx by (metis map_get_map_index snd_conv)
  show ?case
  proof (cases "unat i < BLOCK_NUM \<and> is_used \<noteq> 0")
    case True
    then have suc: "unat (i + 1) = Suc (unat i)" by (simp add: unat_word_ariths)
    have here: "map_get ub k 0 \<noteq> 0" if "unat k = unat i" for k
      using that True v by (simp add: word_unat_eq_iff [symmetric])
    have "alloc_scan i ub = None \<longleftrightarrow> alloc_scan (i + 1) ub1 = None"
      using True idx by (subst alloc_scan.simps) simp
    also have "\<dots> \<longleftrightarrow> (\<forall>k. unat (i + 1) \<le> unat k \<and> unat k < BLOCK_NUM \<longrightarrow> map_get ub1 k 0 \<noteq> 0)"
      using True by (intro "1.IH" [OF _ refl idx [symmetric]]) auto
    also have "\<dots> \<longleftrightarrow> (\<forall>k. unat i \<le> unat k \<and> unat k < BLOCK_NUM \<longrightarrow> map_get ub k 0 \<noteq> 0)"
      using here by (metis Suc_leD Suc_leI g le_neq_implies_less suc)
    finally show ?thesis .
  next
    case False
    then show ?thesis using idx v by (subst alloc_scan.simps) auto
  qed
qed

text \<open>What a successful allocation does: a fresh data block, and only its mark changes.\<close>

lemma alloc_block_Inr:
  assumes "alloc_block bm = Inr (i, bm')"
  shows "data_block i" "\<not> used bm i" "used bm' = (used bm)(i := True)"
    "bm_disk bm' = bm_disk bm" "bm_sb bm' = bm_sb bm"
proof -
  from assms obtain ub where scan: "alloc_scan alloc_start (using_blocks bm) = Some (i, ub)"
    and bm': "bm' = bm\<lparr>using_blocks := ub\<rparr>"
    by (auto simp: alloc_block_def split: option.splits)
  note sp = alloc_scan_Some [OF scan]
  show "data_block i" using sp(1,2) by (simp add: data_block_def)
  show "\<not> used bm i" using sp(3) by (simp add: used_def)
  show "used bm' = (used bm)(i := True)" using sp(5) by (auto simp: used_def bm' fun_eq_iff)
  show "bm_disk bm' = bm_disk bm" "bm_sb bm' = bm_sb bm" by (simp_all add: bm')
qed

lemma alloc_block_cases:
  "(\<exists>i bm'. alloc_block bm = Inr (i, bm')) \<or> alloc_block bm = Inl Exit"
  by (auto simp: alloc_block_def split: option.splits)

lemma alloc_block_Exit: "alloc_block bm = Inl Exit \<longleftrightarrow> (\<forall>bid. data_block bid \<longrightarrow> used bm bid)"
proof -
  have "alloc_block bm = Inl Exit \<longleftrightarrow> alloc_scan alloc_start (using_blocks bm) = None"
    by (auto simp: alloc_block_def split: option.splits)
  then show ?thesis by (auto simp: alloc_scan_None data_block_def used_def)
qed

lemma used_free_block [simp]: "used (free_block i bm) = (used bm)(i := False)"
  by (auto simp: used_def free_block_def fun_eq_iff)

lemma free_block_frame [simp]:
  "bm_disk (free_block i bm) = bm_disk bm" "bm_sb (free_block i bm) = bm_sb bm"
  "block_at (free_block i bm) = block_at bm"
  by (simp_all add: free_block_def block_at_def fun_eq_iff)

end
