(* ===== verification/Inode_Layer.thy ===== *)
theory Inode_Layer
  imports Block_Layer
begin

text \<open>
  The inode manager of \<^verbatim>\<open>inode_manager.cc\<close>: the inode table on disk, block addressing through
  direct and indirect entries, and whole-file reads and writes. The class has one field, its
  block manager, so its state is the block manager. \<^verbatim>\<open>time(NULL)\<close> is read from the
  environment: each operation takes the values its calls return.
\<close>

section \<open>The inode\<close>

definition NDIRECT :: nat where
  NDIRECT_def [simp, layout]: "NDIRECT = 100"

definition NINDIRECT :: nat where
  NINDIRECT_def [simp, layout]: "NINDIRECT = BLOCK_SIZE div 4"

definition MAXFILE :: nat where
  MAXFILE_def [simp, layout]: "MAXFILE = NDIRECT + NINDIRECT"

record inode =
  i_type :: u16
  i_size :: u32
  i_atime :: u32
  i_mtime :: u32
  i_ctime :: u32
  i_blocks :: "u32 list"

text \<open>
  The memory layout of \<^verbatim>\<open>struct inode\<close>: the \<^verbatim>\<open>short\<close>, two bytes of padding, four \<^verbatim>\<open>unsigned
  int\<close>s and the array of \<^verbatim>\<open>NDIRECT+1\<close> block addresses. A struct assignment leaves the padding
  of its target unspecified; the model keeps it.
\<close>

definition sizeof_inode :: nat where
  sizeof_inode_def [simp, layout]: "sizeof_inode = 2 + 2 + 4 * 4 + 4 * (NDIRECT + 1)"

definition inode_bytes :: "byte list \<Rightarrow> inode \<Rightarrow> byte list" where
  "inode_bytes pad ino =
     enc16 (i_type ino) @ pad @ enc32 (i_size ino) @ enc32 (i_atime ino) @ enc32 (i_mtime ino)
     @ enc32 (i_ctime ino) @ concat (map enc32 (i_blocks ino))"

definition decode_inode :: "byte list \<Rightarrow> inode" where
  "decode_inode bs =
     \<lparr>i_type = dec16 (take 2 bs),
      i_size = dec32 (take 4 (drop 4 bs)),
      i_atime = dec32 (take 4 (drop 8 bs)),
      i_mtime = dec32 (take 4 (drop 12 bs)),
      i_ctime = dec32 (take 4 (drop 16 bs)),
      i_blocks = decode_array dec32 4 (NDIRECT + 1) (drop 20 bs)\<rparr>"

section \<open>Private helpers\<close>

text \<open>A store of \<open>new\<close> at byte offset \<open>off\<close> of a local \<^verbatim>\<open>char[BLOCK_SIZE]\<close>.\<close>

definition buffer_store :: "buffer \<Rightarrow> nat \<Rightarrow> byte list \<Rightarrow> buffer res" where
  "buffer_store buf off new =
     (case buf of
        Null \<Rightarrow> Inl Undefined
      | Uninit \<Rightarrow> if off + length new \<le> BLOCK_SIZE then Inr Uninit else Inl Undefined
      | Bytes bs \<Rightarrow> if off + length new \<le> length bs then Inr (Bytes (mem_splice off new bs))
                    else Inl Undefined)"

definition buffer_load :: "buffer \<Rightarrow> nat \<Rightarrow> nat \<Rightarrow> byte list res" where
  "buffer_load buf off n = (case buf of Bytes bs \<Rightarrow> read_mem off n bs | _ \<Rightarrow> Inl Undefined)"

definition ROUND_UP_DEVISION :: "u32 \<Rightarrow> u32 \<Rightarrow> u32" where
  "ROUND_UP_DEVISION a b = a div b + (if a mod b = 0 then 0 else 1)"

definition get_blockid_in_inode :: "block_manager \<Rightarrow> inode \<Rightarrow> u32 \<Rightarrow> u32 res" where
  "get_blockid_in_inode bm ino index =
     (if unat index < NDIRECT then Inr (i_blocks ino ! unat index)
      else
        let inblock_id = i_blocks ino ! NDIRECT;
            inblock = bm_read_block bm inblock_id Uninit
        in bindR (buffer_load inblock (4 * (unat index - NDIRECT)) 4) (\<lambda>w. Inr (dec32 w)))"

definition read_block_in_inode :: "block_manager \<Rightarrow> inode \<Rightarrow> u32 \<Rightarrow> byte list res" where
  "read_block_in_inode bm ino index =
     bindR (get_blockid_in_inode bm ino index) (\<lambda>bl_id.
       buffer_load (bm_read_block bm bl_id Uninit) 0 BLOCK_SIZE)"

definition write_block_in_inode ::
    "inode \<Rightarrow> u32 \<Rightarrow> byte list \<Rightarrow> block_manager \<Rightarrow> block_manager res" where
  "write_block_in_inode ino index buf bm =
     bindR (get_blockid_in_inode bm ino index) (\<lambda>bl_id. bm_write_block bm bl_id (Bytes buf))"

definition alloc_block_in_inode ::
    "u32 \<Rightarrow> byte list \<Rightarrow> bool \<Rightarrow> inode \<times> block_manager \<Rightarrow> (inode \<times> block_manager) res" where
  "alloc_block_in_inode index buf write_through st =
     (let (ino, bm) = st in
      bindR (alloc_block bm) (\<lambda>(blk_id, bm).
      bindR (if write_through then bm_write_block bm blk_id (Bytes buf) else Inr bm) (\<lambda>bm.
      if unat index < NDIRECT
      then Inr (ino\<lparr>i_blocks := (i_blocks ino)[unat index := blk_id]\<rparr>, bm)
      else
        let inblock_id = i_blocks ino ! NDIRECT;
            inblock = bm_read_block bm inblock_id Uninit
        in bindR (buffer_store inblock (4 * (unat index - NDIRECT)) (enc32 blk_id)) (\<lambda>inblock.
           bindR (bm_write_block bm inblock_id inblock) (\<lambda>bm. Inr (ino, bm))))))"

definition free_block_in_inode :: "inode \<Rightarrow> u32 \<Rightarrow> block_manager \<Rightarrow> block_manager res" where
  "free_block_in_inode ino index bm =
     bindR (get_blockid_in_inode bm ino index) (\<lambda>bid. Inr (free_block bid bm))"

section \<open>The inode table\<close>

definition get_inode :: "u32 \<Rightarrow> block_manager \<Rightarrow> inode res" where
  "get_inode inum bm =
     (if unat inum \<le> 0 \<or> unat inum > INODE_NUM then Inl Exit
      else
        let buf = bm_read_block bm (IBLOCK inum (nblocks (bm_sb bm))) Uninit
        in bindR (buffer_load buf (unat inum mod IPB * sizeof_inode) sizeof_inode)
             (\<lambda>bs. Inr (decode_inode bs)))"

definition struct_padding :: "buffer \<Rightarrow> nat \<Rightarrow> byte list" where
  "struct_padding buf off = (case buf of Bytes bs \<Rightarrow> take 2 (drop (off + 2) bs) | _ \<Rightarrow> [0, 0])"

definition put_inode :: "u32 \<Rightarrow> inode \<Rightarrow> block_manager \<Rightarrow> block_manager res" where
  "put_inode inum ino bm =
     (let blk = IBLOCK inum (nblocks (bm_sb bm));
          buf = bm_read_block bm blk Uninit;
          off = unat inum mod IPB * sizeof_inode
      in bindR (buffer_store buf off (inode_bytes (struct_padding buf off) ino))
           (\<lambda>buf. bm_write_block bm blk buf))"

section \<open>Public methods\<close>

definition T_DIR :: u32 where T_DIR_def [simp]: "T_DIR = 1"
definition T_FILE :: u32 where T_FILE_def [simp]: "T_FILE = 2"
definition T_SLINK :: u32 where T_SLINK_def [simp]: "T_SLINK = 3"

text \<open>
  The constructor. \<open>root\<close> is the local variable before its fields are assigned: its \<open>i_mtime\<close>,
  \<open>i_ctime\<close> and \<open>i_blocks\<close> reach the disk as they are.
\<close>

definition inode_manager_init :: "u32 \<Rightarrow> inode \<Rightarrow> block_manager res" where
  "inode_manager_init now root =
     put_inode 1 (root\<lparr>i_type := ucast T_DIR, i_size := 0, i_atime := now\<rparr>) bm_init"

function find_free_inode :: "u32 \<Rightarrow> block_manager \<Rightarrow> (u32 \<times> inode) option res" where
  "find_free_inode i bm =
     (if unat i < INODE_NUM + 1 then
        bindR (get_inode i bm) (\<lambda>ino.
          if i_type ino = 0 then Inr (Some (i, ino)) else find_free_inode (i + 1) bm)
      else Inr None)"
  by pat_completeness auto
termination
proof (relation "measure (\<lambda>(i, bm). INODE_NUM + 1 - unat i)")
  fix i :: u32 and bm x
  assume "unat i < INODE_NUM + 1"
  then have "unat (i + 1) = Suc (unat i)" by (simp add: unat_word_ariths)
  with \<open>unat i < INODE_NUM + 1\<close>
  show "((i + 1, bm), i, bm) \<in> measure (\<lambda>(i, bm). INODE_NUM + 1 - unat i)" by simp
qed simp

declare find_free_inode.simps [simp del]

definition alloc_inode :: "u32 \<Rightarrow> u32 \<Rightarrow> block_manager \<Rightarrow> (u32 \<times> block_manager) res" where
  "alloc_inode now type bm =
     bindR (find_free_inode 2 bm) (\<lambda>r.
       case r of
         None \<Rightarrow> Inl Exit
       | Some (inum, ino) \<Rightarrow>
           bindR (put_inode inum (ino\<lparr>i_type := ucast type, i_size := 0, i_atime := now\<rparr>) bm)
             (\<lambda>bm. Inr (inum, bm)))"

definition free_inode :: "u32 \<Rightarrow> block_manager \<Rightarrow> block_manager res" where
  "free_inode inum bm =
     bindR (get_inode inum bm) (\<lambda>ino. put_inode inum (ino\<lparr>i_type := 0\<rparr>) bm)"

text \<open>
  \<open>read_file\<close> returns the buffer handed out through \<^verbatim>\<open>buf_out\<close> (\<open>None\<close> when the pointer is left
  alone) and the size. The buffer is the prefix of the allocation that the loop has filled.
\<close>

definition read_file ::
    "u32 \<Rightarrow> u32 \<Rightarrow> block_manager \<Rightarrow> (byte list option \<times> u32 \<times> block_manager) res" where
  "read_file now inum bm =
     bindR (get_inode inum bm) (\<lambda>ino.
     if i_size ino = 0 then Inr (None, i_size ino, bm)
     else if unat (i_size ino) > MAXFILE * BLOCK_SIZE then Inl Exit
     else
       let block_num = ROUND_UP_DEVISION (i_size ino) (of_nat BLOCK_SIZE) in
       bindR (for_u32 0 block_num (\<lambda>i buf_content.
                bindR (read_block_in_inode bm ino i) (\<lambda>content. Inr (buf_content @ content))) [])
         (\<lambda>buf_content.
            bindR (put_inode inum (ino\<lparr>i_atime := now\<rparr>) bm) (\<lambda>bm.
              Inr (Some buf_content, i_size ino, bm))))"

text \<open>The block-count adjustment of \<^verbatim>\<open>write_file\<close>: free the tail or allocate the missing blocks.\<close>

definition resize_blocks :: "u32 \<Rightarrow> u32 \<Rightarrow> inode \<Rightarrow> block_manager \<Rightarrow> (inode \<times> block_manager) res" where
  "resize_blocks blk_num_ori blk_num_new ino bm =
     (if blk_num_new < blk_num_ori then
        bindR (for_u32 blk_num_new blk_num_ori (\<lambda>start. free_block_in_inode ino start) bm)
          (\<lambda>bm. Inr (ino, bm))
      else if blk_num_new > blk_num_ori then
        for_u32 blk_num_ori blk_num_new (\<lambda>start. alloc_block_in_inode start [] False) (ino, bm)
      else Inr (ino, bm))"

text \<open>
  The data loop of \<^verbatim>\<open>write_file\<close>. Its condition \<^verbatim>\<open>start + 1 < blk_num_new\<close> with a non-zero block
  number is \<^verbatim>\<open>start < blk_num_new - 1\<close>, and \<^verbatim>\<open>start\<close> is \<^verbatim>\<open>blk_num_new - 1\<close> after it.
\<close>

definition write_data :: "u32 \<Rightarrow> byte list \<Rightarrow> u32 \<Rightarrow> inode \<Rightarrow> block_manager \<Rightarrow> block_manager res" where
  "write_data blk_num_new buf sz ino bm =
     (if blk_num_new \<noteq> 0 then
        bindR (for_u32 0 (blk_num_new - 1) (\<lambda>start bm.
                 bindR (read_mem (unat (of_nat BLOCK_SIZE * start)) BLOCK_SIZE buf) (\<lambda>content.
                   write_block_in_inode ino start content bm)) bm) (\<lambda>bm.
          let padding_bytes = blk_num_new * of_nat BLOCK_SIZE - sz;
              tail_bytes = of_nat BLOCK_SIZE - padding_bytes
          in bindR (read_mem (unat (of_nat BLOCK_SIZE * (blk_num_new - 1))) (unat tail_bytes) buf)
               (\<lambda>content. write_block_in_inode ino (blk_num_new - 1) (resize BLOCK_SIZE 0 content) bm))
      else Inr bm)"

definition write_file ::
    "u32 \<times> u32 \<times> u32 \<Rightarrow> u32 \<Rightarrow> byte list \<Rightarrow> u32 \<Rightarrow> block_manager \<Rightarrow> block_manager res" where
  "write_file now inum buf sz bm =
     (let (ta, tm, tc) = now in
      bindR (get_inode inum bm) (\<lambda>ino.
      let blk_num_ori = ROUND_UP_DEVISION (i_size ino) (of_nat BLOCK_SIZE);
          blk_num_new = ROUND_UP_DEVISION sz (of_nat BLOCK_SIZE)
      in bindR (resize_blocks blk_num_ori blk_num_new ino bm) (\<lambda>(ino, bm).
         let ino = ino\<lparr>i_size := sz\<rparr> in
         bindR (write_data blk_num_new buf sz ino bm) (\<lambda>bm.
           put_inode inum (ino\<lparr>i_atime := ta, i_mtime := tm, i_ctime := tc\<rparr>) bm))))"

text \<open>\<^verbatim>\<open>extent_protocol::attr\<close>, the attributes handed to clients.\<close>

record attr =
  a_type :: u32
  a_atime :: u32
  a_mtime :: u32
  a_ctime :: u32
  a_size :: u32

definition im_getattr :: "u32 \<Rightarrow> block_manager \<Rightarrow> attr res" where
  "im_getattr inum bm =
     bindR (get_inode inum bm) (\<lambda>ino.
       Inr \<lparr>a_type = scast (i_type ino), a_atime = i_atime ino, a_mtime = i_mtime ino,
            a_ctime = i_ctime ino, a_size = i_size ino\<rparr>)"

definition remove_file :: "u32 \<Rightarrow> block_manager \<Rightarrow> block_manager res" where
  "remove_file inum bm =
     bindR (get_inode inum bm) (\<lambda>ino.
     let sz = i_size ino;
         block_num = (if sz = 0 then 0 else (sz - 1) div of_nat BLOCK_SIZE + 1)
     in bindR (for_u32 0 block_num (\<lambda>start. free_block_in_inode ino start) bm) (free_inode inum))"

end
