(* ===== verification/Inode_Blocks.thy ===== *)
theory Inode_Blocks
  imports Inode_Layer
begin

text \<open>
  The inode table and the block addresses of an inode. \<open>inode_at\<close> and \<open>set_inode\<close> read and write
  an inode on disk and form a \<open>keyed_store\<close>; \<open>ino_bid\<close> is the address of the k-th block of a
  file, direct or through the indirect block; \<open>resize_blocks_spec\<close> says what adjusting the
  number of blocks of a file does to the allocation table and to the disk.
\<close>

section \<open>The inode table\<close>

definition inode_ok :: "inode \<Rightarrow> bool" where
  "inode_ok ino \<longleftrightarrow> length (i_blocks ino) = NDIRECT + 1"

lemma inode_ok_decode [simp]: "inode_ok (decode_inode bs)"
  by (simp add: inode_ok_def decode_inode_def)

lemma inode_ok_simps [simp]:
  "inode_ok (ino\<lparr>i_type := a\<rparr>) = inode_ok ino" "inode_ok (ino\<lparr>i_size := b\<rparr>) = inode_ok ino"
  "inode_ok (ino\<lparr>i_atime := b\<rparr>) = inode_ok ino" "inode_ok (ino\<lparr>i_mtime := b\<rparr>) = inode_ok ino"
  "inode_ok (ino\<lparr>i_ctime := b\<rparr>) = inode_ok ino"
  by (simp_all add: inode_ok_def)

lemma length_inode_bytes:
  "length pad = 2 \<Longrightarrow> inode_ok ino \<Longrightarrow> length (inode_bytes pad ino) = sizeof_inode"
  using c32.length_concat_enc [of "i_blocks ino"]
  by (simp add: inode_bytes_def inode_ok_def del: length_concat)

lemma decode_inode_bytes:
  assumes "length pad = 2" and "inode_ok ino"
  shows "decode_inode (inode_bytes pad ino) = ino"
proof -
  have "decode_array dec32 4 (NDIRECT + 1) (concat (map enc32 (i_blocks ino)) @ []) = i_blocks ino"
    using c32.decode_array_concat [of "i_blocks ino" "[]"] assms(2) by (simp add: inode_ok_def)
  with assms(1) show ?thesis
    by (cases ino) (simp add: decode_inode_def inode_bytes_def)
qed

interpretation inode_codec: fixed_codec "\<lambda>(pad, ino). inode_bytes pad ino" decode_inode snd
    sizeof_inode "\<lambda>(pad, ino). length pad = 2 \<and> inode_ok ino"
  by unfold_locales (auto simp: length_inode_bytes decode_inode_bytes simp del: sizeof_inode_def)

definition iblk :: "u32 \<Rightarrow> u32" where
  "iblk inum = IBLOCK inum (of_nat BLOCK_NUM)"

definition valid_inum :: "u32 \<Rightarrow> bool" where
  "valid_inum inum \<longleftrightarrow> 0 < unat inum \<and> unat inum \<le> INODE_NUM"

definition inode_at :: "block_manager \<Rightarrow> u32 \<Rightarrow> inode" where
  "inode_at bm inum = decode_inode (take sizeof_inode (block_at bm (iblk inum)))"

definition set_inode :: "block_manager \<Rightarrow> u32 \<Rightarrow> inode \<Rightarrow> block_manager" where
  "set_inode bm inum ino =
     set_block bm (iblk inum)
       (mem_splice 0 (inode_bytes (take 2 (drop 2 (block_at bm (iblk inum)))) ino)
          (block_at bm (iblk inum)))"

lemma unat_iblk: "valid_inum inum \<Longrightarrow> unat (iblk inum) = unat inum + 11"
  by (simp add: valid_inum_def iblk_def IBLOCK_def unat_word_ariths)

lemma iblk_bounds:
  "valid_inum inum \<Longrightarrow> 12 \<le> unat (iblk inum)" "valid_inum inum \<Longrightarrow> unat (iblk inum) < 1036"
  by (simp_all add: unat_iblk) (simp_all add: valid_inum_def)

lemma iblk_inj: "valid_inum i \<Longrightarrow> valid_inum j \<Longrightarrow> iblk i = iblk j \<longleftrightarrow> i = j"
  by (metis add_right_cancel unat_iblk word_unat_eq_iff)

lemma IBLOCK_wf: "bm_wf bm \<Longrightarrow> IBLOCK inum (nblocks (bm_sb bm)) = iblk inum"
  by (simp add: bm_wf_def bm_init_def iblk_def)

lemma inode_ok_inode_at [simp]: "inode_ok (inode_at bm inum)"
  by (simp add: inode_at_def del: sizeof_inode_def)

lemma block_at_length: "bm_wf bm \<Longrightarrow> unat bid < BLOCK_NUM \<Longrightarrow> length (block_at bm bid) = BLOCK_SIZE"
  by (simp add: bm_wf_def)

lemma get_inode_valid: "bm_wf bm \<Longrightarrow> valid_inum inum \<Longrightarrow> get_inode inum bm = Inr (inode_at bm inum)"
  using iblk_bounds [of inum]
  by (simp add: get_inode_def IBLOCK_wf bm_read_block_valid buffer_load_def read_mem_def
      block_at_length inode_at_def valid_inum_def)

lemma get_inode_invalid: "\<not> valid_inum inum \<Longrightarrow> get_inode inum bm = Inl Exit"
  by (auto simp: get_inode_def valid_inum_def)

lemma struct_padding_Bytes: "struct_padding (Bytes bs) 0 = take 2 (drop 2 bs)"
  by (simp add: struct_padding_def numeral_2_eq_2)

lemma put_inode_valid:
  assumes "bm_wf bm" and "valid_inum inum" and "inode_ok ino"
  shows "put_inode inum ino bm = Inr (set_inode bm inum ino)"
proof -
  let ?b = "block_at bm (iblk inum)"
  have b: "unat (iblk inum) < BLOCK_NUM" using iblk_bounds [OF assms(2)] by simp
  have len: "length ?b = 512" using block_at_length [OF assms(1) b] by simp
  have new: "length (inode_bytes (take 2 (drop 2 ?b)) ino) = 424"
    using len assms(3) by (subst length_inode_bytes) simp_all
  show ?thesis
    using assms(1) b len new
    by (simp add: put_inode_def Let_def IBLOCK_wf bm_read_block_valid buffer_store_def
        struct_padding_Bytes set_inode_def bm_write_block_valid)
qed

lemma set_inode_frame [simp]:
  "using_blocks (set_inode bm i ino) = using_blocks bm" "bm_sb (set_inode bm i ino) = bm_sb bm"
  "used (set_inode bm i ino) = used bm"
  by (simp_all add: set_inode_def)

lemma block_at_set_inode: "b \<noteq> iblk i \<Longrightarrow> block_at (set_inode bm i ino) b = block_at bm b"
  by (simp add: set_inode_def)

lemma set_inode_splice:
  assumes "bm_wf bm" and "valid_inum inum" and "inode_ok ino"
  shows "length (inode_bytes (take 2 (drop 2 (block_at bm (iblk inum)))) ino) = sizeof_inode"
    and "length (block_at bm (iblk inum)) = BLOCK_SIZE"
    and "length (take 2 (drop 2 (block_at bm (iblk inum)))) = 2"
proof -
  show len: "length (block_at bm (iblk inum)) = BLOCK_SIZE"
    using iblk_bounds [OF assms(2)] assms(1) by (intro block_at_length) simp_all
  then show two: "length (take 2 (drop 2 (block_at bm (iblk inum)))) = 2" by simp
  show "length (inode_bytes (take 2 (drop 2 (block_at bm (iblk inum)))) ino) = sizeof_inode"
    by (rule length_inode_bytes [OF two assms(3)])
qed

interpretation itab: keyed_store inode_at set_inode bm_wf valid_inum inode_ok
proof
  fix s k v assume s: "bm_wf s" "valid_inum k" "inode_ok v"
  note lens = set_inode_splice [OF s]
  show "bm_wf (set_inode s k v)"
    unfolding set_inode_def by (rule bm_wf_set_block [OF s(1)]) (use lens in simp)
  have "take sizeof_inode (block_at (set_inode s k v) (iblk k)) =
      inode_bytes (take 2 (drop 2 (block_at s (iblk k)))) v"
    using lens(1) by (simp add: set_inode_def mem_splice_def)
  then show "inode_at (set_inode s k v) k = v"
    using decode_inode_bytes [OF lens(3) s(3)] by (simp add: inode_at_def)
  fix j assume "valid_inum j" "j \<noteq> k"
  then show "inode_at (set_inode s k v) j = inode_at s j"
    using s(2) by (simp add: inode_at_def block_at_set_inode iblk_inj)
qed

section \<open>Block addressing\<close>

definition blk_count :: "nat \<Rightarrow> nat" where
  "blk_count n = (n + (BLOCK_SIZE - 1)) div BLOCK_SIZE"

lemma blk_count_alt: "blk_count n = n div 512 + (if n mod 512 = 0 then 0 else 1)"
proof -
  obtain q r where n: "n = 512 * q + r" "r < 512"
    by (metis mod_less_divisor mult_div_mod_eq zero_less_numeral)
  have "(512 * q + r + 511) div 512 = q + (r + 511) div 512" by (simp add: add.assoc)
  also have "(r + 511) div 512 = (if r = 0 then 0 else 1)"
    using n(2) by (cases r) simp_all
  finally show ?thesis using n by (simp add: blk_count_def)
qed

lemma unat_ROUND_UP: "unat (ROUND_UP_DEVISION sz (of_nat BLOCK_SIZE)) = blk_count (unat sz)"
proof -
  have d: "unat (sz div 512) = unat sz div 512" "unat (sz mod 512) = unat sz mod 512"
    by (simp_all add: unat_div unat_mod)
  have z: "sz mod 512 = 0 \<longleftrightarrow> unat sz mod 512 = 0"
    by (metis d(2) unat_eq_zero)
  have "unat sz < 4294967296" using unsigned_less [of sz, where ?'a = nat] by simp
  then have "unat sz div 512 < 8388608" by (simp add: div_less_iff_less_mult)
  then have "unat (sz div 512 + (if sz mod 512 = 0 then 0 else 1)) =
      unat sz div 512 + (if unat sz mod 512 = 0 then 0 else 1)"
    using z d by (auto simp: unat_word_ariths)
  then show ?thesis by (simp add: ROUND_UP_DEVISION_def blk_count_alt)
qed

lemma unat_blk_index [simp]: "k < MAXFILE \<Longrightarrow> unat (of_nat k :: u32) = k"
  by (simp add: unat_of_nat)

text \<open>The \<open>k\<close>-th block address of an inode, through the indirect block from \<^verbatim>\<open>NDIRECT\<close> on.\<close>

definition ino_bid :: "block_manager \<Rightarrow> inode \<Rightarrow> nat \<Rightarrow> u32" where
  "ino_bid bm ino k =
     (if k < NDIRECT then i_blocks ino ! k
      else dec32 (elem_at 4 (block_at bm (i_blocks ino ! NDIRECT)) (k - NDIRECT)))"

text \<open>
  A file of \<open>n\<close> blocks can be addressed when the direct entries suffice, or when the indirect
  entry points below the inode table (block 12 is the first block of the table).
\<close>

definition addressable :: "inode \<Rightarrow> nat \<Rightarrow> bool" where
  "addressable ino n \<longleftrightarrow> n \<le> NDIRECT \<or> n \<le> MAXFILE \<and> unat (i_blocks ino ! NDIRECT) < 12"

lemma addressable_MAXFILE: "addressable ino n \<Longrightarrow> n \<le> MAXFILE"
  by (auto simp: addressable_def)

lemma addressable_mono: "addressable ino n \<Longrightarrow> m \<le> n \<Longrightarrow> addressable ino m"
  by (auto simp: addressable_def)

lemma get_blockid_valid:
  assumes "bm_wf bm" and "addressable ino n" and "k < n"
  shows "get_blockid_in_inode bm ino (of_nat k) = Inr (ino_bid bm ino k)"
proof -
  have k: "unat (of_nat k :: u32) = k"
    using assms addressable_MAXFILE [OF assms(2)] by (intro unat_blk_index) simp
  show ?thesis
  proof (cases "k < NDIRECT")
    case True
    then show ?thesis by (simp add: get_blockid_in_inode_def k ino_bid_def)
  next
    case False
    with assms have ib: "unat (i_blocks ino ! NDIRECT) < 12" "k < 228"
      by (auto simp: addressable_def)
    then have len: "length (block_at bm (i_blocks ino ! 100)) = 512"
      using block_at_length [OF assms(1)] by simp
    have "4 * (k - 100) + 4 \<le> 512" using ib(2) by simp
    then show ?thesis
      using False ib len
      by (simp add: get_blockid_in_inode_def k bm_read_block_valid buffer_load_def read_mem_def
          ino_bid_def elem_at_def mult.commute)
  qed
qed

lemma ino_bid_cong:
  "i_blocks ino' = i_blocks ino \<Longrightarrow>
   (\<not> k < NDIRECT \<Longrightarrow> block_at bm' (i_blocks ino ! NDIRECT) = block_at bm (i_blocks ino ! NDIRECT)) \<Longrightarrow>
     ino_bid bm' ino' k = ino_bid bm ino k"
  by (simp add: ino_bid_def)

text \<open>
  One allocation for index \<open>k\<close>: exactly the \<open>k\<close>-th address changes, to a block that was free.
\<close>

lemma elem_at_mem_splice:
  assumes "length v = w" and "i * w + w \<le> length bs" and "j * w + w \<le> length bs"
  shows "elem_at w (mem_splice (i * w) v bs) j = (if j = i then v else elem_at w bs j)"
proof (cases "j = i")
  case True
  then show ?thesis using assms take_drop_splice_same [of "i * w" v bs] by (simp add: elem_at_def)
next
  case False
  then have "j * w + w \<le> i * w \<or> i * w + w \<le> j * w"
    by (metis add.commute mult_Suc mult_le_mono1 not_less_eq_eq le_SucE nat_le_linear Suc_leI
        le_neq_implies_less)
  with False assms show ?thesis by (simp add: elem_at_def take_drop_splice_other)
qed

lemma alloc_block_in_inode_spec:
  assumes wf: "bm_wf bm" and ok: "inode_ok ino" and k: "addressable ino (Suc k)"
  shows "case alloc_block_in_inode (of_nat k) buf False (ino, bm) of
      Inl f \<Rightarrow> f = Exit \<and> (\<forall>b. data_block b \<longrightarrow> used bm b)
    | Inr (ino', bm') \<Rightarrow>
        \<exists>i. data_block i \<and> \<not> used bm i \<and> used bm' = (used bm)(i := True) \<and> bm_wf bm' \<and>
          i_blocks ino' ! NDIRECT = i_blocks ino ! NDIRECT \<and> inode_ok ino' \<and>
          ino'\<lparr>i_blocks := i_blocks ino\<rparr> = ino \<and>
          (\<forall>j < MAXFILE. ino_bid bm' ino' j = (if j = k then i else ino_bid bm ino j)) \<and>
          (\<forall>b. k < NDIRECT \<or> b \<noteq> i_blocks ino ! NDIRECT \<longrightarrow> block_at bm' b = block_at bm b)"
proof (cases "alloc_block bm")
  case (Inl f)
  then have "f = Exit" using alloc_block_cases [of bm] by auto
  with Inl show ?thesis
    using alloc_block_Exit [of bm] by (simp add: alloc_block_in_inode_def)
next
  case (Inr r)
  then obtain i bm1 where a: "alloc_block bm = Inr (i, bm1)" by (cases r) auto
  note sp = alloc_block_Inr [OF a]
  have at: "block_at bm1 = block_at bm" by (simp add: block_at_def sp(4) fun_eq_iff)
  have wf1: "bm_wf bm1" using wf sp(5) by (simp add: bm_wf_def at)
  have kk: "unat (of_nat k :: u32) = k" "k < 228" using addressable_MAXFILE [OF k] by simp_all
  let ?ib = "i_blocks ino ! NDIRECT"
  show ?thesis
  proof (cases "k < NDIRECT")
    case True
    have "alloc_block_in_inode (of_nat k) buf False (ino, bm) =
        Inr (ino\<lparr>i_blocks := (i_blocks ino)[k := i]\<rparr>, bm1)"
      using True by (simp add: alloc_block_in_inode_def a kk)
    moreover have "ino_bid bm1 (ino\<lparr>i_blocks := (i_blocks ino)[k := i]\<rparr>) j =
        (if j = k then i else ino_bid bm ino j)" for j
      using True ok by (auto simp: ino_bid_def at inode_ok_def)
    ultimately show ?thesis using True sp wf1 ok
      by (auto simp: at inode_ok_def intro!: exI [of _ i])
  next
    case False
    with k have ib: "unat ?ib < 12" by (auto simp: addressable_def)
    then have ib': "unat ?ib < BLOCK_NUM" by simp
    have len: "length (block_at bm ?ib) = 512" using block_at_length [OF wf ib'] by simp
    define b' where "b' = mem_splice ((k - 100) * 4) (enc32 i) (block_at bm ?ib)"
    have k4: "(k - 100) * 4 + 4 \<le> 512" using kk(2) by simp
    then have len': "length b' = 512" using len by (simp add: b'_def)
    have run: "alloc_block_in_inode (of_nat k) buf False (ino, bm) = Inr (ino, set_block bm1 ?ib b')"
      using False ib' len len' k4
      by (simp add: alloc_block_in_inode_def Let_def a kk bm_read_block_valid buffer_store_def at
          bm_write_block_valid b'_def mult.commute)
    have "ino_bid (set_block bm1 ?ib b') ino j = (if j = k then i else ino_bid bm ino j)"
      if "j < MAXFILE" for j
    proof -
      have "elem_at 4 b' (j - 100) = (if j - 100 = k - 100 then enc32 i else
          elem_at 4 (block_at bm ?ib) (j - 100))"
        unfolding b'_def using that k4 len by (intro elem_at_mem_splice) auto
      then show ?thesis using False by (auto simp: ino_bid_def at)
    qed
    with run False sp ok show ?thesis
      using bm_wf_set_block [OF wf1, of b' ?ib] len' by (auto simp: at intro!: exI [of _ i])
  qed
qed

section \<open>Adjusting the number of blocks\<close>

definition free_count :: "block_manager \<Rightarrow> nat" where
  "free_count bm = card {b. data_block b \<and> \<not> used bm b}"

definition bids :: "block_manager \<Rightarrow> inode \<Rightarrow> nat \<Rightarrow> u32 list" where
  "bids bm ino n = map (ino_bid bm ino) [0..<n]"

lemma length_bids [simp]: "length (bids bm ino n) = n"
  by (simp add: bids_def)

lemma nth_bids [simp]: "k < n \<Longrightarrow> bids bm ino n ! k = ino_bid bm ino k"
  by (simp add: bids_def)

lemma set_bids: "set (bids bm ino n) = ino_bid bm ino ` {0..<n}"
  by (simp add: bids_def)

lemma distinct_bids: "distinct (bids bm ino n) \<longleftrightarrow> inj_on (ino_bid bm ino) {0..<n}"
  by (simp add: bids_def distinct_map)

lemma free_count_alloc:
  assumes "data_block i" and "\<not> used bm i" and "used bm' = (used bm)(i := True)"
  shows "Suc (free_count bm') = free_count bm"
proof -
  have "{b. data_block b \<and> \<not> used bm b} = insert i {b. data_block b \<and> \<not> used bm' b}"
    using assms by auto
  then show ?thesis using assms by (simp add: free_count_def)
qed

lemma free_count_0: "free_count bm = 0 \<longleftrightarrow> (\<forall>b. data_block b \<longrightarrow> used bm b)"
  by (auto simp: free_count_def)

text \<open>The state after the allocation loop has run from \<open>m\<close> to \<open>k\<close>.\<close>

definition grown :: "block_manager \<Rightarrow> inode \<Rightarrow> nat \<Rightarrow> nat \<Rightarrow> inode \<times> block_manager \<Rightarrow> bool" where
  "grown bm ino m k st \<longleftrightarrow>
     (case st of (ino', bm') \<Rightarrow>
        bm_wf bm' \<and> inode_ok ino' \<and> ino'\<lparr>i_blocks := i_blocks ino\<rparr> = ino \<and>
        i_blocks ino' ! NDIRECT = i_blocks ino ! NDIRECT \<and>
        (\<forall>j < m. ino_bid bm' ino' j = ino_bid bm ino j) \<and>
        (\<forall>j. m \<le> j \<and> j < k \<longrightarrow> data_block (ino_bid bm' ino' j) \<and> \<not> used bm (ino_bid bm' ino' j)) \<and>
        inj_on (ino_bid bm' ino') {m..<k} \<and>
        (\<forall>b. used bm' b \<longleftrightarrow> used bm b \<or> b \<in> ino_bid bm' ino' ` {m..<k}) \<and>
        (\<forall>b. k \<le> NDIRECT \<or> b \<noteq> i_blocks ino ! NDIRECT \<longrightarrow> block_at bm' b = block_at bm b) \<and>
        free_count bm' + (k - m) = free_count bm)"

lemma grown_step:
  assumes G: "grown bm ino m k (ino1, bm1)" and "m \<le> k" and "addressable ino (Suc k)"
  shows "case alloc_block_in_inode (of_nat k) [] False (ino1, bm1) of
      Inl f \<Rightarrow> f = Exit \<and> free_count bm = k - m
    | Inr st \<Rightarrow> grown bm ino m (Suc k) st"
proof -
  from G have wf: "bm_wf bm1" "inode_ok ino1" and ib: "i_blocks ino1 ! NDIRECT = i_blocks ino ! NDIRECT"
    by (simp_all add: grown_def)
  from assms(3) ib have ad: "addressable ino1 (Suc k)" by (simp add: addressable_def)
  then have k: "k < MAXFILE" using addressable_MAXFILE by force
  show ?thesis
  proof (cases "alloc_block_in_inode (of_nat k) [] False (ino1, bm1)")
    case (Inl f)
    with alloc_block_in_inode_spec [OF wf ad, of "[]"] have "f = Exit" "free_count bm1 = 0"
      by (simp_all add: free_count_0)
    with G Inl show ?thesis by (simp add: grown_def)
  next
    case (Inr st)
    obtain ino2 bm2 where st: "st = (ino2, bm2)" by (cases st)
    from alloc_block_in_inode_spec [OF wf ad, of "[]"] Inr st obtain i where
      i: "data_block i" "\<not> used bm1 i" and u2: "used bm2 = (used bm1)(i := True)"
      and wf2: "bm_wf bm2" "inode_ok ino2"
      and ib2: "i_blocks ino2 ! NDIRECT = i_blocks ino1 ! NDIRECT"
      and fld: "ino2\<lparr>i_blocks := i_blocks ino1\<rparr> = ino1"
      and bid: "\<And>j. j < MAXFILE \<Longrightarrow> ino_bid bm2 ino2 j = (if j = k then i else ino_bid bm1 ino1 j)"
      and blk: "\<And>b. k < NDIRECT \<or> b \<noteq> i_blocks ino1 ! NDIRECT \<Longrightarrow> block_at bm2 b = block_at bm1 b"
      by auto
    have "ino2\<lparr>i_blocks := i_blocks ino\<rparr> =
        (ino2\<lparr>i_blocks := i_blocks ino1\<rparr>)\<lparr>i_blocks := i_blocks ino\<rparr>" by simp
    then have fld': "ino2\<lparr>i_blocks := i_blocks ino\<rparr> = ino"
      unfolding fld using G by (simp add: grown_def)
    have bidk: "ino_bid bm2 ino2 k = i" and bidj: "\<And>j. j < k \<Longrightarrow> ino_bid bm2 ino2 j = ino_bid bm1 ino1 j"
      using bid k by simp_all
    have img: "ino_bid bm2 ino2 ` {m..<Suc k} = insert i (ino_bid bm1 ino1 ` {m..<k})"
      using assms(2) bidk bidj by (force simp: atLeastLessThanSuc)
    have new: "i \<notin> ino_bid bm1 ino1 ` {m..<k}" "\<not> used bm i"
      using i(2) G by (auto simp: grown_def)
    have "inj_on (ino_bid bm2 ino2) {m..<Suc k}"
    proof -
      have "inj_on (ino_bid bm2 ino2) {m..<k}"
        using G bidj by (simp add: grown_def inj_on_def)
      moreover have "ino_bid bm2 ino2 ` {m..<k} = ino_bid bm1 ino1 ` {m..<k}" using bidj by force
      ultimately show ?thesis
        using assms(2) new(1) bidk by (simp add: atLeastLessThanSuc)
    qed
    moreover have "free_count bm2 + (Suc k - m) = free_count bm"
    proof -
      have "free_count bm1 + (k - m) = free_count bm" using G by (simp add: grown_def)
      then show ?thesis using free_count_alloc [OF i u2] assms(2) by linarith
    qed
    moreover have "\<forall>j. m \<le> j \<and> j < Suc k \<longrightarrow>
        data_block (ino_bid bm2 ino2 j) \<and> \<not> used bm (ino_bid bm2 ino2 j)"
      using G i(1) new(2) bidk bidj by (auto simp: grown_def less_Suc_eq)
    moreover have "\<forall>b. used bm2 b \<longleftrightarrow> used bm b \<or> b \<in> ino_bid bm2 ino2 ` {m..<Suc k}"
      using G by (auto simp: grown_def u2 img)
    moreover have "\<forall>j < m. ino_bid bm2 ino2 j = ino_bid bm ino j"
      using G assms(2) bidj by (simp add: grown_def)
    moreover have "\<forall>b. Suc k \<le> NDIRECT \<or> b \<noteq> i_blocks ino ! NDIRECT \<longrightarrow> block_at bm2 b = block_at bm b"
      using G blk ib by (auto simp: grown_def)
    ultimately show ?thesis
      using Inr st wf2 ib ib2 fld' by (simp add: grown_def)
  qed
qed

lemma grow_spec:
  assumes "bm_wf bm" and "inode_ok ino" and "addressable ino (unat e)" and "s \<le> e"
  shows "case for_u32 s e (\<lambda>start. alloc_block_in_inode start [] False) (ino, bm) of
      Inl f \<Rightarrow> f = Exit \<and> free_count bm < unat e - unat s
    | Inr st \<Rightarrow> grown bm ino (unat s) (unat e) st"
proof (rule for_u32_rule [where P = "grown bm ino (unat s)"])
  show "grown bm ino (unat s) (unat s) (ino, bm)" using assms by (auto simp: grown_def)
  fix k st assume k: "unat s \<le> k" "k < unat e" and G: "grown bm ino (unat s) k st"
  obtain ino1 bm1 where "st = (ino1, bm1)" by (cases st)
  moreover have "addressable ino (Suc k)" using addressable_mono [OF assms(3)] k by simp
  ultimately show "case alloc_block_in_inode (of_nat k) [] False st of
      Inl f \<Rightarrow> f = Exit \<and> free_count bm < unat e - unat s
    | Inr s' \<Rightarrow> grown bm ino (unat s) (Suc k) s'"
    using grown_step [of bm ino "unat s" k ino1 bm1] G k by (auto split: sum.splits)
qed (rule assms(4))

text \<open>The free loops of \<^verbatim>\<open>write_file\<close> and \<^verbatim>\<open>remove_file\<close>.\<close>

lemma free_loop_spec:
  assumes "bm_wf bm" and "addressable ino (unat e)" and "s \<le> e"
  shows "\<exists>bm'. for_u32 s e (\<lambda>start. free_block_in_inode ino start) bm = Inr bm' \<and>
    block_at bm' = block_at bm \<and> bm_sb bm' = bm_sb bm \<and>
    (\<forall>b. used bm' b \<longleftrightarrow> used bm b \<and> b \<notin> ino_bid bm ino ` {unat s..<unat e})"
proof (rule for_u32_total [where P = "\<lambda>k bm'. block_at bm' = block_at bm \<and> bm_sb bm' = bm_sb bm \<and>
    (\<forall>b. used bm' b \<longleftrightarrow> used bm b \<and> b \<notin> ino_bid bm ino ` {unat s..<k})", OF assms(3)])
  fix k bm1
  assume k: "unat s \<le> k" "k < unat e"
    and P: "block_at bm1 = block_at bm \<and> bm_sb bm1 = bm_sb bm \<and>
      (\<forall>b. used bm1 b \<longleftrightarrow> used bm b \<and> b \<notin> ino_bid bm ino ` {unat s..<k})"
  have "bm_wf bm1" using P assms(1) by (simp add: bm_wf_def)
  moreover have "ino_bid bm1 ino k = ino_bid bm ino k" using P by (simp add: ino_bid_def)
  ultimately have "free_block_in_inode ino (of_nat k) bm1 = Inr (free_block (ino_bid bm ino k) bm1)"
    using get_blockid_valid [OF _ assms(2) k(2), of bm1] by (simp add: free_block_in_inode_def)
  moreover have "\<forall>b. used (free_block (ino_bid bm ino k) bm1) b \<longleftrightarrow>
      used bm b \<and> b \<notin> ino_bid bm ino ` {unat s..<Suc k}"
    using P k(1) by (auto simp: atLeastLessThanSuc)
  ultimately show "\<exists>s'. free_block_in_inode ino (of_nat k) bm1 = Inr s' \<and>
      block_at s' = block_at bm \<and> bm_sb s' = bm_sb bm \<and>
      (\<forall>b. used s' b \<longleftrightarrow> used bm b \<and> b \<notin> ino_bid bm ino ` {unat s..<Suc k})"
    using P by simp
qed simp

text \<open>
  The outcome of the adjustment for a file whose addresses were \<open>old\<close>: \<open>n\<close> distinct used data
  blocks, no used block of anyone else taken or released, and no block content changed but,
  for a file beyond the direct entries, the indirect block's.
\<close>

definition resized :: "block_manager \<Rightarrow> inode \<Rightarrow> u32 list \<Rightarrow> nat \<Rightarrow> inode \<times> block_manager \<Rightarrow> bool" where
  "resized bm ino old n st \<longleftrightarrow>
     (case st of (ino', bm') \<Rightarrow>
        bm_wf bm' \<and> inode_ok ino' \<and> ino'\<lparr>i_blocks := i_blocks ino\<rparr> = ino \<and>
        i_blocks ino' ! NDIRECT = i_blocks ino ! NDIRECT \<and>
        distinct (bids bm' ino' n) \<and>
        (\<forall>b \<in> set (bids bm' ino' n). data_block b \<and> used bm' b) \<and>
        (\<forall>b. used bm b \<and> b \<notin> set old \<longrightarrow> used bm' b \<and> b \<notin> set (bids bm' ino' n)) \<and>
        (\<forall>b. n \<le> NDIRECT \<or> b \<noteq> i_blocks ino ! NDIRECT \<longrightarrow> block_at bm' b = block_at bm b))"

lemma resized_grown:
  assumes "grown bm ino m n st" and "m \<le> n" and "distinct (bids bm ino m)"
    and "\<forall>b \<in> set (bids bm ino m). data_block b \<and> used bm b"
  shows "resized bm ino (bids bm ino m) n st"
proof -
  obtain ino' bm' where st: "st = (ino', bm')" by (cases st)
  note G = assms(1) [unfolded grown_def st prod.case]
  have sp: "{0..<n} = {0..<m} \<union> {m..<n}" using assms(2) by auto
  have eq: "\<forall>j < m. ino_bid bm' ino' j = ino_bid bm ino j" using G by (elim conjE)
  have u: "\<forall>b. used bm' b \<longleftrightarrow> used bm b \<or> b \<in> ino_bid bm' ino' ` {m..<n}" using G by (elim conjE)
  from eq have low: "ino_bid bm' ino' ` {0..<m} = set (bids bm ino m)" by (auto simp: set_bids)
  have all: "set (bids bm' ino' n) = set (bids bm ino m) \<union> ino_bid bm' ino' ` {m..<n}"
    by (simp add: set_bids [of bm'] sp image_Un low)
  have "inj_on (ino_bid bm' ino') {0..<m}"
    using assms(3) eq by (simp add: distinct_bids inj_on_def)
  moreover have fresh: "\<forall>b \<in> ino_bid bm' ino' ` {m..<n}. data_block b \<and> \<not> used bm b"
    using G by (elim conjE) auto
  moreover have inj2: "inj_on (ino_bid bm' ino') {m..<n}" using G by (elim conjE)
  moreover have "ino_bid bm' ino' ` {0..<m} \<inter> ino_bid bm' ino' ` {m..<n} = {}"
    unfolding low using fresh assms(4) by blast
  ultimately have "inj_on (ino_bid bm' ino') {0..<n}"
    unfolding sp inj_on_Un by blast
  then have "distinct (bids bm' ino' n)" by (simp add: distinct_bids)
  moreover have "\<forall>b \<in> set (bids bm' ino' n). data_block b \<and> used bm' b"
    unfolding all using u fresh assms(4) by blast
  moreover have "\<forall>b. used bm b \<and> b \<notin> set (bids bm ino m) \<longrightarrow>
      used bm' b \<and> b \<notin> set (bids bm' ino' n)"
    unfolding all using u fresh by blast
  ultimately show ?thesis using G by (simp add: resized_def st)
qed

lemma resized_shrunk:
  assumes "block_at bm' = block_at bm" and "bm_sb bm' = bm_sb bm" and "bm_wf bm" and "inode_ok ino"
    and "\<forall>b. used bm' b \<longleftrightarrow> used bm b \<and> b \<notin> ino_bid bm ino ` {n..<m}"
    and "n \<le> m" and "distinct (bids bm ino m)"
    and "\<forall>b \<in> set (bids bm ino m). data_block b \<and> used bm b"
  shows "resized bm ino (bids bm ino m) n (ino, bm')"
proof -
  have same: "bids bm' ino k = bids bm ino k" for k by (simp add: bids_def ino_bid_def assms(1))
  have inj: "inj_on (ino_bid bm ino) {0..<m}" using assms(7) by (simp add: distinct_bids)
  have d: "distinct (bids bm ino n)"
    unfolding distinct_bids by (rule inj_on_subset [OF inj]) (use assms(6) in simp)
  have sub: "set (bids bm ino n) \<subseteq> set (bids bm ino m)" using assms(6) by (auto simp: set_bids)
  have keep: "b \<notin> ino_bid bm ino ` {n..<m}" if "b \<in> set (bids bm ino n)" for b
  proof
    assume "b \<in> ino_bid bm ino ` {n..<m}"
    then obtain i where i: "b = ino_bid bm ino i" "n \<le> i" "i < m" by auto
    from that obtain j where j: "b = ino_bid bm ino j" "j < n" by (auto simp: set_bids)
    from inj i j assms(6) have "i = j" by (auto dest: inj_onD)
    with i j show False by simp
  qed
  have tail: "ino_bid bm ino ` {n..<m} \<subseteq> set (bids bm ino m)" by (auto simp: set_bids)
  have "bm_wf bm'" using assms(1-3) by (simp add: bm_wf_def)
  moreover have "\<forall>b \<in> set (bids bm' ino n). data_block b \<and> used bm' b"
    unfolding same using sub keep assms(5,8) by blast
  moreover have "\<forall>b. used bm b \<and> b \<notin> set (bids bm ino m) \<longrightarrow> used bm' b \<and> b \<notin> set (bids bm' ino n)"
    unfolding same using sub tail assms(5) by blast
  ultimately show ?thesis using d assms(1,4) by (simp add: resized_def same)
qed

lemma resize_blocks_spec:
  assumes "bm_wf bm" and "inode_ok ino"
    and "addressable ino (unat ori)" and "addressable ino (unat new)"
    and "distinct (bids bm ino (unat ori))"
    and "\<forall>b \<in> set (bids bm ino (unat ori)). data_block b \<and> used bm b"
  shows "case resize_blocks ori new ino bm of
      Inl f \<Rightarrow> f = Exit \<and> free_count bm < unat new - unat ori
    | Inr st \<Rightarrow> resized bm ino (bids bm ino (unat ori)) (unat new) st"
proof (cases "new < ori")
  case True
  then have le: "new \<le> ori" "unat new \<le> unat ori" by (simp_all add: word_le_nat_alt word_less_nat_alt)
  from free_loop_spec [OF assms(1,3) le(1)] obtain bm' where
    run: "for_u32 new ori (free_block_in_inode ino) bm = Inr bm'" and
    post: "block_at bm' = block_at bm" "bm_sb bm' = bm_sb bm"
      "\<forall>b. used bm' b \<longleftrightarrow> used bm b \<and> b \<notin> ino_bid bm ino ` {unat new..<unat ori}"
    by auto
  with True show ?thesis
    using resized_shrunk [OF post(1,2) assms(1,2) post(3) le(2) assms(5,6)]
    by (simp add: resize_blocks_def)
next
  case False
  then have le: "ori \<le> new" "unat ori \<le> unat new" by (simp_all add: word_le_nat_alt not_less)
  show ?thesis
  proof (cases "ori < new")
    case True
    with False grow_spec [OF assms(1,2,4) le(1)] resized_grown [OF _ le(2) assms(5,6)]
    show ?thesis by (auto simp: resize_blocks_def split: sum.splits)
  next
    case eq: False
    then have "unat new = unat ori" using False by (simp add: not_less)
    with False eq show ?thesis
      using assms resized_shrunk [of bm bm ino "unat new" "unat ori"] by (simp add: resize_blocks_def)
  qed
qed

end
