(* ===== verification/Inode_Spec.thy ===== *)
theory Inode_Spec
  imports Inode_Blocks
begin

text \<open>
  Correctness of whole-file reads and writes.  \<open>im_inv\<close> is the invariant between the inode
  table and the allocation table, \<open>file_at\<close> is the abstract file store, and each public
  operation of the inode manager is shown to refine the corresponding operation on it.
\<close>

section \<open>Writing the data blocks\<close>

text \<open>The \<open>k\<close>-th block of a file's content, the last one padded with zero bytes.\<close>

definition chunk :: "byte list \<Rightarrow> nat \<Rightarrow> byte list" where
  "chunk buf k = resize BLOCK_SIZE 0 (take BLOCK_SIZE (drop (BLOCK_SIZE * k) buf))"

definition chunks :: "byte list \<Rightarrow> nat \<Rightarrow> byte list list" where
  "chunks buf n = map (chunk buf) [0..<n]"

lemma length_chunks [simp]: "length (chunks buf n) = n"
  by (simp add: chunks_def)

lemma length_chunk [simp]: "length (chunk buf k) = BLOCK_SIZE"
  by (simp add: chunk_def)

lemma chunks_Suc: "chunks buf (Suc n) = chunks buf n @ [chunk buf n]"
  by (simp add: chunks_def)

lemma length_concat_chunks: "length (concat (chunks buf n)) = BLOCK_SIZE * n"
  by (induction n) (simp_all add: chunks_def)

lemma take_concat_chunks_min:
  "take (min (512 * n) (length buf)) (concat (chunks buf n)) = take (512 * n) buf"
proof (induction n)
  case 0
  then show ?case by simp
next
  case (Suc n)
  let ?c = "concat (chunks buf n)"
  have len: "length ?c = 512 * n" using length_concat_chunks [of buf n] by simp
  show ?case
  proof (cases "length buf \<le> 512 * n")
    case True
    then have "min (512 * n) (length buf) = length buf" "min (512 * Suc n) (length buf) = length buf"
      by simp_all
    with Suc len True show ?thesis by (simp add: chunks_Suc)
  next
    case False
    then have "take (512 * n) ?c = take (512 * n) buf" using Suc by (simp add: min_def)
    then have c: "?c = take (512 * n) buf" using len by simp
    have "min (512 * n + 512) (length buf) = length ?c + min 512 (length buf - 512 * n)"
      using False len by linarith
    then have "take (min (512 * n + 512) (length buf)) (?c @ chunk buf n) =
        ?c @ take (min 512 (length buf - 512 * n)) (chunk buf n)" by simp
    also have "take (min 512 (length buf - 512 * n)) (chunk buf n) = take 512 (drop (512 * n) buf)"
      using False by (simp add: chunk_def resize_def min_def)
    also have "?c @ take 512 (drop (512 * n) buf) = take (512 * n + 512) buf"
      using c by (simp only: take_add)
    finally have "take (min (512 * n + 512) (length buf)) (?c @ chunk buf n) = take (512 * n + 512) buf" .
    moreover have "512 * Suc n = 512 * n + 512" by simp
    ultimately show ?thesis by (simp only: chunks_Suc concat_append concat.simps append_Nil2)
  qed
qed

lemma take_concat_chunks:
  "length buf \<le> BLOCK_SIZE * n \<Longrightarrow> take (length buf) (concat (chunks buf n)) = buf"
  using take_concat_chunks_min [of n buf] by (simp add: min_absorb2)

lemma blk_count_le: "n \<le> BLOCK_SIZE * blk_count n"
proof -
  have "n = 512 * (n div 512) + n mod 512" by simp
  moreover have "n mod 512 < 512" by simp
  ultimately show ?thesis by (cases "n mod 512 = 0") (simp_all add: blk_count_alt)
qed

lemma blk_count_pred:
  assumes "k < blk_count n"
  shows "BLOCK_SIZE * k < n"
proof -
  obtain q r where n: "n = 512 * q + r" "r < 512"
    by (metis mod_less_divisor mult_div_mod_eq zero_less_numeral)
  then have "blk_count n = q + (if r = 0 then 0 else 1)" by (simp add: blk_count_alt)
  with assms n show ?thesis by (cases "r = 0") auto
qed

lemma blk_count_0 [simp]: "blk_count n = 0 \<longleftrightarrow> n = 0"
  by (auto simp: blk_count_alt)

lemma write_block_valid:
  assumes "bm_wf bm" and "addressable ino n" and "k < n" and "data_block (ino_bid bm ino k)"
    and "length b = BLOCK_SIZE"
  shows "write_block_in_inode ino (of_nat k) b bm = Inr (set_block bm (ino_bid bm ino k) b)"
  using assms get_blockid_valid [OF assms(1-3)]
  by (simp add: write_block_in_inode_def bm_write_block_valid data_block_def)

text \<open>
  The disk after \<open>write_data\<close>: each block of the file holds its chunk of the buffer. The write
  of block \<open>k\<close> finds its address unchanged by the earlier writes, because no data block is the
  indirect block.
\<close>

lemma write_all_step:
  assumes wf: "bm_wf bm" and ad: "addressable ino n" and k: "k < n"
    and data: "\<forall>b \<in> set (bids bm ino n). data_block b"
    and bm1: "bm1 = write_all set_block (bids bm ino k) (chunks buf k) bm"
  shows "write_block_in_inode ino (of_nat k) (chunk buf k) bm1 =
      Inr (write_all set_block (bids bm ino (Suc k)) (chunks buf (Suc k)) bm)"
    and "bm_wf bm1"
proof -
  have sub: "set (bids bm ino k) \<subseteq> set (bids bm ino n)" using k by (auto simp: set_bids)
  have other: "block_at bm1 b = block_at bm b" if "\<not> data_block b" for b
    unfolding bm1 using that data sub by (intro bms.rd_write_all_other) auto
  show wf1: "bm_wf bm1"
    unfolding bm1 by (rule bm_wf_write_all [OF wf]) (auto simp: chunks_def)
  have bid: "ino_bid bm1 ino k = ino_bid bm ino k"
  proof (rule ino_bid_cong)
    assume "\<not> k < NDIRECT"
    with ad k have "unat (i_blocks ino ! NDIRECT) < 12" by (auto simp: addressable_def)
    then show "block_at bm1 (i_blocks ino ! NDIRECT) = block_at bm (i_blocks ino ! NDIRECT)"
      by (intro other) (simp add: data_block_def)
  qed simp
  have "data_block (ino_bid bm ino k)" using data k by (simp add: set_bids)
  with write_block_valid [OF wf1 ad k, of "chunk buf k"] bid
  have "write_block_in_inode ino (of_nat k) (chunk buf k) bm1 =
      Inr (set_block bm1 (ino_bid bm ino k) (chunk buf k))" by simp
  also have "set_block bm1 (ino_bid bm ino k) (chunk buf k) =
      write_all set_block (bids bm ino (Suc k)) (chunks buf (Suc k)) bm"
    unfolding bm1 by (simp add: chunks_Suc bids_def bms.write_all_snoc)
  finally show "write_block_in_inode ino (of_nat k) (chunk buf k) bm1 =
      Inr (write_all set_block (bids bm ino (Suc k)) (chunks buf (Suc k)) bm)" .
qed

lemma write_data_spec:
  assumes wf: "bm_wf bm" and ad: "addressable ino (unat new)"
    and new: "unat new = blk_count (unat sz)" and len: "length buf = unat sz"
    and data: "\<forall>b \<in> set (bids bm ino (unat new)). data_block b"
  shows "write_data new buf sz ino bm =
    Inr (write_all set_block (bids bm ino (unat new)) (chunks buf (unat new)) bm)"
proof (cases "new = 0")
  case True
  then show ?thesis by (simp add: write_data_def write_all_def bids_def)
next
  case False
  define n where "n = unat new"
  have n: "0 < n" "n \<le> 228" "n = blk_count (length buf)"
    using False addressable_MAXFILE [OF ad] new len
    by (simp_all add: n_def unat_gt_0 [symmetric] del: unat_gt_0)
  have pred: "unat (new - 1) = n - 1" using n by (simp add: n_def unat_sub_if')
  have new_eq: "new = of_nat n" by (simp add: n_def)
  note step = write_all_step [OF wf ad [folded n_def] _ data [folded n_def]]
  have loop: "\<exists>bm'. for_u32 0 (new - 1) (\<lambda>start bm.
        bindR (read_mem (unat (of_nat BLOCK_SIZE * start)) BLOCK_SIZE buf)
          (\<lambda>content. write_block_in_inode ino start content bm)) bm = Inr bm' \<and>
      bm' = write_all set_block (bids bm ino (unat (new - 1))) (chunks buf (unat (new - 1))) bm"
  proof (rule for_u32_total [where P = "\<lambda>k bm'. bm' = write_all set_block (bids bm ino k) (chunks buf k) bm"])
    show "bm = write_all set_block (bids bm ino (unat 0)) (chunks buf (unat 0)) bm"
      by (simp add: bids_def write_all_def)
    fix k bm1
    assume k: "k < unat (new - 1)" and P: "bm1 = write_all set_block (bids bm ino k) (chunks buf k) bm"
    then have kn: "Suc k < n" "k < n" using pred by simp_all
    then have "512 * Suc k < length buf" using blk_count_pred [of "Suc k" "length buf"] n(3) by simp
    moreover have "unat (512 * of_nat k :: u32) = 512 * k"
      using kn n(2) by (simp add: unat_word_ariths unat_of_nat)
    ultimately have "read_mem (unat (of_nat BLOCK_SIZE * of_nat k :: u32)) BLOCK_SIZE buf = Inr (chunk buf k)"
      by (simp add: read_mem_def chunk_def resize_def)
    then show "\<exists>s'. bindR (read_mem (unat (of_nat BLOCK_SIZE * of_nat k :: u32)) BLOCK_SIZE buf)
        (\<lambda>content. write_block_in_inode ino (of_nat k) content bm1) = Inr s' \<and>
      s' = write_all set_block (bids bm ino (Suc k)) (chunks buf (Suc k)) bm"
      using step(1) [OF kn(2) P] by simp
  qed simp
  define m where "m = n - 1"
  have m: "n = Suc m" "m < n" "unat (new - 1) = m" using n(1) pred by (simp_all add: m_def)
  have bnd: "512 * m < length buf" "length buf \<le> 512 * m + 512"
    using blk_count_pred [of m "length buf"] blk_count_le [of "length buf"] n(3) m by simp_all
  have tail: "unat (512 - (new * 512 - sz)) = length buf - 512 * m"
  proof -
    have "unat (new * 512) = 512 * m + 512"
      using n(2) m(1) by (simp add: new_eq unat_word_ariths unat_of_nat)
    then have "unat (new * 512 - sz) = 512 * m + 512 - length buf"
      using bnd len by (simp add: unat_sub_if')
    then show ?thesis using bnd by (simp add: unat_sub_if')
  qed
  have new1: "new - 1 = of_nat m" using m n(2) by (simp add: word_unat_eq_iff unat_of_nat)
  have off: "unat (512 * of_nat m :: u32) = 512 * m" "unat (of_nat m :: u32) = m"
    using n(2) m(1) by (simp_all add: unat_word_ariths unat_of_nat)
  have "read_mem (512 * m) (length buf - 512 * m) buf = Inr (drop (512 * m) buf)"
    using bnd by (simp add: read_mem_def)
  moreover have "resize BLOCK_SIZE 0 (drop (512 * m) buf) = chunk buf m"
    using bnd by (simp add: chunk_def)
  ultimately show ?thesis
    using loop False step(1) [OF m(2) refl]
    by (simp add: write_data_def tail off new1 n_def [symmetric] m(1) del: of_nat_Suc)
qed

section \<open>The abstract file store and the invariant\<close>

definition nblk :: "inode \<Rightarrow> nat" where
  "nblk ino = blk_count (unat (i_size ino))"

definition live :: "block_manager \<Rightarrow> u32 \<Rightarrow> bool" where
  "live bm inum \<longleftrightarrow> valid_inum inum \<and> i_type (inode_at bm inum) \<noteq> 0"

definition owned :: "block_manager \<Rightarrow> u32 \<Rightarrow> u32 list" where
  "owned bm inum = bids bm (inode_at bm inum) (nblk (inode_at bm inum))"

definition large :: "block_manager \<Rightarrow> u32 \<Rightarrow> bool" where
  "large bm inum \<longleftrightarrow> live bm inum \<and> nblk (inode_at bm inum) > NDIRECT"

definition file_content :: "block_manager \<Rightarrow> u32 \<Rightarrow> byte list" where
  "file_content bm inum =
     take (unat (i_size (inode_at bm inum))) (concat (map (block_at bm) (owned bm inum)))"

definition file_at :: "block_manager \<Rightarrow> u32 \<rightharpoonup> u16 \<times> byte list" where
  "file_at bm inum =
     (if live bm inum then Some (i_type (inode_at bm inum), file_content bm inum) else None)"

text \<open>
  No operation of the inode manager ever assigns the indirect entry \<^verbatim>\<open>blocks[NDIRECT]\<close>: in every
  inode that \<^verbatim>\<open>alloc_inode\<close> hands out it is the zero of the freshly formatted disk.
\<close>

definition indirect_unset :: "block_manager \<Rightarrow> bool" where
  "indirect_unset bm \<longleftrightarrow>
     (\<forall>j. valid_inum j \<and> j \<noteq> 1 \<longrightarrow> i_blocks (inode_at bm j) ! NDIRECT = 0)"

text \<open>
  The invariant. Every live inode addresses distinct data blocks marked used, no two live inodes
  share a block, and, since all inodes share the one indirect block, at most one live file reaches
  into the indirect range.
\<close>

definition owns_ok :: "block_manager \<Rightarrow> u32 \<Rightarrow> bool" where
  "owns_ok bm i \<longleftrightarrow> addressable (inode_at bm i) (nblk (inode_at bm i)) \<and> distinct (owned bm i) \<and>
     (\<forall>b \<in> set (owned bm i). data_block b \<and> used bm b)"

definition im_inv :: "block_manager \<Rightarrow> bool" where
  "im_inv bm \<longleftrightarrow> bm_wf bm \<and> (\<forall>i. live bm i \<longrightarrow> owns_ok bm i) \<and>
     (\<forall>i j. live bm i \<and> live bm j \<and> i \<noteq> j \<longrightarrow> set (owned bm i) \<inter> set (owned bm j) = {}) \<and>
     (\<forall>i j. large bm i \<and> large bm j \<longrightarrow> i = j) \<and> indirect_unset bm"

lemma im_inv_wf: "im_inv bm \<Longrightarrow> bm_wf bm"
  and im_inv_owns: "im_inv bm \<Longrightarrow> live bm i \<Longrightarrow> owns_ok bm i"
  and im_inv_disj: "im_inv bm \<Longrightarrow> live bm i \<Longrightarrow> live bm j \<Longrightarrow> i \<noteq> j \<Longrightarrow>
      set (owned bm i) \<inter> set (owned bm j) = {}"
  and im_inv_large: "im_inv bm \<Longrightarrow> large bm i \<Longrightarrow> large bm j \<Longrightarrow> i = j"
  and im_inv_indirect: "im_inv bm \<Longrightarrow> indirect_unset bm"
  by (simp_all add: im_inv_def)

lemma live_valid: "live bm i \<Longrightarrow> valid_inum i"
  by (simp add: live_def)

lemma owned_cong:
  assumes "inode_at bm' j = inode_at bm j"
    and "nblk (inode_at bm j) > NDIRECT \<Longrightarrow>
      block_at bm' (i_blocks (inode_at bm j) ! NDIRECT) = block_at bm (i_blocks (inode_at bm j) ! NDIRECT)"
  shows "owned bm' j = owned bm j"
proof -
  have "ino_bid bm' (inode_at bm j) k = ino_bid bm (inode_at bm j) k" if "k < nblk (inode_at bm j)" for k
    using that assms(2) by (intro ino_bid_cong) simp_all
  then show ?thesis by (simp add: owned_def bids_def assms(1))
qed

text \<open>
  One step of any operation on inode \<open>inum\<close>: when it leaves the other live inodes, their blocks and
  their marks alone, the invariant needs to be shown for \<open>inum\<close> only, and no other file changes.
\<close>

lemma im_inv_step:
  assumes inv: "im_inv bm" and wf': "bm_wf bm'"
    and tab: "\<And>j. valid_inum j \<Longrightarrow> j \<noteq> inum \<Longrightarrow> inode_at bm' j = inode_at bm j"
    and keep: "\<And>j b. live bm j \<Longrightarrow> j \<noteq> inum \<Longrightarrow> b \<in> set (owned bm j) \<Longrightarrow>
      used bm' b \<and> block_at bm' b = block_at bm b \<and> (live bm' inum \<longrightarrow> b \<notin> set (owned bm' inum))"
    and ind: "\<And>j. large bm j \<Longrightarrow> j \<noteq> inum \<Longrightarrow>
      block_at bm' (i_blocks (inode_at bm j) ! NDIRECT) = block_at bm (i_blocks (inode_at bm j) ! NDIRECT)"
    and self: "live bm' inum \<Longrightarrow> owns_ok bm' inum"
    and big: "\<And>j. large bm' inum \<Longrightarrow> large bm j \<Longrightarrow> j = inum"
    and ient: "inum \<noteq> 1 \<Longrightarrow> i_blocks (inode_at bm' inum) ! NDIRECT = i_blocks (inode_at bm inum) ! NDIRECT"
  shows "im_inv bm'" and "\<And>j. j \<noteq> inum \<Longrightarrow> file_at bm' j = file_at bm j"
proof -
  have lv: "live bm' j = live bm j" if "j \<noteq> inum" for j
    using tab [of j] that by (auto simp: live_def)
  have ow: "owned bm' j = owned bm j" if "live bm j" "j \<noteq> inum" for j
    using tab [OF live_valid [OF that(1)] that(2)] ind [OF _ that(2)] that(1)
    by (intro owned_cong) (auto simp: large_def)
  have lg: "large bm' j = large bm j" if "j \<noteq> inum" for j
    using lv [OF that] tab [of j] that by (auto simp: large_def live_def)
  have ok: "owns_ok bm' j" if j: "live bm' j" for j
  proof (cases "j = inum")
    case True
    with j self show ?thesis by simp
  next
    case False
    with j lv have l: "live bm j" by simp
    have "owns_ok bm j" by (rule im_inv_owns [OF inv l])
    with tab [OF live_valid [OF l] False] ow [OF l False] keep [OF l False] show ?thesis
      by (simp add: owns_ok_def)
  qed
  have disj: "set (owned bm' i) \<inter> set (owned bm' j) = {}"
    if "live bm' i" "live bm' j" "i \<noteq> j" "j \<noteq> inum" for i j
  proof (cases "i = inum")
    case True
    with that lv ow keep show ?thesis by auto
  next
    case False
    with that lv ow show ?thesis using im_inv_disj [OF inv, of i j] by simp
  qed
  then have "\<forall>i j. live bm' i \<and> live bm' j \<and> i \<noteq> j \<longrightarrow> set (owned bm' i) \<inter> set (owned bm' j) = {}"
    by (metis Int_commute)
  moreover have "\<forall>i j. large bm' i \<and> large bm' j \<longrightarrow> i = j"
    using big lg im_inv_large [OF inv] by metis
  moreover have "indirect_unset bm'"
    using im_inv_indirect [OF inv] tab ient unfolding indirect_unset_def by metis
  ultimately show "im_inv bm'" using wf' ok by (simp add: im_inv_def)
  show "file_at bm' j = file_at bm j" if "j \<noteq> inum" for j
  proof (cases "live bm j")
    case True
    have "map (block_at bm') (owned bm j) = map (block_at bm) (owned bm j)"
      using keep [OF True that] by simp
    with True that show ?thesis
      using tab [OF live_valid [OF True] that]
      by (simp add: file_at_def lv file_content_def ow del: map_eq_conv)
  next
    case False
    with lv [OF that] show ?thesis by (simp add: file_at_def)
  qed
qed

section \<open>Writing a file\<close>

text \<open>
  The tail of \<open>write_file\<close> after the adjustment of the block count: data blocks, then the inode.
  Its effect on the disk, for an inode \<open>ino\<close> that already addresses \<open>n\<close> distinct data blocks.
\<close>

lemma store_file:
  assumes wf: "bm_wf bm" and ok: "inode_ok ino" and v: "valid_inum inum" and ad: "addressable ino n"
    and d: "distinct (bids bm ino n)" and data: "\<forall>b \<in> set (bids bm ino n). data_block b"
    and n: "n = nblk ino" and len: "length buf = unat (i_size ino)"
    and bm': "bm' = set_inode (write_all set_block (bids bm ino n) (chunks buf n) bm) inum ino"
  shows "bm_wf bm'" and "inode_at bm' inum = ino" and "owned bm' inum = bids bm ino n"
    and "file_content bm' inum = buf" and "used bm' = used bm"
    and "\<And>b. b \<noteq> iblk inum \<Longrightarrow> b \<notin> set (bids bm ino n) \<Longrightarrow> block_at bm' b = block_at bm b"
    and "\<And>k. k < n \<Longrightarrow> block_at bm' (ino_bid bm' ino k) = chunk buf k"
proof -
  let ?ids = "bids bm ino n" and ?bm2 = "write_all set_block (bids bm ino n) (chunks buf n) bm"
  have wf2: "bm_wf ?bm2" by (rule bm_wf_write_all [OF wf]) (auto simp: chunks_def)
  show "bm_wf bm'" unfolding bm' by (rule itab.inv_wr [OF wf2 v ok])
  show at: "inode_at bm' inum = ino" unfolding bm' by (rule itab.rd_same [OF wf2 v ok])
  show "used bm' = used bm" by (simp add: bm' write_all_frame)
  show frame: "block_at bm' b = block_at bm b" if "b \<noteq> iblk inum" "b \<notin> set ?ids" for b
    unfolding bm' block_at_set_inode [OF that(1)]
    using that(2) by (intro bms.rd_write_all_other) auto
  have low: "\<not> data_block b" if "unat b < 12" for b
    using that by (simp add: data_block_def)
  have bid: "ino_bid bm' ino k = ino_bid bm ino k" if "k < n" for k
  proof (rule ino_bid_cong)
    assume "\<not> k < NDIRECT"
    with ad that have ib: "unat (i_blocks ino ! NDIRECT) < 12" by (auto simp: addressable_def)
    then have "i_blocks ino ! NDIRECT \<notin> set ?ids" using data low by blast
    moreover have "i_blocks ino ! NDIRECT \<noteq> iblk inum" using ib iblk_bounds(1) [OF v] by auto
    ultimately show "block_at bm' (i_blocks ino ! NDIRECT) = block_at bm (i_blocks ino ! NDIRECT)"
      by (intro frame)
  qed simp
  then show own: "owned bm' inum = ?ids" by (simp add: owned_def at n bids_def)
  have "b \<noteq> iblk inum" if "b \<in> set ?ids" for b
    using that data iblk_bounds(2) [OF v] by (auto simp: data_block_def)
  then have "map (block_at bm') ?ids = map (block_at ?bm2) ?ids"
    by (simp add: bm' block_at_set_inode)
  also have "\<dots> = chunks buf n" using d by (intro bms.map_rd_write_all) simp_all
  finally have all: "map (block_at bm') ?ids = chunks buf n" .
  show "block_at bm' (ino_bid bm' ino k) = chunk buf k" if "k < n" for k
    using arg_cong [OF all, of "\<lambda>xs. xs ! k"] that bid by (simp add: chunks_def)
  from all show "file_content bm' inum = buf"
    using take_concat_chunks [of buf n] blk_count_le [of "length buf"] len
    by (simp add: file_content_def own at n nblk_def)
qed

text \<open>
  The inode and disk that a completed \<open>write_file\<close> leaves, given the outcome \<open>(ino1, bm1)\<close> of the
  adjustment.
\<close>

definition stored :: "u32 \<times> u32 \<times> u32 \<Rightarrow> u32 \<Rightarrow> byte list \<Rightarrow> u32 \<Rightarrow> inode \<Rightarrow> block_manager \<Rightarrow> block_manager" where
  "stored now inum buf sz ino1 bm1 =
     (let (ta, tm, tc) = now; n = blk_count (unat sz);
          ino3 = ino1\<lparr>i_size := sz, i_atime := ta, i_mtime := tm, i_ctime := tc\<rparr>
      in set_inode (write_all set_block (bids bm1 ino3 n) (chunks buf n) bm1) inum ino3)"

lemma bids_fields:
  "bids bm (ino\<lparr>i_size := sz\<rparr>) n = bids bm ino n" "bids bm (ino\<lparr>i_atime := sz\<rparr>) n = bids bm ino n"
  "bids bm (ino\<lparr>i_mtime := sz\<rparr>) n = bids bm ino n" "bids bm (ino\<lparr>i_ctime := sz\<rparr>) n = bids bm ino n"
  by (simp_all add: bids_def ino_bid_def)

lemma addressable_fields [simp]:
  "addressable (ino\<lparr>i_size := sz\<rparr>) n = addressable ino n"
  "addressable (ino\<lparr>i_atime := sz\<rparr>) n = addressable ino n"
  "addressable (ino\<lparr>i_mtime := sz\<rparr>) n = addressable ino n"
  "addressable (ino\<lparr>i_ctime := sz\<rparr>) n = addressable ino n"
  by (simp_all add: addressable_def)

lemma write_file_run:
  assumes wf: "bm_wf bm" and v: "valid_inum inum" and own: "owns_ok bm inum"
    and len: "length buf = unat sz"
    and ad: "addressable (inode_at bm inum) (blk_count (unat sz))"
  shows "case write_file now inum buf sz bm of
      Inl f \<Rightarrow> f = Exit \<and> free_count bm < blk_count (unat sz) - nblk (inode_at bm inum)
    | Inr bm' \<Rightarrow> \<exists>ino1 bm1. bm' = stored now inum buf sz ino1 bm1 \<and>
        resized bm (inode_at bm inum) (owned bm inum) (blk_count (unat sz)) (ino1, bm1)"
proof -
  define ino where "ino = inode_at bm inum"
  obtain ta tm tc where now: "now = (ta, tm, tc)" by (cases now)
  let ?ori = "ROUND_UP_DEVISION (i_size ino) 512" and ?new = "ROUND_UP_DEVISION sz 512"
  let ?n = "blk_count (unat sz)"
  have get: "get_inode inum bm = Inr ino" unfolding ino_def by (rule get_inode_valid [OF wf v])
  have u: "unat ?ori = nblk ino" "unat ?new = ?n"
    using unat_ROUND_UP [of "i_size ino"] unat_ROUND_UP [of sz] by (simp_all add: nblk_def)
  have rs: "case resize_blocks ?ori ?new ino bm of
      Inl f \<Rightarrow> f = Exit \<and> free_count bm < ?n - nblk ino
    | Inr st \<Rightarrow> resized bm ino (owned bm inum) ?n st"
  proof -
    have "addressable ino (nblk ino)" "distinct (bids bm ino (nblk ino))"
      "\<forall>b \<in> set (bids bm ino (nblk ino)). data_block b \<and> used bm b"
      using own by (simp_all add: owns_ok_def owned_def ino_def)
    moreover have "owned bm inum = bids bm ino (nblk ino)" by (simp add: owned_def ino_def)
    moreover have "inode_ok ino" "addressable ino ?n" using ad by (simp_all add: ino_def)
    ultimately show ?thesis
      using resize_blocks_spec [of bm ino ?ori ?new, unfolded u, OF wf] by metis
  qed
  show ?thesis
  proof (cases "resize_blocks ?ori ?new ino bm")
    case (Inl f)
    then show ?thesis using rs get by (simp add: write_file_def now ino_def [symmetric])
  next
    case (Inr st)
    obtain ino1 bm1 where st: "st = (ino1, bm1)" by (cases st)
    have R: "resized bm ino (owned bm inum) ?n (ino1, bm1)" using rs Inr st by simp
    then have r: "bm_wf bm1" "inode_ok ino1" "addressable ino1 ?n"
      "\<forall>b \<in> set (bids bm1 ino1 ?n). data_block b"
      using ad by (simp_all add: resized_def addressable_def ino_def)
    have wd: "write_data ?new buf sz (ino1\<lparr>i_size := sz\<rparr>) bm1 =
        Inr (write_all set_block (bids bm1 ino1 ?n) (chunks buf ?n) bm1)"
      using write_data_spec [OF r(1), of "ino1\<lparr>i_size := sz\<rparr>" ?new sz buf] r(3,4) len
      by (simp add: u bids_fields)
    have wf2: "bm_wf (write_all set_block (bids bm1 ino1 ?n) (chunks buf ?n) bm1)"
      by (rule bm_wf_write_all [OF r(1)]) (auto simp: chunks_def)
    have "write_file now inum buf sz bm = Inr (stored now inum buf sz ino1 bm1)"
      using get Inr st wd r(2) put_inode_valid [OF wf2 v]
      by (simp add: write_file_def stored_def now bids_fields Let_def)
    with R show ?thesis by (auto simp: ino_def)
  qed
qed

text \<open>What is left of the old state around a stored file.\<close>

lemma stored_post:
  assumes v: "valid_inum inum" and ad: "addressable ino n" and n: "n = blk_count (unat sz)"
    and len: "length buf = unat sz" and R: "resized bm ino old n (ino1, bm1)"
    and bm3: "bm3 = stored (ta, tm, tc) inum buf sz ino1 bm1"
  shows "bm_wf bm3" and "owns_ok bm3 inum" and "file_content bm3 inum = buf"
    and "inode_at bm3 inum = ino1\<lparr>i_size := sz, i_atime := ta, i_mtime := tm, i_ctime := tc\<rparr>"
    and "i_type (inode_at bm3 inum) = i_type ino"
    and "\<And>b. used bm b \<Longrightarrow> b \<notin> set old \<Longrightarrow> used bm3 b \<and> b \<notin> set (owned bm3 inum)"
    and "\<And>b. data_block b \<Longrightarrow> b \<notin> set (owned bm3 inum) \<Longrightarrow> block_at bm3 b = block_at bm b"
    and "\<And>b. unat b < 12 \<Longrightarrow> n \<le> NDIRECT \<Longrightarrow> block_at bm3 b = block_at bm b"
    and "\<And>j. valid_inum j \<Longrightarrow> j \<noteq> inum \<Longrightarrow> inode_at bm3 j = inode_at bm j"
    and "i_blocks (inode_at bm3 inum) ! NDIRECT = i_blocks ino ! NDIRECT"
    and "\<And>k. k < n \<Longrightarrow> block_at bm3 (ino_bid bm3 (inode_at bm3 inum) k) = chunk buf k"
proof -
  define ino3 where "ino3 = ino1\<lparr>i_size := sz, i_atime := ta, i_mtime := tm, i_ctime := tc\<rparr>"
  have bl: "bids bm1 ino3 n = bids bm1 ino1 n" by (simp add: ino3_def bids_fields)
  note R' = R [unfolded resized_def prod.case]
  have r: "bm_wf bm1" "inode_ok ino3" "addressable ino3 n" "distinct (bids bm1 ino3 n)"
    using R' ad by (simp_all add: ino3_def bids_fields addressable_def)
  have du: "\<forall>b \<in> set (bids bm1 ino3 n). data_block b \<and> used bm1 b" unfolding bl using R' by blast
  have blk: "\<forall>b. n \<le> NDIRECT \<or> b \<noteq> i_blocks ino ! NDIRECT \<longrightarrow> block_at bm1 b = block_at bm b"
    using R' by blast
  have bm3': "bm3 = set_inode (write_all set_block (bids bm1 ino3 n) (chunks buf n) bm1) inum ino3"
    by (simp add: bm3 stored_def ino3_def n Let_def)
  have sz: "n = nblk ino3" "length buf = unat (i_size ino3)"
    using len by (simp_all add: nblk_def n ino3_def)
  note sf = store_file [OF r(1,2) v r(3,4) _ sz bm3']
  have data: "\<forall>b \<in> set (bids bm1 ino3 n). data_block b" using du by blast
  note sf = sf [OF data]
  show "bm_wf bm3" "file_content bm3 inum = buf" by (rule sf)+
  show at: "inode_at bm3 inum = ino1\<lparr>i_size := sz, i_atime := ta, i_mtime := tm, i_ctime := tc\<rparr>"
    by (simp add: sf(2)) (simp add: ino3_def)
  show "owns_ok bm3 inum" using sf(2,3,5) sz(1) r(3,4) du by (simp add: owns_ok_def)
  show "i_blocks (inode_at bm3 inum) ! NDIRECT = i_blocks ino ! NDIRECT" using R' by (simp add: at)
  show "block_at bm3 (ino_bid bm3 (inode_at bm3 inum) k) = chunk buf k" if "k < n" for k
    using sf(7) [OF that] by (simp add: sf(2))
  have "i_type (ino1\<lparr>i_blocks := i_blocks ino\<rparr>) = i_type ino" using R' by simp
  then show "i_type (inode_at bm3 inum) = i_type ino" by (simp add: at)
  show "used bm3 b \<and> b \<notin> set (owned bm3 inum)" if "used bm b" "b \<notin> set old" for b
    unfolding sf(3,5) bl using R' that by blast
  have ib: "i_blocks ino ! NDIRECT \<noteq> b" if "12 \<le> unat b" "\<not> n \<le> NDIRECT" for b
    using ad that by (auto simp: addressable_def)
  show "block_at bm3 b = block_at bm b" if "data_block b" "b \<notin> set (owned bm3 inum)" for b
  proof -
    have "12 \<le> unat b" "b \<noteq> iblk inum" using that(1) iblk_bounds(2) [OF v] by (auto simp: data_block_def)
    then show ?thesis using sf(6) [of b] that(2) ib [of b] blk unfolding sf(3) by metis
  qed
  have nd: "b \<notin> set (bids bm1 ino3 n)" if "unat b < 1036" for b
    using that data by (auto simp: data_block_def)
  show "block_at bm3 b = block_at bm b" if "unat b < 12" "n \<le> NDIRECT" for b
    using that sf(6) [of b] nd [of b] blk iblk_bounds(1) [OF v] by fastforce
  show "inode_at bm3 j = inode_at bm j" if "valid_inum j" "j \<noteq> inum" for j
  proof -
    have "iblk j \<noteq> iblk inum" using that iblk_inj [OF that(1) v] by simp
    then have "block_at bm3 (iblk j) = block_at bm (iblk j)"
      using sf(6) [of "iblk j"] nd [of "iblk j"] iblk_bounds [OF that(1)] ib [of "iblk j"] blk by metis
    then show ?thesis by (simp add: inode_at_def)
  qed
qed

lemma write_file_spec:
  assumes inv: "im_inv bm" and lv: "live bm inum" and len: "length buf = unat sz"
    and ad: "addressable (inode_at bm inum) (blk_count (unat sz))"
    and alone: "\<And>j. blk_count (unat sz) > NDIRECT \<Longrightarrow> large bm j \<Longrightarrow> j = inum"
  shows "case write_file (ta, tm, tc) inum buf sz bm of
      Inl f \<Rightarrow> f = Exit \<and> free_count bm < blk_count (unat sz) - nblk (inode_at bm inum)
    | Inr bm' \<Rightarrow> im_inv bm' \<and>
        file_at bm' = (file_at bm)(inum \<mapsto> (i_type (inode_at bm inum), buf)) \<and>
        i_mtime (inode_at bm' inum) = tm \<and> i_size (inode_at bm' inum) = sz"
proof -
  note wf = im_inv_wf [OF inv] and v = live_valid [OF lv] and own = im_inv_owns [OF inv lv]
  note run = write_file_run [OF wf v own len ad, of "(ta, tm, tc)"]
  show ?thesis
  proof (cases "write_file (ta, tm, tc) inum buf sz bm")
    case (Inl f)
    with run show ?thesis by simp
  next
    case (Inr bm3)
    with run obtain ino1 bm1 where bm3: "bm3 = stored (ta, tm, tc) inum buf sz ino1 bm1"
      and R: "resized bm (inode_at bm inum) (owned bm inum) (blk_count (unat sz)) (ino1, bm1)" by auto
    note post = stored_post [OF v ad refl len R bm3]
    have keep: "used bm3 b \<and> block_at bm3 b = block_at bm b \<and> (live bm3 inum \<longrightarrow> b \<notin> set (owned bm3 inum))"
      if "live bm j" "j \<noteq> inum" "b \<in> set (owned bm j)" for j b
    proof -
      have "used bm b" "data_block b" "b \<notin> set (owned bm inum)"
        using im_inv_owns [OF inv that(1)] im_inv_disj [OF inv that(1) lv that(2)] that(3)
        by (auto simp: owns_ok_def)
      then show ?thesis using post(6,7) by blast
    qed
    have ind: "block_at bm3 (i_blocks (inode_at bm j) ! NDIRECT) = block_at bm (i_blocks (inode_at bm j) ! NDIRECT)"
      if "large bm j" "j \<noteq> inum" for j
    proof (rule post(8))
      show "blk_count (unat sz) \<le> NDIRECT" using alone [of j] that by force
      show "unat (i_blocks (inode_at bm j) ! NDIRECT) < 12"
        using im_inv_owns [OF inv, of j] that(1) by (auto simp: large_def owns_ok_def addressable_def)
    qed
    have big: "j = inum" if "large bm3 inum" "large bm j" for j
      using that alone by (simp add: large_def post(4) nblk_def)
    note step = im_inv_step [where inum = inum, OF inv post(1) post(9) keep ind post(2) big post(10)]
    have "live bm3 inum" using lv post(5) by (simp add: live_def)
    then have "file_at bm3 inum = Some (i_type (inode_at bm inum), buf)"
      by (simp add: file_at_def post(3,5))
    then have "file_at bm3 = (file_at bm)(inum \<mapsto> (i_type (inode_at bm inum), buf))"
      using step(2) by (auto simp: fun_eq_iff)
    with Inr step(1) show ?thesis by (simp add: post(4))
  qed
qed

section \<open>Operations that rewrite one inode\<close>

lemma set_inode_step:
  assumes inv: "im_inv bm" and v: "valid_inum inum" and ok: "inode_ok ino"
    and bm': "bm' = set_inode bm inum ino"
    and disj: "\<And>j b. live bm' inum \<Longrightarrow> live bm j \<Longrightarrow> j \<noteq> inum \<Longrightarrow> b \<in> set (owned bm j) \<Longrightarrow>
      b \<notin> set (owned bm' inum)"
    and self: "live bm' inum \<Longrightarrow> owns_ok bm' inum"
    and big: "\<And>j. large bm' inum \<Longrightarrow> large bm j \<Longrightarrow> j = inum"
    and ient: "inum \<noteq> 1 \<Longrightarrow> i_blocks ino ! NDIRECT = i_blocks (inode_at bm inum) ! NDIRECT"
  shows "im_inv bm'" and "\<And>j. j \<noteq> inum \<Longrightarrow> file_at bm' j = file_at bm j"
proof -
  note wf = im_inv_wf [OF inv]
  have wf': "bm_wf bm'" unfolding bm' by (rule itab.inv_wr [OF wf v ok])
  have "inode_at bm' inum = ino" unfolding bm' by (rule itab.rd_same [OF wf v ok])
  with ient have ient': "inum \<noteq> 1 \<Longrightarrow> i_blocks (inode_at bm' inum) ! NDIRECT = i_blocks (inode_at bm inum) ! NDIRECT"
    by simp
  have tab: "inode_at bm' j = inode_at bm j" if "valid_inum j" "j \<noteq> inum" for j
    unfolding bm' by (rule itab.rd_other [OF wf v ok that])
  have keep: "used bm' b \<and> block_at bm' b = block_at bm b \<and> (live bm' inum \<longrightarrow> b \<notin> set (owned bm' inum))"
    if "live bm j" "j \<noteq> inum" "b \<in> set (owned bm j)" for j b
  proof -
    have b: "used bm b" "data_block b" using im_inv_owns [OF inv that(1)] that(3) by (auto simp: owns_ok_def)
    then have "b \<noteq> iblk inum" using iblk_bounds(2) [OF v] by (auto simp: data_block_def)
    with b(1) disj [OF _ that] show ?thesis by (auto simp: bm' block_at_set_inode)
  qed
  have ind: "block_at bm' (i_blocks (inode_at bm j) ! NDIRECT) = block_at bm (i_blocks (inode_at bm j) ! NDIRECT)"
    if "large bm j" "j \<noteq> inum" for j
  proof -
    have "unat (i_blocks (inode_at bm j) ! NDIRECT) < 12"
      using im_inv_owns [OF inv, of j] that(1) by (auto simp: large_def owns_ok_def addressable_def)
    then have "i_blocks (inode_at bm j) ! NDIRECT \<noteq> iblk inum" using iblk_bounds(1) [OF v] by auto
    then show ?thesis by (simp add: bm' block_at_set_inode del: NDIRECT_def)
  qed
  show "im_inv bm'" by (rule im_inv_step(1) [where inum = inum, OF inv wf' tab keep ind self big ient'])
  show "file_at bm' j = file_at bm j" if "j \<noteq> inum" for j
    by (rule im_inv_step(2) [where inum = inum, OF inv wf' tab keep ind self big ient' that])
qed

text \<open>Rewriting only the times of a live inode changes no file.\<close>

lemma touch_inode:
  assumes inv: "im_inv bm" and lv: "live bm inum" and ok: "inode_ok ino"
    and same: "i_type ino = i_type (inode_at bm inum)" "i_size ino = i_size (inode_at bm inum)"
      "i_blocks ino = i_blocks (inode_at bm inum)"
    and bm': "bm' = set_inode bm inum ino"
  shows "im_inv bm'" and "file_at bm' = file_at bm"
proof -
  note v = live_valid [OF lv] and own = im_inv_owns [OF inv lv]
  have at: "inode_at bm' inum = ino" unfolding bm' by (rule itab.rd_same [OF im_inv_wf [OF inv] v ok])
  have nd: "b \<noteq> iblk inum" if "data_block b \<or> unat b < 12" for b
    using that iblk_bounds [OF v] by (auto simp: data_block_def)
  have bid: "ino_bid bm' ino k = ino_bid bm (inode_at bm inum) k" if "k < nblk (inode_at bm inum)" for k
  proof (rule ino_bid_cong [OF same(3)])
    assume "\<not> k < NDIRECT"
    with own that have "unat (i_blocks (inode_at bm inum) ! NDIRECT) < 12"
      by (auto simp: owns_ok_def addressable_def)
    then show "block_at bm' (i_blocks (inode_at bm inum) ! NDIRECT) =
        block_at bm (i_blocks (inode_at bm inum) ! NDIRECT)"
      using nd by (simp add: bm' block_at_set_inode)
  qed
  have ow: "owned bm' inum = owned bm inum"
    using bid by (simp add: owned_def at bids_def nblk_def same(2))
  have us: "used bm' = used bm" by (simp add: bm')
  have self: "owns_ok bm' inum"
    using own by (simp add: owns_ok_def ow us at nblk_def same addressable_def)
  have disj: "b \<notin> set (owned bm' inum)"
    if "live bm' inum" "live bm j" "j \<noteq> inum" "b \<in> set (owned bm j)" for j b
    using im_inv_disj [OF inv that(2) lv that(3)] that(4) by (auto simp: ow)
  have big: "j = inum" if "large bm' inum" "large bm j" for j
    using that lv im_inv_large [OF inv that(2), of inum] by (simp add: large_def at nblk_def same)
  have ient: "i_blocks ino ! NDIRECT = i_blocks (inode_at bm inum) ! NDIRECT" by (simp add: same)
  show "im_inv bm'" by (rule set_inode_step(1) [OF inv v ok bm' disj self big ient])
  have others: "file_at bm' j = file_at bm j" if "j \<noteq> inum" for j
    by (rule set_inode_step(2) [OF inv v ok bm' disj self big ient that])
  have "map (block_at bm') (owned bm inum) = map (block_at bm) (owned bm inum)"
    using own nd by (simp add: owns_ok_def bm' block_at_set_inode)
  then have "file_at bm' inum = file_at bm inum"
    using lv by (simp add: file_at_def file_content_def ow at same live_def del: map_eq_conv)
  with others show "file_at bm' = file_at bm" by (metis ext)
qed

section \<open>Reading a file\<close>

lemma read_block_valid:
  assumes "bm_wf bm" and "addressable ino n" and "k < n" and "data_block (ino_bid bm ino k)"
  shows "read_block_in_inode bm ino (of_nat k) = Inr (block_at bm (ino_bid bm ino k))"
proof -
  have b: "unat (ino_bid bm ino k) < BLOCK_NUM" using assms(4) by (simp add: data_block_def)
  then show ?thesis
    using get_blockid_valid [OF assms(1-3)] block_at_length [OF assms(1) b]
    by (simp add: read_block_in_inode_def bm_read_block_valid buffer_load_def read_mem_def)
qed

lemma read_file_spec:
  assumes inv: "im_inv bm" and lv: "live bm inum"
  shows "\<exists>buf bm'. read_file now inum bm = Inr (buf, i_size (inode_at bm inum), bm') \<and>
    im_inv bm' \<and> file_at bm' = file_at bm \<and>
    (case buf of None \<Rightarrow> i_size (inode_at bm inum) = 0
     | Some bs \<Rightarrow> i_size (inode_at bm inum) \<noteq> 0 \<and>
         unat (i_size (inode_at bm inum)) \<le> length bs \<and>
         take (unat (i_size (inode_at bm inum))) bs = file_content bm inum)"
proof -
  define ino where "ino = inode_at bm inum"
  note wf = im_inv_wf [OF inv] and v = live_valid [OF lv]
  have get: "get_inode inum bm = Inr ino" unfolding ino_def by (rule get_inode_valid [OF wf v])
  show ?thesis
  proof (cases "i_size ino = 0")
    case True
    with get inv show ?thesis by (simp add: read_file_def ino_def)
  next
    case False
    let ?n = "nblk ino" and ?e = "ROUND_UP_DEVISION (i_size ino) 512"
    have o: "addressable ino ?n" "\<forall>b \<in> set (bids bm ino ?n). data_block b"
      using im_inv_owns [OF inv lv] by (simp_all add: owns_ok_def owned_def ino_def)
    have sz: "unat (i_size ino) \<le> 512 * ?n" using blk_count_le [of "unat (i_size ino)"] by (simp add: nblk_def)
    have le: "unat (i_size ino) \<le> MAXFILE * BLOCK_SIZE" using sz addressable_MAXFILE [OF o(1)] by simp
    have e: "unat ?e = ?n" using unat_ROUND_UP [of "i_size ino"] by (simp add: nblk_def)
    have "\<exists>bs. for_u32 0 ?e (\<lambda>i buf_content. bindR (read_block_in_inode bm ino i)
          (\<lambda>content. Inr (buf_content @ content))) [] = Inr bs \<and>
        bs = concat (map (block_at bm) (bids bm ino (unat ?e)))"
    proof (rule for_u32_total [where P = "\<lambda>k bs. bs = concat (map (block_at bm) (bids bm ino k))"])
      show "[] = concat (map (block_at bm) (bids bm ino (unat 0)))" by (simp add: bids_def)
      fix k bs assume k: "k < unat ?e" and bs: "bs = concat (map (block_at bm) (bids bm ino k))"
      have "read_block_in_inode bm ino (of_nat k) = Inr (block_at bm (ino_bid bm ino k))"
        using k o(2) by (intro read_block_valid [OF wf o(1)]) (simp_all add: e set_bids)
      then show "\<exists>s'. bindR (read_block_in_inode bm ino (of_nat k)) (\<lambda>content. Inr (bs @ content)) = Inr s' \<and>
          s' = concat (map (block_at bm) (bids bm ino (Suc k)))"
        by (simp add: bs bids_def)
    qed simp
    then obtain bs where loop: "for_u32 0 ?e (\<lambda>i buf_content. bindR (read_block_in_inode bm ino i)
          (\<lambda>content. Inr (buf_content @ content))) [] = Inr bs"
      and bs: "bs = concat (map (block_at bm) (bids bm ino ?n))" using e by auto
    have "length (block_at bm b) = 512" if "b \<in> set (bids bm ino ?n)" for b
      using that o(2) block_at_length [OF wf, of b] by (auto simp: data_block_def)
    then have "map (\<lambda>b. length (block_at bm b)) (bids bm ino ?n) = map (\<lambda>_. 512) (bids bm ino ?n)"
      by simp
    then have len: "length bs = 512 * ?n"
      by (simp add: bs length_concat o_def sum_list_triv del: map_eq_conv)
    have put: "put_inode inum (ino\<lparr>i_atime := now\<rparr>) bm = Inr (set_inode bm inum (ino\<lparr>i_atime := now\<rparr>))"
      by (rule put_inode_valid [OF wf v]) (simp add: ino_def)
    have run: "read_file now inum bm =
        Inr (Some bs, i_size ino, set_inode bm inum (ino\<lparr>i_atime := now\<rparr>))"
      using get False le loop put by (simp add: read_file_def)
    have con: "take (unat (i_size ino)) bs = file_content bm inum"
      by (simp add: bs file_content_def owned_def ino_def)
    have ok: "inode_ok (ino\<lparr>i_atime := now\<rparr>)" by (simp add: ino_def)
    note t = touch_inode [OF inv lv ok _ _ _ refl]
    have "im_inv (set_inode bm inum (ino\<lparr>i_atime := now\<rparr>)) \<and>
        file_at (set_inode bm inum (ino\<lparr>i_atime := now\<rparr>)) = file_at bm"
      by (intro conjI t) (simp_all add: ino_def)
    with run con len sz False show ?thesis by (auto simp: ino_def)
  qed
qed

section \<open>Allocating, freeing and removing inodes\<close>

lemma find_free_inode_spec:
  assumes wf: "bm_wf bm" and i: "0 < unat i"
  shows "(\<exists>k. find_free_inode i bm = Inr (Some (k, inode_at bm k)) \<and> unat i \<le> unat k \<and> valid_inum k \<and>
      i_type (inode_at bm k) = 0 \<and>
      (\<forall>j. unat i \<le> unat j \<and> unat j < unat k \<longrightarrow> i_type (inode_at bm j) \<noteq> 0)) \<or>
    (find_free_inode i bm = Inr None \<and>
      (\<forall>j. unat i \<le> unat j \<and> valid_inum j \<longrightarrow> i_type (inode_at bm j) \<noteq> 0))"
  using i wf
proof (induction i bm rule: find_free_inode.induct)
  case (1 i bm)
  show ?case
  proof (cases "unat i < INODE_NUM + 1")
    case False
    then show ?thesis by (subst find_free_inode.simps) (auto simp: valid_inum_def)
  next
    case True
    with "1.prems" have v: "valid_inum i" by (simp add: valid_inum_def)
    have get: "get_inode i bm = Inr (inode_at bm i)" by (rule get_inode_valid [OF "1.prems"(2) v])
    show ?thesis
    proof (cases "i_type (inode_at bm i) = 0")
      case free: True
      have "find_free_inode i bm = Inr (Some (i, inode_at bm i))"
        using True free get by (subst find_free_inode.simps) simp
      with v free show ?thesis by auto
    next
      case used: False
      have eq: "find_free_inode i bm = find_free_inode (i + 1) bm"
        using True used get by (subst find_free_inode.simps) simp
      have suc: "unat (i + 1) = Suc (unat i)" using True by (simp add: unat_word_ariths)
      have here: "i_type (inode_at bm j) \<noteq> 0" if "unat j = unat i" for j
        using that used by (simp add: word_unat_eq_iff [symmetric])
      have "0 < unat (i + 1)" by (simp add: suc)
      from "1.IH" [OF True get used this "1.prems"(2)] show ?thesis
        unfolding eq suc using here by (metis Suc_leD Suc_leI le_neq_implies_less)
    qed
  qed
qed

text \<open>Installing an inode of size zero: a new empty file under its number.\<close>

lemma fresh_inode:
  assumes inv: "im_inv bm" and v: "valid_inum k" and ok: "inode_ok ino" and sz: "i_size ino = 0"
    and bm': "bm' = set_inode bm k ino" and ty: "i_type ino \<noteq> 0"
    and ient: "k \<noteq> 1 \<Longrightarrow> i_blocks ino ! NDIRECT = i_blocks (inode_at bm k) ! NDIRECT"
  shows "im_inv bm'" and "file_at bm' = (file_at bm)(k \<mapsto> (i_type ino, []))"
proof -
  have at: "inode_at bm' k = ino" unfolding bm' by (rule itab.rd_same [OF im_inv_wf [OF inv] v ok])
  have n0: "nblk ino = 0" by (simp add: nblk_def sz)
  then have own: "owned bm' k = []" by (simp add: owned_def at bids_def)
  have self: "owns_ok bm' k" by (simp add: owns_ok_def own at n0 addressable_def)
  note step = set_inode_step [OF inv v ok bm' _ self _ ient]
  show "im_inv bm'" by (rule step(1)) (simp_all add: own large_def at n0)
  have "file_at bm' j = file_at bm j" if "j \<noteq> k" for j
    by (rule step(2)) (simp_all add: own large_def at n0 that)
  moreover have "file_at bm' k = Some (i_type ino, [])"
    using v ty by (simp add: file_at_def live_def file_content_def own at)
  ultimately show "file_at bm' = (file_at bm)(k \<mapsto> (i_type ino, []))" by (auto simp: fun_eq_iff)
qed

lemma alloc_inode_spec:
  assumes inv: "im_inv bm" and ty: "ucast type \<noteq> (0 :: u16)"
  shows "case alloc_inode now type bm of
      Inl f \<Rightarrow> f = Exit \<and> (\<forall>j. valid_inum j \<and> j \<noteq> 1 \<longrightarrow> live bm j)
    | Inr (inum, bm') \<Rightarrow> im_inv bm' \<and> valid_inum inum \<and> inum \<noteq> 1 \<and> file_at bm inum = None \<and>
        file_at bm' = (file_at bm)(inum \<mapsto> (ucast type, []))"
proof -
  note wf = im_inv_wf [OF inv]
  consider k where "find_free_inode 2 bm = Inr (Some (k, inode_at bm k))" "2 \<le> unat k" "valid_inum k"
      "i_type (inode_at bm k) = 0"
    | "find_free_inode 2 bm = Inr None" "\<forall>j. 2 \<le> unat j \<and> valid_inum j \<longrightarrow> i_type (inode_at bm j) \<noteq> 0"
    using find_free_inode_spec [OF wf, of 2] by auto
  then show ?thesis
  proof cases
    case (1 k)
    define ino where "ino = (inode_at bm k)\<lparr>i_type := ucast type, i_size := 0, i_atime := now\<rparr>"
    define bm' where "bm' = set_inode bm k ino"
    have ok: "inode_ok ino" by (simp add: ino_def)
    have run: "alloc_inode now type bm = Inr (k, bm')"
      using 1(1) put_inode_valid [OF wf 1(3) ok] by (simp add: alloc_inode_def ino_def bm'_def)
    have "im_inv bm'" "file_at bm' = (file_at bm)(k \<mapsto> (i_type ino, []))"
      by (rule fresh_inode [OF inv 1(3) ok _ bm'_def]; simp add: ino_def ty)+
    moreover have "file_at bm k = None" using 1(4) by (simp add: file_at_def live_def)
    ultimately show ?thesis using run 1(2,3) by (auto simp: ino_def)
  next
    case 2
    have "2 \<le> unat j" if "valid_inum j" "j \<noteq> 1" for j
      using that by (metis One_nat_def Suc_1 Suc_leI le_neq_implies_less unat_1 valid_inum_def word_unat_eq_iff)
    with 2 show ?thesis by (auto simp: alloc_inode_def live_def)
  qed
qed

text \<open>Numbers are reused: a free inode 2 is the next one to be allocated.\<close>

lemma alloc_inode_reuses:
  assumes inv: "im_inv bm" and free: "\<not> live bm 2"
  shows "\<exists>bm'. alloc_inode now type bm = Inr (2, bm') \<and> used bm' = used bm"
proof -
  note wf = im_inv_wf [OF inv]
  have v: "valid_inum 2" and t: "i_type (inode_at bm 2) = 0" using free by (auto simp: live_def valid_inum_def)
  from find_free_inode_spec [OF wf, of 2] t v obtain k where
    k: "find_free_inode 2 bm = Inr (Some (k, inode_at bm k))" "2 \<le> unat k" and "\<not> 2 < unat k" by fastforce
  then have "k = 2" by (simp add: word_unat_eq_iff)
  then have "alloc_inode now type bm = Inr (2, set_inode bm 2 ((inode_at bm 2)\<lparr>i_type := ucast type, i_size := 0, i_atime := now\<rparr>))"
    using k(1) put_inode_valid [OF wf v, of "(inode_at bm 2)\<lparr>i_type := ucast type, i_size := 0, i_atime := now\<rparr>"]
    by (simp add: alloc_inode_def)
  then show ?thesis by (simp add: set_inode_def)
qed

lemma remove_block_num:
  "unat (if sz = 0 then 0 else (sz - 1) div 512 + 1 :: u32) = blk_count (unat sz)"
proof (cases "sz = 0")
  case False
  then obtain m where m: "unat sz = Suc m" by (metis not0_implies_Suc unat_eq_zero)
  then have "unat (sz - 1) = m" using False by (simp add: unat_sub_if')
  then have d: "unat ((sz - 1) div 512) = m div 512" by (simp add: unat_div)
  have "m < 4294967296" using unsigned_less [of sz, where ?'a = nat] m by simp
  then have "m div 512 < 8388608" by (simp add: div_less_iff_less_mult)
  with d have "unat ((sz - 1) div 512 + 1) = m div 512 + 1" by (simp add: unat_word_ariths)
  also have "\<dots> = (Suc m + 511) div 512" by simp
  finally show ?thesis using False m by (simp add: blk_count_def)
qed simp

lemma remove_file_spec:
  assumes inv: "im_inv bm" and lv: "live bm inum"
  shows "\<exists>bm'. remove_file inum bm = Inr bm' \<and> im_inv bm' \<and> file_at bm' = (file_at bm)(inum := None) \<and>
    used bm' = (\<lambda>b. used bm b \<and> b \<notin> set (owned bm inum))"
proof -
  define ino where "ino = inode_at bm inum"
  let ?e = "if i_size ino = 0 then 0 else (i_size ino - 1) div 512 + 1"
  note wf = im_inv_wf [OF inv] and v = live_valid [OF lv] and own = im_inv_owns [OF inv lv]
  have get: "get_inode inum bm = Inr ino" unfolding ino_def by (rule get_inode_valid [OF wf v])
  have e: "unat ?e = nblk ino" by (simp only: remove_block_num nblk_def)
  have ow: "owned bm inum = bids bm ino (nblk ino)" by (simp add: owned_def ino_def)
  have "addressable ino (unat ?e)" unfolding e using own by (simp add: owns_ok_def ino_def)
  from free_loop_spec [OF wf this, of 0] obtain bm1 where
    run: "for_u32 0 ?e (free_block_in_inode ino) bm = Inr bm1" and
    b1: "block_at bm1 = block_at bm" "bm_sb bm1 = bm_sb bm" and
    u1: "used bm1 = (\<lambda>b. used bm b \<and> b \<notin> set (owned bm inum))"
    unfolding e by (auto simp: ow set_bids fun_eq_iff)
  have wf1: "bm_wf bm1" using wf b1 by (simp add: bm_wf_def)
  have at1: "inode_at bm1 j = inode_at bm j" for j by (simp add: inode_at_def b1)
  define bm' where "bm' = set_inode bm1 inum (ino\<lparr>i_type := 0\<rparr>)"
  have ok: "inode_ok (ino\<lparr>i_type := 0\<rparr>)" by (simp add: ino_def)
  have "free_inode inum bm1 = Inr bm'"
    using get_inode_valid [OF wf1 v] put_inode_valid [OF wf1 v ok]
    by (simp add: free_inode_def at1 bm'_def ino_def)
  with get run have rm: "remove_file inum bm = Inr bm'" by (cases "i_size ino = 0") (simp_all add: remove_file_def)
  have wf': "bm_wf bm'" unfolding bm'_def by (rule itab.inv_wr [OF wf1 v ok])
  have at: "inode_at bm' inum = ino\<lparr>i_type := 0\<rparr>" unfolding bm'_def by (rule itab.rd_same [OF wf1 v ok])
  have dead: "\<not> live bm' inum" by (simp add: live_def at)
  have tab: "inode_at bm' j = inode_at bm j" if "valid_inum j" "j \<noteq> inum" for j
    using itab.rd_other [OF wf1 v ok that] by (simp add: bm'_def at1)
  have blk: "block_at bm' b = block_at bm b" if "b \<noteq> iblk inum" for b
    using that by (simp add: bm'_def block_at_set_inode b1)
  have us: "used bm' = used bm1" by (simp add: bm'_def)
  have keep: "used bm' b \<and> block_at bm' b = block_at bm b \<and> (live bm' inum \<longrightarrow> b \<notin> set (owned bm' inum))"
    if "live bm j" "j \<noteq> inum" "b \<in> set (owned bm j)" for j b
  proof -
    have b: "used bm b" "data_block b" "b \<notin> set (owned bm inum)"
      using im_inv_owns [OF inv that(1)] im_inv_disj [OF inv that(1) lv that(2)] that(3)
      by (auto simp: owns_ok_def)
    then have "b \<noteq> iblk inum" using iblk_bounds(2) [OF v] by (auto simp: data_block_def)
    with b dead blk show ?thesis by (simp add: us u1)
  qed
  have ind: "block_at bm' (i_blocks (inode_at bm j) ! NDIRECT) = block_at bm (i_blocks (inode_at bm j) ! NDIRECT)"
    if "large bm j" "j \<noteq> inum" for j
  proof (rule blk)
    have "unat (i_blocks (inode_at bm j) ! NDIRECT) < 12"
      using im_inv_owns [OF inv, of j] that(1) by (auto simp: large_def owns_ok_def addressable_def)
    then show "i_blocks (inode_at bm j) ! NDIRECT \<noteq> iblk inum" using iblk_bounds(1) [OF v] by auto
  qed
  have ient: "i_blocks (inode_at bm' inum) ! NDIRECT = i_blocks (inode_at bm inum) ! NDIRECT"
    by (simp add: at ino_def)
  note step = im_inv_step [where inum = inum, OF inv wf' tab keep ind]
  have "im_inv bm'" by (rule step(1)) (use dead ient in \<open>simp_all add: large_def\<close>)
  moreover have "file_at bm' j = file_at bm j" if "j \<noteq> inum" for j
    by (rule step(2)) (use dead ient that in \<open>simp_all add: large_def\<close>)
  moreover have "file_at bm' inum = None" using dead by (simp add: file_at_def)
  ultimately show ?thesis using rm us u1 by (auto simp: fun_eq_iff)
qed

section \<open>The initial disk\<close>

lemma inode_at_init: "i_type (inode_at bm_init j) = 0" "i_blocks (inode_at bm_init j) ! NDIRECT = 0"
proof -
  have z: "le_val (replicate k 0) = 0" for k by (induction k) simp_all
  show "i_type (inode_at bm_init j) = 0"
    by (simp add: inode_at_def decode_inode_def block_at_def bm_init_def disk_init_def dec16_def z)
  show "i_blocks (inode_at bm_init j) ! NDIRECT = 0"
    by (simp add: inode_at_def decode_inode_def block_at_def bm_init_def disk_init_def dec32_def z
        decode_array_def elem_at_def)
qed

lemma im_inv_bm_init: "im_inv bm_init" "file_at bm_init = Map.empty"
  by (simp_all add: im_inv_def bm_wf_init live_def large_def indirect_unset_def inode_at_init
      file_at_def fun_eq_iff del: NDIRECT_def)

lemma inode_manager_init_spec:
  assumes "inode_ok root"
  shows "\<exists>bm. inode_manager_init now root = Inr bm \<and> im_inv bm \<and> file_at bm = [1 \<mapsto> (1, [])]"
proof -
  define ino where "ino = root\<lparr>i_type := ucast T_DIR, i_size := 0, i_atime := now\<rparr>"
  define bm where "bm = set_inode bm_init 1 ino"
  have v: "valid_inum 1" by (simp add: valid_inum_def)
  have ok: "inode_ok ino" using assms by (simp add: ino_def)
  have run: "inode_manager_init now root = Inr bm"
    using put_inode_valid [OF bm_wf_init v ok] by (simp add: inode_manager_init_def ino_def bm_def)
  note inv = fresh_inode [OF im_inv_bm_init(1) v ok _ bm_def]
  have "im_inv bm" "file_at bm = (file_at bm_init)(1 \<mapsto> (i_type ino, []))"
    by (rule inv; simp add: ino_def)+
  with run show ?thesis by (simp add: im_inv_bm_init ino_def)
qed

section \<open>The shared indirect block\<close>

text \<open>
  From the 101st block on, any two files (the root directory apart) have the same block addresses,
  because both indirect entries are zero.
\<close>

lemma indirect_shared:
  assumes "im_inv bm" and "valid_inum i" and "valid_inum j" and "i \<noteq> 1" and "j \<noteq> 1"
    and "\<not> k < NDIRECT"
  shows "ino_bid bm (inode_at bm i) k = ino_bid bm (inode_at bm j) k"
  using im_inv_indirect [OF assms(1)] assms(2-6) by (simp add: ino_bid_def indirect_unset_def)

lemma write_large_clobbers:
  assumes inv: "im_inv bm" and lv: "live bm inum" "live bm j" and ne: "inum \<noteq> 1" "j \<noteq> 1" "j \<noteq> inum"
    and len: "length buf = unat sz" and big: "blk_count (unat sz) \<le> MAXFILE"
    and run: "write_file now inum buf sz bm = Inr bm'"
    and k: "NDIRECT \<le> k" "k < blk_count (unat sz)"
  shows "read_block_in_inode bm' (inode_at bm' j) (of_nat k) = Inr (chunk buf k)"
    and "inode_at bm' j = inode_at bm j"
proof -
  obtain ta tm tc where now: "now = (ta, tm, tc)" by (cases now)
  note wf = im_inv_wf [OF inv] and v = live_valid [OF lv(1)] and vj = live_valid [OF lv(2)]
  have z: "i_blocks (inode_at bm inum) ! NDIRECT = 0" "i_blocks (inode_at bm j) ! NDIRECT = 0"
    using im_inv_indirect [OF inv] v vj ne unfolding indirect_unset_def by blast+
  then have ad: "addressable (inode_at bm inum) (blk_count (unat sz))"
    and adj: "addressable (inode_at bm j) (blk_count (unat sz))"
    using big by (simp_all add: addressable_def)
  from write_file_run [OF wf v im_inv_owns [OF inv lv(1)] len ad, of now] run obtain ino1 bm1 where
    st: "bm' = stored (ta, tm, tc) inum buf sz ino1 bm1" and
    R: "resized bm (inode_at bm inum) (owned bm inum) (blk_count (unat sz)) (ino1, bm1)"
    by (auto simp: now)
  note post = stored_post [OF v ad refl len R st]
  show atj: "inode_at bm' j = inode_at bm j" by (rule post(9) [OF vj ne(3)])
  have same: "ino_bid bm' (inode_at bm' j) k = ino_bid bm' (inode_at bm' inum) k"
    using k(1) z post(10) by (simp add: ino_bid_def atj)
  have nb: "nblk (inode_at bm' inum) = blk_count (unat sz)" by (simp add: post(4) nblk_def)
  have "ino_bid bm' (inode_at bm' inum) k \<in> set (owned bm' inum)"
    using k(2) by (simp add: owned_def nb set_bids)
  then have "data_block (ino_bid bm' (inode_at bm' inum) k)"
    using post(2) by (simp add: owns_ok_def)
  then have "read_block_in_inode bm' (inode_at bm' j) (of_nat k) = Inr (block_at bm' (ino_bid bm' (inode_at bm' j) k))"
    using same by (intro read_block_valid [OF post(1) _ k(2)]) (simp_all add: atj adj)
  then show "read_block_in_inode bm' (inode_at bm' j) (of_nat k) = Inr (chunk buf k)" by (simp add: same post(11) [OF k(2)])
qed

end
