(* ===== verification/Inode_Props.thy ===== *)
theory Inode_Props
  imports Inode_Spec
begin

text \<open>
  The correctness properties of the block manager and of the inode manager, over the lemmas of
  the theories below. The abstract view of the disk is \<open>file_at\<close>, a partial map from inode numbers
  to a type and a content; \<open>im_inv\<close> is the invariant that makes it well defined.
\<close>

section \<open>A concrete file system\<close>

text \<open>The file system right after construction, with a zero-initialised root inode on the stack.\<close>

definition root0 :: inode where
  "root0 = \<lparr>i_type = 0, i_size = 0, i_atime = 0, i_mtime = 0, i_ctime = 0,
            i_blocks = replicate (NDIRECT + 1) 0\<rparr>"

definition fs0 :: block_manager where
  "fs0 = set_inode bm_init 1 (root0\<lparr>i_type := ucast T_DIR, i_size := 0, i_atime := 5\<rparr>)"

lemma fs0_run: "inode_manager_init 5 root0 = Inr fs0"
proof -
  have "valid_inum 1" by (simp add: valid_inum_def)
  moreover have "inode_ok (root0\<lparr>i_type := ucast T_DIR, i_size := 0, i_atime := 5\<rparr>)"
    by (simp add: root0_def inode_ok_def)
  ultimately show ?thesis
    using put_inode_valid [OF bm_wf_init] by (simp add: inode_manager_init_def fs0_def)
qed

lemma fs0_inv: "im_inv fs0" "file_at fs0 = [1 \<mapsto> (1, [])]"
proof -
  have "inode_ok root0" by (simp add: root0_def inode_ok_def)
  from inode_manager_init_spec [OF this, of 5]
  show "im_inv fs0" "file_at fs0 = [1 \<mapsto> (1, [])]" by (simp_all add: fs0_run)
qed

lemma inode_at_fs0: "inode_at fs0 1 = root0\<lparr>i_type := 1, i_size := 0, i_atime := 5\<rparr>"
proof -
  have "valid_inum 1" by (simp add: valid_inum_def)
  moreover have "inode_ok (root0\<lparr>i_type := ucast T_DIR, i_size := 0, i_atime := 5\<rparr>)"
    by (simp add: root0_def inode_ok_def)
  ultimately show ?thesis
    using itab.rd_same [OF bm_wf_init] by (simp add: fs0_def)
qed

lemma live_fs0: "live fs0 1"
  by (simp add: live_def valid_inum_def inode_at_fs0)

lemma not_used_fs0: "used fs0 = (\<lambda>_. False)"
  by (simp add: fs0_def used_def bm_init_def set_inode_def set_block_def fun_eq_iff)

lemma free_count_fs0: "0 < free_count fs0"
proof -
  have "free_count fs0 \<noteq> 0" unfolding free_count_0 not_used_fs0
    by (auto simp: data_block_def intro: exI [of _ 2000])
  then show ?thesis by simp
qed

lemma large_addr_fs0: "blk_count 3 = 1" "addressable (inode_at fs0 1) (Suc 0)" "\<not> large fs0 j"
  "nblk (inode_at fs0 1) = 0"
proof -
  have nb: "nblk (inode_at fs0 1) = 0" by (simp add: nblk_def inode_at_fs0)
  show "blk_count 3 = 1" by (simp add: blk_count_alt)
  show "addressable (inode_at fs0 1) (Suc 0)" by (simp add: addressable_def)
  show "nblk (inode_at fs0 1) = 0" by (rule nb)
  have "j = 1" if "live fs0 j"
  proof -
    have "file_at fs0 j \<noteq> None" using that by (simp add: file_at_def)
    then show "j = 1" by (simp add: fs0_inv split: if_splits)
  qed
  with nb show "\<not> large fs0 j" by (auto simp: large_def)
qed

text \<open>Two empty files beside the root, and enough free blocks for a file beyond the direct range.\<close>

definition file0 :: inode where
  "file0 = root0\<lparr>i_type := 2\<rparr>"

definition fs2 :: block_manager where
  "fs2 = set_inode (set_inode fs0 2 file0) 3 file0"

lemma file0_ok: "inode_ok file0" "i_type file0 \<noteq> 0" "i_size file0 = 0" "i_blocks file0 ! NDIRECT = 0"
  by (simp_all add: file0_def root0_def inode_ok_def)

lemma fs2_inv: "im_inv fs2" "file_at fs2 = [1 \<mapsto> (1, []), 2 \<mapsto> (2, []), 3 \<mapsto> (2, [])]" "used fs2 = (\<lambda>_. False)"
proof -
  have v: "valid_inum 2" "valid_inum 3" by (simp_all add: valid_inum_def)
  have ent: "i_blocks file0 ! NDIRECT = i_blocks (inode_at bm k) ! NDIRECT"
    if "im_inv bm" "valid_inum k" "k \<noteq> 1" for bm k
    using im_inv_indirect [OF that(1)] that(2,3) unfolding indirect_unset_def file0_ok by metis
  note f1 = fresh_inode [OF fs0_inv(1) v(1) file0_ok(1,3) refl file0_ok(2) ent [OF fs0_inv(1) v(1)]]
  note f2 = fresh_inode [OF f1(1) v(2) file0_ok(1,3) refl file0_ok(2) ent [OF f1(1) v(2)]]
  show "im_inv fs2" unfolding fs2_def using f2(1) by blast
  show "file_at fs2 = [1 \<mapsto> (1, []), 2 \<mapsto> (2, []), 3 \<mapsto> (2, [])]"
    unfolding fs2_def using f1(2) f2(2) fs0_inv(2) by (simp add: file0_def)
  show "used fs2 = (\<lambda>_. False)"
    by (simp add: fs2_def set_inode_def not_used_fs0)
qed

lemma live_fs2: "live fs2 j \<longleftrightarrow> j \<in> {1, 2, 3}"
proof -
  have "live fs2 j \<longleftrightarrow> file_at fs2 j \<noteq> None" by (simp add: file_at_def)
  then show ?thesis by (auto simp: fs2_inv)
qed

lemma nblk_fs2: "nblk (inode_at fs2 2) = 0" "\<not> large fs2 j"
proof -
  have v: "valid_inum 1" "valid_inum 2" "valid_inum 3" by (simp_all add: valid_inum_def)
  note wf0 = im_inv_wf [OF fs0_inv(1)]
  note wf1 = itab.inv_wr [OF wf0 v(2) file0_ok(1)]
  have "inode_at fs2 2 = file0" "inode_at fs2 3 = file0" "inode_at fs2 1 = inode_at fs0 1"
    using itab.rd_same [OF wf0 v(2) file0_ok(1)] itab.rd_same [OF wf1 v(3) file0_ok(1)]
      itab.rd_other [OF wf0 v(2) file0_ok(1) v(1)] itab.rd_other [OF wf1 v(3) file0_ok(1) v(1)]
      itab.rd_other [OF wf1 v(3) file0_ok(1) v(2)]
    by (simp_all add: fs2_def)
  then show "nblk (inode_at fs2 2) = 0" "\<not> large fs2 j"
    using large_addr_fs0(4) by (auto simp: large_def live_fs2 nblk_def file0_ok blk_count_alt)
qed

lemma free_count_fs2: "101 < free_count fs2"
proof -
  let ?f = "\<lambda>k. of_nat (2000 + k) :: u32"
  have "?f ` {0..<102} \<subseteq> {b. data_block b \<and> \<not> used fs2 b}"
    by (auto simp: data_block_def fs2_inv unat_of_nat simp del: of_nat_add)
  then have "card (?f ` {0..<102}) \<le> free_count fs2"
    unfolding free_count_def by (rule card_mono [rotated]) simp
  moreover have "inj_on ?f {0..<102}"
    by (rule inj_onI) (simp add: word_unat_eq_iff unat_of_nat del: of_nat_add)
  ultimately show ?thesis by (simp add: card_image)
qed

section \<open>Properties\<close>

text \<open>
  C13 (refinement). \<^verbatim>\<open>write_file\<close> of a buffer to a live inode either exits because the disk lacks the
  blocks the file must grow by, or returns with the invariant kept and the abstract store changed at
  that inode only: it holds exactly the buffer, with the type it had; the inode records the size
  and the modification time. The content must be addressable, and a file that needs the indirect
  block must be the only one that does.
\<close>

theorem write_file_refines:
  assumes "im_inv bm" and "live bm inum" and "length buf = unat sz"
    and "addressable (inode_at bm inum) (blk_count (unat sz))"
    and "\<And>j. blk_count (unat sz) > NDIRECT \<Longrightarrow> large bm j \<Longrightarrow> j = inum"
  shows "case write_file (ta, tm, tc) inum buf sz bm of
      Inl f \<Rightarrow> f = Exit \<and> free_count bm < blk_count (unat sz) - nblk (inode_at bm inum)
    | Inr bm' \<Rightarrow> im_inv bm' \<and>
        file_at bm' = (file_at bm)(inum \<mapsto> (i_type (inode_at bm inum), buf)) \<and>
        i_mtime (inode_at bm' inum) = tm \<and> i_size (inode_at bm' inum) = sz"
  by (rule write_file_spec) (fact assms)+

theorem write_file_refines_witness:
  "\<exists>bm'. write_file (7, 8, 9) 1 [1, 2, 3] 3 fs0 = Inr bm' \<and> file_at bm' = [1 \<mapsto> (1, [1, 2, 3])]"
proof -
  have "case write_file (7, 8, 9) 1 [1, 2, 3] 3 fs0 of
      Inl f \<Rightarrow> f = Exit \<and> free_count fs0 < blk_count (unat (3::u32)) - nblk (inode_at fs0 1)
    | Inr bm' \<Rightarrow> im_inv bm' \<and>
        file_at bm' = (file_at fs0)(1 \<mapsto> (i_type (inode_at fs0 1), [1, 2, 3])) \<and>
        i_mtime (inode_at bm' 1) = 8 \<and> i_size (inode_at bm' 1) = 3"
    by (rule write_file_refines [OF fs0_inv(1) live_fs0]) (simp_all add: large_addr_fs0)
  then show ?thesis
    using free_count_fs0 by (auto simp: large_addr_fs0 fs0_inv inode_at_fs0 split: sum.splits)
qed

text \<open>
  What \<^verbatim>\<open>write_file\<close> stored is what \<^verbatim>\<open>read_file\<close> returns: the size is the one
  written and the first \<open>sz\<close> bytes of the returned buffer are the bytes written; nothing is
  returned exactly when nothing was written. The read always succeeds.
\<close>

lemma write_read_file:
  assumes "im_inv bm" and "live bm inum" and "length buf = unat sz"
    and "addressable (inode_at bm inum) (blk_count (unat sz))"
    and "\<And>j. blk_count (unat sz) > NDIRECT \<Longrightarrow> large bm j \<Longrightarrow> j = inum"
    and "write_file now inum buf sz bm = Inr bm'"
  shows "\<exists>out bm''. read_file t inum bm' = Inr (out, sz, bm'') \<and> file_at bm'' = file_at bm' \<and>
    (case out of None \<Rightarrow> buf = [] | Some bs \<Rightarrow> take (unat sz) bs = buf)"
proof -
  obtain ta tm tc where now: "now = (ta, tm, tc)" by (cases now)
  from write_file_spec [OF assms(1-5), where ta = ta and tm = tm and tc = tc] assms(6)
  have post: "im_inv bm'" "file_at bm' = (file_at bm)(inum \<mapsto> (i_type (inode_at bm inum), buf))"
    "i_size (inode_at bm' inum) = sz" by (simp_all add: now)
  from post(2) have lv: "live bm' inum" and c: "file_content bm' inum = buf"
    by (auto simp: file_at_def fun_eq_iff split: if_splits)
  obtain out bm'' where rd: "read_file t inum bm' = Inr (out, sz, bm'')" "file_at bm'' = file_at bm'"
    "case out of None \<Rightarrow> sz = 0 | Some bs \<Rightarrow> sz \<noteq> 0 \<and> unat sz \<le> length bs \<and> take (unat sz) bs = buf"
    using read_file_spec [OF post(1) lv, of t] unfolding post(3) c by blast
  then show ?thesis using assms(3)
    by (intro exI [of _ out] exI [of _ bm'']) (simp split: option.splits)
qed

text \<open>
  C24 (functional). \<^verbatim>\<open>read_file\<close> of a live inode always succeeds, changes no file, and hands out the
  inode's size with a buffer whose first \<open>size\<close> bytes are the file's content; the buffer pointer is
  left alone exactly for an empty file.
\<close>

theorem read_file_refines:
  assumes "im_inv bm" and "live bm inum"
  shows "\<exists>buf bm'. read_file now inum bm = Inr (buf, i_size (inode_at bm inum), bm') \<and>
    im_inv bm' \<and> file_at bm' = file_at bm \<and>
    (case buf of None \<Rightarrow> i_size (inode_at bm inum) = 0
     | Some bs \<Rightarrow> i_size (inode_at bm inum) \<noteq> 0 \<and>
         unat (i_size (inode_at bm inum)) \<le> length bs \<and>
         take (unat (i_size (inode_at bm inum))) bs = file_content bm inum)"
  by (rule read_file_spec [OF assms])

theorem read_file_refines_witness:
  "\<exists>bm'. read_file 6 1 fs0 = Inr (None, 0, bm') \<and> file_at bm' = file_at fs0"
  using read_file_refines [OF fs0_inv(1) live_fs0, of 6]
  by (auto simp: inode_at_fs0 root0_def split: option.splits)

text \<open>
  \<^verbatim>\<open>alloc_inode\<close> exits only when every inode but the root's is live; otherwise it
  returns a number that named no file and adds there an empty file of the requested type, leaving
  every other file unchanged.
\<close>

lemma alloc_inode_refines:
  assumes "im_inv bm" and "ucast type \<noteq> (0 :: u16)"
  shows "case alloc_inode now type bm of
      Inl f \<Rightarrow> f = Exit \<and> (\<forall>j. valid_inum j \<and> j \<noteq> 1 \<longrightarrow> live bm j)
    | Inr (inum, bm') \<Rightarrow> im_inv bm' \<and> valid_inum inum \<and> inum \<noteq> 1 \<and> file_at bm inum = None \<and>
        file_at bm' = (file_at bm)(inum \<mapsto> (ucast type, []))"
  by (rule alloc_inode_spec [OF assms])

text \<open>
  C25 (functional). \<^verbatim>\<open>remove_file\<close> of a live inode always succeeds, deletes that file and no other,
  and the marks it clears are exactly those of the blocks the file owned.
\<close>

theorem remove_file_refines:
  assumes "im_inv bm" and "live bm inum"
  shows "\<exists>bm'. remove_file inum bm = Inr bm' \<and> im_inv bm' \<and> file_at bm' = (file_at bm)(inum := None) \<and>
    used bm' = (\<lambda>b. used bm b \<and> b \<notin> set (owned bm inum))"
  by (rule remove_file_spec [OF assms])

theorem remove_file_refines_witness:
  "\<exists>bm'. remove_file 1 fs0 = Inr bm' \<and> file_at bm' = Map.empty"
  using remove_file_refines [OF fs0_inv(1) live_fs0] by (auto simp: fs0_inv)

text \<open>
  The constructor always succeeds, whatever the uninitialised fields of the root
  inode hold: the invariant is established and the only file is the root, an empty directory.
\<close>

lemma inode_manager_establishes:
  assumes "inode_ok root"
  shows "\<exists>bm. inode_manager_init now root = Inr bm \<and> im_inv bm \<and> file_at bm = [1 \<mapsto> (1, [])]"
  by (rule inode_manager_init_spec [OF assms])

text \<open>
  \<^verbatim>\<open>alloc_block\<close> returns the lowest unused data block and marks it, or exits exactly
  when no data block is unused; it never touches the disk.
\<close>

lemma alloc_block_first_fit:
  "(case alloc_block bm of
      Inl f \<Rightarrow> f = Exit \<and> (\<forall>b. data_block b \<longrightarrow> used bm b)
    | Inr (b, bm') \<Rightarrow> data_block b \<and> \<not> used bm b \<and> (\<forall>c. data_block c \<and> unat c < unat b \<longrightarrow> used bm c) \<and>
        used bm' = (used bm)(b := True) \<and> bm_disk bm' = bm_disk bm)"
proof (cases "alloc_block bm")
  case (Inl f)
  with alloc_block_cases [of bm] alloc_block_Exit [of bm] show ?thesis by auto
next
  case (Inr p)
  obtain b bm' where p: "p = (b, bm')" by (cases p)
  from Inr p obtain ub where "alloc_scan alloc_start (using_blocks bm) = Some (b, ub)"
    by (auto simp: alloc_block_def split: option.splits)
  from alloc_scan_Some [OF this] have "\<forall>c. data_block c \<and> unat c < unat b \<longrightarrow> used bm c"
    by (auto simp: data_block_def used_def)
  with alloc_block_Inr [of bm b bm'] Inr p show ?thesis by simp
qed

text \<open>
  Encoding an inode into its struct layout and decoding it gives the inode back,
  whatever the two padding bytes hold, and the encoding occupies exactly \<^verbatim>\<open>sizeof(inode)\<close> bytes.
\<close>

lemma inode_codec_roundtrip:
  assumes "length pad = 2" and "inode_ok ino"
  shows "decode_inode (inode_bytes pad ino) = ino \<and> length (inode_bytes pad ino) = sizeof_inode"
  using decode_inode_bytes [OF assms] length_inode_bytes [OF assms] by simp

text \<open>
  C26 (safety, a defect). No code path allocates an indirect block, so the indirect entry of every
  inode but the root's stays 0 and all large files keep their block addresses in the same disk
  block. After a write of more than \<^verbatim>\<open>NDIRECT\<close> blocks to one file, another file reads that
  file's data in its blocks from \<^verbatim>\<open>NDIRECT\<close> on, although its own inode has not changed.
\<close>

theorem large_write_clobbers_other_file:
  assumes "im_inv bm" and "live bm inum" and "live bm j" and "inum \<noteq> 1" and "j \<noteq> 1" and "j \<noteq> inum"
    and "length buf = unat sz" and "blk_count (unat sz) \<le> MAXFILE"
    and "write_file now inum buf sz bm = Inr bm'"
    and "NDIRECT \<le> k" and "k < blk_count (unat sz)"
  shows "read_block_in_inode bm' (inode_at bm' j) (of_nat k) = Inr (chunk buf k) \<and>
    inode_at bm' j = inode_at bm j"
  using write_large_clobbers [OF assms] by simp

theorem large_write_clobbers_other_file_witness:
  "\<exists>bm'. write_file (7, 8, 9) 2 (replicate 51300 65) 51300 fs2 = Inr bm' \<and>
     read_block_in_inode bm' (inode_at bm' 3) 100 = Inr (chunk (replicate 51300 65) 100)"
proof -
  have ad: "addressable (inode_at fs2 2) (blk_count (unat (51300 :: u32)))"
    using im_inv_indirect [OF fs2_inv(1)] by (simp add: addressable_def blk_count_alt indirect_unset_def valid_inum_def)
  have lv: "live fs2 2" "live fs2 3" by (simp_all add: live_fs2)
  obtain bm' where w: "write_file (7, 8, 9) 2 (replicate 51300 65) 51300 fs2 = Inr bm'"
    using write_file_spec [OF fs2_inv(1) lv(1) _ ad, of "replicate 51300 65" 8 7 9] free_count_fs2
    by (auto simp: nblk_fs2 blk_count_alt split: sum.splits)
  have "read_block_in_inode bm' (inode_at bm' 3) (of_nat 100) = Inr (chunk (replicate 51300 65) 100) \<and>
      inode_at bm' 3 = inode_at fs2 3"
    by (rule large_write_clobbers_other_file [OF fs2_inv(1) lv _ _ _ _ _ w]) (simp_all add: blk_count_alt)
  with w show ?thesis by (simp only: of_nat_numeral) blast
qed

end
