(* ===== verification/Extent_Server.thy ===== *)
theory Extent_Server
  imports Inode_Props
begin

text \<open>
  The extent server of \<^verbatim>\<open>extent_server.cc\<close>: each RPC handler masks the 64-bit extent id to 31 bits
  and calls the inode manager. All handlers return \<^verbatim>\<open>extent_protocol::OK\<close>, so a handler that returns
  at all has succeeded. The interface the clients rely on is the locale \<open>extent_store\<close>; it is
  interpreted on these handlers at the end of the theory.
\<close>

section \<open>Handlers\<close>

record full_file =
  ff_attr :: attr
  ff_buf :: "byte list"

text \<open>\<^verbatim>\<open>id &= 0x7fffffff\<close> and the conversion to the \<^verbatim>\<open>uint32_t\<close> parameter of the inode manager.\<close>

definition es_id :: "u64 \<Rightarrow> u32" where
  "es_id eid = ucast (and eid 0x7fffffff)"

definition es_create :: "u32 \<Rightarrow> u32 \<Rightarrow> block_manager \<Rightarrow> (u64 \<times> block_manager) res" where
  "es_create now type im = bindR (alloc_inode now type im) (\<lambda>(inum, im). Inr (ucast inum, im))"

text \<open>
  \<^verbatim>\<open>int size = buf.size()\<close> keeps the low 32 bits. The bytes passed are those of the string; its
  terminating zero is never read, because the reads stop at \<^verbatim>\<open>size\<close>.
\<close>

definition es_put :: "u32 \<times> u32 \<times> u32 \<Rightarrow> u64 \<Rightarrow> byte list \<Rightarrow> block_manager \<Rightarrow> block_manager res" where
  "es_put now eid buf im = write_file now (es_id eid) buf (of_nat (length buf)) im"

text \<open>The common tail of \<^verbatim>\<open>get\<close> and \<^verbatim>\<open>getattr\<close> that turns \<^verbatim>\<open>cbuf\<close> and \<^verbatim>\<open>size\<close> into \<^verbatim>\<open>file.buf\<close>.\<close>

definition assign_buf :: "byte list option \<Rightarrow> u32 \<Rightarrow> byte list res" where
  "assign_buf cbuf sz =
     (if sz = 0 then Inr []
      else case cbuf of None \<Rightarrow> Inl Undefined | Some bs \<Rightarrow> read_mem 0 (unat sz) bs)"

definition es_get :: "u32 \<Rightarrow> u64 \<Rightarrow> block_manager \<Rightarrow> (full_file \<times> block_manager) res" where
  "es_get now eid im =
     (let i = es_id eid in
      bindR (read_file now i im) (\<lambda>(cbuf, sz, im).
      bindR (assign_buf cbuf sz) (\<lambda>buf.
      bindR (im_getattr i im) (\<lambda>a. Inr (\<lparr>ff_attr = a, ff_buf = buf\<rparr>, im)))))"

definition es_getattr :: "u32 \<Rightarrow> u64 \<Rightarrow> block_manager \<Rightarrow> (full_file \<times> block_manager) res" where
  "es_getattr now eid im =
     (let i = es_id eid in
      bindR (im_getattr i im) (\<lambda>a.
      bindR (read_file now i im) (\<lambda>(cbuf, sz, im).
      bindR (assign_buf cbuf sz) (\<lambda>buf. Inr (\<lparr>ff_attr = a, ff_buf = buf\<rparr>, im)))))"

definition es_remove :: "u64 \<Rightarrow> block_manager \<Rightarrow> block_manager res" where
  "es_remove eid im = remove_file (es_id eid) im"

text \<open>
  The dispatch that \<^verbatim>\<open>extent_smain.cc\<close> sets up: one registered handler per RPC number. The times are
  what the calls of \<^verbatim>\<open>time(NULL)\<close> in the handler return.
\<close>

datatype es_request = Create u32 | Put u64 "byte list" | Get u64 | Getattr u64 | Remove u64

datatype es_reply = RId u64 | RUnit | RFile full_file

fun es_handle :: "u32 \<times> u32 \<times> u32 \<Rightarrow> es_request \<Rightarrow> block_manager \<Rightarrow> (es_reply \<times> block_manager) res" where
  "es_handle ts (Create type) im = bindR (es_create (fst ts) type im) (\<lambda>(e, im). Inr (RId e, im))"
| "es_handle ts (Put e buf) im = bindR (es_put ts e buf im) (\<lambda>im. Inr (RUnit, im))"
| "es_handle ts (Get e) im = bindR (es_get (fst ts) e im) (\<lambda>(f, im). Inr (RFile f, im))"
| "es_handle ts (Getattr e) im = bindR (es_getattr (fst ts) e im) (\<lambda>(f, im). Inr (RFile f, im))"
| "es_handle ts (Remove e) im = bindR (es_remove e im) (\<lambda>im. Inr (RUnit, im))"

fun es_run :: "((u32 \<times> u32 \<times> u32) \<times> es_request) list \<Rightarrow> block_manager \<Rightarrow> (es_reply list \<times> block_manager) res" where
  "es_run [] im = Inr ([], im)"
| "es_run ((ts, r) # rs) im =
     bindR (es_handle ts r im) (\<lambda>(p, im). bindR (es_run rs im) (\<lambda>(ps, im). Inr (p # ps, im)))"

section \<open>The interface\<close>

text \<open>
  A store of typed byte strings named by extent ids. \<open>key\<close> says which ids name the same extent,
  \<open>content\<close> is the abstract store and \<open>room\<close> the condition under which a content can be stored.
\<close>

locale extent_store =
  fixes create :: "u32 \<Rightarrow> u32 \<Rightarrow> 's \<Rightarrow> (u64 \<times> 's) res"
    and put :: "u32 \<times> u32 \<times> u32 \<Rightarrow> u64 \<Rightarrow> byte list \<Rightarrow> 's \<Rightarrow> 's res"
    and get :: "u32 \<Rightarrow> u64 \<Rightarrow> 's \<Rightarrow> (full_file \<times> 's) res"
    and getattr :: "u32 \<Rightarrow> u64 \<Rightarrow> 's \<Rightarrow> (full_file \<times> 's) res"
    and remove :: "u64 \<Rightarrow> 's \<Rightarrow> 's res"
    and inv :: "'s \<Rightarrow> bool" and key :: "u64 \<Rightarrow> 'k"
    and content :: "'s \<Rightarrow> 'k \<rightharpoonup> u16 \<times> byte list"
    and room :: "'s \<Rightarrow> u64 \<Rightarrow> byte list \<Rightarrow> bool"
  assumes create_fresh: "inv s \<Longrightarrow> ucast type \<noteq> (0 :: u16) \<Longrightarrow> create now type s = Inr (e, s') \<Longrightarrow>
      inv s' \<and> content s (key e) = None \<and> content s' = (content s)(key e \<mapsto> (ucast type, []))"
    and put_stores: "inv s \<Longrightarrow> content s (key e) = Some (ty, c) \<Longrightarrow> room s e buf \<Longrightarrow> put ts e buf s = Inr s' \<Longrightarrow>
      inv s' \<and> content s' = (content s)(key e \<mapsto> (ty, buf))"
    and get_returns: "inv s \<Longrightarrow> content s (key e) = Some (ty, c) \<Longrightarrow> \<exists>a s'. get now e s = Inr (\<lparr>ff_attr = a, ff_buf = c\<rparr>, s') \<and>
      inv s' \<and> content s' = content s \<and> a_type a = scast ty \<and> unat (a_size a) = length c"
    and getattr_returns: "inv s \<Longrightarrow> content s (key e) = Some (ty, c) \<Longrightarrow> \<exists>a s'. getattr now e s = Inr (\<lparr>ff_attr = a, ff_buf = c\<rparr>, s') \<and>
      inv s' \<and> content s' = content s \<and> a_type a = scast ty \<and> unat (a_size a) = length c"
    and remove_deletes: "inv s \<Longrightarrow> content s (key e) = Some (ty, c) \<Longrightarrow>
      \<exists>s'. remove e s = Inr s' \<and> inv s' \<and> content s' = (content s)(key e := None)"
begin

text \<open>What a client sees of its own writes and of writes to other extents.\<close>

lemma get_after_put:
  assumes "inv s" and "content s (key e) = Some (ty, c)" and "room s e buf" and "put ts e buf s = Inr s'"
  shows "\<exists>a s''. get now e s' = Inr (\<lparr>ff_attr = a, ff_buf = buf\<rparr>, s'') \<and> inv s'' \<and> content s'' = content s' \<and>
    a_type a = scast ty \<and> unat (a_size a) = length buf"
  using get_returns [of s' e ty buf now] put_stores [OF assms] by auto

lemma get_after_other_put:
  assumes "inv s" and "content s (key e) = Some (ty, c)" and "room s e buf" and "put ts e buf s = Inr s'"
    and "key d \<noteq> key e" and "content s (key d) = Some (ty', c')"
  shows "\<exists>a s''. get now d s' = Inr (\<lparr>ff_attr = a, ff_buf = c'\<rparr>, s'') \<and> content s'' = content s'"
  using get_returns [of s' d ty' c' now] put_stores [OF assms(1-4)] assms(5,6) by auto

lemma get_after_create:
  assumes "inv s" and "ucast type \<noteq> (0 :: u16)" and "create now type s = Inr (e, s')"
  shows "\<exists>a s''. get t e s' = Inr (\<lparr>ff_attr = a, ff_buf = []\<rparr>, s'') \<and> a_type a = scast (ucast type :: u16)"
  using get_returns [of s' e "ucast type" "[]" t] create_fresh [OF assms] by auto

end

section \<open>The handlers implement the interface\<close>

text \<open>
  Room for a content: it fits the addressing of the inode and the \<^verbatim>\<open>int\<close> size, and a content that
  needs the indirect block needs it alone.
\<close>

definition es_room :: "block_manager \<Rightarrow> u64 \<Rightarrow> byte list \<Rightarrow> bool" where
  "es_room im eid buf \<longleftrightarrow> addressable (inode_at im (es_id eid)) (blk_count (length buf)) \<and>
     (blk_count (length buf) > NDIRECT \<longrightarrow> (\<forall>j. large im j \<longrightarrow> j = es_id eid))"

lemma unat_es_id: "unat (es_id eid) = unat eid mod 2 ^ 31"
proof -
  have "and eid 0x7fffffff = take_bit 31 eid"
    by (simp add: take_bit_eq_mask mask_eq_exp_minus_1)
  then have "unat (and eid 0x7fffffff) = unat eid mod 2 ^ 31"
    by (simp only: unsigned_take_bit_eq) (simp only: take_bit_eq_mod)
  moreover have "unat eid mod 2 ^ 31 mod 2 ^ 32 = unat eid mod 2 ^ 31"
    by (rule mod_less) (rule less_trans [OF mod_less_divisor]; simp)
  ultimately show ?thesis
    by (simp only: es_id_def unsigned_ucast_eq take_bit_eq_mod len_of_numeral_defs) simp
qed

lemma es_id_ucast: "unat (i :: u32) < 2 ^ 31 \<Longrightarrow> es_id (ucast i) = i"
  by (simp add: word_unat_eq_iff unat_es_id unsigned_ucast_eq take_bit_eq_mod)

lemma file_at_SomeD:
  assumes "file_at im i = Some (ty, c)"
  shows "live im i" "i_type (inode_at im i) = ty" "file_content im i = c"
  using assms by (simp_all add: file_at_def split: if_splits)

lemma length_file_content:
  assumes "im_inv im" and "live im i"
  shows "length (file_content im i) = unat (i_size (inode_at im i))"
proof -
  from read_file_spec [OF assms, of 0] obtain buf where *:
    "case buf of None \<Rightarrow> i_size (inode_at im i) = 0
     | Some bs \<Rightarrow> i_size (inode_at im i) \<noteq> 0 \<and> unat (i_size (inode_at im i)) \<le> length bs \<and>
         take (unat (i_size (inode_at im i))) bs = file_content im i" by blast
  then show ?thesis
  proof (cases buf)
    case (Some bs)
    then have "unat (i_size (inode_at im i)) \<le> length bs" using * by simp
    then have "length (take (unat (i_size (inode_at im i))) bs) = unat (i_size (inode_at im i))"
      by (simp only: length_take min_absorb2)
    moreover have "take (unat (i_size (inode_at im i))) bs = file_content im i" using Some * by simp
    ultimately show ?thesis by metis
  qed (simp add: file_content_def)
qed

lemma assign_buf_content:
  assumes "case cbuf of None \<Rightarrow> sz = 0 | Some bs \<Rightarrow> sz \<noteq> 0 \<and> unat sz \<le> length bs \<and> take (unat sz) bs = c"
    and "length c = unat sz"
  shows "assign_buf cbuf sz = Inr c"
  using assms by (cases cbuf) (auto simp: assign_buf_def read_mem_def)

text \<open>Both reading handlers, at an inode that names a file.\<close>

lemma getattr_run:
  assumes "im_inv im" and "file_at im i = Some (ty, c)"
  shows "\<exists>a. im_getattr i im = Inr a \<and> a_type a = scast ty \<and> unat (a_size a) = length c"
proof -
  note f = file_at_SomeD [OF assms(2)]
  have "get_inode i im = Inr (inode_at im i)" by (rule get_inode_valid [OF im_inv_wf [OF assms(1)] live_valid [OF f(1)]])
  then show ?thesis using f length_file_content [OF assms(1) f(1)] by (simp add: im_getattr_def)
qed

lemma read_run:
  assumes "im_inv im" and "file_at im i = Some (ty, c)"
  shows "\<exists>cbuf sz im'. read_file now i im = Inr (cbuf, sz, im') \<and> assign_buf cbuf sz = Inr c \<and>
    im_inv im' \<and> file_at im' = file_at im"
proof -
  note f = file_at_SomeD [OF assms(2)]
  note len = length_file_content [OF assms(1) f(1)]
  obtain cbuf im' where "read_file now i im = Inr (cbuf, i_size (inode_at im i), im')" "im_inv im'"
      "file_at im' = file_at im"
    and "case cbuf of None \<Rightarrow> i_size (inode_at im i) = 0
     | Some bs \<Rightarrow> i_size (inode_at im i) \<noteq> 0 \<and> unat (i_size (inode_at im i)) \<le> length bs \<and>
         take (unat (i_size (inode_at im i))) bs = c"
    using read_file_spec [OF assms(1) f(1), of now] unfolding f(3) by blast
  with assign_buf_content [where cbuf = cbuf] len f(3) show ?thesis by blast
qed

lemma es_get_run:
  assumes "im_inv im" and "file_at im (es_id e) = Some (ty, c)"
  shows "\<exists>a im'. es_get now e im = Inr (\<lparr>ff_attr = a, ff_buf = c\<rparr>, im') \<and> im_inv im' \<and>
    file_at im' = file_at im \<and> a_type a = scast ty \<and> unat (a_size a) = length c"
proof -
  obtain cbuf sz im' where r: "read_file now (es_id e) im = Inr (cbuf, sz, im')"
      "assign_buf cbuf sz = Inr c" "im_inv im'" "file_at im' = file_at im"
    using read_run [OF assms] by blast
  from getattr_run [OF r(3), of "es_id e" ty c] r(4) assms(2) obtain a where
    "im_getattr (es_id e) im' = Inr a" "a_type a = scast ty" "unat (a_size a) = length c" by auto
  with r show ?thesis by (simp add: es_get_def Let_def)
qed

lemma es_getattr_run:
  assumes "im_inv im" and "file_at im (es_id e) = Some (ty, c)"
  shows "\<exists>a im'. es_getattr now e im = Inr (\<lparr>ff_attr = a, ff_buf = c\<rparr>, im') \<and> im_inv im' \<and>
    file_at im' = file_at im \<and> a_type a = scast ty \<and> unat (a_size a) = length c"
proof -
  obtain cbuf sz im' where r: "read_file now (es_id e) im = Inr (cbuf, sz, im')"
      "assign_buf cbuf sz = Inr c" "im_inv im'" "file_at im' = file_at im"
    using read_run [OF assms] by blast
  from getattr_run [OF assms] obtain a where
    "im_getattr (es_id e) im = Inr a" "a_type a = scast ty" "unat (a_size a) = length c" by auto
  with r show ?thesis by (simp add: es_getattr_def Let_def)
qed

lemma es_put_run:
  assumes inv: "im_inv im" and f: "file_at im (es_id e) = Some (ty, c)" and room: "es_room im e buf"
  shows "case es_put ts e buf im of
      Inl flt \<Rightarrow> flt = Exit \<and> free_count im < blk_count (length buf) - blk_count (length c)
    | Inr im' \<Rightarrow> im_inv im' \<and> file_at im' = (file_at im)(es_id e \<mapsto> (ty, buf))"
proof -
  obtain ta tm tc where ts: "ts = (ta, tm, tc)" by (cases ts)
  note fd = file_at_SomeD [OF f]
  have ad: "addressable (inode_at im (es_id e)) (blk_count (length buf))"
    and al: "\<And>j. blk_count (length buf) > NDIRECT \<Longrightarrow> large im j \<Longrightarrow> j = es_id e"
    using room by (auto simp: es_room_def)
  have "length buf \<le> 512 * 228"
    using blk_count_le [of "length buf"] addressable_MAXFILE [OF ad] by simp
  then have len: "length buf = unat (of_nat (length buf) :: u32)" by (simp add: unat_of_nat)
  have n: "nblk (inode_at im (es_id e)) = blk_count (length c)"
    using length_file_content [OF inv fd(1)] fd(3) by (simp add: nblk_def)
  show ?thesis
    using write_file_spec [OF inv fd(1) len, folded len, OF ad al, where ta = ta and tm = tm and tc = tc]
    by (simp add: es_put_def ts fd(2) n split: sum.splits)
qed

lemma es_create_run:
  assumes inv: "im_inv im" and ty: "ucast type \<noteq> (0 :: u16)"
  shows "case es_create now type im of
      Inl flt \<Rightarrow> flt = Exit \<and> (\<forall>j. valid_inum j \<and> j \<noteq> 1 \<longrightarrow> live im j)
    | Inr (e, im') \<Rightarrow> im_inv im' \<and> 1 < unat e \<and> unat e \<le> INODE_NUM \<and> file_at im (es_id e) = None \<and>
        file_at im' = (file_at im)(es_id e \<mapsto> (ucast type, []))"
proof (cases "alloc_inode now type im")
  case (Inl flt)
  then show ?thesis using alloc_inode_spec [OF assms, of now] by (simp add: es_create_def)
next
  case (Inr p)
  obtain i im' where p: "p = (i, im')" by (cases p)
  have v: "valid_inum i" "i \<noteq> 1" using alloc_inode_spec [OF assms, of now] Inr p by auto
  then have "unat (ucast i :: u64) = unat i" by (simp add: unsigned_ucast_eq take_bit_eq_mod valid_inum_def)
  moreover have "unat i \<noteq> 1" using v(2) by (simp add: word_unat_eq_iff)
  moreover have "es_id (ucast i) = i" using v by (intro es_id_ucast) (simp add: valid_inum_def)
  ultimately show ?thesis
    using alloc_inode_spec [OF assms, of now] Inr p v by (simp add: es_create_def valid_inum_def)
qed

interpretation es: extent_store es_create es_put es_get es_getattr es_remove im_inv es_id file_at es_room
proof
  fix s e s' type now
  assume "im_inv s" "ucast type \<noteq> (0 :: u16)" "es_create now type s = Inr (e, s')"
  with es_create_run [of s type now]
  show "im_inv s' \<and> file_at s (es_id e) = None \<and> file_at s' = (file_at s)(es_id e \<mapsto> (ucast type, []))" by simp
next
  fix s e ty c buf ts s'
  assume "im_inv s" "file_at s (es_id e) = Some (ty, c)" "es_room s e buf" "es_put ts e buf s = Inr s'"
  with es_put_run [of s e ty c buf ts]
  show "im_inv s' \<and> file_at s' = (file_at s)(es_id e \<mapsto> (ty, buf))" by simp
next
  fix s e ty c now
  assume *: "im_inv s" "file_at s (es_id e) = Some (ty, c)"
  show "\<exists>a s'. es_get now e s = Inr (\<lparr>ff_attr = a, ff_buf = c\<rparr>, s') \<and>
    im_inv s' \<and> file_at s' = file_at s \<and> a_type a = scast ty \<and> unat (a_size a) = length c"
    by (rule es_get_run [OF *])
  show "\<exists>a s'. es_getattr now e s = Inr (\<lparr>ff_attr = a, ff_buf = c\<rparr>, s') \<and>
    im_inv s' \<and> file_at s' = file_at s \<and> a_type a = scast ty \<and> unat (a_size a) = length c"
    by (rule es_getattr_run [OF *])
  show "\<exists>s'. es_remove e s = Inr s' \<and> im_inv s' \<and> file_at s' = (file_at s)(es_id e := None)"
    using remove_file_spec [OF *(1) file_at_SomeD(1) [OF *(2)]] by (auto simp: es_remove_def)
qed

section \<open>Histories of requests\<close>

text \<open>
  The specification of the server: a map from inode numbers to typed contents. A request is
  admissible when it names an existing file, a new file has a non-zero type, and a content stays in
  the direct blocks.
\<close>

type_synonym files = "u32 \<rightharpoonup> u16 \<times> byte list"

fun req_ok :: "files \<Rightarrow> es_request \<Rightarrow> bool" where
  "req_ok F (Create type) \<longleftrightarrow> ucast type \<noteq> (0 :: u16)"
| "req_ok F (Put e buf) \<longleftrightarrow> F (es_id e) \<noteq> None \<and> blk_count (length buf) \<le> NDIRECT"
| "req_ok F (Get e) \<longleftrightarrow> F (es_id e) \<noteq> None"
| "req_ok F (Getattr e) \<longleftrightarrow> F (es_id e) \<noteq> None"
| "req_ok F (Remove e) \<longleftrightarrow> F (es_id e) \<noteq> None"

fun allows :: "files \<Rightarrow> es_request \<Rightarrow> es_reply \<Rightarrow> files \<Rightarrow> bool" where
  "allows F (Create type) (RId e) F' \<longleftrightarrow> F (es_id e) = None \<and> F' = F(es_id e \<mapsto> (ucast type, []))"
| "allows F (Put e buf) RUnit F' \<longleftrightarrow> (\<exists>ty c. F (es_id e) = Some (ty, c) \<and> F' = F(es_id e \<mapsto> (ty, buf)))"
| "allows F (Get e) (RFile f) F' \<longleftrightarrow> (\<exists>ty. F (es_id e) = Some (ty, ff_buf f) \<and> F' = F \<and>
     a_type (ff_attr f) = scast ty \<and> unat (a_size (ff_attr f)) = length (ff_buf f))"
| "allows F (Getattr e) (RFile f) F' \<longleftrightarrow> (\<exists>ty. F (es_id e) = Some (ty, ff_buf f) \<and> F' = F \<and>
     a_type (ff_attr f) = scast ty \<and> unat (a_size (ff_attr f)) = length (ff_buf f))"
| "allows F (Remove e) RUnit F' \<longleftrightarrow> F (es_id e) \<noteq> None \<and> F' = F(es_id e := None)"
| "allows F _ _ F' \<longleftrightarrow> False"

fun spec_run :: "files \<Rightarrow> es_request list \<Rightarrow> es_reply list \<Rightarrow> files \<Rightarrow> bool" where
  "spec_run F [] [] F' \<longleftrightarrow> F' = F"
| "spec_run F (r # rs) (p # ps) F' \<longleftrightarrow> (\<exists>F1. allows F r p F1 \<and> spec_run F1 rs ps F')"
| "spec_run F _ _ F' \<longleftrightarrow> False"

fun run_ok :: "((u32 \<times> u32 \<times> u32) \<times> es_request) list \<Rightarrow> block_manager \<Rightarrow> bool" where
  "run_ok [] im \<longleftrightarrow> True"
| "run_ok ((ts, r) # rs) im \<longleftrightarrow> req_ok (file_at im) r \<and>
     (case es_handle ts r im of Inl _ \<Rightarrow> True | Inr (p, im') \<Rightarrow> run_ok rs im')"

lemma es_handle_refines:
  assumes inv: "im_inv im" and ok: "req_ok (file_at im) r"
  shows "case es_handle ts r im of Inl flt \<Rightarrow> flt = Exit
    | Inr (p, im') \<Rightarrow> im_inv im' \<and> allows (file_at im) r p (file_at im')"
proof (cases r)
  case (Create type)
  with es_create_run [OF inv, of type "fst ts"] ok show ?thesis
    by (cases "es_create (fst ts) type im") auto
next
  case (Put e buf)
  with ok obtain ty c where f: "file_at im (es_id e) = Some (ty, c)" by auto
  have "es_room im e buf" using ok Put by (auto simp: es_room_def addressable_def)
  from es_put_run [OF inv f this, of ts] f Put show ?thesis
    by (cases "es_put ts e buf im") auto
next
  case (Get e)
  with ok obtain ty c where "file_at im (es_id e) = Some (ty, c)" by auto
  from es_get_run [OF inv this, of "fst ts"] this Get show ?thesis by auto
next
  case (Getattr e)
  with ok obtain ty c where "file_at im (es_id e) = Some (ty, c)" by auto
  from es_getattr_run [OF inv this, of "fst ts"] this Getattr show ?thesis by auto
next
  case (Remove e)
  with ok obtain ty c where "file_at im (es_id e) = Some (ty, c)" by auto
  from es.remove_deletes [OF inv this] this Remove show ?thesis by auto
qed

lemma es_run_spec:
  assumes "im_inv im" and "run_ok rs im"
  shows "case es_run rs im of Inl flt \<Rightarrow> flt = Exit
    | Inr (ps, im') \<Rightarrow> im_inv im' \<and> spec_run (file_at im) (map snd rs) ps (file_at im')"
  using assms
proof (induction rs im rule: es_run.induct)
  case (2 ts r rs im)
  note h = es_handle_refines [OF "2.prems"(1), of r ts]
  show ?case
  proof (cases "es_handle ts r im")
    case (Inl flt)
    with h "2.prems"(2) show ?thesis by simp
  next
    case (Inr q)
    obtain p im1 where q: "q = (p, im1)" by (cases q)
    with Inr h "2.prems"(2) have s: "im_inv im1" "allows (file_at im) r p (file_at im1)" "run_ok rs im1" by auto
    from "2.IH" [OF Inr q [symmetric] s(1,3)] s(2) Inr q show ?thesis
      by (cases "es_run rs im1") auto
  qed
qed simp

section \<open>Properties\<close>

text \<open>
  C16 (refinement). Every history of admissible requests served from a consistent disk is a history
  of the specification: each reply is the one the map of files calls for, the final disk represents
  the final map, and the only failure is the exit for lack of inodes or blocks.
\<close>

theorem es_history_refines:
  assumes "im_inv im" and "run_ok rs im"
  shows "case es_run rs im of Inl flt \<Rightarrow> flt = Exit
    | Inr (ps, im') \<Rightarrow> im_inv im' \<and> spec_run (file_at im) (map snd rs) ps (file_at im')"
  by (rule es_run_spec [OF assms])

theorem es_history_refines_witness:
  "case es_run [((1, 2, 3), Put 1 [5, 6]), ((4, 4, 4), Get 1)] fs0 of
     Inl flt \<Rightarrow> flt = Exit
   | Inr (ps, im') \<Rightarrow> im_inv im' \<and> spec_run (file_at fs0) [Put 1 [5, 6], Get 1] ps (file_at im')"
proof -
  have e: "es_id 1 = 1" by (simp add: word_unat_eq_iff unat_es_id)
  have "req_ok (file_at fs0) (Put 1 [5, 6])" by (simp add: e fs0_inv blk_count_alt)
  moreover from es_handle_refines [OF fs0_inv(1) this, of "(1, 2, 3)"]
  have "case es_handle (1, 2, 3) (Put 1 [5, 6]) fs0 of Inl _ \<Rightarrow> True
    | Inr (p, im') \<Rightarrow> req_ok (file_at im') (Get 1)"
    by (cases "es_put (1, 2, 3) 1 [5, 6] fs0") auto
  ultimately have "run_ok [((1, 2, 3), Put 1 [5, 6]), ((4, 4, 4), Get 1)] fs0"
    by (auto split: sum.splits)
  from es_history_refines [OF fs0_inv(1) this] show ?thesis by (simp only: list.map snd_conv)
qed

text \<open>
  What \<^verbatim>\<open>put\<close> stored under an extent id, \<^verbatim>\<open>get\<close> returns under every id with the
  same low 31 bits, with the attributes of the stored content.
\<close>

lemma es_get_after_put:
  assumes "im_inv im" and "file_at im (es_id e) = Some (ty, c)" and "es_room im e buf"
    and "es_put ts e buf im = Inr im'" and "es_id d = es_id e"
  shows "\<exists>a im''. es_get now d im' = Inr (\<lparr>ff_attr = a, ff_buf = buf\<rparr>, im'') \<and> file_at im'' = file_at im' \<and>
    a_type a = scast ty \<and> unat (a_size a) = length buf"
proof -
  from es_put_run [OF assms(1-3), of ts] assms(4)
  have "im_inv im'" "file_at im' (es_id d) = Some (ty, buf)" by (simp_all add: assms(5))
  from es_get_run [OF this] show ?thesis by blast
qed

end
