(* ===== verification/Extent_Client.thy ===== *)
theory Extent_Client
  imports Extent_Server
begin

text \<open>
  The write-back cache of \<^verbatim>\<open>extent_client.cc\<close>. The RPC stubs of the binary library \<^verbatim>\<open>librpc\<close> are a
  parameter: one function per call, with the server's state threaded through and the values of the
  output parameters passed in, since a failed call leaves them alone. The second half of the theory
  puts several clients on one server, with a lock per extent that is handed over through
  \<^verbatim>\<open>sync\<close>, and shows that reads see the last write of any client.
\<close>

section \<open>The cache\<close>

record cached_file =
  cf_type :: u32
  cf_buf :: "byte list"
  cf_attr :: attr
  buf_valid :: bool
  attr_valid :: bool
  dirty :: bool

text \<open>The map of pointers: \<open>Some None\<close> is an entry holding \<^verbatim>\<open>NULL\<close>, as \<^verbatim>\<open>cache[eid]\<close> inserts it.\<close>

type_synonym ec_cache = "u64 \<rightharpoonup> cached_file option"

record 's extent_rpc =
  call_create :: "u32 \<Rightarrow> u64 \<Rightarrow> 's \<Rightarrow> (int \<times> u64 \<times> 's) res"
  call_get :: "u64 \<Rightarrow> full_file \<Rightarrow> 's \<Rightarrow> (int \<times> full_file \<times> 's) res"
  call_getattr :: "u64 \<Rightarrow> full_file \<Rightarrow> 's \<Rightarrow> (int \<times> full_file \<times> 's) res"
  call_put :: "u64 \<Rightarrow> byte list \<Rightarrow> 's \<Rightarrow> (int \<times> 's) res"
  call_remove :: "u64 \<Rightarrow> 's \<Rightarrow> (int \<times> 's) res"

text \<open>
  What an operation takes from its surroundings: the contents of a freshly allocated
  \<^verbatim>\<open>cached_file\<close>, whose constructor leaves \<^verbatim>\<open>type\<close> and \<^verbatim>\<open>attr\<close> uninitialised, the contents of the
  local \<^verbatim>\<open>attr\<close> of a \<^verbatim>\<open>full_file\<close>, and the values of three calls of \<^verbatim>\<open>time(NULL)\<close>.
\<close>

record ec_env =
  raw_file :: cached_file
  raw_attr :: attr
  clock :: "u32 \<times> u32 \<times> u32"

definition new_cached_file :: "ec_env \<Rightarrow> cached_file" where
  "new_cached_file env =
     (raw_file env)\<lparr>cf_buf := [], buf_valid := False, attr_valid := False, dirty := False\<rparr>"

definition new_full_file :: "ec_env \<Rightarrow> full_file" where
  "new_full_file env = \<lparr>ff_attr = raw_attr env, ff_buf = []\<rparr>"

definition ec_create ::
    "'s extent_rpc \<Rightarrow> ec_env \<Rightarrow> u32 \<Rightarrow> u64 \<Rightarrow> ec_cache \<times> 's \<Rightarrow> (int \<times> u64 \<times> ec_cache \<times> 's) res" where
  "ec_create rpc env type eid st =
     (let (cache, s) = st; (t1, t2, t3) = clock env;
          file = new_cached_file env;
          new_file = file\<lparr>buf_valid := True, attr_valid := True, cf_type := type,
            cf_attr := (cf_attr file)\<lparr>a_atime := t1, a_ctime := t2, a_mtime := t3, a_type := type\<rparr>\<rparr>
      in bindR (call_create rpc type eid s) (\<lambda>(ret, eid, s).
           Inr (ret, eid, cache(eid \<mapsto> Some new_file), s)))"

definition ec_get ::
    "'s extent_rpc \<Rightarrow> ec_env \<Rightarrow> u64 \<Rightarrow> ec_cache \<times> 's \<Rightarrow> (int \<times> byte list \<times> ec_cache \<times> 's) res" where
  "ec_get rpc env eid st =
     (let (cache, s) = st; (file, cache) = map_index cache eid None in
      if (case file of None \<Rightarrow> False | Some f \<Rightarrow> buf_valid f)
      then Inr (0, cf_buf (the file), cache, s)
      else
        let f = (case file of None \<Rightarrow> new_cached_file env | Some f \<Rightarrow> f) in
        bindR (call_get rpc eid (new_full_file env) s) (\<lambda>(ret, server_file, s).
          let f = f\<lparr>cf_buf := ff_buf server_file, buf_valid := True,
                   cf_attr := ff_attr server_file, attr_valid := True\<rparr>
          in Inr (ret, cf_buf f, cache(eid \<mapsto> Some f), s)))"

definition ec_getattr ::
    "'s extent_rpc \<Rightarrow> ec_env \<Rightarrow> u64 \<Rightarrow> ec_cache \<times> 's \<Rightarrow> (int \<times> attr \<times> ec_cache \<times> 's) res" where
  "ec_getattr rpc env eid st =
     (let (cache, s) = st; (file, cache) = map_index cache eid None in
      if (case file of None \<Rightarrow> False | Some f \<Rightarrow> attr_valid f)
      then Inr (0, cf_attr (the file), cache, s)
      else
        let f = (case file of None \<Rightarrow> new_cached_file env | Some f \<Rightarrow> f) in
        bindR (call_getattr rpc eid (new_full_file env) s) (\<lambda>(ret, server_file, s).
          let f = f\<lparr>cf_attr := ff_attr server_file, attr_valid := True,
                   cf_buf := ff_buf server_file, buf_valid := True\<rparr>
          in Inr (ret, cf_attr f, cache(eid \<mapsto> Some f), s)))"

definition ec_put :: "ec_env \<Rightarrow> u64 \<Rightarrow> byte list \<Rightarrow> ec_cache \<Rightarrow> int \<times> ec_cache" where
  "ec_put env eid buf cache =
     (let (file, cache) = map_index cache eid None; (t1, t2, t3) = clock env;
          f = (case file of None \<Rightarrow> new_cached_file env | Some f \<Rightarrow> f);
          f = f\<lparr>dirty := True, buf_valid := True, cf_buf := buf,
               cf_attr := (cf_attr f)\<lparr>a_atime := t1, a_ctime := t2, a_mtime := t3,
                            a_size := of_nat (length buf)\<rparr>\<rparr>
      in (0, cache(eid \<mapsto> Some f)))"

definition ec_remove :: "'s extent_rpc \<Rightarrow> u64 \<Rightarrow> ec_cache \<times> 's \<Rightarrow> (int \<times> ec_cache \<times> 's) res" where
  "ec_remove rpc eid st =
     (let (cache, s) = st; cache = cache(eid := None) in
      bindR (call_remove rpc eid s) (\<lambda>(ret, s). Inr (ret, cache, s)))"

definition ec_sync :: "'s extent_rpc \<Rightarrow> u64 \<Rightarrow> ec_cache \<times> 's \<Rightarrow> (int \<times> ec_cache \<times> 's) res" where
  "ec_sync rpc eid st =
     (let (cache, s) = st; (file, cache) = map_index cache eid None in
      case file of
        None \<Rightarrow> Inr (0, cache, s)
      | Some f \<Rightarrow>
          let f = f\<lparr>buf_valid := False, attr_valid := False\<rparr> in
          if dirty f
          then bindR (call_put rpc eid (cf_buf f) s) (\<lambda>(ret, s).
                 Inr (ret, cache(eid \<mapsto> Some (f\<lparr>dirty := False\<rparr>)), s))
          else Inr (0, cache(eid \<mapsto> Some f), s))"

section \<open>A transport that delivers\<close>

text \<open>RPC stubs that run the handlers: each call is executed once and its reply arrives.\<close>

definition direct_rpc ::
    "(u32 \<Rightarrow> u32 \<Rightarrow> 's \<Rightarrow> (u64 \<times> 's) res) \<Rightarrow> (u32 \<times> u32 \<times> u32 \<Rightarrow> u64 \<Rightarrow> byte list \<Rightarrow> 's \<Rightarrow> 's res) \<Rightarrow>
     (u32 \<Rightarrow> u64 \<Rightarrow> 's \<Rightarrow> (full_file \<times> 's) res) \<Rightarrow> (u32 \<Rightarrow> u64 \<Rightarrow> 's \<Rightarrow> (full_file \<times> 's) res) \<Rightarrow>
     (u64 \<Rightarrow> 's \<Rightarrow> 's res) \<Rightarrow> u32 \<times> u32 \<times> u32 \<Rightarrow> 's extent_rpc" where
  "direct_rpc create put get getattr remove ts =
     \<lparr>call_create = \<lambda>type _ s. bindR (create (fst ts) type s) (\<lambda>(e, s). Inr (0, e, s)),
      call_get = \<lambda>e _ s. bindR (get (fst ts) e s) (\<lambda>(f, s). Inr (0, f, s)),
      call_getattr = \<lambda>e _ s. bindR (getattr (fst ts) e s) (\<lambda>(f, s). Inr (0, f, s)),
      call_put = \<lambda>e buf s. bindR (put ts e buf s) (\<lambda>s. Inr (0, s)),
      call_remove = \<lambda>e s. bindR (remove e s) (\<lambda>s. Inr (0, s))\<rparr>"

definition es_rpc :: "u32 \<times> u32 \<times> u32 \<Rightarrow> block_manager extent_rpc" where
  "es_rpc ts = direct_rpc es_create es_put es_get es_getattr es_remove ts"

text \<open>The entry of an extent: absent and \<^verbatim>\<open>NULL\<close> are the same to every operation.\<close>

definition entry :: "ec_cache \<Rightarrow> u64 \<Rightarrow> cached_file option" where
  "entry cache eid = map_get cache eid None"

lemma entry_upd [simp]: "entry (cache(e \<mapsto> x)) d = (if d = e then x else entry cache d)"
  by (simp add: entry_def)

lemma map_index_entry: "map_index cache e None = (entry cache e, cache(e \<mapsto> entry cache e))"
  by (cases "cache e") (auto simp: map_index_def entry_def map_get_def)

definition buf_hit :: "cached_file option \<Rightarrow> bool" where
  "buf_hit file = (case file of None \<Rightarrow> False | Some f \<Rightarrow> buf_valid f)"

definition attr_hit :: "cached_file option \<Rightarrow> bool" where
  "attr_hit file = (case file of None \<Rightarrow> False | Some f \<Rightarrow> attr_valid f)"

definition is_dirty :: "cached_file option \<Rightarrow> bool" where
  "is_dirty file = (case file of None \<Rightarrow> False | Some f \<Rightarrow> dirty f)"

lemma hit_simps [simp]:
  "\<not> buf_hit None" "buf_hit (Some f) = buf_valid f" "\<not> attr_hit None" "attr_hit (Some f) = attr_valid f"
  "\<not> is_dirty None" "is_dirty (Some f) = dirty f"
  by (simp_all add: buf_hit_def attr_hit_def is_dirty_def)

section \<open>The operations over any extent store\<close>

context extent_store
begin

lemma get_hit:
  "buf_hit (entry cache e) \<Longrightarrow>
     ec_get (direct_rpc create put get getattr remove ts) env e (cache, s) =
       Inr (0, cf_buf (the (entry cache e)), cache(e \<mapsto> entry cache e), s)"
  by (simp add: ec_get_def map_index_entry Let_def buf_hit_def)

lemma get_miss:
  assumes "inv s" and "content s (key e) = Some (ty, c)" and "\<not> buf_hit (entry cache e)"
  shows "\<exists>f s'. ec_get (direct_rpc create put get getattr remove ts) env e (cache, s) =
      Inr (0, c, cache(e \<mapsto> Some f), s') \<and> inv s' \<and> content s' = content s \<and> cf_buf f = c \<and>
      buf_valid f \<and> attr_valid f \<and> dirty f = is_dirty (entry cache e) \<and> a_type (cf_attr f) = scast ty \<and>
      unat (a_size (cf_attr f)) = length c"
proof -
  from get_returns [OF assms(1,2), of "fst ts"] obtain a s' where
    "get (fst ts) e s = Inr (\<lparr>ff_attr = a, ff_buf = c\<rparr>, s')" "inv s'" "content s' = content s"
    "a_type a = scast ty" "unat (a_size a) = length c" by blast
  with assms(3) show ?thesis
    by (cases "entry cache e")
      (auto simp: ec_get_def map_index_entry direct_rpc_def Let_def buf_hit_def new_cached_file_def)
qed

lemma getattr_hit:
  "attr_hit (entry cache e) \<Longrightarrow>
     ec_getattr (direct_rpc create put get getattr remove ts) env e (cache, s) =
       Inr (0, cf_attr (the (entry cache e)), cache(e \<mapsto> entry cache e), s)"
  by (simp add: ec_getattr_def map_index_entry Let_def attr_hit_def)

lemma getattr_miss:
  assumes "inv s" and "content s (key e) = Some (ty, c)" and "\<not> attr_hit (entry cache e)"
  shows "\<exists>f s'. ec_getattr (direct_rpc create put get getattr remove ts) env e (cache, s) =
      Inr (0, cf_attr f, cache(e \<mapsto> Some f), s') \<and> inv s' \<and> content s' = content s \<and> cf_buf f = c \<and>
      buf_valid f \<and> attr_valid f \<and> dirty f = is_dirty (entry cache e) \<and> a_type (cf_attr f) = scast ty \<and>
      unat (a_size (cf_attr f)) = length c"
proof -
  from getattr_returns [OF assms(1,2), of "fst ts"] obtain a s' where
    "getattr (fst ts) e s = Inr (\<lparr>ff_attr = a, ff_buf = c\<rparr>, s')" "inv s'" "content s' = content s"
    "a_type a = scast ty" "unat (a_size a) = length c" by blast
  with assms(3) show ?thesis
    by (intro exI [of _ "(case entry cache e of None \<Rightarrow> new_cached_file env | Some f \<Rightarrow> f)
          \<lparr>cf_attr := a, attr_valid := True, cf_buf := c, buf_valid := True\<rparr>"] exI [of _ s'])
      (simp add: ec_getattr_def map_index_entry direct_rpc_def Let_def new_cached_file_def attr_hit_def
         split: option.splits)
qed

text \<open>After \<^verbatim>\<open>sync\<close> the entry is invalid and clean, and a dirty content is on the server.\<close>

lemma sync_run:
  assumes "inv s" and "content s (key e) = Some (ty, c)"
    and "is_dirty (entry cache e) \<Longrightarrow> room s e (cf_buf (the (entry cache e)))"
    and run: "ec_sync (direct_rpc create put get getattr remove ts) e (cache, s) = Inr (ret, cache', s')"
  shows "ret = 0 \<and> inv s' \<and> (\<forall>d. d \<noteq> e \<longrightarrow> entry cache' d = entry cache d) \<and>
    \<not> buf_hit (entry cache' e) \<and> \<not> attr_hit (entry cache' e) \<and> \<not> is_dirty (entry cache' e) \<and>
    content s' = (if is_dirty (entry cache e)
      then (content s)(key e \<mapsto> (ty, cf_buf (the (entry cache e)))) else content s)"
proof (cases "is_dirty (entry cache e)")
  case False
  with run assms(1) show ?thesis
    by (cases "entry cache e") (auto simp: ec_sync_def map_index_entry Let_def)
next
  case True
  then obtain f where f: "entry cache e = Some f" "dirty f" by (cases "entry cache e") auto
  from run f obtain s1 where p: "put ts e (cf_buf f) s = Inr s1" and s: "s' = s1" "ret = 0"
      "cache' = cache(e \<mapsto> entry cache e, e \<mapsto> Some (f\<lparr>buf_valid := False, attr_valid := False, dirty := False\<rparr>))"
    by (auto simp: ec_sync_def map_index_entry Let_def direct_rpc_def bindR_eq_Inr)
  have "room s e (cf_buf f)" using assms(3) True f by simp
  from put_stores [OF assms(1,2) this p] f s show ?thesis by simp
qed

end

lemma es_rpc_ops [simp]: "direct_rpc es_create es_put es_get es_getattr es_remove ts = es_rpc ts"
  by (simp add: es_rpc_def)

section \<open>Several clients on one server\<close>

text \<open>
  The lock of an extent is cached by at most one client, its owner; the caching lock client calls
  \<^verbatim>\<open>sync\<close> before it hands the lock on. The events are those of one extent operation each.
\<close>

record 'c dfs =
  caches :: "'c \<Rightarrow> ec_cache"
  server :: block_manager
  owner :: "u64 \<rightharpoonup> 'c"

datatype 'c event =
    Acquire 'c u64
  | Release 'c u64
  | ReadFile 'c u64 "byte list"
  | ReadAttr 'c u64 attr
  | WriteFile 'c u64 "byte list"

definition set_client :: "'c \<Rightarrow> ec_cache \<Rightarrow> block_manager \<Rightarrow> 'c dfs \<Rightarrow> 'c dfs" where
  "set_client c cache srv w = w\<lparr>caches := (caches w)(c := cache), server := srv\<rparr>"

text \<open>
  The extent ids in use are 31-bit ones that name a file, and a write replaces a content that its client has
  read, or whose attributes it has read, since it became the owner; this is what every caller in
  \<^verbatim>\<open>yfs_client.cc\<close> but the constructor does.
\<close>

inductive dfs_step :: "'c event \<Rightarrow> 'c dfs \<Rightarrow> 'c dfs \<Rightarrow> bool" where
  acquire_free: "owner w e = None \<Longrightarrow> unat e < 2 ^ 31 \<Longrightarrow> file_at (server w) (es_id e) \<noteq> None \<Longrightarrow>
    dfs_step (Acquire c e) w (w\<lparr>owner := (owner w)(e \<mapsto> c)\<rparr>)"
| release_synced: "owner w e = Some c \<Longrightarrow>
    ec_sync (es_rpc ts) e (caches w c, server w) = Inr (ret, cache, srv) \<Longrightarrow>
    dfs_step (Release c e) w ((set_client c cache srv w)\<lparr>owner := (owner w)(e := None)\<rparr>)"
| acquire_cached: "owner w e = Some c \<Longrightarrow> dfs_step (Acquire c e) w w"
| readfile: "owner w e = Some c \<Longrightarrow>
    ec_get (es_rpc ts) env e (caches w c, server w) = Inr (ret, buf, cache, srv) \<Longrightarrow>
    dfs_step (ReadFile c e buf) w (set_client c cache srv w)"
| readattr: "owner w e = Some c \<Longrightarrow>
    ec_getattr (es_rpc ts) env e (caches w c, server w) = Inr (ret, a, cache, srv) \<Longrightarrow>
    dfs_step (ReadAttr c e a) w (set_client c cache srv w)"
| writefile: "owner w e = Some c \<Longrightarrow> attr_hit (entry (caches w c) e) \<Longrightarrow> blk_count (length buf) \<le> NDIRECT \<Longrightarrow>
    ec_put env e buf (caches w c) = (ret, cache) \<Longrightarrow>
    dfs_step (WriteFile c e buf) w (set_client c cache (server w) w)"

inductive dfs_run :: "'c dfs \<Rightarrow> 'c event list \<Rightarrow> 'c dfs \<Rightarrow> bool" where
  run_nil: "dfs_run w [] w"
| run_snoc: "dfs_run w evs w' \<Longrightarrow> dfs_step ev w' w'' \<Longrightarrow> dfs_run w (evs @ [ev]) w''"

text \<open>The content an extent has after a history: the last one written, by whatever client.\<close>

definition written :: "(u64 \<Rightarrow> byte list) \<Rightarrow> 'c event list \<Rightarrow> u64 \<Rightarrow> byte list" where
  "written init evs = fold (\<lambda>ev m. case ev of WriteFile _ e buf \<Rightarrow> m(e := buf) | _ \<Rightarrow> m) evs init"

text \<open>The state before any client has an extent: nothing cached, no owner.\<close>

definition dfs_start :: "block_manager \<Rightarrow> 'c dfs" where
  "dfs_start im = \<lparr>caches = \<lambda>_. Map.empty, server = im, owner = Map.empty\<rparr>"

definition disk_content :: "block_manager \<Rightarrow> u64 \<Rightarrow> byte list" where
  "disk_content im e = (case file_at im (es_id e) of None \<Rightarrow> [] | Some (ty, c) \<Rightarrow> c)"

section \<open>Coherence\<close>

definition entry_ok :: "cached_file option \<Rightarrow> byte list \<Rightarrow> byte list \<Rightarrow> bool" where
  "entry_ok file cur disk \<longleftrightarrow>
     attr_hit file = buf_hit file \<and> (buf_hit file \<longrightarrow> cf_buf (the file) = cur) \<and>
     (if is_dirty file then buf_hit file \<and> blk_count (length cur) \<le> NDIRECT else disk = cur)"

definition quiet :: "cached_file option \<Rightarrow> bool" where
  "quiet file \<longleftrightarrow> \<not> buf_hit file \<and> \<not> attr_hit file \<and> \<not> is_dirty file"

text \<open>
  The owner's entry is in step with the current content, everyone else's is invalid and clean, and
  without an owner the disk holds the current content.
\<close>

definition coherent_at :: "u64 \<Rightarrow> (u64 \<Rightarrow> byte list) \<Rightarrow> 'c dfs \<Rightarrow> bool" where
  "coherent_at e cur w \<longleftrightarrow>
     (\<forall>d. owner w e \<noteq> Some d \<longrightarrow> quiet (entry (caches w d) e)) \<and>
     (case owner w e of
        None \<Rightarrow> disk_content (server w) e = cur e
      | Some c \<Rightarrow> unat e < 2 ^ 31 \<and> file_at (server w) (es_id e) \<noteq> None \<and>
          entry_ok (entry (caches w c) e) (cur e) (disk_content (server w) e))"

definition coherent :: "(u64 \<Rightarrow> byte list) \<Rightarrow> 'c dfs \<Rightarrow> bool" where
  "coherent cur w \<longleftrightarrow> im_inv (server w) \<and> (\<forall>e. unat e < 2 ^ 31 \<longrightarrow> coherent_at e cur w) \<and>
     (\<forall>e. owner w e \<noteq> None \<longrightarrow> unat e < 2 ^ 31)"

lemma es_id_inj: "unat d < 2 ^ 31 \<Longrightarrow> unat e < 2 ^ 31 \<Longrightarrow> es_id d = es_id e \<longleftrightarrow> d = e"
  by (simp add: word_unat_eq_iff unat_es_id)

lemma coherent_owned:
  assumes "coherent cur w" and "owner w e = Some c"
  shows "unat e < 2 ^ 31" "coherent_at e cur w" "file_at (server w) (es_id e) \<noteq> None"
    "entry_ok (entry (caches w c) e) (cur e) (disk_content (server w) e)"
    "d \<noteq> c \<Longrightarrow> quiet (entry (caches w d) e)"
proof -
  show e: "unat e < 2 ^ 31" using assms by (simp add: coherent_def)
  then show co: "coherent_at e cur w" using assms by (simp add: coherent_def)
  show "file_at (server w) (es_id e) \<noteq> None" "d \<noteq> c \<Longrightarrow> quiet (entry (caches w d) e)"
    "entry_ok (entry (caches w c) e) (cur e) (disk_content (server w) e)"
    using co assms(2) by (simp_all add: coherent_at_def)
qed

text \<open>A step that touches extent \<open>e\<close> only has to be checked there.\<close>

lemma coherent_local:
  assumes "coherent cur w" and "im_inv (server w')" and "coherent_at e cur' w'" and "unat e < 2 ^ 31"
    and "\<And>d. d \<noteq> e \<Longrightarrow> cur' d = cur d" and "\<And>d. d \<noteq> e \<Longrightarrow> owner w' d = owner w d"
    and "\<And>c d. d \<noteq> e \<Longrightarrow> entry (caches w' c) d = entry (caches w c) d"
    and "\<And>i. i \<noteq> es_id e \<Longrightarrow> file_at (server w') i = file_at (server w) i"
  shows "coherent cur' w'"
proof -
  have "coherent_at d cur' w'" if "unat d < 2 ^ 31" for d
  proof (cases "d = e")
    case False
    then have "es_id d \<noteq> es_id e" using es_id_inj [OF that assms(4)] by simp
    then have "file_at (server w') (es_id d) = file_at (server w) (es_id d)" by (rule assms(8))
    moreover have "coherent_at d cur w" using assms(1) that by (simp add: coherent_def)
    ultimately show ?thesis using False assms(5-7)
      by (cases "owner w d") (simp_all add: coherent_at_def disk_content_def)
  qed (simp add: assms(3))
  moreover have "unat d < 2 ^ 31" if "owner w' d \<noteq> None" for d
    using that assms(1,4,6) by (cases "d = e") (auto simp: coherent_def)
  ultimately show ?thesis using assms(2) by (simp add: coherent_def)
qed

lemma disk_content_Some: "file_at im (es_id e) = Some (ty, c) \<Longrightarrow> disk_content im e = c"
  by (simp add: disk_content_def)

text \<open>One owner operation: the new entry and the new disk content are in step.\<close>

lemma coherent_owner_step:
  assumes co: "coherent cur w" and own: "owner w e = Some c"
    and "im_inv srv" and "file_at srv = file_at (server w)"
    and "\<And>d. d \<noteq> e \<Longrightarrow> entry cache d = entry (caches w c) d"
    and "entry_ok (entry cache e) buf (disk_content (server w) e)"
  shows "coherent (cur(e := buf)) (set_client c cache srv w)"
proof (rule coherent_local [OF co, where e = e])
  note o = coherent_owned [OF co own]
  show "unat e < 2 ^ 31" by (rule o)
  show "coherent_at e (cur(e := buf)) (set_client c cache srv w)"
    using o(1,2,3,5) own assms(4,6)
    by (simp add: coherent_at_def set_client_def disk_content_def)
qed (use assms in \<open>simp_all add: set_client_def\<close>)

lemma get_coherent:
  assumes co: "coherent cur w" and own: "owner w e = Some c"
  shows "\<exists>cache srv. ec_get (es_rpc ts) env e (caches w c, server w) = Inr (0, cur e, cache, srv) \<and>
    coherent cur (set_client c cache srv w)"
proof -
  note o = coherent_owned [OF co own]
  have inv: "im_inv (server w)" using co by (simp add: coherent_def)
  obtain ty x where f: "file_at (server w) (es_id e) = Some (ty, x)" using o(3) by auto
  show ?thesis
  proof (cases "buf_hit (entry (caches w c) e)")
    case True
    then have "cf_buf (the (entry (caches w c) e)) = cur e" using o(4) by (simp add: entry_ok_def)
    moreover have "coherent (cur(e := cur e)) (set_client c ((caches w c)(e \<mapsto> entry (caches w c) e)) (server w) w)"
      by (rule coherent_owner_step [OF co own inv refl]) (use o(4) in simp_all)
    ultimately show ?thesis using es.get_hit [OF True, of ts env "server w"] by simp
  next
    case False
    then have d: "\<not> is_dirty (entry (caches w c) e)" "x = cur e"
      using o(4) f by (auto simp: entry_ok_def disk_content_def split: if_splits)
    from es.get_miss [OF inv f False, of ts env] obtain cf srv where
      run: "ec_get (es_rpc ts) env e (caches w c, server w) = Inr (0, x, (caches w c)(e \<mapsto> Some cf), srv)"
      and p: "im_inv srv" "file_at srv = file_at (server w)" "cf_buf cf = x" "buf_valid cf" "attr_valid cf" "\<not> dirty cf"
      using d(1) by auto
    have "coherent (cur(e := x)) (set_client c ((caches w c)(e \<mapsto> Some cf)) srv w)"
      by (rule coherent_owner_step [OF co own p(1,2)]) (use p disk_content_Some [OF f] in \<open>simp_all add: entry_ok_def\<close>)
    with run d(2) show ?thesis by simp
  qed
qed

lemma getattr_coherent:
  assumes co: "coherent cur w" and own: "owner w e = Some c"
  shows "\<exists>a cache srv. ec_getattr (es_rpc ts) env e (caches w c, server w) = Inr (0, a, cache, srv) \<and>
    coherent cur (set_client c cache srv w)"
proof -
  note o = coherent_owned [OF co own]
  have inv: "im_inv (server w)" using co by (simp add: coherent_def)
  obtain ty x where f: "file_at (server w) (es_id e) = Some (ty, x)" using o(3) by auto
  show ?thesis
  proof (cases "attr_hit (entry (caches w c) e)")
    case True
    have "coherent (cur(e := cur e)) (set_client c ((caches w c)(e \<mapsto> entry (caches w c) e)) (server w) w)"
      by (rule coherent_owner_step [OF co own inv refl]) (use o(4) in simp_all)
    then show ?thesis using es.getattr_hit [OF True, of ts env "server w"] by simp
  next
    case False
    then have d: "\<not> is_dirty (entry (caches w c) e)" "x = cur e"
      using o(4) f by (auto simp: entry_ok_def disk_content_def split: if_splits)
    from es.getattr_miss [OF inv f False, of ts env] obtain cf srv where
      run: "ec_getattr (es_rpc ts) env e (caches w c, server w) = Inr (0, cf_attr cf, (caches w c)(e \<mapsto> Some cf), srv)"
      and p: "im_inv srv" "file_at srv = file_at (server w)" "cf_buf cf = x" "buf_valid cf" "attr_valid cf" "\<not> dirty cf"
      using d(1) by auto
    have "coherent (cur(e := x)) (set_client c ((caches w c)(e \<mapsto> Some cf)) srv w)"
      by (rule coherent_owner_step [OF co own p(1,2)]) (use p disk_content_Some [OF f] in \<open>simp_all add: entry_ok_def\<close>)
    with run d(2) show ?thesis by simp
  qed
qed

lemma ec_put_run: "ec_put env e buf cache = (0, snd (ec_put env e buf cache))"
  by (simp add: ec_put_def Let_def split: prod.splits)

lemma ec_put_entry:
  "\<exists>f. entry (snd (ec_put env e buf cache)) e = Some f \<and> dirty f \<and> buf_valid f \<and> cf_buf f = buf \<and>
     a_size (cf_attr f) = of_nat (length buf) \<and> attr_valid f = attr_hit (entry cache e)"
  "d \<noteq> e \<Longrightarrow> entry (snd (ec_put env e buf cache)) d = entry cache d"
  by (auto simp: ec_put_def map_index_entry Let_def new_cached_file_def split: prod.splits option.splits)

lemma put_coherent:
  assumes co: "coherent cur w" and own: "owner w e = Some c" and hit: "attr_hit (entry (caches w c) e)"
    and small: "blk_count (length buf) \<le> NDIRECT" and put: "ec_put env e buf (caches w c) = (ret, cache)"
  shows "coherent (cur(e := buf)) (set_client c cache (server w) w)"
proof (rule coherent_owner_step [OF co own])
  note p = ec_put_entry [where env = env and e = e and buf = buf and cache = "caches w c", unfolded put snd_conv]
  from p(1) hit small show "entry_ok (entry cache e) buf (disk_content (server w) e)"
    by (auto simp: entry_ok_def)
  show "entry cache d = entry (caches w c) d" if "d \<noteq> e" for d by (rule p(2) [OF that])
  show "im_inv (server w)" using co by (simp add: coherent_def)
qed (rule refl)

lemma sync_coherent:
  assumes co: "coherent cur w" and own: "owner w e = Some d"
    and run: "ec_sync (es_rpc ts) e (caches w d, server w) = Inr (ret, cache, srv)"
  shows "coherent cur ((set_client d cache srv w)\<lparr>owner := (owner w)(e := None)\<rparr>)"
proof -
  note o = coherent_owned [OF co own]
  have inv: "im_inv (server w)" using co by (simp add: coherent_def)
  obtain ty x where f: "file_at (server w) (es_id e) = Some (ty, x)" using o(3) by auto
  have room: "es_room (server w) e (cf_buf (the (entry (caches w d) e)))" if "is_dirty (entry (caches w d) e)"
    using o(4) that by (simp add: entry_ok_def es_room_def addressable_def)
  note r = es.sync_run [OF inv f room, unfolded es_rpc_ops, OF _ run]
  have disk: "disk_content srv e = cur e" "file_at srv (es_id e) \<noteq> None"
    using r o(4) f by (auto simp: disk_content_def entry_ok_def split: if_splits)
  have q: "quiet (entry cache e)" using r by (simp add: quiet_def)
  show ?thesis
  proof (rule coherent_local [OF co, where e = e])
    show "coherent_at e cur ((set_client d cache srv w)\<lparr>owner := (owner w)(e := None)\<rparr>)"
      using q disk o(1) o(5) by (auto simp: coherent_at_def set_client_def entry_ok_def quiet_def)
  qed (use r o(1) in \<open>auto simp: set_client_def\<close>)
qed

lemma acquire_free_coherent:
  assumes "coherent cur w" and "owner w e = None" and "unat e < 2 ^ 31" and "file_at (server w) (es_id e) \<noteq> None"
  shows "coherent cur (w\<lparr>owner := (owner w)(e \<mapsto> c)\<rparr>)"
proof (rule coherent_local [OF assms(1), where e = e])
  have "coherent_at e cur w" using assms(1,3) by (simp add: coherent_def)
  then show "coherent_at e cur (w\<lparr>owner := (owner w)(e \<mapsto> c)\<rparr>)"
    using assms(2-4) by (auto simp: coherent_at_def entry_ok_def quiet_def)
qed (use assms in \<open>auto simp: coherent_def\<close>)

definition apply_event :: "'c event \<Rightarrow> (u64 \<Rightarrow> byte list) \<Rightarrow> u64 \<Rightarrow> byte list" where
  "apply_event ev m = (case ev of WriteFile _ e buf \<Rightarrow> m(e := buf) | _ \<Rightarrow> m)"

lemma written_simps [simp]:
  "written init [] = init" "written init (evs @ [ev]) = apply_event ev (written init evs)"
  by (simp_all add: written_def apply_event_def)

lemma dfs_step_coherent:
  assumes "dfs_step ev w w'" and "coherent cur w"
  shows "coherent (apply_event ev cur) w'"
  using assms
proof (induction rule: dfs_step.induct)
  case (readfile w e c ts env ret buf cache srv)
  then show ?case using get_coherent [of cur w e c ts env] by (auto simp: apply_event_def)
next
  case (readattr w e c ts env ret a cache srv)
  then show ?case using getattr_coherent [of cur w e c ts env] by (auto simp: apply_event_def)
qed (auto simp: apply_event_def intro: put_coherent sync_coherent acquire_free_coherent)

lemma dfs_run_coherent:
  assumes "dfs_run w evs w'" and "coherent cur w"
  shows "coherent (written cur evs) w'"
  using assms by (induction rule: dfs_run.induct) (auto intro: dfs_step_coherent)

lemma coherent_start: "im_inv im \<Longrightarrow> coherent (disk_content im) (dfs_start im)"
  by (simp add: coherent_def coherent_at_def dfs_start_def quiet_def entry_def)

text \<open>A put on an entry whose attributes are not valid is undone by the next \<^verbatim>\<open>getattr\<close>.\<close>

lemma put_getattr_get:
  assumes "im_inv s" and "file_at s (es_id e) = Some (ty, c)" and "\<not> attr_hit (entry cache e)"
  shows "\<exists>a cache2 s2. ec_getattr (es_rpc ts) env2 e (snd (ec_put env e buf cache), s) = Inr (0, a, cache2, s2) \<and>
    unat (a_size a) = length c \<and> ec_get (es_rpc ts) env3 e (cache2, s2) = Inr (0, c, cache2, s2)"
proof -
  let ?cache1 = "snd (ec_put env e buf cache)"
  have "\<not> attr_hit (entry ?cache1 e)"
    using assms(3) ec_put_entry(1) [of env e buf cache] by auto
  from es.getattr_miss [OF assms(1,2) this, of ts env2] obtain f s2 where
    g: "ec_getattr (es_rpc ts) env2 e (?cache1, s) = Inr (0, cf_attr f, ?cache1(e \<mapsto> Some f), s2)"
    and f: "buf_valid f" "cf_buf f = c" "unat (a_size (cf_attr f)) = length c" by auto
  have "ec_get (es_rpc ts) env3 e (?cache1(e \<mapsto> Some f), s2) = Inr (0, c, ?cache1(e \<mapsto> Some f), s2)"
    using es.get_hit [of "?cache1(e \<mapsto> Some f)" e ts env3 s2] f by simp
  with g f(3) show ?thesis by blast
qed

section \<open>Properties\<close>

definition env0 :: ec_env where
  "env0 = (let a = \<lparr>a_type = 0, a_atime = 0, a_mtime = 0, a_ctime = 0, a_size = 0\<rparr> in
     \<lparr>raw_file = \<lparr>cf_type = 0, cf_buf = [], cf_attr = a, buf_valid = False, attr_valid = False, dirty = False\<rparr>,
      raw_attr = a, clock = (1, 2, 3)\<rparr>)"

lemma es_get_fs0:
  assumes "es_get t 1 fs0 = Inr (f, im')"
  shows "im' = fs0"
proof -
  have "es_id 1 = 1" by (simp add: word_unat_eq_iff unat_es_id)
  moreover have "get_inode 1 fs0 = Inr (inode_at fs0 1)"
    by (rule get_inode_valid [OF im_inv_wf [OF fs0_inv(1)] live_valid [OF live_fs0]])
  ultimately show ?thesis
    using assms by (auto simp: es_get_def read_file_def inode_at_fs0 bindR_eq_Inr)
qed

lemma root_get:
  obtains cf where "ec_get (es_rpc (1, 2, 3)) env0 1 (Map.empty, fs0) = Inr (0, [], [1 \<mapsto> Some cf], fs0)" "attr_valid cf"
proof -
  have f: "file_at fs0 (es_id 1) = Some (1, [])" by (simp add: word_unat_eq_iff unat_es_id fs0_inv)
  obtain cf s2 where g: "ec_get (es_rpc (1, 2, 3)) env0 1 (Map.empty, fs0) = Inr (0, [], [1 \<mapsto> Some cf], s2)" and cf: "attr_valid cf"
    using es.get_miss [OF fs0_inv(1) f, of Map.empty "(1, 2, 3)" env0] by (auto simp: entry_def)
  then have "s2 = fs0" by (auto simp: ec_get_def es_rpc_def direct_rpc_def map_index_entry entry_def Let_def bindR_eq_Inr dest: es_get_fs0)
  with g cf that show ?thesis by blast
qed

text \<open>The first client reads the empty root, rewrites it, and hands the lock to the second.\<close>

lemma hand_over_run:
  "\<exists>w. dfs_run (dfs_start fs0) [Acquire False 1, ReadFile False 1 [], WriteFile False 1 [5, 6], Release False 1, Acquire True 1] w \<and>
     owner w 1 = Some True"
proof -
  let ?r = "es_rpc (1, 2, 3)" and ?w0 = "dfs_start fs0 :: bool dfs"
  have e1: "es_id 1 = 1" by (simp add: word_unat_eq_iff unat_es_id)
  define w1 where "w1 = ?w0\<lparr>owner := (owner ?w0)(1 \<mapsto> False)\<rparr>"
  have r1: "dfs_run ?w0 ([] @ [Acquire False 1]) w1" unfolding w1_def
    by (intro run_snoc [OF run_nil] acquire_free) (simp_all add: dfs_start_def e1 fs0_inv)
  have w1: "owner w1 1 = Some False" "server w1 = fs0" "entry (caches w1 False) 1 = None"
    by (simp_all add: w1_def dfs_start_def entry_def)
  have f: "file_at fs0 (es_id 1) = Some (1, [])" by (simp add: e1 fs0_inv)
  have c1: "caches w1 False = Map.empty" by (simp add: w1_def dfs_start_def)
  obtain cf where g2: "ec_get ?r env0 1 (caches w1 False, server w1) = Inr (0, [], (caches w1 False)(1 \<mapsto> Some cf), fs0)"
    and cf: "attr_valid cf"
    using root_get unfolding c1 w1(2) by metis
  define w2 where "w2 = set_client False ((caches w1 False)(1 \<mapsto> Some cf)) fs0 w1"
  have r2: "dfs_run ?w0 ([Acquire False 1] @ [ReadFile False 1 []]) w2" unfolding w2_def
    using run_snoc [OF r1 readfile [OF w1(1) g2]] by simp
  have w2: "owner w2 1 = Some False" "server w2 = fs0" "entry (caches w2 False) 1 = Some cf"
    by (simp_all add: w2_def set_client_def w1)
  define w3 where "w3 = set_client False (snd (ec_put env0 1 [5, 6] (caches w2 False))) (server w2) w2"
  have r3: "dfs_run ?w0 ([Acquire False 1, ReadFile False 1 []] @ [WriteFile False 1 [5, 6]]) w3"
    unfolding w3_def using r2 cf
    by (intro run_snoc [OF _ writefile [OF w2(1) _ _ ec_put_run]]) (simp_all add: w2 blk_count_alt)
  have w3: "owner w3 1 = Some False" "server w3 = fs0" by (simp_all add: w3_def set_client_def w2)
  obtain cf3 where cf3: "entry (caches w3 False) 1 = Some cf3" "dirty cf3" "cf_buf cf3 = [5, 6]"
    using ec_put_entry(1) [of env0 1 "[5, 6]" "caches w2 False"] by (auto simp: w3_def set_client_def)
  have room: "es_room fs0 1 [5, 6]" by (simp add: es_room_def addressable_def blk_count_alt)
  from es_put_run [OF fs0_inv(1) f this, of "(1, 2, 3)"] free_count_fs0
  obtain im' where put: "es_put (1, 2, 3) 1 [5, 6] fs0 = Inr im'"
    by (auto simp: blk_count_alt split: sum.splits)
  then obtain ca4 where s4: "ec_sync ?r 1 (caches w3 False, server w3) = Inr (0, ca4, im')"
    by (auto simp: ec_sync_def map_index_entry cf3 w3 Let_def es_rpc_def direct_rpc_def)
  define w4 where "w4 = (set_client False ca4 im' w3)\<lparr>owner := (owner w3)(1 := None)\<rparr>"
  have r4: "dfs_run ?w0 ([Acquire False 1, ReadFile False 1 [], WriteFile False 1 [5, 6]] @ [Release False 1]) w4"
    unfolding w4_def using r3 by (intro run_snoc [OF _ release_synced [OF w3(1) s4]]) simp_all
  have "file_at im' (es_id 1) \<noteq> None" using put fs0_inv(1) f room es_put_run [OF fs0_inv(1) f room, of "(1, 2, 3)"] by auto
  then have "dfs_run ?w0 ([Acquire False 1, ReadFile False 1 [], WriteFile False 1 [5, 6], Release False 1] @ [Acquire True 1])
      (w4\<lparr>owner := (owner w4)(1 \<mapsto> True)\<rparr>)"
    using r4 by (intro run_snoc [OF _ acquire_free]) (simp_all add: w4_def set_client_def)
  then show ?thesis by (intro exI) (auto simp: set_client_def)
qed

text \<open>
  C12 (safety). Cache coherence: after any history of acquisitions, reads and writes by any number
  of clients on one server, a client that owns an extent reads exactly the content last written to
  it by whatever client, or the initial content; the read succeeds whether it hits the cache or
  goes to the server.
\<close>

theorem read_sees_last_write:
  assumes "im_inv im" and "dfs_run (dfs_start im) evs w" and "owner w e = Some c"
  shows "\<exists>cache srv. ec_get (es_rpc ts) env e (caches w c, server w) =
    Inr (0, written (disk_content im) evs e, cache, srv)"
  using get_coherent [OF dfs_run_coherent [OF assms(2) coherent_start [OF assms(1)]] assms(3)] by blast

theorem read_sees_last_write_witness:
  "\<exists>w cache srv. dfs_run (dfs_start fs0) [Acquire False 1, ReadFile False 1 [], WriteFile False 1 [5, 6], Release False 1, Acquire True 1] w \<and>
     ec_get (es_rpc (1, 2, 3)) env0 1 (caches w True, server w) = Inr (0, [5, 6], cache, srv)"
proof -
  obtain w where w: "dfs_run (dfs_start fs0) [Acquire False 1, ReadFile False 1 [], WriteFile False 1 [5, 6], Release False 1, Acquire True 1] w"
    and o: "owner w 1 = Some True" using hand_over_run by blast
  from read_sees_last_write [OF fs0_inv(1) w o, of "(1, 2, 3)" env0] w show ?thesis
    by (auto simp: written_def)
qed

text \<open>
  C27 (error, a defect). \<^verbatim>\<open>put\<close> into a cache entry without valid attributes, followed by
  \<^verbatim>\<open>getattr\<close>, loses the update: \<^verbatim>\<open>getattr\<close> fetches the whole file and overwrites the dirty buffer, so it
  reports the size of the server's old content, and the next \<^verbatim>\<open>get\<close> of the same client returns that content.
\<close>

theorem getattr_loses_put:
  assumes "im_inv s" and "file_at s (es_id e) = Some (ty, c)" and "\<not> attr_hit (entry cache e)"
  shows "\<exists>a cache2 s2. ec_getattr (es_rpc ts) env2 e (snd (ec_put env e buf cache), s) = Inr (0, a, cache2, s2) \<and>
    unat (a_size a) = length c \<and> ec_get (es_rpc ts) env3 e (cache2, s2) = Inr (0, c, cache2, s2)"
  by (rule put_getattr_get [OF assms])

theorem getattr_loses_put_witness:
  "\<exists>a cache2 s2. ec_getattr (es_rpc (1, 2, 3)) env0 1 (snd (ec_put env0 1 [5, 6] Map.empty), fs0) = Inr (0, a, cache2, s2) \<and>
    a_size a = 0 \<and> ec_get (es_rpc (1, 2, 3)) env0 1 (cache2, s2) = Inr (0, [], cache2, s2)"
proof -
  have "es_id 1 = 1" by (simp add: word_unat_eq_iff unat_es_id)
  then have "file_at fs0 (es_id 1) = Some (1, [])" by (simp add: fs0_inv)
  from getattr_loses_put [OF fs0_inv(1) this, of Map.empty "(1, 2, 3)" env0 env0 "[5, 6]" env0]
  show ?thesis by (simp add: entry_def word_unat_eq_iff)
qed

text \<open>File 2 is removed and made again, and the new file is written.\<close>

lemma recreate_fs2:
  obtains im1 im2 im3 where "remove_file 2 fs2 = Inr im1" "im_inv im1" "es_create 1 2 im1 = Inr (2, im2)" "es_put (1, 2, 3) 2 [5, 6] im2 = Inr im3"
proof -
  have lv: "live fs2 2" by (simp add: live_fs2)
  from remove_file_spec [OF fs2_inv(1) lv] obtain im1 where
    im1: "remove_file 2 fs2 = Inr im1" "im_inv im1" "file_at im1 = (file_at fs2)(2 := None)" "used im1 = (\<lambda>_. False)"
    by (auto simp: fs2_inv(3))
  have "\<not> live im1 2" using im1(3) by (metis file_at_def fun_upd_same option.distinct(1))
  from alloc_inode_reuses [OF im1(2) this, of 1 2] obtain im2 where im2: "alloc_inode 1 2 im1 = Inr (2, im2)" "used im2 = (\<lambda>_. False)"
    by (auto simp: im1(4))
  have cr: "es_create 1 2 im1 = Inr (2, im2)" using im2(1) by (simp add: es_create_def)
  have i2: "im_inv im2" "file_at im2 (es_id 2) = Some (2, [])" using es.create_fresh [OF im1(2) _ cr] by simp_all
  have room: "es_room im2 2 [5, 6]" by (simp add: es_room_def addressable_def blk_count_alt)
  have "free_count im2 = free_count fs2" by (simp add: free_count_def im2(2) fs2_inv(3))
  then obtain im3 where "es_put (1, 2, 3) 2 [5, 6] im2 = Inr im3"
    using es_put_run [OF i2 room, of "(1, 2, 3)"] free_count_fs2 by (auto simp: blk_count_alt split: sum.splits)
  with im1(1,2) cr that show ?thesis by blast
qed

lemma create_stub: "es_create 1 type im = Inr (e, im') \<Longrightarrow> \<exists>cb. ec_create (es_rpc (1, 2, 3)) env0 type e0 (cache, im) = Inr (0, e, cb, im')"
  by (auto simp: ec_create_def es_rpc_def direct_rpc_def env0_def Let_def)

lemma put_sync_stub:
  assumes "es_put (1, 2, 3) e buf im = Inr im'"
  shows "\<exists>ca. ec_sync (es_rpc (1, 2, 3)) e (snd (ec_put env0 e buf Map.empty), im) = Inr (0, ca, im')"
proof -
  obtain cf where "entry (snd (ec_put env0 e buf Map.empty)) e = Some cf" "dirty cf" "cf_buf cf = buf" using ec_put_entry(1) [of env0 e buf Map.empty] by auto
  with assms show ?thesis by (auto simp: ec_sync_def map_index_entry Let_def es_rpc_def direct_rpc_def)
qed

text \<open>
  C40 (safety, a defect). \<^verbatim>\<open>unlink\<close> removes a file without taking the file's lock. If another client still has
  unwritten data of the file in its cache and the inode number is used again for a new file, the
  write-back that the new file's first lock transfer causes puts the deleted file's data into the new
  file: its creator has it empty, and a client that reads it from the server gets the old data.
\<close>

theorem stale_writeback_resurfaces:
  assumes "im_inv im" and "file_at im (es_id e) = Some (ty, c)" and "ucast type \<noteq> (0 :: u16)"
    and "entry ca e = Some f" and "dirty f" and "blk_count (length (cf_buf f)) \<le> NDIRECT"
    and "ec_remove (es_rpc ts) e (cb, im) = Inr (r1, cb1, im1)"
    and "ec_create (es_rpc ts) env type e0 (cb1, im1) = Inr (r2, e, cb2, im2)"
    and "ec_sync (es_rpc ts) e (ca, im2) = Inr (r3, ca1, im3)"
    and "\<not> buf_hit (entry cc e)"
  shows "(\<exists>g. entry cb2 e = Some g \<and> buf_valid g \<and> cf_buf g = []) \<and>
    (\<exists>cache srv. ec_get (es_rpc ts) env' e (cc, im3) = Inr (0, cf_buf f, cache, srv))"
proof
  have rm: "es_remove e im = Inr im1" using assms(7)
    by (auto simp: ec_remove_def es_rpc_def direct_rpc_def bindR_eq_Inr)
  have im1: "im_inv im1" using es.remove_deletes [OF assms(1,2)] rm by auto
  from assms(8) have cr: "es_create (fst ts) type im1 = Inr (e, im2)" and cb2: "\<exists>g. entry cb2 e = Some g \<and> buf_valid g \<and> cf_buf g = []"
    by (auto simp: ec_create_def es_rpc_def direct_rpc_def bindR_eq_Inr Let_def new_cached_file_def split: prod.splits)
  show "\<exists>g. entry cb2 e = Some g \<and> buf_valid g \<and> cf_buf g = []" by (rule cb2)
  have im2: "im_inv im2" "file_at im2 (es_id e) = Some (ucast type, [])"
    using es.create_fresh [OF im1 assms(3) cr] by simp_all
  have room: "es_room im2 e (cf_buf (the (entry ca e)))"
    using assms(4,6) by (simp add: es_room_def addressable_def)
  note sync = es.sync_run [OF im2 room, unfolded es_rpc_ops, OF assms(9)]
  have im3: "im_inv im3" "file_at im3 (es_id e) = Some (ucast type, cf_buf f)"
    using sync assms(4,5) by simp_all
  from es.get_miss [OF im3 assms(10), of ts env'] show "\<exists>cache srv. ec_get (es_rpc ts) env' e (cc, im3) = Inr (0, cf_buf f, cache, srv)"
    by auto
qed

theorem stale_writeback_resurfaces_witness:
  "\<exists>cb1 im1 cb2 im2 ca1 im3 cache srv.
     ec_remove (es_rpc (1, 2, 3)) 2 (Map.empty, fs2) = Inr (0, cb1, im1) \<and>
     ec_create (es_rpc (1, 2, 3)) env0 2 0 (cb1, im1) = Inr (0, 2, cb2, im2) \<and>
     ec_sync (es_rpc (1, 2, 3)) 2 (snd (ec_put env0 2 [5, 6] Map.empty), im2) = Inr (0, ca1, im3) \<and>
     ec_get (es_rpc (1, 2, 3)) env0 2 (Map.empty, im3) = Inr (0, [5, 6], cache, srv)"
proof -
  let ?r = "es_rpc (1, 2, 3)" and ?ca = "snd (ec_put env0 2 [5, 6] Map.empty)"
  have e: "es_id 2 = 2" by (simp add: word_unat_eq_iff unat_es_id)
  have f: "file_at fs2 (es_id 2) = Some (2, [])" by (simp add: e fs2_inv)
  obtain im1 im2 im3 where im: "remove_file 2 fs2 = Inr im1" "im_inv im1" "es_create 1 2 im1 = Inr (2, im2)" "es_put (1, 2, 3) 2 [5, 6] im2 = Inr im3"
    by (rule recreate_fs2)
  have rm: "ec_remove ?r 2 (Map.empty, fs2) = Inr (0, Map.empty, im1)"
    using im(1) by (simp add: ec_remove_def es_rpc_def direct_rpc_def es_remove_def e fun_upd_idem)
  obtain cb2 where cr: "ec_create ?r env0 2 0 (Map.empty, im1) = Inr (0, 2, cb2, im2)" using create_stub [OF im(3)] by blast
  obtain ca1 where sy: "ec_sync ?r 2 (?ca, im2) = Inr (0, ca1, im3)" using put_sync_stub [OF im(4)] by blast
  obtain cf where cf: "entry ?ca 2 = Some cf" "dirty cf" "cf_buf cf = [5, 6]" using ec_put_entry(1) [of env0 2 "[5, 6]" Map.empty] by auto
  have "\<exists>cache srv. ec_get ?r env0 2 (Map.empty, im3) = Inr (0, cf_buf cf, cache, srv)"
    using stale_writeback_resurfaces [OF fs2_inv(1) f _ cf(1,2) _ rm cr sy] by (simp add: cf(3) blk_count_alt entry_def)
  with rm cr sy show ?thesis unfolding cf(3) by blast
qed

text \<open>
  C38 (safety, a defect). \<^verbatim>\<open>create\<close> puts a valid entry of the new extent into its client's cache although the client does not
  hold the extent's lock, so no revoke ever removes it. If another client finds the new file, writes it and gives its lock
  back, the data is on the server, but the creator, now with the lock, still reads the file as empty, and the next
  content that it writes and gives back replaces the other client's data.
\<close>

theorem created_entry_hides_write:
  assumes "im_inv im" and "ucast type \<noteq> (0 :: u16)"
    and "ec_create (es_rpc ts) env type e0 (ca, im) = Inr (r1, e, ca1, im1)"
    and "ec_put env'' e buf cb = (r2, cb2)" and "blk_count (length buf) \<le> NDIRECT"
    and "ec_sync (es_rpc ts) e (cb2, im1) = Inr (r3, cb3, im3)"
  shows "(\<exists>ty. file_at im3 (es_id e) = Some (ty, buf)) \<and>
    (\<exists>cache srv. ec_get (es_rpc ts) env' e (ca1, im3) = Inr (0, [], cache, srv)) \<and>
    (\<forall>new r5 ca2 r6 ca3 im4. blk_count (length new) \<le> NDIRECT \<and> ec_put env' e new ca1 = (r5, ca2) \<and>
      ec_sync (es_rpc ts) e (ca2, im3) = Inr (r6, ca3, im4) \<longrightarrow> (\<exists>ty. file_at im4 (es_id e) = Some (ty, new)))"
proof (intro conjI allI impI; (elim conjE)?)
  from assms(3) have cr: "es_create (fst ts) type im = Inr (e, im1)" and ca1: "\<exists>g. entry ca1 e = Some g \<and> buf_valid g \<and> cf_buf g = []"
    by (auto simp: ec_create_def es_rpc_def direct_rpc_def bindR_eq_Inr Let_def new_cached_file_def split: prod.splits)
  have im1: "im_inv im1" "file_at im1 (es_id e) = Some (ucast type, [])" using es.create_fresh [OF assms(1,2) cr] by simp_all
  have wb: "im_inv s' \<and> file_at s' (es_id e) = Some (ucast type, b)"
    if "im_inv s" "file_at s (es_id e) = Some (ucast type, c0)" "blk_count (length b) \<le> NDIRECT" "ec_put v e b cache = (r, cache1)"
      "ec_sync (es_rpc ts) e (cache1, s) = Inr (r', cache2, s')" for v b cache r cache1 s r' cache2 s' c0
  proof -
    note h = that
    obtain g where g: "entry cache1 e = Some g" "dirty g" "cf_buf g = b" using ec_put_entry(1) [of v e b cache] h(4) by auto
    have "es_room s e (cf_buf (the (entry cache1 e)))" using that(3) g by (simp add: es_room_def addressable_def)
    from es.sync_run [OF that(1,2) this, unfolded es_rpc_ops, OF that(5)] g show ?thesis by simp
  qed
  have im3: "im_inv im3 \<and> file_at im3 (es_id e) = Some (ucast type, buf)"
    by (rule wb [OF im1 assms(5,4,6)])
  then show "\<exists>ty. file_at im3 (es_id e) = Some (ty, buf)" by blast
  show "\<exists>cache srv. ec_get (es_rpc ts) env' e (ca1, im3) = Inr (0, [], cache, srv)"
    using ca1 es.get_hit [of ca1 e ts env' im3] by auto
  fix new r5 ca2 r6 ca3 im4
  assume "blk_count (length new) \<le> NDIRECT" "ec_put env' e new ca1 = (r5, ca2)" "ec_sync (es_rpc ts) e (ca2, im3) = Inr (r6, ca3, im4)"
  with wb [of im3 buf new env' ca1 r5 ca2 r6 ca3 im4] im3 show "\<exists>ty. file_at im4 (es_id e) = Some (ty, new)" by blast
qed

theorem created_entry_hides_write_witness:
  "\<exists>im1 ca1 im2 cb3 im3 cache srv.
     ec_create (es_rpc (1, 2, 3)) env0 2 0 (Map.empty, im1) = Inr (0, 2, ca1, im2) \<and>
     ec_sync (es_rpc (1, 2, 3)) 2 (snd (ec_put env0 2 [5, 6] Map.empty), im2) = Inr (0, cb3, im3) \<and>
     disk_content im3 2 = [5, 6] \<and> ec_get (es_rpc (1, 2, 3)) env0 2 (ca1, im3) = Inr (0, [], cache, srv)"
proof -
  let ?r = "es_rpc (1, 2, 3)" and ?p = "ec_put env0 2 [5, 6] Map.empty"
  obtain im1 im2 im3 where im: "im_inv im1" "es_create 1 2 im1 = Inr (2, im2)" "es_put (1, 2, 3) 2 [5, 6] im2 = Inr im3" using recreate_fs2 by metis
  obtain ca1 where cr: "ec_create ?r env0 2 0 (Map.empty, im1) = Inr (0, 2, ca1, im2)" using create_stub [OF im(2)] by blast
  obtain cb3 where sy: "ec_sync ?r 2 (snd ?p, im2) = Inr (0, cb3, im3)" using put_sync_stub [OF im(3)] by blast
  have p: "?p = (fst ?p, snd ?p)" by simp
  have "(\<exists>ty. file_at im3 (es_id 2) = Some (ty, [5, 6])) \<and> (\<exists>cache srv. ec_get ?r env0 2 (ca1, im3) = Inr (0, [], cache, srv))"
    using created_entry_hides_write [OF im(1) _ cr p _ sy, of env0] by (simp add: blk_count_alt)
  then have "disk_content im3 2 = [5, 6]" "\<exists>cache srv. ec_get ?r env0 2 (ca1, im3) = Inr (0, [], cache, srv)" by (auto simp: disk_content_def)
  with cr sy show ?thesis by blast
qed

end
