(* ===== verification/Yfs_Client.thy ===== *)
theory Yfs_Client
  imports Extent_Client
begin

text \<open>
  The file-system operations of \<^verbatim>\<open>yfs_client.cc\<close>: directories are files whose content is an array of
  \<^verbatim>\<open>diy_dirent\<close> structs, and every operation brackets its extent operations with the lock of the inode
  it works on. A status is the \<^verbatim>\<open>int\<close> the method returns; \<^verbatim>\<open>exit\<close>, an uncaught exception and a lock
  that the thread itself holds are faults.
\<close>

section \<open>State and environment\<close>

definition y_OK :: int where y_OK_def [simp]: "y_OK = 0"
definition y_RPCERR :: int where y_RPCERR_def [simp]: "y_RPCERR = 1"
definition y_NOENT :: int where y_NOENT_def [simp]: "y_NOENT = 2"
definition y_IOERR :: int where y_IOERR_def [simp]: "y_IOERR = 3"
definition y_EXIST :: int where y_EXIST_def [simp]: "y_EXIST = 4"

text \<open>
  The environment of the \<open>n\<close>-th call: the RPC stubs, the environment of the extent client, the bytes
  of an uninitialised \<^verbatim>\<open>diy_dirent\<close>, and what the handlers of the lock client do to the extent cache
  and the server while the thread acquires or releases a lock.
\<close>

record 's yfs_io =
  io_rpc :: "nat \<Rightarrow> 's extent_rpc"
  io_env :: "nat \<Rightarrow> ec_env"
  io_raw :: "nat \<Rightarrow> byte list"
  io_lock :: "nat \<Rightarrow> u64 \<Rightarrow> ec_cache \<times> 's \<Rightarrow> (ec_cache \<times> 's) res"
  io_unlock :: "nat \<Rightarrow> u64 \<Rightarrow> ec_cache \<times> 's \<Rightarrow> (ec_cache \<times> 's) res"

record 's yfs =
  y_cache :: ec_cache
  y_server :: 's
  y_locks :: "u64 set"
  y_tick :: nat

definition y_set :: "ec_cache \<Rightarrow> 's \<Rightarrow> 's yfs \<Rightarrow> 's yfs" where
  "y_set cache s st = st\<lparr>y_cache := cache, y_server := s, y_tick := Suc (y_tick st)\<rparr>"

text \<open>\<^verbatim>\<open>lc->acquire\<close> by a thread that has the lock waits for itself; \<^verbatim>\<open>lc->release\<close> needs the lock.\<close>

definition y_acquire :: "'s yfs_io \<Rightarrow> u64 \<Rightarrow> 's yfs \<Rightarrow> 's yfs res" where
  "y_acquire io lid st =
     (if lid \<in> y_locks st then Inl Deadlock
      else bindR (io_lock io (y_tick st) lid (y_cache st, y_server st)) (\<lambda>(c, s).
        Inr ((y_set c s st)\<lparr>y_locks := insert lid (y_locks st)\<rparr>)))"

definition y_release :: "'s yfs_io \<Rightarrow> u64 \<Rightarrow> 's yfs \<Rightarrow> 's yfs res" where
  "y_release io lid st =
     (if lid \<notin> y_locks st then Inl Undefined
      else bindR (io_unlock io (y_tick st) lid (y_cache st, y_server st)) (\<lambda>(c, s).
        Inr ((y_set c s st)\<lparr>y_locks := y_locks st - {lid}\<rparr>)))"

text \<open>The calls of the extent client.\<close>

definition y_get :: "'s yfs_io \<Rightarrow> u64 \<Rightarrow> 's yfs \<Rightarrow> (int \<times> byte list \<times> 's yfs) res" where
  "y_get io e st =
     bindR (ec_get (io_rpc io (y_tick st)) (io_env io (y_tick st)) e (y_cache st, y_server st))
       (\<lambda>(ret, buf, c, s). Inr (ret, buf, y_set c s st))"

definition y_getattr :: "'s yfs_io \<Rightarrow> u64 \<Rightarrow> 's yfs \<Rightarrow> (int \<times> attr \<times> 's yfs) res" where
  "y_getattr io e st =
     bindR (ec_getattr (io_rpc io (y_tick st)) (io_env io (y_tick st)) e (y_cache st, y_server st))
       (\<lambda>(ret, a, c, s). Inr (ret, a, y_set c s st))"

definition y_put :: "'s yfs_io \<Rightarrow> u64 \<Rightarrow> byte list \<Rightarrow> 's yfs \<Rightarrow> int \<times> 's yfs" where
  "y_put io e buf st =
     (let (ret, c) = ec_put (io_env io (y_tick st)) e buf (y_cache st) in (ret, y_set c (y_server st) st))"

definition y_create :: "'s yfs_io \<Rightarrow> u32 \<Rightarrow> u64 \<Rightarrow> 's yfs \<Rightarrow> (int \<times> u64 \<times> 's yfs) res" where
  "y_create io type e st =
     bindR (ec_create (io_rpc io (y_tick st)) (io_env io (y_tick st)) type e (y_cache st, y_server st))
       (\<lambda>(ret, e, c, s). Inr (ret, e, y_set c s st))"

definition y_remove :: "'s yfs_io \<Rightarrow> u64 \<Rightarrow> 's yfs \<Rightarrow> (int \<times> 's yfs) res" where
  "y_remove io e st =
     bindR (ec_remove (io_rpc io (y_tick st)) e (y_cache st, y_server st))
       (\<lambda>(ret, c, s). Inr (ret, y_set c s st))"

section \<open>Directory entries\<close>

definition MAX_FILENAME_LENGTH :: nat where
  MAX_FILENAME_LENGTH_def [simp, layout]: "MAX_FILENAME_LENGTH = 64"

record dirent =
  d_name :: "byte list"
  d_inum :: u64

text \<open>
  \<^verbatim>\<open>struct diy_dirent\<close>: the inode number, 64 bytes of name, its length as a 16-bit number and six bytes
  of padding. The bytes that are not assigned keep what the stack held.
\<close>

definition sizeof_diy_dirent :: nat where
  sizeof_diy_dirent_def [simp, layout]: "sizeof_diy_dirent = 8 + MAX_FILENAME_LENGTH + 2 + 6"

definition dirent_bytes :: "byte list \<Rightarrow> dirent \<Rightarrow> byte list" where
  "dirent_bytes raw d =
     enc64 (d_inum d) @ d_name d @ drop (8 + length (d_name d)) (take 72 raw)
     @ enc16 (of_nat (length (d_name d))) @ take 6 (drop 74 raw)"

text \<open>
  Filling a \<^verbatim>\<open>diy_dirent\<close>: the name length is cut to 16 bits, and copying more bytes than the array
  has is undefined.
\<close>

definition make_dirent :: "byte list \<Rightarrow> byte list \<Rightarrow> u64 \<Rightarrow> byte list res" where
  "make_dirent raw name inum =
     (let name_length = (of_nat (length name) :: u16) in
      bindR (guardR (unat name_length \<le> MAX_FILENAME_LENGTH) Undefined) (\<lambda>_.
        Inr (dirent_bytes raw \<lparr>d_name = take (unat name_length) name, d_inum = inum\<rparr>)))"

text \<open>Reading one back: \<^verbatim>\<open>dirent.name.assign(tmp_entry.name, tmp_entry.name_length)\<close>.\<close>

definition parse_dirent :: "byte list \<Rightarrow> dirent res" where
  "parse_dirent bs =
     (let name_length = unat (dec16 (take 2 (drop 72 bs))) in
      bindR (guardR (name_length \<le> MAX_FILENAME_LENGTH) Undefined) (\<lambda>_.
        Inr \<lparr>d_name = take name_length (drop 8 bs), d_inum = dec64 (take 8 bs)\<rparr>))"

text \<open>The loop of \<^verbatim>\<open>readdir_no_seria\<close> over the \<^verbatim>\<open>size / sizeof(diy_dirent)\<close> entries.\<close>

definition parse_dir :: "byte list \<Rightarrow> dirent list res" where
  "parse_dir buf =
     (let sz = (of_nat (length buf) :: u32); entry_num = sz div of_nat sizeof_diy_dirent in
      for_u32 0 entry_num (\<lambda>i list.
        bindR (read_mem (unat i * sizeof_diy_dirent) sizeof_diy_dirent buf) (\<lambda>bs.
        bindR (parse_dirent bs) (\<lambda>d. Inr (list @ [d])))) [])"

text \<open>The loop of \<^verbatim>\<open>rmdir\<close> that writes the remaining entries.\<close>

fun print_dir :: "(nat \<Rightarrow> byte list) \<Rightarrow> nat \<Rightarrow> dirent list \<Rightarrow> byte list res" where
  "print_dir raws n [] = Inr []"
| "print_dir raws n (d # ds) =
     bindR (make_dirent (raws n) (d_name d) (d_inum d)) (\<lambda>bs.
     bindR (print_dir raws (Suc n) ds) (\<lambda>rest. Inr (bs @ rest)))"

section \<open>Attributes\<close>

definition yfs_has_type :: "u32 \<Rightarrow> 's yfs_io \<Rightarrow> u64 \<Rightarrow> 's yfs \<Rightarrow> (bool \<times> 's yfs) res" where
  "yfs_has_type type io inum st =
     bindR (y_acquire io inum st) (\<lambda>st.
     bindR (y_getattr io inum st) (\<lambda>(ret, a, st).
     if ret \<noteq> y_OK then bindR (y_release io inum st) (\<lambda>st. Inr (False, st))
     else bindR (y_release io inum st) (\<lambda>st. Inr (a_type a = type, st))))"

definition yfs_isfile :: "'s yfs_io \<Rightarrow> u64 \<Rightarrow> 's yfs \<Rightarrow> (bool \<times> 's yfs) res" where
  "yfs_isfile = yfs_has_type T_FILE"

definition yfs_issymlink :: "'s yfs_io \<Rightarrow> u64 \<Rightarrow> 's yfs \<Rightarrow> (bool \<times> 's yfs) res" where
  "yfs_issymlink = yfs_has_type T_SLINK"

definition yfs_isdir :: "'s yfs_io \<Rightarrow> u64 \<Rightarrow> 's yfs \<Rightarrow> (bool \<times> 's yfs) res" where
  "yfs_isdir = yfs_has_type T_DIR"

record fileinfo =
  fi_size :: u64
  fi_atime :: u64
  fi_mtime :: u64
  fi_ctime :: u64

record dirinfo =
  di_atime :: u64
  di_mtime :: u64
  di_ctime :: u64

definition yfs_getfile :: "'s yfs_io \<Rightarrow> u64 \<Rightarrow> 's yfs \<Rightarrow> (int \<times> fileinfo \<times> 's yfs) res" where
  "yfs_getfile io inum st =
     bindR (y_acquire io inum st) (\<lambda>st.
     bindR (y_getattr io inum st) (\<lambda>(ret, a, st).
     let r = (if ret \<noteq> y_OK then y_IOERR else y_OK) in
     bindR (y_release io inum st) (\<lambda>st.
       Inr (r, \<lparr>fi_size = ucast (a_size a), fi_atime = ucast (a_atime a), fi_mtime = ucast (a_mtime a),
                fi_ctime = ucast (a_ctime a)\<rparr>, st))))"

definition yfs_getdir :: "'s yfs_io \<Rightarrow> u64 \<Rightarrow> 's yfs \<Rightarrow> (int \<times> dirinfo \<times> 's yfs) res" where
  "yfs_getdir io inum st =
     bindR (y_acquire io inum st) (\<lambda>st.
     bindR (y_getattr io inum st) (\<lambda>(ret, a, st).
     let r = (if ret \<noteq> y_OK then y_IOERR else y_OK) in
     bindR (y_release io inum st) (\<lambda>st.
       Inr (r, \<lparr>di_atime = ucast (a_atime a), di_mtime = ucast (a_mtime a), di_ctime = ucast (a_ctime a)\<rparr>, st))))"

definition yfs_setattr :: "'s yfs_io \<Rightarrow> u64 \<Rightarrow> u64 \<Rightarrow> 's yfs \<Rightarrow> (int \<times> 's yfs) res" where
  "yfs_setattr io ino sz st =
     bindR (y_acquire io ino st) (\<lambda>st.
     bindR (y_get io ino st) (\<lambda>(r, buf, st).
     if r \<noteq> y_OK then bindR (y_release io ino st) (\<lambda>st. Inr (r, st))
     else
       let (r, st) = y_put io ino (resize (unat sz) 0 buf) st in
       bindR (y_release io ino st) (\<lambda>st. Inr (r, st))))"

section \<open>Directories\<close>

definition readdir_no_seria :: "'s yfs_io \<Rightarrow> u64 \<Rightarrow> 's yfs \<Rightarrow> (int \<times> dirent list \<times> 's yfs) res" where
  "readdir_no_seria io dir st =
     bindR (y_get io dir st) (\<lambda>(ret, buf, st).
     if ret \<noteq> y_OK then Inl Exit
     else
       bindR (y_getattr io dir st) (\<lambda>(_, a, st).
       if a_type a \<noteq> T_DIR then Inl Exit
       else bindR (parse_dir buf) (\<lambda>list. Inr (y_OK, list, st))))"

definition yfs_readdir :: "'s yfs_io \<Rightarrow> u64 \<Rightarrow> 's yfs \<Rightarrow> (int \<times> dirent list \<times> 's yfs) res" where
  "yfs_readdir io dir st =
     bindR (y_acquire io dir st) (\<lambda>st.
     bindR (readdir_no_seria io dir st) (\<lambda>(r, list, st).
     bindR (y_release io dir st) (\<lambda>st. Inr (r, list, st))))"

text \<open>The search loop: the first entry with the name.\<close>

fun find_name :: "byte list \<Rightarrow> dirent list \<Rightarrow> u64 option" where
  "find_name name [] = None"
| "find_name name (d # ds) = (if d_name d = name then Some (d_inum d) else find_name name ds)"

definition lookup_no_seria ::
    "'s yfs_io \<Rightarrow> u64 \<Rightarrow> byte list \<Rightarrow> u64 \<Rightarrow> 's yfs \<Rightarrow> (int \<times> bool \<times> u64 \<times> 's yfs) res" where
  "lookup_no_seria io parent name ino_out st =
     bindR (readdir_no_seria io parent st) (\<lambda>(_, entries, st).
     case find_name name entries of
       Some inum \<Rightarrow> Inr (y_OK, True, inum, st)
     | None \<Rightarrow> Inr (y_OK, False, ino_out, st))"

definition yfs_lookup ::
    "'s yfs_io \<Rightarrow> u64 \<Rightarrow> byte list \<Rightarrow> u64 \<Rightarrow> 's yfs \<Rightarrow> (int \<times> bool \<times> u64 \<times> 's yfs) res" where
  "yfs_lookup io parent name ino_out st =
     bindR (y_acquire io parent st) (\<lambda>st.
     bindR (lookup_no_seria io parent name ino_out st) (\<lambda>(r, found, ino_out, st).
     bindR (y_release io parent st) (\<lambda>st. Inr (r, found, ino_out, st))))"

definition yfs_create ::
    "'s yfs_io \<Rightarrow> u64 \<Rightarrow> byte list \<Rightarrow> u64 \<Rightarrow> 's yfs \<Rightarrow> (int \<times> u64 \<times> 's yfs) res" where
  "yfs_create io parent name ino_out st =
     bindR (y_acquire io parent st) (\<lambda>st.
     bindR (lookup_no_seria io parent name ino_out st) (\<lambda>(_, found, ino_out, st).
     if found then bindR (y_release io parent st) (\<lambda>st. Inr (y_EXIST, ino_out, st))
     else
       bindR (y_create io T_FILE ino_out st) (\<lambda>(_, ino_out, st).
       bindR (y_get io parent st) (\<lambda>(ret, buf, st).
       if ret \<noteq> y_OK then bindR (y_release io parent st) (\<lambda>_. Inl Exit)
       else
         bindR (make_dirent (io_raw io (y_tick st)) name ino_out) (\<lambda>new_entry_str.
         let (_, st) = y_put io parent (buf @ new_entry_str) st in
         bindR (y_release io parent st) (\<lambda>st. Inr (y_OK, ino_out, st)))))))"

definition yfs_mkdir ::
    "'s yfs_io \<Rightarrow> u64 \<Rightarrow> byte list \<Rightarrow> u64 \<Rightarrow> 's yfs \<Rightarrow> (int \<times> u64 \<times> 's yfs) res" where
  "yfs_mkdir io parent name ino_out st =
     bindR (y_acquire io parent st) (\<lambda>st.
     bindR (lookup_no_seria io parent name ino_out st) (\<lambda>(_, found, ino_out, st).
     if found then bindR (y_release io parent st) (\<lambda>st. Inr (y_EXIST, ino_out, st))
     else
       bindR (y_get io parent st) (\<lambda>(ret, buf, st).
       if ret \<noteq> y_OK then bindR (y_release io parent st) (\<lambda>_. Inl Exit)
       else
         bindR (y_create io T_DIR ino_out st) (\<lambda>(_, ino_out, st).
         bindR (make_dirent (io_raw io (y_tick st)) name ino_out) (\<lambda>new_entry_str.
         let (_, st) = y_put io parent (buf @ new_entry_str) st in
         bindR (y_release io parent st) (\<lambda>st. Inr (y_OK, ino_out, st)))))))"

text \<open>Erase the first entry with the name; its inode number and the rest, if there is one.\<close>

fun take_name :: "byte list \<Rightarrow> dirent list \<Rightarrow> (u64 \<times> dirent list) option" where
  "take_name name [] = None"
| "take_name name (d # ds) =
     (if d_name d = name then Some (d_inum d, ds)
      else map_option (\<lambda>(i, rest). (i, d # rest)) (take_name name ds))"

definition yfs_rmdir :: "'s yfs_io \<Rightarrow> u64 \<Rightarrow> byte list \<Rightarrow> 's yfs \<Rightarrow> (int \<times> 's yfs) res" where
  "yfs_rmdir io parent name st =
     bindR (y_acquire io parent st) (\<lambda>st.
     bindR (readdir_no_seria io parent st) (\<lambda>(_, dir_entries, st).
     case take_name name dir_entries of
       None \<Rightarrow> bindR (y_release io parent st) (\<lambda>st. Inr (y_NOENT, st))
     | Some (inum, rest) \<Rightarrow>
         bindR (y_remove io inum st) (\<lambda>(_, st).
         bindR (print_dir (io_raw io) (y_tick st) rest) (\<lambda>buf.
         let (_, st) = y_put io parent buf st in
         bindR (y_release io parent st) (\<lambda>st. Inr (y_OK, st))))))"

definition yfs_unlink :: "'s yfs_io \<Rightarrow> u64 \<Rightarrow> byte list \<Rightarrow> 's yfs \<Rightarrow> (int \<times> 's yfs) res" where
  "yfs_unlink io parent name st = yfs_rmdir io parent name st"

text \<open>\<^verbatim>\<open>symlink\<close> returns \<^verbatim>\<open>EXIST\<close> without releasing the parent's lock.\<close>

definition yfs_symlink ::
    "'s yfs_io \<Rightarrow> u64 \<Rightarrow> byte list \<Rightarrow> byte list \<Rightarrow> u64 \<Rightarrow> 's yfs \<Rightarrow> (int \<times> u64 \<times> 's yfs) res" where
  "yfs_symlink io parent name link ino_out st =
     bindR (y_acquire io parent st) (\<lambda>st.
     bindR (y_get io parent st) (\<lambda>(_, parent_content, st).
     bindR (lookup_no_seria io parent name 0 st) (\<lambda>(_, found, _, st).
     if found then Inr (y_EXIST, ino_out, st)
     else
       bindR (y_create io T_SLINK ino_out st) (\<lambda>(_, ino_out, st).
       let (r, st) = y_put io ino_out link st in
       bindR (make_dirent (io_raw io (y_tick st)) name ino_out) (\<lambda>parent_add.
       let (_, st) = y_put io parent (parent_content @ parent_add) st in
       bindR (y_release io parent st) (\<lambda>st. Inr (r, ino_out, st)))))))"

definition yfs_readlink :: "'s yfs_io \<Rightarrow> u64 \<Rightarrow> 's yfs \<Rightarrow> (int \<times> byte list \<times> 's yfs) res" where
  "yfs_readlink io ino st =
     bindR (y_acquire io ino st) (\<lambda>st.
     bindR (y_get io ino st) (\<lambda>(r, buf, st).
     bindR (y_release io ino st) (\<lambda>st. Inr (r, buf, st))))"

section \<open>Reading and writing\<close>

text \<open>\<^verbatim>\<open>std::string::substr\<close> and \<^verbatim>\<open>replace\<close> throw \<^verbatim>\<open>out_of_range\<close> for a position past the end.\<close>

definition str_substr :: "byte list \<Rightarrow> nat \<Rightarrow> nat \<Rightarrow> byte list res" where
  "str_substr s pos n = (if pos > length s then Inl Abort else Inr (take n (drop pos s)))"

definition str_replace :: "byte list \<Rightarrow> nat \<Rightarrow> nat \<Rightarrow> byte list \<Rightarrow> byte list res" where
  "str_replace s pos n new =
     (if pos > length s then Inl Abort else Inr (take pos s @ new @ drop (pos + n) s))"

definition yfs_read :: "'s yfs_io \<Rightarrow> u64 \<Rightarrow> u64 \<Rightarrow> u64 \<Rightarrow> 's yfs \<Rightarrow> (int \<times> byte list \<times> 's yfs) res" where
  "yfs_read io ino sz off st =
     bindR (y_acquire io ino st) (\<lambda>st.
     bindR (y_get io ino st) (\<lambda>(_, content, st).
     bindR (y_release io ino st) (\<lambda>st.
     if unat (ucast off :: u32) \<ge> length content then Inr (y_OK, [], st)
     else bindR (str_substr content (unat off) (unat sz)) (\<lambda>data. Inr (y_OK, data, st)))))"

text \<open>The change of the content in \<^verbatim>\<open>write\<close>, with the number it reports as written.\<close>

definition write_content :: "byte list \<Rightarrow> u64 \<Rightarrow> u64 \<Rightarrow> byte list \<Rightarrow> (byte list \<times> u64) res" where
  "write_content content sz off data =
     bindR (read_mem 0 (unat sz) data) (\<lambda>buf.
     if unat (ucast off :: u32) \<le> length content then
       bindR (str_replace content (unat off) (unat sz) buf) (\<lambda>content. Inr (content, sz))
     else
       let old_size = (of_nat (length content) :: u64) in
       bindR (str_replace (resize (unat (sz + off)) 0 content) (unat off) (unat sz) buf) (\<lambda>content.
         Inr (content, sz + off - old_size)))"

definition yfs_write ::
    "'s yfs_io \<Rightarrow> u64 \<Rightarrow> u64 \<Rightarrow> u64 \<Rightarrow> byte list \<Rightarrow> 's yfs \<Rightarrow> (int \<times> u64 \<times> 's yfs) res" where
  "yfs_write io ino sz off data st =
     bindR (y_acquire io ino st) (\<lambda>st.
     bindR (y_get io ino st) (\<lambda>(_, content, st).
     bindR (write_content content sz off data) (\<lambda>(content, bytes_written).
     let (_, st) = y_put io ino content st in
     bindR (y_release io ino st) (\<lambda>st. Inr (y_OK, bytes_written, st)))))"

section \<open>Construction and names\<close>

text \<open>The constructor empties the root directory.\<close>

definition yfs_client_init :: "'s yfs_io \<Rightarrow> 's \<Rightarrow> 's yfs res" where
  "yfs_client_init io s =
     (let st = \<lparr>y_cache = Map.empty, y_server = s, y_locks = {}, y_tick = 0\<rparr> in
      bindR (y_acquire io 1 st) (\<lambda>st.
      let (_, st) = y_put io 1 [] st in
      y_release io 1 st))"

text \<open>\<^verbatim>\<open>filename\<close> prints, \<^verbatim>\<open>n2i\<close> reads the longest run of digits after blanks.\<close>

definition filename :: "u64 \<Rightarrow> string" where
  "filename inum = decimal (unat inum)"

definition n2i :: "string \<Rightarrow> u64" where
  "n2i s =
     (let s = dropWhile is_blank s;
          (neg, s) = (case s of c # cs \<Rightarrow> if c = CHR ''-'' then (True, cs) else if c = CHR ''+'' then (False, cs) else (False, s)
                              | [] \<Rightarrow> (False, s));
          ds = takeWhile is_digit s; v = digits_val ds
      in if ds = [] then 0
         else if v \<ge> 2 ^ 64 then - 1
         else if neg then - of_nat v else of_nat v)"

end
