(* ===== verification/Fuse.thy ===== *)
theory Fuse
  imports Yfs_Client
begin

text \<open>
  The FUSE front end \<^verbatim>\<open>fuse.cc\<close>: one function per handler, over the operations of \<open>Yfs_Client\<close>. A
  handler answers its request by exactly one \<^verbatim>\<open>fuse_reply_xxx\<close> call, which is the reply it returns.
  C strings are byte lists without a zero byte. The FUSE library is a parameter.
\<close>

section \<open>Data of the FUSE interface\<close>

record stat =
  st_ino :: u64
  st_mode :: u32
  st_nlink :: u64
  st_size :: u64
  st_atime :: u64
  st_mtime :: u64
  st_ctime :: u64

text \<open>\<^verbatim>\<open>bzero\<close> and \<^verbatim>\<open>memset(..., 0, ...)\<close> of the struct.\<close>

definition zero_stat :: stat where
  "zero_stat = \<lparr>st_ino = 0, st_mode = 0, st_nlink = 0, st_size = 0, st_atime = 0, st_mtime = 0, st_ctime = 0\<rparr>"

text \<open>The timeouts are always 0.0, in seconds.\<close>

record fuse_entry_param =
  e_ino :: u64
  e_generation :: u64
  e_attr :: stat
  e_attr_timeout :: nat
  e_entry_timeout :: nat

text \<open>The fields of \<^verbatim>\<open>struct statvfs\<close> that are not zero.\<close>

record statvfs =
  f_bsize :: u64
  f_namemax :: u64

datatype fuse_reply =
    Reply_Err int
  | Reply_Attr stat
  | Reply_Buf "byte list"
  | Reply_Write u64
  | Reply_Create fuse_entry_param
  | Reply_Entry fuse_entry_param
  | Reply_Open
  | Reply_Statfs statvfs
  | Reply_Readlink "byte list"

definition ENOENT :: int where ENOENT_def [simp]: "ENOENT = 2"
definition EEXIST :: int where EEXIST_def [simp]: "EEXIST = 17"
definition ENOTDIR :: int where ENOTDIR_def [simp]: "ENOTDIR = 20"
definition ENOSYS :: int where ENOSYS_def [simp]: "ENOSYS = 38"
definition ENOTEMPTY :: int where ENOTEMPTY_def [simp]: "ENOTEMPTY = 39"

definition S_IFDIR :: u32 where S_IFDIR_def [simp]: "S_IFDIR = 0x4000"
definition S_IFREG :: u32 where S_IFREG_def [simp]: "S_IFREG = 0x8000"
definition S_IFLNK :: u32 where S_IFLNK_def [simp]: "S_IFLNK = 0xA000"

text \<open>
  What the handlers take from outside: the FUSE library (the bit of \<^verbatim>\<open>FUSE_SET_ATTR_SIZE\<close>,
  \<^verbatim>\<open>fuse_dirent_size\<close>, and \<^verbatim>\<open>fuse_add_dirent\<close> as a change of the memory it is given), the bytes of
  memory that \<^verbatim>\<open>realloc\<close> leaves uninitialised, and the uninitialised \<^verbatim>\<open>inum\<close> variable of the \<open>n\<close>-th call.
\<close>

record fuse_env =
  set_attr_size :: u32
  fuse_dirent_size :: "u64 \<Rightarrow> u64"
  fuse_add_dirent :: "byte list \<Rightarrow> byte list \<Rightarrow> stat \<Rightarrow> u64 \<Rightarrow> byte list"
  raw_byte :: "nat \<Rightarrow> byte"
  raw_inum :: "nat \<Rightarrow> u64"

definition c_str :: "byte list \<Rightarrow> byte list" where
  "c_str s = takeWhile (\<lambda>b. b \<noteq> 0) s"

section \<open>Attributes\<close>

text \<open>\<^verbatim>\<open>getattr\<close>; the \<^verbatim>\<open>printf\<close> calls \<^verbatim>\<open>isfile\<close> once more.\<close>

definition fs_getattr :: "'s yfs_io \<Rightarrow> u64 \<Rightarrow> 's yfs \<Rightarrow> (int \<times> stat \<times> 's yfs) res" where
  "fs_getattr io inum y =
     (let st = zero_stat\<lparr>st_ino := inum\<rparr> in
      bindR (yfs_isfile io inum y) (\<lambda>(_, y).
      bindR (yfs_isfile io inum y) (\<lambda>(isfile, y).
      if isfile then
        bindR (yfs_getfile io inum y) (\<lambda>(ret, info, y).
        if ret \<noteq> y_OK then Inr (ret, st, y)
        else Inr (y_OK, st\<lparr>st_mode := or S_IFREG 0x1B6, st_nlink := 1, st_atime := fi_atime info,
                          st_mtime := fi_mtime info, st_ctime := fi_ctime info, st_size := fi_size info\<rparr>, y))
      else
        bindR (yfs_getdir io inum y) (\<lambda>(ret, info, y).
        if ret \<noteq> y_OK then Inr (ret, st, y)
        else
          bindR (yfs_isdir io inum y) (\<lambda>(d, y).
          let st = st\<lparr>st_mode := or (if d then S_IFDIR else S_IFLNK) 0x1FF\<rparr> in
          bindR (yfs_isdir io inum y) (\<lambda>(d, y).
          Inr (y_OK, st\<lparr>st_nlink := if d then 2 else 1, st_atime := di_atime info,
                       st_mtime := di_mtime info, st_ctime := di_ctime info\<rparr>, y)))))))"

definition fuseserver_getattr :: "'s yfs_io \<Rightarrow> u64 \<Rightarrow> 's yfs \<Rightarrow> (fuse_reply \<times> 's yfs) res" where
  "fuseserver_getattr io ino y =
     bindR (fs_getattr io ino y) (\<lambda>(ret, st, y).
     if ret \<noteq> y_OK then Inr (Reply_Err ENOENT, y) else Inr (Reply_Attr st, y))"

definition fuseserver_setattr ::
    "fuse_env \<Rightarrow> 's yfs_io \<Rightarrow> u64 \<Rightarrow> stat \<Rightarrow> u32 \<Rightarrow> 's yfs \<Rightarrow> (fuse_reply \<times> 's yfs) res" where
  "fuseserver_setattr fe io ino attr to_set y =
     (if and (set_attr_size fe) to_set \<noteq> 0 then
        bindR (if and to_set (set_attr_size fe) \<noteq> 0
               then bindR (yfs_setattr io ino (st_size attr) y) (\<lambda>(_, y). Inr y) else Inr y) (\<lambda>y.
        bindR (fs_getattr io ino y) (\<lambda>(_, st, y). Inr (Reply_Attr st, y)))
      else Inr (Reply_Err ENOSYS, y))"

section \<open>Reading and writing\<close>

definition fuseserver_read :: "'s yfs_io \<Rightarrow> u64 \<Rightarrow> u64 \<Rightarrow> u64 \<Rightarrow> 's yfs \<Rightarrow> (fuse_reply \<times> 's yfs) res" where
  "fuseserver_read io ino sz off y =
     bindR (yfs_read io ino sz off y) (\<lambda>(r, buf, y).
     if r = y_OK then Inr (Reply_Buf buf, y) else Inr (Reply_Err ENOENT, y))"

text \<open>\<^verbatim>\<open>size\<close> is passed both as the size and as the variable that receives the bytes written.\<close>

definition fuseserver_write ::
    "'s yfs_io \<Rightarrow> u64 \<Rightarrow> byte list \<Rightarrow> u64 \<Rightarrow> u64 \<Rightarrow> 's yfs \<Rightarrow> (fuse_reply \<times> 's yfs) res" where
  "fuseserver_write io ino buf sz off y =
     bindR (yfs_write io ino sz off buf y) (\<lambda>(r, sz, y).
     if r = y_OK then Inr (Reply_Write sz, y) else Inr (Reply_Err ENOENT, y))"

section \<open>Creating and looking up\<close>

definition fuseserver_createhelper ::
    "fuse_env \<Rightarrow> 's yfs_io \<Rightarrow> u64 \<Rightarrow> byte list \<Rightarrow> fuse_entry_param \<Rightarrow> u32 \<Rightarrow> 's yfs \<Rightarrow>
     (int \<times> fuse_entry_param \<times> 's yfs) res" where
  "fuseserver_createhelper fe io parent name e type y =
     (let e = e\<lparr>e_attr_timeout := 0, e_entry_timeout := 0, e_generation := 0\<rparr> in
      bindR (if type = T_FILE then yfs_create io parent name (raw_inum fe (y_tick y)) y
             else yfs_mkdir io parent name (raw_inum fe (y_tick y)) y) (\<lambda>(ret, inum, y).
      if ret \<noteq> y_OK then Inr (ret, e, y)
      else
        bindR (fs_getattr io inum y) (\<lambda>(ret, attr, y). Inr (ret, e\<lparr>e_ino := inum, e_attr := attr\<rparr>, y))))"

text \<open>The answer of the handlers that create something.\<close>

definition reply_created ::
    "(fuse_entry_param \<Rightarrow> fuse_reply) \<Rightarrow> int \<times> fuse_entry_param \<times> 's yfs \<Rightarrow> (fuse_reply \<times> 's yfs) res" where
  "reply_created reply = (\<lambda>(ret, e, y).
     if ret = y_OK then Inr (reply e, y)
     else if ret = y_EXIST then Inr (Reply_Err EEXIST, y)
     else Inr (Reply_Err ENOENT, y))"

definition fuseserver_create ::
    "fuse_env \<Rightarrow> 's yfs_io \<Rightarrow> u64 \<Rightarrow> byte list \<Rightarrow> fuse_entry_param \<Rightarrow> 's yfs \<Rightarrow> (fuse_reply \<times> 's yfs) res" where
  "fuseserver_create fe io parent name e y =
     bindR (fuseserver_createhelper fe io parent name e T_FILE y) (reply_created Reply_Create)"

definition fuseserver_mknod ::
    "fuse_env \<Rightarrow> 's yfs_io \<Rightarrow> u64 \<Rightarrow> byte list \<Rightarrow> fuse_entry_param \<Rightarrow> 's yfs \<Rightarrow> (fuse_reply \<times> 's yfs) res" where
  "fuseserver_mknod fe io parent name e y =
     bindR (fuseserver_createhelper fe io parent name e T_FILE y) (reply_created Reply_Entry)"

definition fuseserver_mkdir ::
    "fuse_env \<Rightarrow> 's yfs_io \<Rightarrow> u64 \<Rightarrow> byte list \<Rightarrow> fuse_entry_param \<Rightarrow> 's yfs \<Rightarrow> (fuse_reply \<times> 's yfs) res" where
  "fuseserver_mkdir fe io parent name e y =
     (let e = e\<lparr>e_attr_timeout := 0, e_entry_timeout := 0, e_generation := 0\<rparr> in
      bindR (fuseserver_createhelper fe io parent name e T_DIR y) (reply_created Reply_Entry))"

definition fuseserver_lookup ::
    "fuse_env \<Rightarrow> 's yfs_io \<Rightarrow> u64 \<Rightarrow> byte list \<Rightarrow> fuse_entry_param \<Rightarrow> 's yfs \<Rightarrow> (fuse_reply \<times> 's yfs) res" where
  "fuseserver_lookup fe io parent name e y =
     (let e = e\<lparr>e_attr_timeout := 0, e_entry_timeout := 0, e_generation := 0\<rparr> in
      bindR (yfs_lookup io parent name (raw_inum fe (y_tick y)) y) (\<lambda>(_, found, ino, y).
      if found then
        bindR (fs_getattr io ino y) (\<lambda>(_, attr, y). Inr (Reply_Entry (e\<lparr>e_ino := ino, e_attr := attr\<rparr>), y))
      else Inr (Reply_Err ENOENT, y)))"

section \<open>Listing directories\<close>

record dirbuf =
  db_p :: "byte list"
  db_size :: u64

text \<open>\<^verbatim>\<open>realloc\<close> keeps the old bytes; the new ones are whatever the memory held.\<close>

definition realloc :: "fuse_env \<Rightarrow> byte list \<Rightarrow> nat \<Rightarrow> byte list" where
  "realloc fe p n = take n p @ map (raw_byte fe) [length p..<n]"

definition dirbuf_add :: "fuse_env \<Rightarrow> dirbuf \<Rightarrow> byte list \<Rightarrow> u64 \<Rightarrow> dirbuf" where
  "dirbuf_add fe b name ino =
     (let oldsize = db_size b;
          sz = oldsize + fuse_dirent_size fe (of_nat (length name));
          p = realloc fe (db_p b) (unat sz);
          stbuf = zero_stat\<lparr>st_ino := ino\<rparr>
      in \<lparr>db_p = take (unat oldsize) p @ fuse_add_dirent fe (drop (unat oldsize) p) name stbuf sz, db_size = sz\<rparr>)"

definition reply_buf_limited :: "byte list \<Rightarrow> u64 \<Rightarrow> u64 \<Rightarrow> u64 \<Rightarrow> fuse_reply" where
  "reply_buf_limited buf bufsize off maxsize =
     (if off < bufsize
      then Reply_Buf (take (unat (if bufsize - off < maxsize then bufsize - off else maxsize)) (drop (unat off) buf))
      else Reply_Buf [])"

definition fuseserver_readdir ::
    "fuse_env \<Rightarrow> 's yfs_io \<Rightarrow> u64 \<Rightarrow> u64 \<Rightarrow> u64 \<Rightarrow> 's yfs \<Rightarrow> (fuse_reply \<times> 's yfs) res" where
  "fuseserver_readdir fe io ino sz off y =
     bindR (yfs_isdir io ino y) (\<lambda>(d, y).
     if \<not> d then Inr (Reply_Err ENOTDIR, y)
     else
       bindR (yfs_readdir io ino y) (\<lambda>(_, entries, y).
       let b = foldl (\<lambda>b it. dirbuf_add fe b (c_str (d_name it)) (d_inum it)) \<lparr>db_p = [], db_size = 0\<rparr> entries
       in Inr (reply_buf_limited (db_p b) (db_size b) off sz, y)))"

section \<open>The remaining handlers\<close>

definition fuseserver_open :: "'s yfs \<Rightarrow> (fuse_reply \<times> 's yfs) res" where
  "fuseserver_open y = Inr (Reply_Open, y)"

definition fuseserver_unlink :: "'s yfs_io \<Rightarrow> u64 \<Rightarrow> byte list \<Rightarrow> 's yfs \<Rightarrow> (fuse_reply \<times> 's yfs) res" where
  "fuseserver_unlink io parent name y =
     bindR (yfs_unlink io parent name y) (\<lambda>(r, y).
     if r = y_OK then Inr (Reply_Err 0, y)
     else if r = y_NOENT then Inr (Reply_Err ENOENT, y)
     else Inr (Reply_Err ENOTEMPTY, y))"

definition fuseserver_statfs :: "'s yfs \<Rightarrow> (fuse_reply \<times> 's yfs) res" where
  "fuseserver_statfs y = Inr (Reply_Statfs \<lparr>f_bsize = 512, f_namemax = 255\<rparr>, y)"

definition fuseserver_readlink :: "'s yfs_io \<Rightarrow> u64 \<Rightarrow> 's yfs \<Rightarrow> (fuse_reply \<times> 's yfs) res" where
  "fuseserver_readlink io ino y =
     bindR (yfs_readlink io ino y) (\<lambda>(ret, buf, y).
     if ret \<noteq> y_OK then Inr (Reply_Err ENOENT, y) else Inr (Reply_Readlink (c_str buf), y))"

definition fuseserver_symlink ::
    "fuse_env \<Rightarrow> 's yfs_io \<Rightarrow> byte list \<Rightarrow> u64 \<Rightarrow> byte list \<Rightarrow> fuse_entry_param \<Rightarrow> 's yfs \<Rightarrow> (fuse_reply \<times> 's yfs) res" where
  "fuseserver_symlink fe io link parent name e y =
     bindR (yfs_symlink io parent name link (raw_inum fe (y_tick y)) y) (\<lambda>(ret, ino, y).
     if ret \<noteq> y_OK then
       (if ret = y_EXIST then Inr (Reply_Err EEXIST, y) else Inr (Reply_Err ENOENT, y))
     else
       let e = e\<lparr>e_ino := ino, e_attr_timeout := 0, e_entry_timeout := 0, e_generation := 0\<rparr> in
       bindR (fs_getattr io ino y) (\<lambda>(ret, attr, y).
       if ret \<noteq> y_OK then Inr (Reply_Err ENOENT, y) else Inr (Reply_Entry (e\<lparr>e_attr := attr\<rparr>), y)))"

section \<open>The operations table and the program\<close>

text \<open>
  The requests for which \<^verbatim>\<open>main\<close> registers a handler, with the arguments the handlers use. The last
  argument of the creating ones is the uninitialised \<^verbatim>\<open>fuse_entry_param\<close> of their stack frame.
\<close>

datatype fuse_request =
    Getattr_Req u64
  | Statfs_Req
  | Readdir_Req u64 u64 u64
  | Lookup_Req u64 "byte list" fuse_entry_param
  | Create_Req u64 "byte list" fuse_entry_param
  | Mknod_Req u64 "byte list" fuse_entry_param
  | Open_Req u64
  | Read_Req u64 u64 u64
  | Write_Req u64 "byte list" u64 u64
  | Setattr_Req u64 stat u32
  | Unlink_Req u64 "byte list"
  | Mkdir_Req u64 "byte list" fuse_entry_param
  | Readlink_Req u64
  | Symlink_Req "byte list" u64 "byte list" fuse_entry_param

fun fuseserver_oper :: "fuse_env \<Rightarrow> 's yfs_io \<Rightarrow> fuse_request \<Rightarrow> 's yfs \<Rightarrow> (fuse_reply \<times> 's yfs) res" where
  "fuseserver_oper fe io (Getattr_Req ino) y = fuseserver_getattr io ino y"
| "fuseserver_oper fe io Statfs_Req y = fuseserver_statfs y"
| "fuseserver_oper fe io (Readdir_Req ino sz off) y = fuseserver_readdir fe io ino sz off y"
| "fuseserver_oper fe io (Lookup_Req parent name e) y = fuseserver_lookup fe io parent name e y"
| "fuseserver_oper fe io (Create_Req parent name e) y = fuseserver_create fe io parent name e y"
| "fuseserver_oper fe io (Mknod_Req parent name e) y = fuseserver_mknod fe io parent name e y"
| "fuseserver_oper fe io (Open_Req ino) y = fuseserver_open y"
| "fuseserver_oper fe io (Read_Req ino sz off) y = fuseserver_read io ino sz off y"
| "fuseserver_oper fe io (Write_Req ino buf sz off) y = fuseserver_write io ino buf sz off y"
| "fuseserver_oper fe io (Setattr_Req ino attr to_set) y = fuseserver_setattr fe io ino attr to_set y"
| "fuseserver_oper fe io (Unlink_Req parent name) y = fuseserver_unlink io parent name y"
| "fuseserver_oper fe io (Mkdir_Req parent name e) y = fuseserver_mkdir fe io parent name e y"
| "fuseserver_oper fe io (Readlink_Req ino) y = fuseserver_readlink io ino y"
| "fuseserver_oper fe io (Symlink_Req link parent name e) y = fuseserver_symlink fe io link parent name e y"

text \<open>The session loop serves the requests one after the other.\<close>

fun fuse_run :: "fuse_env \<Rightarrow> 's yfs_io \<Rightarrow> fuse_request list \<Rightarrow> 's yfs \<Rightarrow> (fuse_reply list \<times> 's yfs) res" where
  "fuse_run fe io [] y = Inr ([], y)"
| "fuse_run fe io (r # rs) y =
     bindR (fuseserver_oper fe io r y) (\<lambda>(p, y).
     bindR (fuse_run fe io rs y) (\<lambda>(ps, y). Inr (p # ps, y)))"

text \<open>
  \<^verbatim>\<open>main\<close>: the results of the FUSE library's set-up calls, and its session loop as a function of the
  registered handlers, are arguments. The result is the exit status.
\<close>

record 's fuse_session =
  fuse_parse_cmdline :: int
  fuse_mount :: int
  fuse_lowlevel_new :: bool
  fuse_kern_chan_new :: bool
  fuse_session_loop :: "(fuse_request \<Rightarrow> 's yfs \<Rightarrow> (fuse_reply \<times> 's yfs) res) \<Rightarrow> 's yfs \<Rightarrow> int res"

definition fuse_main :: "nat \<Rightarrow> 's fuse_session \<Rightarrow> fuse_env \<Rightarrow> 's yfs_io \<Rightarrow> 's \<Rightarrow> int res" where
  "fuse_main argc lib fe io s =
     (if argc \<noteq> 4 then Inr 1
      else
        bindR (yfs_client_init io s) (\<lambda>y.
        if fuse_parse_cmdline lib = - 1 then Inr 0
        else if fuse_mount lib = - 1 then Inr 1
        else if \<not> fuse_lowlevel_new lib then Inr 1
        else if \<not> fuse_kern_chan_new lib then Inr 1
        else bindR (fuse_session_loop lib (fuseserver_oper fe io) y) (\<lambda>err. Inr (if err \<noteq> 0 then 1 else 0))))"

end
