(* ===== verification/Yfs_Spec.thy ===== *)
theory Yfs_Spec
  imports Yfs_Client
begin

text \<open>
  What the file-system operations do, over the view a client has of the files: the cached content
  where the cache holds one, the server's otherwise. The environment is quiet: calls are delivered,
  and no other client takes a lock away during the operation.
\<close>

section \<open>The view of a client\<close>

definition quiet_io :: "block_manager yfs_io \<Rightarrow> bool" where
  "quiet_io io \<longleftrightarrow> (\<forall>n. \<exists>ts. io_rpc io n = es_rpc ts) \<and> (\<forall>n. length (io_raw io n) = sizeof_diy_dirent) \<and>
     (\<forall>n lid x. io_lock io n lid x = Inr x) \<and> (\<forall>n lid x. io_unlock io n lid x = Inr x)"

definition canon :: "u64 \<Rightarrow> bool" where
  "canon e \<longleftrightarrow> unat e < 2 ^ 31"

definition seen :: "cached_file option \<Rightarrow> (u16 \<times> byte list) option \<Rightarrow> (u16 \<times> byte list) option" where
  "seen file f = map_option (\<lambda>(ty, c). (ty, if buf_hit file then cf_buf (the file) else c)) f"

definition view :: "block_manager yfs \<Rightarrow> u64 \<rightharpoonup> u16 \<times> byte list" where
  "view st e =
     (if canon e then seen (entry (y_cache st) e) (file_at (y_server st) (es_id e)) else None)"

text \<open>
  An entry is in step with the file. The root's entry may lack valid attributes, as the constructor
  leaves it, but only while its content is the server's. The size attribute is right except that
  \<^verbatim>\<open>extent_client::create\<close> leaves that of a new, empty file uninitialised.
\<close>

definition entry_sound :: "u64 \<Rightarrow> cached_file option \<Rightarrow> u16 \<times> byte list \<Rightarrow> bool" where
  "entry_sound e file = (\<lambda>(ty, c).
     (attr_hit file \<longrightarrow> buf_hit file \<and> a_type (cf_attr (the file)) = scast ty) \<and>
     (is_dirty file \<longrightarrow> buf_hit file) \<and>
     (buf_hit file \<and> \<not> is_dirty file \<longrightarrow> cf_buf (the file) = c) \<and>
     (buf_hit file \<and> \<not> attr_hit file \<longrightarrow> e = 1 \<and> cf_buf (the file) = c) \<and>
     (attr_hit file \<and> cf_buf (the file) \<noteq> [] \<longrightarrow>
        a_size (cf_attr (the file)) = of_nat (length (cf_buf (the file)))))"

definition entry_inv :: "u64 \<Rightarrow> cached_file option \<Rightarrow> (u16 \<times> byte list) option \<Rightarrow> bool" where
  "entry_inv e file fo = (case fo of None \<Rightarrow> quiet file | Some f \<Rightarrow> entry_sound e file f)"

lemma entry_inv_simps [simp]: "entry_inv e file None = quiet file" "entry_inv e file (Some f) = entry_sound e file f"
  by (simp_all add: entry_inv_def)

definition y_inv :: "block_manager yfs \<Rightarrow> bool" where
  "y_inv st \<longleftrightarrow> im_inv (y_server st) \<and>
     (\<forall>e. canon e \<longrightarrow> entry_inv e (entry (y_cache st) e) (file_at (y_server st) (es_id e)))"

lemma canon_id_inj: "canon d \<Longrightarrow> canon e \<Longrightarrow> es_id d = es_id e \<longleftrightarrow> d = e"
  unfolding canon_def by (rule es_id_inj)

lemma view_SomeD:
  assumes "view st e = Some (ty, c)"
  obtains x where "canon e" "file_at (y_server st) (es_id e) = Some (ty, x)"
    "c = (if buf_hit (entry (y_cache st) e) then cf_buf (the (entry (y_cache st) e)) else x)"
  using assms by (auto simp: view_def seen_def split: if_splits)

lemma y_invD:
  assumes "y_inv st"
  shows "im_inv (y_server st)"
    and "canon e \<Longrightarrow> file_at (y_server st) (es_id e) = Some f \<Longrightarrow> entry_sound e (entry (y_cache st) e) f"
    and "canon e \<Longrightarrow> file_at (y_server st) (es_id e) = None \<Longrightarrow> quiet (entry (y_cache st) e)"
  using assms unfolding y_inv_def by (metis entry_inv_simps)+

text \<open>An operation on one extent needs to be checked there only.\<close>

lemma y_local:
  assumes inv: "y_inv st" and e: "canon e" and im: "im_inv (y_server st')"
    and fl: "\<And>i. i \<noteq> es_id e \<Longrightarrow> file_at (y_server st') i = file_at (y_server st) i"
    and en: "\<And>d. d \<noteq> e \<Longrightarrow> entry (y_cache st') d = entry (y_cache st) d"
    and here: "entry_inv e (entry (y_cache st') e) (file_at (y_server st') (es_id e))"
  shows "y_inv st'" and "view st' = (view st)(e := view st' e)"
proof -
  have other: "file_at (y_server st') (es_id d) = file_at (y_server st) (es_id d)" if "canon d" "d \<noteq> e" for d
    using fl canon_id_inj [OF that(1) e] that(2) by blast
  have "entry_inv d (entry (y_cache st') d) (file_at (y_server st') (es_id d))" if "canon d" for d
  proof (cases "d = e")
    case False
    then show ?thesis using inv that other en by (simp add: y_inv_def)
  qed (simp add: here)
  then show "y_inv st'" using im by (simp add: y_inv_def)
  show "view st' = (view st)(e := view st' e)"
  proof
    show "view st' d = ((view st)(e := view st' e)) d" for d
      using other [of d] en [of d] by (cases "d = e") (simp_all add: view_def)
  qed
qed

lemma y_set_simps [simp]:
  "y_cache (y_set c s st) = c" "y_server (y_set c s st) = s" "y_locks (y_set c s st) = y_locks st"
  by (simp_all add: y_set_def)

lemma y_inv_locks [simp]: "y_inv (st\<lparr>y_locks := L\<rparr>) = y_inv st" "view (st\<lparr>y_locks := L\<rparr>) = view st"
  by (simp_all add: y_inv_def view_def fun_eq_iff)

lemma y_set_same [simp]: "y_inv (y_set (y_cache st) (y_server st) st) = y_inv st"
  "view (y_set (y_cache st) (y_server st) st) = view st"
  by (simp_all add: y_inv_def view_def fun_eq_iff)

section \<open>The extent calls\<close>

lemma acquire_quiet:
  assumes "quiet_io io" and "lid \<notin> y_locks st"
  shows "y_acquire io lid st = Inr ((y_set (y_cache st) (y_server st) st)\<lparr>y_locks := insert lid (y_locks st)\<rparr>)"
  using assms by (simp add: y_acquire_def quiet_io_def)

lemma release_quiet:
  assumes "quiet_io io" and "lid \<in> y_locks st"
  shows "y_release io lid st = Inr ((y_set (y_cache st) (y_server st) st)\<lparr>y_locks := y_locks st - {lid}\<rparr>)"
  using assms by (simp add: y_release_def quiet_io_def)

lemma y_get_spec:
  assumes q: "quiet_io io" and inv: "y_inv st" and v: "view st e = Some (ty, c)"
  shows "\<exists>st'. y_get io e st = Inr (0, c, st') \<and> y_inv st' \<and> view st' = view st \<and> y_locks st' = y_locks st \<and>
    (e \<noteq> 1 \<or> attr_hit (entry (y_cache st) e) \<longrightarrow> attr_hit (entry (y_cache st') e))"
proof -
  obtain x where x: "canon e" "file_at (y_server st) (es_id e) = Some (ty, x)"
    "c = (if buf_hit (entry (y_cache st) e) then cf_buf (the (entry (y_cache st) e)) else x)"
    using v by (rule view_SomeD)
  note es = y_invD(2) [OF inv x(1,2)]
  obtain ts where ts: "io_rpc io (y_tick st) = es_rpc ts" using q unfolding quiet_io_def by blast
  let ?env = "io_env io (y_tick st)"
  show ?thesis
  proof (cases "buf_hit (entry (y_cache st) e)")
    case True
    let ?st = "y_set ((y_cache st)(e \<mapsto> entry (y_cache st) e)) (y_server st) st"
    have run: "y_get io e st = Inr (0, c, ?st)"
      using es.get_hit [OF True, of ts ?env "y_server st"] True x(3) by (simp add: y_get_def ts)
    have "y_inv ?st" "view ?st = (view st)(e := view ?st e)"
      by (rule y_local [OF inv x(1)]; use es x y_invD(1) [OF inv] in simp)+
    moreover have "view ?st e = view st e" by (simp add: view_def seen_def)
    ultimately show ?thesis using run True es by (auto simp: entry_sound_def)
  next
    case False
    from es.get_miss [OF y_invD(1) [OF inv] x(2) False, of ts ?env] obtain f s where
      run: "ec_get (es_rpc ts) ?env e (y_cache st, y_server st) = Inr (0, x, (y_cache st)(e \<mapsto> Some f), s)"
      and f: "im_inv s" "file_at s = file_at (y_server st)" "cf_buf f = x" "buf_valid f" "attr_valid f"
        "dirty f = is_dirty (entry (y_cache st) e)" "a_type (cf_attr f) = scast ty" "unat (a_size (cf_attr f)) = length x"
      by auto
    have sz: "a_size (cf_attr f) = of_nat (length x)" using f(8) [symmetric] by simp
    have nd: "\<not> dirty f" using es False f(6) by (auto simp: entry_sound_def)
    let ?st = "y_set ((y_cache st)(e \<mapsto> Some f)) s st"
    have "y_inv ?st" "view ?st = (view st)(e := view ?st e)"
      by (rule y_local [OF inv x(1)]; use f nd x sz in \<open>simp add: entry_sound_def\<close>)+
    moreover have "view ?st e = view st e" using x f False by (simp add: view_def seen_def)
    moreover have "y_get io e st = Inr (0, c, ?st)" using run x(3) False by (simp add: y_get_def ts)
    ultimately show ?thesis using f by auto
  qed
qed

lemma y_getattr_spec:
  assumes q: "quiet_io io" and inv: "y_inv st" and v: "view st e = Some (ty, c)"
  shows "\<exists>a st'. y_getattr io e st = Inr (0, a, st') \<and> a_type a = scast ty \<and>
    (c \<noteq> [] \<longrightarrow> a_size a = of_nat (length c)) \<and> y_inv st' \<and> view st' = view st \<and>
    y_locks st' = y_locks st \<and> attr_hit (entry (y_cache st') e)"
proof -
  obtain x where x: "canon e" "file_at (y_server st) (es_id e) = Some (ty, x)"
    "c = (if buf_hit (entry (y_cache st) e) then cf_buf (the (entry (y_cache st) e)) else x)"
    using v by (rule view_SomeD)
  note es = y_invD(2) [OF inv x(1,2)]
  obtain ts where ts: "io_rpc io (y_tick st) = es_rpc ts" using q unfolding quiet_io_def by blast
  let ?env = "io_env io (y_tick st)"
  show ?thesis
  proof (cases "attr_hit (entry (y_cache st) e)")
    case True
    let ?st = "y_set ((y_cache st)(e \<mapsto> entry (y_cache st) e)) (y_server st) st"
    have run: "y_getattr io e st = Inr (0, cf_attr (the (entry (y_cache st) e)), ?st)"
      using es.getattr_hit [OF True, of ts ?env "y_server st"] by (simp add: y_getattr_def ts)
    have "y_inv ?st" "view ?st = (view st)(e := view ?st e)"
      by (rule y_local [OF inv x(1)]; use es x y_invD(1) [OF inv] in simp)+
    moreover have "view ?st e = view st e" by (simp add: view_def seen_def)
    moreover have "c \<noteq> [] \<longrightarrow> a_size (cf_attr (the (entry (y_cache st) e))) = of_nat (length c)"
      using True es x(3) by (auto simp: entry_sound_def)
    ultimately show ?thesis using run True es by (auto simp: entry_sound_def)
  next
    case False
    from es.getattr_miss [OF y_invD(1) [OF inv] x(2) False, of ts ?env] obtain f s where
      run: "ec_getattr (es_rpc ts) ?env e (y_cache st, y_server st) = Inr (0, cf_attr f, (y_cache st)(e \<mapsto> Some f), s)"
      and f: "im_inv s" "file_at s = file_at (y_server st)" "cf_buf f = x" "buf_valid f" "attr_valid f"
        "dirty f = is_dirty (entry (y_cache st) e)" "a_type (cf_attr f) = scast ty" "unat (a_size (cf_attr f)) = length x"
      by auto
    have sz: "a_size (cf_attr f) = of_nat (length x)" using f(8) [symmetric] by simp
    have c: "c = x" using es False x(3) by (auto simp: entry_sound_def)
    let ?st = "y_set ((y_cache st)(e \<mapsto> Some f)) s st"
    have "y_inv ?st" "view ?st = (view st)(e := view ?st e)"
      by (rule y_local [OF inv x(1)]; use f x sz in \<open>simp add: entry_sound_def\<close>)+
    moreover have "view ?st e = view st e" using x f c by (simp add: view_def seen_def)
    moreover have "y_getattr io e st = Inr (0, cf_attr f, ?st)" using run by (simp add: y_getattr_def ts)
    ultimately show ?thesis using f sz c by auto
  qed
qed

lemma y_put_spec:
  assumes inv: "y_inv st" and v: "view st e = Some (ty, c)" and hit: "attr_hit (entry (y_cache st) e)"
  shows "\<exists>st'. y_put io e buf st = (0, st') \<and> y_inv st' \<and> view st' = (view st)(e \<mapsto> (ty, buf)) \<and>
    y_locks st' = y_locks st \<and> (\<forall>d. attr_hit (entry (y_cache st') d) = attr_hit (entry (y_cache st) d))"
proof -
  obtain x where x: "canon e" "file_at (y_server st) (es_id e) = Some (ty, x)" using v by (rule view_SomeD)
  note es = y_invD(2) [OF inv x]
  let ?env = "io_env io (y_tick st)"
  let ?c = "snd (ec_put ?env e buf (y_cache st))"
  let ?st = "y_set ?c (y_server st) st"
  from ec_put_entry(1) [of ?env e buf "y_cache st"] obtain f where f: "entry ?c e = Some f" "dirty f" "buf_valid f" "cf_buf f = buf" "attr_valid f"
    "a_size (cf_attr f) = of_nat (length buf)" using hit by auto
  have ty: "a_type (cf_attr f) = scast ty"
    using hit es f(1) by (cases "entry (y_cache st) e")
      (auto simp: ec_put_def map_index_entry Let_def entry_sound_def split: prod.splits)
  have "y_put io e buf st = (0, ?st)"
    unfolding y_put_def by (subst ec_put_run) simp
  moreover have "y_inv ?st" "view ?st = (view st)(e := view ?st e)"
    by (rule y_local [OF inv x(1)];
        use f x ty y_invD(1) [OF inv] ec_put_entry(2) [where env = ?env and e = e and buf = buf and cache = "y_cache st"] in \<open>simp add: entry_sound_def\<close>)+
  moreover have "view ?st e = Some (ty, buf)" using x f by (simp add: view_def seen_def)
  moreover have "attr_hit (entry ?c d) = attr_hit (entry (y_cache st) d)" for d
    using f hit ec_put_entry(2) [where d = d and env = ?env and e = e and buf = buf and cache = "y_cache st"] by (cases "d = e") auto
  ultimately show ?thesis by simp
qed

text \<open>Every inode number but the root's names a file.\<close>

definition inodes_full :: "block_manager yfs \<Rightarrow> bool" where
  "inodes_full st \<longleftrightarrow> (\<forall>d. 1 < unat d \<and> unat d \<le> INODE_NUM \<longrightarrow> view st d \<noteq> None)"

lemma inodes_fullI:
  assumes "\<forall>j. valid_inum j \<and> j \<noteq> 1 \<longrightarrow> live (y_server st) j"
  shows "inodes_full st"
  unfolding inodes_full_def
proof (intro allI impI)
  fix d :: u64 assume d: "1 < unat d \<and> unat d \<le> INODE_NUM"
  then have u: "unat (es_id d) = unat d" by (simp add: unat_es_id)
  with d have "valid_inum (es_id d)" "es_id d \<noteq> 1" by (auto simp: valid_inum_def word_unat_eq_iff)
  then have "file_at (y_server st) (es_id d) \<noteq> None" using assms by (simp add: file_at_def)
  moreover have "canon d" using d by (simp add: canon_def)
  ultimately show "view st d \<noteq> None" by (simp add: view_def seen_def)
qed

lemma inodes_full_cong: "view st = view st' \<Longrightarrow> inodes_full st = inodes_full st'"
  by (simp add: inodes_full_def)

lemma y_create_spec:
  assumes q: "quiet_io io" and inv: "y_inv st" and ty: "type \<in> {T_DIR, T_FILE, T_SLINK}"
  shows "case y_create io type e0 st of Inl flt \<Rightarrow> flt = Exit \<and> inodes_full st
    | Inr (ret, e, st') \<Rightarrow> ret = 0 \<and> canon e \<and> e \<noteq> 1 \<and> view st e = None \<and> y_inv st' \<and>
        view st' = (view st)(e \<mapsto> (ucast type, [])) \<and> y_locks st' = y_locks st \<and>
        file_at (y_server st') (es_id e) = Some (ucast type, []) \<and>
        attr_hit (entry (y_cache st') e) \<and> (\<forall>d. d \<noteq> e \<longrightarrow> entry (y_cache st') d = entry (y_cache st) d)"
proof -
  obtain ts where ts: "io_rpc io (y_tick st) = es_rpc ts" using q unfolding quiet_io_def by blast
  have nz: "ucast type \<noteq> (0 :: u16)" using ty by auto
  note cr = es_create_run [OF y_invD(1) [OF inv] nz, of "fst ts"]
  show ?thesis
  proof (cases "es_create (fst ts) type (y_server st)")
    case (Inl flt)
    with cr show ?thesis
      by (auto simp: y_create_def ts ec_create_def es_rpc_def direct_rpc_def Let_def inodes_fullI split: prod.splits)
  next
    case (Inr p)
    obtain e s where p: "p = (e, s)" by (cases p)
    with Inr cr have s: "im_inv s" "1 < unat e" "unat e \<le> INODE_NUM" "file_at (y_server st) (es_id e) = None"
      "file_at s = (file_at (y_server st))(es_id e \<mapsto> (ucast type, []))" by simp_all
    have e: "canon e" "e \<noteq> 1" using s(2,3) by (auto simp: canon_def)
    obtain t1 t2 t3 where clk: "clock (io_env io (y_tick st)) = (t1, t2, t3)" by (cases "clock (io_env io (y_tick st))")
    obtain f where run: "y_create io type e0 st = Inr (0, e, y_set ((y_cache st)(e \<mapsto> Some f)) s st)"
      and f: "cf_buf f = []" "buf_valid f" "attr_valid f" "\<not> dirty f" "a_type (cf_attr f) = type"
      using Inr p by (auto simp: y_create_def ts ec_create_def es_rpc_def direct_rpc_def Let_def
          new_cached_file_def clk)
    let ?st = "y_set ((y_cache st)(e \<mapsto> Some f)) s st"
    have t: "scast (ucast type :: u16) = type" using ty by auto
    have "y_inv ?st" "view ?st = (view st)(e := view ?st e)"
      by (rule y_local [OF inv e(1)]; use f s e t in \<open>simp add: entry_sound_def\<close>)+
    moreover have "view ?st e = Some (ucast type, [])" using e f s by (simp add: view_def seen_def)
    moreover have "view st e = None" using s by (simp add: view_def seen_def)
    ultimately show ?thesis using run e f s(5) by simp
  qed
qed

lemma y_remove_spec:
  assumes q: "quiet_io io" and inv: "y_inv st" and v: "view st e = Some (ty, c)"
  shows "\<exists>st'. y_remove io e st = Inr (0, st') \<and> y_inv st' \<and> view st' = (view st)(e := None) \<and>
    y_locks st' = y_locks st \<and> (\<forall>d. d \<noteq> e \<longrightarrow> entry (y_cache st') d = entry (y_cache st) d)"
proof -
  obtain x where x: "canon e" "file_at (y_server st) (es_id e) = Some (ty, x)" using v by (rule view_SomeD)
  obtain ts where ts: "io_rpc io (y_tick st) = es_rpc ts" using q unfolding quiet_io_def by blast
  from es.remove_deletes [OF y_invD(1) [OF inv] x(2)] obtain s where
    s: "es_remove e (y_server st) = Inr s" "im_inv s" "file_at s = (file_at (y_server st))(es_id e := None)" by auto
  let ?st = "y_set ((y_cache st)(e := None)) s st"
  have en: "entry ((y_cache st)(e := None)) d = (if d = e then None else entry (y_cache st) d)" for d
    by (simp add: entry_def map_get_def)
  have "y_remove io e st = Inr (0, ?st)"
    using s(1) by (simp add: y_remove_def ts ec_remove_def es_rpc_def direct_rpc_def)
  moreover have "y_inv ?st" "view ?st = (view st)(e := view ?st e)"
    by (rule y_local [OF inv x(1)]; use s en in \<open>simp add: quiet_def\<close>)+
  moreover have "view ?st e = None" using s by (simp add: view_def seen_def)
  ultimately show ?thesis using en by simp
qed

section \<open>Directory contents\<close>

lemma dirent_bytes_length:
  "length raw = sizeof_diy_dirent \<Longrightarrow> length (d_name d) \<le> MAX_FILENAME_LENGTH \<Longrightarrow>
     length (dirent_bytes raw d) = sizeof_diy_dirent"
  by (simp add: dirent_bytes_def)

lemma parse_dirent_bytes:
  assumes "length raw = sizeof_diy_dirent" and n: "length (d_name d) \<le> MAX_FILENAME_LENGTH"
  shows "parse_dirent (dirent_bytes raw d) = Inr d"
proof -
  let ?tail = "drop (8 + length (d_name d)) (take 72 raw)"
  have l: "length (d_name d @ ?tail) = 64" using assms by simp
  have a: "dirent_bytes raw d = enc64 (d_inum d) @ (d_name d @ ?tail) @ enc16 (of_nat (length (d_name d))) @ take 6 (drop 74 raw)"
    by (simp add: dirent_bytes_def)
  have i: "take 8 (dirent_bytes raw d) = enc64 (d_inum d)" unfolding a by simp
  have "drop 72 (dirent_bytes raw d) = enc16 (of_nat (length (d_name d))) @ take 6 (drop 74 raw)"
    unfolding a using l by simp
  then have s: "take 2 (drop 72 (dirent_bytes raw d)) = enc16 (of_nat (length (d_name d)))" by simp
  have m: "take (length (d_name d)) (drop 8 (dirent_bytes raw d)) = d_name d" unfolding a by simp
  have u: "unat (of_nat (length (d_name d)) :: u16) = length (d_name d)" using n by (simp add: unat_of_nat)
  show ?thesis using n by (simp add: parse_dirent_def i s m u)
qed

lemma make_dirent_valid:
  "length name \<le> MAX_FILENAME_LENGTH \<Longrightarrow>
     make_dirent raw name inum = Inr (dirent_bytes raw \<lparr>d_name = name, d_inum = inum\<rparr>)"
  by (simp add: make_dirent_def unat_of_nat)

text \<open>A content that represents a list of entries.\<close>

definition is_dir :: "byte list \<Rightarrow> dirent list \<Rightarrow> bool" where
  "is_dir c ds \<longleftrightarrow> (\<exists>bss. c = concat bss \<and>
     list_all2 (\<lambda>bs d. length bs = sizeof_diy_dirent \<and> parse_dirent bs = Inr d) bss ds)"

lemma is_dir_Nil [simp]: "is_dir [] []"
  by (simp add: is_dir_def exI [of _ "[]"])

lemma is_dir_append:
  "is_dir c ds \<Longrightarrow> is_dir c' ds' \<Longrightarrow> is_dir (c @ c') (ds @ ds')"
proof -
  assume "is_dir c ds" "is_dir c' ds'"
  then obtain bss bss' where "c = concat bss" "c' = concat bss'"
    "list_all2 (\<lambda>bs d. length bs = sizeof_diy_dirent \<and> parse_dirent bs = Inr d) bss ds"
    "list_all2 (\<lambda>bs d. length bs = sizeof_diy_dirent \<and> parse_dirent bs = Inr d) bss' ds'"
    unfolding is_dir_def by blast
  then show ?thesis unfolding is_dir_def
    by (intro exI [of _ "bss @ bss'"]) (simp add: list_all2_appendI del: sizeof_diy_dirent_def)
qed

lemma is_dir_entry:
  "length raw = sizeof_diy_dirent \<Longrightarrow> length (d_name d) \<le> MAX_FILENAME_LENGTH \<Longrightarrow> is_dir (dirent_bytes raw d) [d]"
  unfolding is_dir_def by (rule exI [of _ "[dirent_bytes raw d]"])
    (simp add: parse_dirent_bytes dirent_bytes_length del: sizeof_diy_dirent_def)

lemma length_concat_equal: "\<forall>bs \<in> set bss. length bs = w \<Longrightarrow> length (concat bss) = w * length bss"
  by (induction bss) auto

lemma nth_concat_equal:
  "\<forall>bs \<in> set bss. length bs = w \<Longrightarrow> i < length bss \<Longrightarrow> take w (drop (i * w) (concat bss)) = bss ! i"
proof (induction bss arbitrary: i)
  case (Cons b bss)
  then show ?case by (cases i) simp_all
qed simp

lemma is_dir_chunks:
  assumes "is_dir c ds"
  obtains bss where "c = concat bss" "\<forall>bs \<in> set bss. length bs = 80" "length bss = length ds"
    "\<And>i. i < length ds \<Longrightarrow> parse_dirent (bss ! i) = Inr (ds ! i)"
proof -
  obtain bss where c: "c = concat bss"
    and all: "list_all2 (\<lambda>bs d. length bs = sizeof_diy_dirent \<and> parse_dirent bs = Inr d) bss ds"
    using assms unfolding is_dir_def by blast
  have n: "length bss = length ds" using all by (rule list_all2_lengthD)
  have i: "length (bss ! i) = 80" "parse_dirent (bss ! i) = Inr (ds ! i)" if "i < length ds" for i
    using all that n by (simp_all add: list_all2_conv_all_nth)
  then have "\<forall>bs \<in> set bss. length bs = 80" using n by (auto simp: in_set_conv_nth)
  then show ?thesis using that c n i by blast
qed

lemma is_dir_length: "is_dir c ds \<Longrightarrow> length c = sizeof_diy_dirent * length ds"
  by (erule is_dir_chunks) (simp add: length_concat_equal [of _ 80] del: length_concat)

lemma parse_dir_valid:
  assumes dir: "is_dir c ds" and len: "length c < 2 ^ 32"
  shows "parse_dir c = Inr ds"
proof -
  obtain bss where c: "c = concat bss" and w: "\<forall>bs \<in> set bss. length bs = 80" and n: "length bss = length ds"
    and pd: "\<And>i. i < length ds \<Longrightarrow> parse_dirent (bss ! i) = Inr (ds ! i)"
    using is_dir_chunks [OF dir] by blast
  have lc: "length c = 80 * length ds" using is_dir_length [OF dir] by simp
  have sz: "unat (of_nat (length c) :: u32) = length c" using len by (simp add: unat_of_nat)
  have e: "unat ((of_nat (length c) :: u32) div of_nat sizeof_diy_dirent) = length ds"
  proof -
    have "unat ((of_nat (length c) :: u32) div of_nat sizeof_diy_dirent) = length c div 80"
      by (simp only: unat_div sz) simp
    then show ?thesis using lc by simp
  qed
  have step: "bindR (read_mem (i * 80) 80 c) (\<lambda>bs. bindR (parse_dirent bs) (\<lambda>d. Inr (take i ds @ [d]))) = Inr (take (Suc i) ds)"
    if "i < length ds" for i
  proof -
    have "i * 80 + 80 \<le> length c" using that lc by simp
    moreover have "take 80 (drop (i * 80) c) = bss ! i" unfolding c using nth_concat_equal [OF w] that n by simp
    ultimately have "read_mem (i * 80) 80 c = Inr (bss ! i)" by (simp add: read_mem_def)
    then show ?thesis using that pd by (simp add: take_Suc_conv_app_nth)
  qed
  let ?e = "(of_nat (length c) :: u32) div of_nat sizeof_diy_dirent"
  let ?body = "\<lambda>i list. bindR (read_mem (unat (i :: u32) * sizeof_diy_dirent) sizeof_diy_dirent c)
    (\<lambda>bs. bindR (parse_dirent bs) (\<lambda>d. Inr (list @ [d])))"
  have "\<exists>l. for_u32 0 ?e ?body [] = Inr l \<and> l = take (unat ?e) ds"
  proof (rule for_u32_total [where P = "\<lambda>k l. l = take k ds"])
    fix k l assume k: "k < unat ?e" "l = take k ds"
    then have "k < length ds" by (simp only: e)
    moreover have "length ds < 2 ^ 32" using lc len by simp
    ultimately have "unat (of_nat k :: u32) = k" by (simp add: unat_of_nat)
    then show "\<exists>l'. ?body (of_nat k) l = Inr l' \<and> l' = take (Suc k) ds"
      using step [OF \<open>k < length ds\<close>] k(2) by simp
  qed simp_all
  then show ?thesis by (simp only: parse_dir_def Let_def e) simp
qed

lemma print_dir_valid:
  assumes "\<forall>n. length (raws n) = sizeof_diy_dirent" and "\<forall>d \<in> set ds. length (d_name d) \<le> MAX_FILENAME_LENGTH"
  shows "\<exists>c. print_dir raws n ds = Inr c \<and> is_dir c ds"
  using assms(2)
proof (induction ds arbitrary: n)
  case (Cons d ds)
  then obtain c where c: "print_dir raws (Suc n) ds = Inr c" "is_dir c ds" by fastforce
  have "make_dirent (raws n) (d_name d) (d_inum d) = Inr (dirent_bytes (raws n) d)"
    using Cons.prems make_dirent_valid [of "d_name d" "raws n" "d_inum d"] by (cases d) simp
  moreover have "is_dir (dirent_bytes (raws n) d @ c) ([d] @ ds)"
    using Cons.prems assms(1) c(2) by (intro is_dir_append is_dir_entry) simp_all
  ultimately show ?case using c(1) by simp
qed simp

lemma find_name_append:
  "find_name name (ds @ ds') = (case find_name name ds of None \<Rightarrow> find_name name ds' | Some i \<Rightarrow> Some i)"
  by (induction ds) auto

lemma find_name_None: "find_name name ds = None \<longleftrightarrow> name \<notin> d_name ` set ds"
  by (induction ds) auto

lemma find_name_Some:
  "find_name name ds = Some i \<Longrightarrow> \<lparr>d_name = name, d_inum = i\<rparr> \<in> set ds"
  by (induction ds) (auto split: if_splits)

lemma take_name_spec:
  "take_name name ds = None \<longleftrightarrow> find_name name ds = None"
  "take_name name ds = Some (i, rest) \<Longrightarrow> find_name name ds = Some i"
  "take_name name ds = Some (i, rest) \<Longrightarrow> set rest \<subseteq> set ds"
  "take_name name ds = Some (i, rest) \<Longrightarrow> distinct (map d_name ds) \<Longrightarrow>
     distinct (map d_name rest) \<and> find_name name rest = None \<and>
     (\<forall>other. other \<noteq> name \<longrightarrow> find_name other rest = find_name other ds)"
proof -
  show "take_name name ds = None \<longleftrightarrow> find_name name ds = None" by (induction ds) auto
  show "take_name name ds = Some (i, rest) \<Longrightarrow> find_name name ds = Some i"
    by (induction ds arbitrary: rest) (auto split: if_splits)
  show *: "take_name name ds = Some (i, rest) \<Longrightarrow> set rest \<subseteq> set ds" for name ds rest
    by (induction ds arbitrary: rest) (fastforce split: if_splits)+
  show "take_name name ds = Some (i, rest) \<Longrightarrow> distinct (map d_name ds) \<Longrightarrow>
     distinct (map d_name rest) \<and> find_name name rest = None \<and>
     (\<forall>other. other \<noteq> name \<longrightarrow> find_name other rest = find_name other ds)"
  proof (induction ds arbitrary: rest)
    case (Cons d ds)
    show ?case
    proof (cases "d_name d = name")
      case True
      then show ?thesis using Cons.prems by (auto simp: find_name_None)
    next
      case False
      then obtain r where r: "take_name name ds = Some (i, r)" "rest = d # r" using Cons.prems(1) by auto
      from Cons.IH [OF r(1)] Cons.prems(2) False * [OF r(1)] r(2) show ?thesis by auto
    qed
  qed simp
qed

lemma take_name_parts:
  "take_name name ds = Some (i, rest) \<Longrightarrow>
     \<exists>xs ys. ds = xs @ \<lparr>d_name = name, d_inum = i\<rparr> # ys \<and> rest = xs @ ys \<and> name \<notin> d_name ` set xs"
proof (induction ds arbitrary: rest)
  case (Cons d ds)
  show ?case
  proof (cases "d_name d = name")
    case True
    then have "d # ds = [] @ \<lparr>d_name = name, d_inum = i\<rparr> # ds \<and> rest = [] @ ds" using Cons.prems by (cases d) auto
    then show ?thesis by (metis empty_iff image_empty list.set(1))
  next
    case False
    then obtain r where r: "take_name name ds = Some (i, r)" "rest = d # r" using Cons.prems by auto
    from Cons.IH [OF r(1)] obtain xs ys where
      "ds = xs @ \<lparr>d_name = name, d_inum = i\<rparr> # ys" "r = xs @ ys" "name \<notin> d_name ` set xs" by blast
    then have "d # ds = (d # xs) @ \<lparr>d_name = name, d_inum = i\<rparr> # ys \<and> rest = (d # xs) @ ys \<and> name \<notin> d_name ` set (d # xs)"
      using r(2) False by auto
    then show ?thesis by blast
  qed
qed simp

section \<open>Directory operations\<close>

lemma readdir_no_seria_spec:
  assumes q: "quiet_io io" and inv: "y_inv st" and v: "view st e = Some (1, c)" and dir: "is_dir c ds"
    and len: "length c < 2 ^ 32"
  shows "\<exists>st'. readdir_no_seria io e st = Inr (0, ds, st') \<and> y_inv st' \<and> view st' = view st \<and>
    y_locks st' = y_locks st \<and> attr_hit (entry (y_cache st') e)"
proof -
  obtain st1 where g: "y_get io e st = Inr (0, c, st1)" "y_inv st1" "view st1 = view st" "y_locks st1 = y_locks st"
    using y_get_spec [OF q inv v] by blast
  have "view st1 e = Some (1, c)" using g(3) v by simp
  from y_getattr_spec [OF q g(2) this] obtain a st2 where
    a: "y_getattr io e st1 = Inr (0, a, st2)" "a_type a = 1" "y_inv st2" "view st2 = view st1"
      "y_locks st2 = y_locks st1" "attr_hit (entry (y_cache st2) e)" by auto
  show ?thesis using g a parse_dir_valid [OF dir len] by (simp add: readdir_no_seria_def)
qed

lemma yfs_readdir_spec:
  assumes q: "quiet_io io" and inv: "y_inv st" and v: "view st e = Some (1, c)" and dir: "is_dir c ds"
    and len: "length c < 2 ^ 32" and lk: "e \<notin> y_locks st"
  shows "\<exists>st'. yfs_readdir io e st = Inr (0, ds, st') \<and> y_inv st' \<and> view st' = view st \<and> y_locks st' = y_locks st"
proof -
  let ?st = "(y_set (y_cache st) (y_server st) st)\<lparr>y_locks := insert e (y_locks st)\<rparr>"
  have "y_inv ?st" "view ?st e = Some (1, c)" using inv v by simp_all
  from readdir_no_seria_spec [OF q this dir len] show ?thesis
    using lk by (auto simp: yfs_readdir_def acquire_quiet [OF q] release_quiet [OF q])
qed

lemma lookup_no_seria_spec:
  assumes q: "quiet_io io" and inv: "y_inv st" and v: "view st e = Some (1, c)" and dir: "is_dir c ds"
    and len: "length c < 2 ^ 32"
  shows "\<exists>st'. lookup_no_seria io e name ino st =
      Inr (0, find_name name ds \<noteq> None, case find_name name ds of None \<Rightarrow> ino | Some i \<Rightarrow> i, st') \<and>
    y_inv st' \<and> view st' = view st \<and> y_locks st' = y_locks st \<and> attr_hit (entry (y_cache st') e)"
proof -
  obtain st' where "readdir_no_seria io e st = Inr (0, ds, st')" "y_inv st'" "view st' = view st"
    "y_locks st' = y_locks st" "attr_hit (entry (y_cache st') e)"
    using readdir_no_seria_spec [OF assms] by blast
  then show ?thesis by (cases "find_name name ds") (simp_all add: lookup_no_seria_def)
qed

lemma yfs_lookup_spec:
  assumes q: "quiet_io io" and inv: "y_inv st" and v: "view st e = Some (1, c)" and dir: "is_dir c ds"
    and len: "length c < 2 ^ 32" and lk: "e \<notin> y_locks st"
  shows "\<exists>st'. yfs_lookup io e name ino st =
      Inr (0, find_name name ds \<noteq> None, case find_name name ds of None \<Rightarrow> ino | Some i \<Rightarrow> i, st') \<and>
    y_inv st' \<and> view st' = view st \<and> y_locks st' = y_locks st"
proof -
  let ?st0 = "(y_set (y_cache st) (y_server st) st)\<lparr>y_locks := insert e (y_locks st)\<rparr>"
  have "y_inv ?st0" "view ?st0 e = Some (1, c)" using inv v by simp_all
  from lookup_no_seria_spec [OF q this dir len, of name ino] obtain st1 where
    l: "lookup_no_seria io e name ino ?st0 =
      Inr (0, find_name name ds \<noteq> None, case find_name name ds of None \<Rightarrow> ino | Some i \<Rightarrow> i, st1)"
    "y_inv st1" "view st1 = view st" "y_locks st1 = insert e (y_locks st)" by auto
  then show ?thesis
    using lk by (simp add: yfs_lookup_def acquire_quiet [OF q] release_quiet [OF q])
qed

text \<open>The entry that the creating operations append.\<close>

lemma new_entry:
  assumes "quiet_io io" and "is_dir c ds" and "length name \<le> MAX_FILENAME_LENGTH"
  shows "\<exists>bs. make_dirent (io_raw io n) name i = Inr bs \<and> is_dir (c @ bs) (ds @ [\<lparr>d_name = name, d_inum = i\<rparr>])"
  using assms make_dirent_valid [OF assms(3)]
  by (auto simp: quiet_io_def intro!: is_dir_append is_dir_entry simp del: sizeof_diy_dirent_def)

lemma append_entry:
  assumes q: "quiet_io io" and inv: "y_inv st" and v: "view st e = Some (1, c)" and hit: "attr_hit (entry (y_cache st) e)"
    and dir: "is_dir c ds" and nm: "length name \<le> MAX_FILENAME_LENGTH" and lk: "e \<in> y_locks st"
  shows "\<exists>bs st1 st2. make_dirent (io_raw io (y_tick st)) name i = Inr bs \<and> y_put io e (c @ bs) st = (0, st1) \<and>
    y_release io e st1 = Inr st2 \<and> y_inv st2 \<and> y_locks st2 = y_locks st - {e} \<and> y_server st2 = y_server st \<and>
    is_dir (c @ bs) (ds @ [\<lparr>d_name = name, d_inum = i\<rparr>]) \<and> view st2 = (view st)(e \<mapsto> (1, c @ bs))"
proof -
  from new_entry [OF q dir nm] obtain bs where
    bs: "make_dirent (io_raw io (y_tick st)) name i = Inr bs" "is_dir (c @ bs) (ds @ [\<lparr>d_name = name, d_inum = i\<rparr>])"
    by blast
  from y_put_spec [OF inv v hit, of io "c @ bs"] obtain st1 where
    put: "y_put io e (c @ bs) st = (0, st1)"
    and s1: "y_inv st1" "view st1 = (view st)(e \<mapsto> (1, c @ bs))" "y_locks st1 = y_locks st" by blast
  define st2 where "st2 = (y_set (y_cache st1) (y_server st1) st1)\<lparr>y_locks := y_locks st1 - {e}\<rparr>"
  have "y_release io e st1 = Inr st2" unfolding st2_def using release_quiet [OF q] s1(3) lk by simp
  moreover have "y_inv st2" "view st2 = view st1" "y_locks st2 = y_locks st - {e}"
    using s1 by (simp_all add: st2_def)
  moreover have "y_server st2 = y_server st" using put by (auto simp: st2_def y_put_def split: prod.splits)
  ultimately show ?thesis using bs put s1(2) by auto
qed

text \<open>Taking the parent's lock and looking the name up, as all three creating operations begin.\<close>

lemma locked_lookup:
  assumes q: "quiet_io io" and inv: "y_inv st" and v: "view st e = Some (1, c)" and dir: "is_dir c ds"
    and len: "length c < 2 ^ 32" and lk: "e \<notin> y_locks st"
  shows "\<exists>st0 st1. y_acquire io e st = Inr st0 \<and> lookup_no_seria io e name ino st0 =
      Inr (0, find_name name ds \<noteq> None, case find_name name ds of None \<Rightarrow> ino | Some i \<Rightarrow> i, st1) \<and>
    y_inv st1 \<and> view st1 = view st \<and> y_locks st1 = insert e (y_locks st) \<and> attr_hit (entry (y_cache st1) e)"
proof -
  let ?st0 = "(y_set (y_cache st) (y_server st) st)\<lparr>y_locks := insert e (y_locks st)\<rparr>"
  have "y_inv ?st0" "view ?st0 e = Some (1, c)" using inv v by simp_all
  from lookup_no_seria_spec [OF q this dir len, of name ino] show ?thesis
    using acquire_quiet [OF q lk] by auto
qed

text \<open>Creating an inode leaves the parent as it is.\<close>

lemma y_create_parent:
  assumes q: "quiet_io io" and inv: "y_inv st" and ty: "type \<in> {T_DIR, T_FILE, T_SLINK}"
    and run: "y_create io type e0 st = Inr (r, ino, st')"
    and v: "view st e = Some (ty, c)" and hit: "attr_hit (entry (y_cache st) e)"
  shows "view st ino = None" "ino \<noteq> e" "y_inv st'" "view st' = (view st)(ino \<mapsto> (ucast type, []))"
    "y_locks st' = y_locks st" "view st' e = Some (ty, c)" "attr_hit (entry (y_cache st') e)"
    "attr_hit (entry (y_cache st') ino)" "file_at (y_server st') (es_id ino) = Some (ucast type, [])"
proof -
  note cr = y_create_spec [OF q inv ty, of e0, unfolded run sum.case prod.case]
  show n: "view st ino = None" using cr by blast
  then show ne: "ino \<noteq> e" using v by auto
  show "y_inv st'" and w: "view st' = (view st)(ino \<mapsto> (ucast type, []))" and "y_locks st' = y_locks st"
    and "attr_hit (entry (y_cache st') ino)" and "file_at (y_server st') (es_id ino) = Some (ucast type, [])"
    using cr by blast+
  show "view st' e = Some (ty, c)" using w ne v by simp
  show "attr_hit (entry (y_cache st') e)" using cr ne hit by metis
qed

lemma T_types: "T_DIR \<in> {T_DIR, T_FILE, T_SLINK}" "T_FILE \<in> {T_DIR, T_FILE, T_SLINK}" "T_SLINK \<in> {T_DIR, T_FILE, T_SLINK}"
  by simp_all

lemma yfs_create_spec:
  assumes q: "quiet_io io" and inv: "y_inv st" and v: "view st e = Some (1, c)" and dir: "is_dir c ds"
    and len: "length c < 2 ^ 32" and lk: "e \<notin> y_locks st" and nm: "length name \<le> MAX_FILENAME_LENGTH"
  shows "case yfs_create io e name ino0 st of Inl flt \<Rightarrow> flt = Exit \<and> inodes_full st
    | Inr (r, ino, st') \<Rightarrow> y_inv st' \<and> y_locks st' = y_locks st \<and>
       (case find_name name ds of
          Some i \<Rightarrow> r = y_EXIST \<and> ino = i \<and> view st' = view st
        | None \<Rightarrow> r = y_OK \<and> view st ino = None \<and>
            (\<exists>c'. is_dir c' (ds @ [\<lparr>d_name = name, d_inum = ino\<rparr>]) \<and>
               view st' = (view st)(ino \<mapsto> (2, []), e \<mapsto> (1, c'))))"
proof -
  from locked_lookup [OF q inv v dir len lk, of name ino0] obtain st0 st1 where
    l: "y_acquire io e st = Inr st0" "lookup_no_seria io e name ino0 st0 =
      Inr (0, find_name name ds \<noteq> None, case find_name name ds of None \<Rightarrow> ino0 | Some i \<Rightarrow> i, st1)"
    and s1: "y_inv st1" "view st1 = view st" "y_locks st1 = insert e (y_locks st)" "attr_hit (entry (y_cache st1) e)"
    by blast
  show ?thesis
  proof (cases "find_name name ds")
    case (Some i)
    then show ?thesis using l lk s1 by (simp add: yfs_create_def release_quiet [OF q])
  next
    case None
    show ?thesis
    proof (cases "y_create io T_FILE ino0 st1")
      case (Inl flt)
      then show ?thesis using y_create_spec [OF q s1(1) T_types(2), of ino0] l None inodes_full_cong [OF s1(2)]
        by (simp add: yfs_create_def)
    next
      case (Inr p)
      obtain r ino st2 where p: "p = (r, ino, st2)" by (cases p)
      have "view st1 e = Some (1, c)" using v s1(2) by simp
      note c = y_create_parent [OF q s1(1) T_types(2) Inr [unfolded p] this s1(4)]
      from y_get_spec [OF q c(3,6)] c(7) obtain st3 where g: "y_get io e st2 = Inr (0, c, st3)"
        and s3: "y_inv st3" "view st3 = view st2" "y_locks st3 = y_locks st2" "attr_hit (entry (y_cache st3) e)" by auto
      have "view st3 e = Some (1, c)" "e \<in> y_locks st3" using s3 c(5,6) s1(3) by auto
      from append_entry [OF q s3(1) this(1) s3(4) dir nm this(2), of ino] obtain bs st4 st5 where
        "make_dirent (io_raw io (y_tick st3)) name ino = Inr bs" "y_put io e (c @ bs) st3 = (0, st4)"
        "y_release io e st4 = Inr st5" and s5: "y_inv st5" "y_locks st5 = y_locks st3 - {e}"
        "is_dir (c @ bs) (ds @ [\<lparr>d_name = name, d_inum = ino\<rparr>])" "view st5 = (view st3)(e \<mapsto> (1, c @ bs))" by blast
      then have "yfs_create io e name ino0 st = Inr (0, ino, st5)" using l None Inr p g by (simp add: yfs_create_def)
      then show ?thesis using None s5 s3 c s1 lk by auto
    qed
  qed
qed

lemma yfs_mkdir_spec:
  assumes q: "quiet_io io" and inv: "y_inv st" and v: "view st e = Some (1, c)" and dir: "is_dir c ds"
    and len: "length c < 2 ^ 32" and lk: "e \<notin> y_locks st" and nm: "length name \<le> MAX_FILENAME_LENGTH"
  shows "case yfs_mkdir io e name ino0 st of Inl flt \<Rightarrow> flt = Exit \<and> inodes_full st
    | Inr (r, ino, st') \<Rightarrow> y_inv st' \<and> y_locks st' = y_locks st \<and>
       (case find_name name ds of
          Some i \<Rightarrow> r = y_EXIST \<and> ino = i \<and> view st' = view st
        | None \<Rightarrow> r = y_OK \<and> view st ino = None \<and>
            (\<exists>c'. is_dir c' (ds @ [\<lparr>d_name = name, d_inum = ino\<rparr>]) \<and>
               view st' = (view st)(ino \<mapsto> (1, []), e \<mapsto> (1, c'))))"
proof -
  from locked_lookup [OF q inv v dir len lk, of name ino0] obtain st0 st1 where
    l: "y_acquire io e st = Inr st0" "lookup_no_seria io e name ino0 st0 =
      Inr (0, find_name name ds \<noteq> None, case find_name name ds of None \<Rightarrow> ino0 | Some i \<Rightarrow> i, st1)"
    and s1: "y_inv st1" "view st1 = view st" "y_locks st1 = insert e (y_locks st)" "attr_hit (entry (y_cache st1) e)"
    by blast
  show ?thesis
  proof (cases "find_name name ds")
    case (Some i)
    then show ?thesis using l lk s1 by (simp add: yfs_mkdir_def release_quiet [OF q])
  next
    case None
    have v1: "view st1 e = Some (1, c)" using v s1(2) by simp
    from y_get_spec [OF q s1(1) v1] s1(4) obtain st2 where g: "y_get io e st1 = Inr (0, c, st2)"
      and s2: "y_inv st2" "view st2 = view st1" "y_locks st2 = y_locks st1" "attr_hit (entry (y_cache st2) e)" by auto
    show ?thesis
    proof (cases "y_create io T_DIR ino0 st2")
      case (Inl flt)
      then show ?thesis using y_create_spec [OF q s2(1) T_types(1), of ino0] l g None
          inodes_full_cong [OF s1(2)] inodes_full_cong [OF s2(2)] by (simp add: yfs_mkdir_def)
    next
      case (Inr p)
      obtain r ino st3 where p: "p = (r, ino, st3)" by (cases p)
      have "view st2 e = Some (1, c)" using v1 s2(2) by simp
      note c = y_create_parent [OF q s2(1) T_types(1) Inr [unfolded p] this s2(4)]
      have "e \<in> y_locks st3" using c(5) s1(3) s2(3) by auto
      from append_entry [OF q c(3,6,7) dir nm this, of ino] obtain bs st4 st5 where
        "make_dirent (io_raw io (y_tick st3)) name ino = Inr bs" "y_put io e (c @ bs) st3 = (0, st4)"
        "y_release io e st4 = Inr st5" and s5: "y_inv st5" "y_locks st5 = y_locks st3 - {e}"
        "is_dir (c @ bs) (ds @ [\<lparr>d_name = name, d_inum = ino\<rparr>])" "view st5 = (view st3)(e \<mapsto> (1, c @ bs))" by blast
      then have "yfs_mkdir io e name ino0 st = Inr (0, ino, st5)" using l None Inr p g by (simp add: yfs_mkdir_def)
      then show ?thesis using None s5 s2 c s1 lk by auto
    qed
  qed
qed

lemma is_dir_names:
  assumes "is_dir c ds" and "d \<in> set ds"
  shows "length (d_name d) \<le> MAX_FILENAME_LENGTH"
proof -
  obtain bss where pd: "\<And>i. i < length ds \<Longrightarrow> parse_dirent (bss ! i) = Inr (ds ! i)"
    using is_dir_chunks [OF assms(1)] by metis
  obtain i where "i < length ds" "ds ! i = d" using assms(2) by (auto simp: in_set_conv_nth)
  with pd have "parse_dirent (bss ! i) = Inr d" by simp
  then show ?thesis by (auto simp: parse_dirent_def Let_def bindR_eq_Inr)
qed

lemma yfs_rmdir_spec:
  assumes q: "quiet_io io" and inv: "y_inv st" and v: "view st e = Some (1, c)" and dir: "is_dir c ds"
    and len: "length c < 2 ^ 32" and lk: "e \<notin> y_locks st"
    and tgt: "\<And>i. find_name name ds = Some i \<Longrightarrow> view st i \<noteq> None \<and> i \<noteq> e"
  shows "\<exists>r st'. yfs_rmdir io e name st = Inr (r, st') \<and> y_inv st' \<and> y_locks st' = y_locks st \<and>
    (case take_name name ds of
       None \<Rightarrow> r = y_NOENT \<and> view st' = view st
     | Some (i, rest) \<Rightarrow> r = y_OK \<and>
         (\<exists>c'. is_dir c' rest \<and> view st' = (view st)(i := None, e \<mapsto> (1, c'))))"
proof -
  let ?st0 = "(y_set (y_cache st) (y_server st) st)\<lparr>y_locks := insert e (y_locks st)\<rparr>"
  have "y_inv ?st0" "view ?st0 e = Some (1, c)" using inv v by simp_all
  from readdir_no_seria_spec [OF q this dir len] obtain st1 where
    l: "readdir_no_seria io e ?st0 = Inr (0, ds, st1)"
    and s1: "y_inv st1" "view st1 = view st" "y_locks st1 = insert e (y_locks st)" "attr_hit (entry (y_cache st1) e)" by auto
  show ?thesis
  proof (cases "take_name name ds")
    case None
    then show ?thesis using l lk s1 by (simp add: yfs_rmdir_def acquire_quiet [OF q] release_quiet [OF q])
  next
    case (Some ir)
    obtain i rest where ir: "ir = (i, rest)" by (cases ir)
    note tn = Some [unfolded ir]
    from tgt take_name_spec(2) [OF tn] obtain ty x where i: "view st i = Some (ty, x)" "i \<noteq> e" by fastforce
    from y_remove_spec [OF q s1(1), of i ty x] i(1) s1(2) obtain st2 where
      rm: "y_remove io i st1 = Inr (0, st2)"
      and s2: "y_inv st2" "view st2 = (view st)(i := None)" "y_locks st2 = y_locks st1"
        "\<forall>d. d \<noteq> i \<longrightarrow> entry (y_cache st2) d = entry (y_cache st1) d" by auto
    have "\<forall>n. length (io_raw io n) = sizeof_diy_dirent" using q unfolding quiet_io_def by blast
    moreover have "\<forall>d \<in> set rest. length (d_name d) \<le> MAX_FILENAME_LENGTH"
      using is_dir_names [OF dir] take_name_spec(3) [OF tn] by blast
    ultimately obtain c' where c': "print_dir (io_raw io) (y_tick st2) rest = Inr c'" "is_dir c' rest"
      using print_dir_valid by blast
    have v2: "view st2 e = Some (1, c)" and h2: "attr_hit (entry (y_cache st2) e)"
      using s2 v s1(4) i(2) by auto
    from y_put_spec [OF s2(1) v2 h2, of io c'] obtain st3 where
      put: "y_put io e c' st2 = (0, st3)"
      and s3: "y_inv st3" "view st3 = (view st2)(e \<mapsto> (1, c'))" "y_locks st3 = y_locks st2" by blast
    have "yfs_rmdir io e name st = Inr (0, (y_set (y_cache st3) (y_server st3) st3)\<lparr>y_locks := y_locks st3 - {e}\<rparr>)"
      using l lk tn rm c'(1) put s1(3) s2(3) s3(3)
      by (simp add: yfs_rmdir_def acquire_quiet [OF q] release_quiet [OF q])
    then show ?thesis using tn s3 s2(2,3) s1(3) c'(2) lk by auto
  qed
qed

lemma yfs_symlink_spec:
  assumes q: "quiet_io io" and inv: "y_inv st" and v: "view st e = Some (1, c)" and dir: "is_dir c ds"
    and len: "length c < 2 ^ 32" and lk: "e \<notin> y_locks st" and nm: "length name \<le> MAX_FILENAME_LENGTH"
  shows "case yfs_symlink io e name link ino0 st of Inl flt \<Rightarrow> flt = Exit \<and> inodes_full st
    | Inr (r, ino, st') \<Rightarrow> y_inv st' \<and>
       (case find_name name ds of
          Some i \<Rightarrow> r = y_EXIST \<and> ino = ino0 \<and> view st' = view st \<and> y_locks st' = insert e (y_locks st)
        | None \<Rightarrow> r = y_OK \<and> y_locks st' = y_locks st \<and> view st ino = None \<and>
            file_at (y_server st') (es_id ino) = Some (3, []) \<and>
            (\<exists>c'. is_dir c' (ds @ [\<lparr>d_name = name, d_inum = ino\<rparr>]) \<and>
               view st' = (view st)(ino \<mapsto> (3, link), e \<mapsto> (1, c'))))"
proof -
  let ?st = "(y_set (y_cache st) (y_server st) st)\<lparr>y_locks := insert e (y_locks st)\<rparr>"
  have "y_inv ?st" "view ?st e = Some (1, c)" using inv v by simp_all
  from y_get_spec [OF q this] obtain st0 where g: "y_get io e ?st = Inr (0, c, st0)"
    and s0: "y_inv st0" "view st0 = view st" "y_locks st0 = insert e (y_locks st)" by auto
  have v0: "view st0 e = Some (1, c)" using s0(2) v by simp
  from lookup_no_seria_spec [OF q s0(1) v0 dir len, of name 0] obtain st1 where
    l: "lookup_no_seria io e name 0 st0 =
      Inr (0, find_name name ds \<noteq> None, case find_name name ds of None \<Rightarrow> 0 | Some i \<Rightarrow> i, st1)"
    and s1: "y_inv st1" "view st1 = view st" "y_locks st1 = insert e (y_locks st)" "attr_hit (entry (y_cache st1) e)"
    using s0 by auto
  note run = yfs_symlink_def acquire_quiet [OF q lk] g l
  show ?thesis
  proof (cases "find_name name ds")
    case (Some i)
    then show ?thesis using s1 by (simp add: run)
  next
    case None
    show ?thesis
    proof (cases "y_create io T_SLINK ino0 st1")
      case (Inl flt)
      then show ?thesis using y_create_spec [OF q s1(1) T_types(3), of ino0] None inodes_full_cong [OF s1(2)]
        by (simp add: run)
    next
      case (Inr p)
      obtain r ino st2 where p: "p = (r, ino, st2)" by (cases p)
      have "view st1 e = Some (1, c)" using v s1(2) by simp
      note c = y_create_parent [OF q s1(1) T_types(3) Inr [unfolded p] this s1(4)]
      have "view st2 ino = Some (3, [])" using c(4) by simp
      from y_put_spec [OF c(3) this c(8), of io link] obtain st3 where
        p3: "y_put io ino link st2 = (0, st3)"
        and s3: "y_inv st3" "view st3 = (view st2)(ino \<mapsto> (3, link))" "y_locks st3 = y_locks st2"
          "\<forall>d. attr_hit (entry (y_cache st3) d) = attr_hit (entry (y_cache st2) d)" by blast
      have "view st3 e = Some (1, c)" "attr_hit (entry (y_cache st3) e)" "e \<in> y_locks st3"
        using s3 c s1(3) by auto
      from append_entry [OF q s3(1) this(1,2) dir nm this(3), of ino] obtain bs st4 st5 where
        "make_dirent (io_raw io (y_tick st3)) name ino = Inr bs" "y_put io e (c @ bs) st3 = (0, st4)"
        "y_release io e st4 = Inr st5" and s5: "y_inv st5" "y_locks st5 = y_locks st3 - {e}" "y_server st5 = y_server st3"
        "is_dir (c @ bs) (ds @ [\<lparr>d_name = name, d_inum = ino\<rparr>])" "view st5 = (view st3)(e \<mapsto> (1, c @ bs))" by blast
      then have "yfs_symlink io e name link ino0 st = Inr (0, ino, st5)" using None Inr p p3 by (simp add: run)
      moreover have "y_server st3 = y_server st2" using p3 by (auto simp: y_put_def split: prod.splits)
      ultimately show ?thesis using None s5 s3 c s1 lk by auto
    qed
  qed
qed

section \<open>File operations\<close>

text \<open>The bytes of a file after \<open>d\<close> has been written at \<open>off\<close>: a gap is filled with zeroes.\<close>

definition patch :: "byte list \<Rightarrow> nat \<Rightarrow> byte list \<Rightarrow> byte list" where
  "patch c off d = take off (c @ replicate (off - length c) 0) @ d @ drop (off + length d) c"

lemma length_patch: "length (patch c off d) = max (length c) (off + length d)"
  by (simp add: patch_def)

lemma read_patch: "take (length d) (drop off (patch c off d)) = d"
  by (simp add: patch_def)

lemma nth_patch_other:
  assumes "i < length (patch c off d)" and "i < off \<or> off + length d \<le> i"
  shows "patch c off d ! i = (if i < length c then c ! i else 0)"
  using assms by (auto simp: patch_def nth_append)

lemma unat_ucast_32: "unat (x :: u64) < 2 ^ 32 \<Longrightarrow> unat (ucast x :: u32) = unat x"
  by (simp add: unsigned_ucast_eq take_bit_eq_mod)

lemma write_content_spec:
  assumes off: "unat off < 2 ^ 32" and len: "unat sz \<le> length data" and sz: "unat sz + unat off < 2 ^ 64"
  shows "write_content c sz off data =
    Inr (patch c (unat off) (take (unat sz) data), if unat off \<le> length c then sz else sz + off - of_nat (length c))"
proof -
  have u: "unat (sz + off) = unat sz + unat off" using sz by (simp add: unat_word_ariths)
  have r: "read_mem 0 (unat sz) data = Inr (take (unat sz) data)" using len by (simp add: read_mem_def)
  have "resize (unat sz + unat off) 0 c = c @ replicate (unat sz + unat off - length c) 0" if "length c < unat off"
    using that by (simp add: resize_def)
  moreover have "take (unat off) (c @ replicate (unat sz + unat off - length c) 0) = c @ replicate (unat off - length c) 0"
    if "length c < unat off" using that by (simp add: min_def)
  ultimately show ?thesis
    using len by (auto simp: write_content_def r u unat_ucast_32 [OF off] str_replace_def patch_def Let_def)
qed

lemma yfs_write_spec:
  assumes q: "quiet_io io" and inv: "y_inv st" and v: "view st e = Some (ty, c)" and ne: "e \<noteq> 1" and lk: "e \<notin> y_locks st"
    and wc: "write_content c sz off data = Inr (c', n)"
  shows "\<exists>st'. yfs_write io e sz off data st = Inr (0, n, st') \<and> y_inv st' \<and> y_locks st' = y_locks st \<and>
    view st' = (view st)(e \<mapsto> (ty, c'))"
proof -
  let ?st = "(y_set (y_cache st) (y_server st) st)\<lparr>y_locks := insert e (y_locks st)\<rparr>"
  have "y_inv ?st" "view ?st e = Some (ty, c)" using inv v by simp_all
  from y_get_spec [OF q this] ne obtain st1 where g: "y_get io e ?st = Inr (0, c, st1)"
    and s1: "y_inv st1" "view st1 = view st" "y_locks st1 = insert e (y_locks st)" "attr_hit (entry (y_cache st1) e)" by auto
  have "view st1 e = Some (ty, c)" using s1(2) v by simp
  from y_put_spec [OF s1(1) this s1(4), of io c'] obtain st2 where
    put: "y_put io e c' st1 = (0, st2)"
    and s2: "y_inv st2" "view st2 = (view st1)(e \<mapsto> (ty, c'))" "y_locks st2 = y_locks st1" by blast
  have "yfs_write io e sz off data st =
      Inr (0, n, (y_set (y_cache st2) (y_server st2) st2)\<lparr>y_locks := y_locks st2 - {e}\<rparr>)"
    using g wc put s1(3) s2(3) lk by (simp add: yfs_write_def acquire_quiet [OF q] release_quiet [OF q])
  then show ?thesis using s1 s2 lk by auto
qed

lemma yfs_setattr_spec:
  assumes q: "quiet_io io" and inv: "y_inv st" and v: "view st e = Some (ty, c)" and ne: "e \<noteq> 1" and lk: "e \<notin> y_locks st"
  shows "\<exists>st'. yfs_setattr io e sz st = Inr (0, st') \<and> y_inv st' \<and> y_locks st' = y_locks st \<and>
    view st' = (view st)(e \<mapsto> (ty, resize (unat sz) 0 c))"
proof -
  let ?st = "(y_set (y_cache st) (y_server st) st)\<lparr>y_locks := insert e (y_locks st)\<rparr>"
  have "y_inv ?st" "view ?st e = Some (ty, c)" using inv v by simp_all
  from y_get_spec [OF q this] ne obtain st1 where g: "y_get io e ?st = Inr (0, c, st1)"
    and s1: "y_inv st1" "view st1 = view st" "y_locks st1 = insert e (y_locks st)" "attr_hit (entry (y_cache st1) e)" by auto
  have "view st1 e = Some (ty, c)" using s1(2) v by simp
  from y_put_spec [OF s1(1) this s1(4), of io "resize (unat sz) 0 c"] obtain st2 where
    put: "y_put io e (resize (unat sz) 0 c) st1 = (0, st2)"
    and s2: "y_inv st2" "view st2 = (view st1)(e \<mapsto> (ty, resize (unat sz) 0 c))" "y_locks st2 = y_locks st1" by blast
  have "yfs_setattr io e sz st =
      Inr (0, (y_set (y_cache st2) (y_server st2) st2)\<lparr>y_locks := y_locks st2 - {e}\<rparr>)"
    using g put s1(3) s2(3) lk by (simp add: yfs_setattr_def acquire_quiet [OF q] release_quiet [OF q])
  then show ?thesis using s1 s2 lk by auto
qed

text \<open>Operations that take the lock, get the content and release the lock.\<close>

lemma locked_get:
  assumes q: "quiet_io io" and inv: "y_inv st" and v: "view st e = Some (ty, c)" and lk: "e \<notin> y_locks st"
  shows "\<exists>st0 st1 st2. y_acquire io e st = Inr st0 \<and> y_get io e st0 = Inr (0, c, st1) \<and> y_release io e st1 = Inr st2 \<and>
    y_inv st2 \<and> view st2 = view st \<and> y_locks st2 = y_locks st"
proof -
  let ?st = "(y_set (y_cache st) (y_server st) st)\<lparr>y_locks := insert e (y_locks st)\<rparr>"
  have "y_inv ?st" "view ?st e = Some (ty, c)" using inv v by simp_all
  from y_get_spec [OF q this] obtain st1 where g: "y_get io e ?st = Inr (0, c, st1)"
    and s1: "y_inv st1" "view st1 = view st" "y_locks st1 = insert e (y_locks st)" by auto
  then show ?thesis using acquire_quiet [OF q lk] release_quiet [OF q, of e st1] lk by auto
qed

lemma yfs_read_spec:
  assumes q: "quiet_io io" and inv: "y_inv st" and v: "view st e = Some (ty, c)" and lk: "e \<notin> y_locks st"
  shows "if length c \<le> unat (ucast off :: u32) \<or> unat off \<le> length c
    then \<exists>st'. yfs_read io e sz off st =
        Inr (0, if length c \<le> unat (ucast off :: u32) then [] else take (unat sz) (drop (unat off) c), st') \<and>
      y_inv st' \<and> view st' = view st \<and> y_locks st' = y_locks st
    else yfs_read io e sz off st = Inl Abort"
  using locked_get [OF q inv v lk] by (auto simp: yfs_read_def str_substr_def)

lemma yfs_readlink_spec:
  assumes q: "quiet_io io" and inv: "y_inv st" and v: "view st e = Some (ty, c)" and lk: "e \<notin> y_locks st"
  shows "\<exists>st'. yfs_readlink io e st = Inr (0, c, st') \<and> y_inv st' \<and> view st' = view st \<and> y_locks st' = y_locks st"
  using locked_get [OF q inv v lk] by (auto simp: yfs_readlink_def)

lemma locked_getattr:
  assumes q: "quiet_io io" and inv: "y_inv st" and v: "view st e = Some (ty, c)" and lk: "e \<notin> y_locks st"
  shows "\<exists>st0 a st1 st2. y_acquire io e st = Inr st0 \<and> y_getattr io e st0 = Inr (0, a, st1) \<and> a_type a = scast ty \<and>
    (c \<noteq> [] \<longrightarrow> a_size a = of_nat (length c)) \<and> y_release io e st1 = Inr st2 \<and>
    y_inv st2 \<and> view st2 = view st \<and> y_locks st2 = y_locks st"
proof -
  let ?st = "(y_set (y_cache st) (y_server st) st)\<lparr>y_locks := insert e (y_locks st)\<rparr>"
  have "y_inv ?st" "view ?st e = Some (ty, c)" using inv v by simp_all
  from y_getattr_spec [OF q this] obtain a st1 where g: "y_getattr io e ?st = Inr (0, a, st1)" "a_type a = scast ty"
    "c \<noteq> [] \<longrightarrow> a_size a = of_nat (length c)"
    and s1: "y_inv st1" "view st1 = view st" "y_locks st1 = insert e (y_locks st)" by auto
  then show ?thesis using acquire_quiet [OF q lk] release_quiet [OF q, of e st1] lk by auto
qed

lemma yfs_has_type_spec:
  assumes "quiet_io io" and "y_inv st" and "view st e = Some (ty, c)" and "e \<notin> y_locks st"
  shows "\<exists>st'. yfs_has_type type io e st = Inr (scast ty = type, st') \<and> y_inv st' \<and> view st' = view st \<and>
    y_locks st' = y_locks st"
  using locked_getattr [OF assms] by (auto simp: yfs_has_type_def)

lemma yfs_getfile_spec:
  assumes "quiet_io io" and "y_inv st" and "view st e = Some (ty, c)" and "e \<notin> y_locks st"
  shows "\<exists>fin st'. yfs_getfile io e st = Inr (0, fin, st') \<and> (c \<noteq> [] \<longrightarrow> fi_size fin = ucast (of_nat (length c) :: u32)) \<and>
    y_inv st' \<and> view st' = view st \<and> y_locks st' = y_locks st"
  using locked_getattr [OF assms] by (auto simp: yfs_getfile_def)

lemma yfs_getdir_spec:
  assumes "quiet_io io" and "y_inv st" and "view st e = Some (ty, c)" and "e \<notin> y_locks st"
  shows "\<exists>din st'. yfs_getdir io e st = Inr (0, din, st') \<and> y_inv st' \<and> view st' = view st \<and> y_locks st' = y_locks st"
  using locked_getattr [OF assms] by (auto simp: yfs_getdir_def)

section \<open>Names\<close>

lemma n2i_decimal:
  assumes "n < 2 ^ 64"
  shows "n2i (decimal n) = of_nat n"
proof -
  obtain c cs where c: "decimal n = c # cs" "c \<noteq> CHR ''-''" "c \<noteq> CHR ''+''" using hd_decimal by blast
  then show ?thesis using dropWhile_decimal [of n "[]"] takeWhile_decimal [of n] assms digits_val_decimal [of n]
    by (simp add: n2i_def Let_def)
qed

end
