(* ===== verification/Fuse_Spec.thy ===== *)
theory Fuse_Spec
  imports Fuse Yfs_Spec
begin

text \<open>
  The FUSE handlers implement a file system: a map from inode numbers to directories, files and
  symbolic links. A request has a precondition, which says what the kernel is expected to send, and an
  allowed reply and effect. Every run of requests is a run of this specification, and the directory
  graph stays well-formed: names are unique in a directory, every entry names an existing inode, and
  no inode is named twice.
\<close>

section \<open>The abstract file system\<close>

datatype node = NDir "dirent list" | NFile "byte list" | NLink "byte list"

type_synonym fs = "u64 \<rightharpoonup> node"

fun is_node :: "u16 \<times> byte list \<Rightarrow> node \<Rightarrow> bool" where
  "is_node (ty, c) (NDir ds) \<longleftrightarrow> ty = 1 \<and> is_dir c ds"
| "is_node (ty, c) (NFile d) \<longleftrightarrow> ty = 2 \<and> c = d"
| "is_node (ty, c) (NLink d) \<longleftrightarrow> ty = 3 \<and> c = d"

definition fs_rel :: "block_manager yfs \<Rightarrow> fs \<Rightarrow> bool" where
  "fs_rel y fs \<longleftrightarrow> (\<forall>i. rel_option is_node (view y i) (fs i))"

definition tree_ok :: "fs \<Rightarrow> bool" where
  "tree_ok fs \<longleftrightarrow> (\<exists>ds. fs 1 = Some (NDir ds)) \<and>
     (\<forall>e ds. fs e = Some (NDir ds) \<longrightarrow> distinct (map d_name ds) \<and> distinct (map d_inum ds)) \<and>
     (\<forall>e ds d. fs e = Some (NDir ds) \<and> d \<in> set ds \<longrightarrow> fs (d_inum d) \<noteq> None \<and> d_inum d \<noteq> 1 \<and> d_inum d \<noteq> e) \<and>
     (\<forall>e ds e' ds' d d'. fs e = Some (NDir ds) \<and> d \<in> set ds \<and> fs e' = Some (NDir ds') \<and> d' \<in> set ds' \<and>
        d_inum d = d_inum d' \<longrightarrow> e = e')"

lemma fs_relD:
  assumes "fs_rel y fs"
  shows "fs i = Some (NDir ds) \<Longrightarrow> \<exists>c. view y i = Some (1, c) \<and> is_dir c ds"
    and "fs i = Some (NFile c) \<Longrightarrow> view y i = Some (2, c)"
    and "fs i = Some (NLink c) \<Longrightarrow> view y i = Some (3, c)"
    and "fs i = None \<longleftrightarrow> view y i = None"
    and "fs i = Some n \<Longrightarrow> \<exists>ty c. view y i = Some (ty, c) \<and> is_node (ty, c) n"
proof -
  have r: "rel_option is_node (view y i) (fs i)" using assms by (simp add: fs_rel_def)
  show "\<exists>c. view y i = Some (1, c) \<and> is_dir c ds" if "fs i = Some (NDir ds)"
    using r that by (cases "view y i") auto
  show "view y i = Some (2, c)" if "fs i = Some (NFile c)" using r that by (cases "view y i") auto
  show "view y i = Some (3, c)" if "fs i = Some (NLink c)" using r that by (cases "view y i") auto
  show "fs i = None \<longleftrightarrow> view y i = None" using r by (cases "view y i"; cases "fs i") auto
  show "\<exists>ty c. view y i = Some (ty, c) \<and> is_node (ty, c) n" if "fs i = Some n"
    using r that by (cases "view y i") auto
qed

lemma fs_rel_upd: "fs_rel y fs \<Longrightarrow> view y' = (view y)(i \<mapsto> v) \<Longrightarrow> is_node v n \<Longrightarrow> fs_rel y' (fs(i \<mapsto> n))"
  by (simp add: fs_rel_def)

lemma fs_rel_del: "fs_rel y fs \<Longrightarrow> view y' = (view y)(i := None) \<Longrightarrow> fs_rel y' (fs(i := None))"
  by (simp add: fs_rel_def)

lemma fs_rel_view: "fs_rel y fs \<Longrightarrow> view y' = view y \<Longrightarrow> fs_rel y' fs"
  by (simp add: fs_rel_def)

text \<open>The number of inodes bounds the size of a directory.\<close>

lemma view_inum:
  assumes "y_inv y" and "view y i \<noteq> None"
  shows "unat i \<le> INODE_NUM" and "canon i"
proof -
  obtain ty c where "view y i = Some (ty, c)" using assms(2) by auto
  then obtain x where x: "canon i" "file_at (y_server y) (es_id i) = Some (ty, x)" by (rule view_SomeD)
  then have "valid_inum (es_id i)" by (auto simp: file_at_def live_def split: if_splits)
  moreover have "unat (es_id i) = unat i" using x(1) by (simp add: unat_es_id canon_def)
  ultimately show "unat i \<le> INODE_NUM" by (simp add: valid_inum_def)
  show "canon i" by (rule x(1))
qed

lemma dir_bound:
  assumes inv: "y_inv y" and rel: "fs_rel y fs" and tree: "tree_ok fs" and e: "fs e = Some (NDir ds)"
    and dir: "is_dir c ds"
  shows "length c < 2 ^ 32"
proof -
  have "unat (d_inum d) \<le> INODE_NUM" if "d \<in> set ds" for d
    using tree e that view_inum(1) [OF inv, of "d_inum d"] fs_relD(4) [OF rel] unfolding tree_ok_def by metis
  then have sub: "set (map (unat \<circ> d_inum) ds) \<subseteq> {..INODE_NUM}" by auto
  have "distinct (map d_inum ds)" using tree e unfolding tree_ok_def by blast
  then have "distinct (map (unat \<circ> d_inum) ds)" by (simp add: distinct_map inj_on_def) (metis word_unat_eq_iff)
  then have "length ds = card (set (map (unat \<circ> d_inum) ds))" using distinct_card by force
  also have "\<dots> \<le> card {..INODE_NUM}" by (rule card_mono [OF _ sub]) simp
  finally have "length ds \<le> Suc INODE_NUM" by simp
  then show ?thesis using is_dir_length [OF dir] by simp
qed

section \<open>Specification of the requests\<close>

text \<open>
  The attributes a node may be reported with. The times are free, and so is the size of an empty file: the entry
  that \<^verbatim>\<open>extent_client::create\<close> caches has valid attributes whose size is never set.
\<close>

fun stat_ok :: "u64 \<Rightarrow> node \<Rightarrow> stat \<Rightarrow> bool" where
  "stat_ok i (NDir ds) s \<longleftrightarrow> st_ino s = i \<and> st_mode s = 0x41FF \<and> st_nlink s = 2 \<and> st_size s = 0"
| "stat_ok i (NFile c) s \<longleftrightarrow> st_ino s = i \<and> st_mode s = 0x81B6 \<and> st_nlink s = 1 \<and>
     (c \<noteq> [] \<longrightarrow> st_size s = ucast (of_nat (length c) :: u32))"
| "stat_ok i (NLink c) s \<longleftrightarrow> st_ino s = i \<and> st_mode s = 0xA1FF \<and> st_nlink s = 1 \<and> st_size s = 0"

definition entry_reply_ok :: "u64 \<Rightarrow> node \<Rightarrow> fuse_entry_param \<Rightarrow> bool" where
  "entry_reply_ok i n e \<longleftrightarrow> e_ino e = i \<and> e_generation e = 0 \<and> e_attr_timeout e = 0 \<and> e_entry_timeout e = 0 \<and>
     stat_ok i n (e_attr e)"

text \<open>
  The bytes \<^verbatim>\<open>fuse_add_dirent\<close> writes for one entry ending at offset \<open>off\<close>, and a whole directory. The library's
  documentation says that of the attributes it is given, it uses \<^verbatim>\<open>st_ino\<close> and the bits 12 to 15 of \<^verbatim>\<open>st_mode\<close>, the
  file type; the server leaves the type of every entry at zero.
\<close>

type_synonym dirent_enc = "byte list \<Rightarrow> u64 \<Rightarrow> u32 \<Rightarrow> u64 \<Rightarrow> byte list"

definition fuse_env_ok :: "fuse_env \<Rightarrow> dirent_enc \<Rightarrow> bool" where
  "fuse_env_ok fe enc \<longleftrightarrow>
     (\<forall>mem name s off. length name \<le> MAX_FILENAME_LENGTH \<and> length mem = unat (fuse_dirent_size fe (of_nat (length name))) \<longrightarrow>
        fuse_add_dirent fe mem name s off = enc name (st_ino s) (and (st_mode s) 0xF000) off) \<and>
     (\<forall>name i ty off. length name \<le> MAX_FILENAME_LENGTH \<longrightarrow> length (enc name i ty off) = unat (fuse_dirent_size fe (of_nat (length name)))) \<and>
     (\<forall>n. n \<le> MAX_FILENAME_LENGTH \<longrightarrow> unat (fuse_dirent_size fe (of_nat n)) < 2 ^ 32)"

fun listing :: "dirent_enc \<Rightarrow> fuse_env \<Rightarrow> u64 \<Rightarrow> dirent list \<Rightarrow> byte list" where
  "listing enc fe off [] = []"
| "listing enc fe off (d # ds) =
     (let off' = off + fuse_dirent_size fe (of_nat (length (c_str (d_name d)))) in
      enc (c_str (d_name d)) (d_inum d) 0 off' @ listing enc fe off' ds)"

text \<open>
  The requests that are specified: the inodes are there and have the right type, a name that is created has
  at most 64 bytes, offsets are below 4 GB, a write does not start past the end of the file, a symbolic link gets a
  new name, and the target of an unlink is not a directory. The requests left out are those on which the handlers
  fault or do not do what their comments say.
\<close>

fun fuse_req_ok :: "fuse_env \<Rightarrow> fs \<Rightarrow> fuse_request \<Rightarrow> bool" where
  "fuse_req_ok fe fs (Getattr_Req ino) \<longleftrightarrow> fs ino \<noteq> None"
| "fuse_req_ok fe fs Statfs_Req \<longleftrightarrow> True"
| "fuse_req_ok fe fs (Readdir_Req ino sz off) \<longleftrightarrow> fs ino \<noteq> None"
| "fuse_req_ok fe fs (Lookup_Req parent name e) \<longleftrightarrow> (\<exists>ds. fs parent = Some (NDir ds))"
| "fuse_req_ok fe fs (Create_Req parent name e) \<longleftrightarrow> (\<exists>ds. fs parent = Some (NDir ds)) \<and> length name \<le> MAX_FILENAME_LENGTH"
| "fuse_req_ok fe fs (Mknod_Req parent name e) \<longleftrightarrow> (\<exists>ds. fs parent = Some (NDir ds)) \<and> length name \<le> MAX_FILENAME_LENGTH"
| "fuse_req_ok fe fs (Open_Req ino) \<longleftrightarrow> True"
| "fuse_req_ok fe fs (Read_Req ino sz off) \<longleftrightarrow> (\<exists>c. fs ino = Some (NFile c)) \<and> unat off < 2 ^ 32"
| "fuse_req_ok fe fs (Write_Req ino buf sz off) \<longleftrightarrow> (\<exists>c. fs ino = Some (NFile c)) \<and> unat off < 2 ^ 32 \<and>
     unat sz \<le> length buf \<and> unat sz + unat off < 2 ^ 64 \<and> (\<forall>c. fs ino = Some (NFile c) \<longrightarrow> unat off \<le> length c)"
| "fuse_req_ok fe fs (Setattr_Req ino a to_set) \<longleftrightarrow> (\<exists>c. fs ino = Some (NFile c))"
| "fuse_req_ok fe fs (Unlink_Req parent name) \<longleftrightarrow> (\<exists>ds. fs parent = Some (NDir ds) \<and>
     (\<forall>i xs. find_name name ds = Some i \<longrightarrow> fs i \<noteq> Some (NDir xs)))"
| "fuse_req_ok fe fs (Mkdir_Req parent name e) \<longleftrightarrow> (\<exists>ds. fs parent = Some (NDir ds)) \<and> length name \<le> MAX_FILENAME_LENGTH"
| "fuse_req_ok fe fs (Readlink_Req ino) \<longleftrightarrow> (\<exists>c. fs ino = Some (NLink c))"
| "fuse_req_ok fe fs (Symlink_Req link parent name e) \<longleftrightarrow> (\<exists>ds. fs parent = Some (NDir ds) \<and> find_name name ds = None) \<and>
     length name \<le> MAX_FILENAME_LENGTH"

text \<open>Creating a node under a name: an existing name is refused.\<close>

definition creates :: "(fuse_entry_param \<Rightarrow> fuse_reply) \<Rightarrow> node \<Rightarrow> fs \<Rightarrow> u64 \<Rightarrow> byte list \<Rightarrow> fuse_reply \<Rightarrow> fs \<Rightarrow> bool" where
  "creates reply n fs parent name p fs' \<longleftrightarrow> (\<exists>ds. fs parent = Some (NDir ds) \<and>
     (if find_name name ds \<noteq> None then p = Reply_Err EEXIST \<and> fs' = fs
      else \<exists>i e. fs i = None \<and> p = reply e \<and> entry_reply_ok i n e \<and>
        fs' = fs(i \<mapsto> n, parent \<mapsto> NDir (ds @ [\<lparr>d_name = name, d_inum = i\<rparr>]))))"

fun fuse_spec :: "dirent_enc \<Rightarrow> fuse_env \<Rightarrow> fs \<Rightarrow> fuse_request \<Rightarrow> fuse_reply \<Rightarrow> fs \<Rightarrow> bool" where
  "fuse_spec enc fe fs (Getattr_Req ino) p fs' \<longleftrightarrow> fs' = fs \<and> (\<exists>s n. fs ino = Some n \<and> p = Reply_Attr s \<and> stat_ok ino n s)"
| "fuse_spec enc fe fs Statfs_Req p fs' \<longleftrightarrow> fs' = fs \<and> p = Reply_Statfs \<lparr>f_bsize = 512, f_namemax = 255\<rparr>"
| "fuse_spec enc fe fs (Readdir_Req ino sz off) p fs' \<longleftrightarrow> fs' = fs \<and>
     (case fs ino of Some (NDir ds) \<Rightarrow> p = Reply_Buf (take (unat sz) (drop (unat off) (listing enc fe 0 ds)))
      | _ \<Rightarrow> p = Reply_Err ENOTDIR)"
| "fuse_spec enc fe fs (Lookup_Req parent name e) p fs' \<longleftrightarrow> fs' = fs \<and> (\<exists>ds. fs parent = Some (NDir ds) \<and>
     (case find_name name ds of None \<Rightarrow> p = Reply_Err ENOENT
      | Some i \<Rightarrow> \<exists>n e'. fs i = Some n \<and> p = Reply_Entry e' \<and> entry_reply_ok i n e'))"
| "fuse_spec enc fe fs (Create_Req parent name e) p fs' \<longleftrightarrow> creates Reply_Create (NFile []) fs parent name p fs'"
| "fuse_spec enc fe fs (Mknod_Req parent name e) p fs' \<longleftrightarrow> creates Reply_Entry (NFile []) fs parent name p fs'"
| "fuse_spec enc fe fs (Open_Req ino) p fs' \<longleftrightarrow> fs' = fs \<and> p = Reply_Open"
| "fuse_spec enc fe fs (Read_Req ino sz off) p fs' \<longleftrightarrow> fs' = fs \<and>
     (\<exists>c. fs ino = Some (NFile c) \<and> p = Reply_Buf (take (unat sz) (drop (unat off) c)))"
| "fuse_spec enc fe fs (Write_Req ino buf sz off) p fs' \<longleftrightarrow>
     (\<exists>c. fs ino = Some (NFile c) \<and> fs' = fs(ino \<mapsto> NFile (patch c (unat off) (take (unat sz) buf))) \<and>
        p = Reply_Write sz)"
| "fuse_spec enc fe fs (Setattr_Req ino a to_set) p fs' \<longleftrightarrow>
     (if and (set_attr_size fe) to_set \<noteq> 0
      then \<exists>c s. fs ino = Some (NFile c) \<and> fs' = fs(ino \<mapsto> NFile (resize (unat (st_size a)) 0 c)) \<and>
        p = Reply_Attr s \<and> stat_ok ino (NFile (resize (unat (st_size a)) 0 c)) s
      else fs' = fs \<and> p = Reply_Err ENOSYS)"
| "fuse_spec enc fe fs (Unlink_Req parent name) p fs' \<longleftrightarrow> (\<exists>ds. fs parent = Some (NDir ds) \<and>
     (case take_name name ds of None \<Rightarrow> p = Reply_Err ENOENT \<and> fs' = fs
      | Some (i, rest) \<Rightarrow> (\<forall>xs. fs i \<noteq> Some (NDir xs)) \<and> p = Reply_Err 0 \<and> fs' = fs(i := None, parent \<mapsto> NDir rest)))"
| "fuse_spec enc fe fs (Mkdir_Req parent name e) p fs' \<longleftrightarrow> creates Reply_Entry (NDir []) fs parent name p fs'"
| "fuse_spec enc fe fs (Readlink_Req ino) p fs' \<longleftrightarrow> fs' = fs \<and>
     (\<exists>c. fs ino = Some (NLink c) \<and> p = Reply_Readlink (c_str c))"
| "fuse_spec enc fe fs (Symlink_Req link parent name e) p fs' \<longleftrightarrow> creates Reply_Entry (NLink link) fs parent name p fs'"

section \<open>The handlers meet the specification\<close>

definition fuse_ok :: "block_manager yfs \<Rightarrow> fs \<Rightarrow> bool" where
  "fuse_ok y fs \<longleftrightarrow> y_inv y \<and> y_locks y = {} \<and> fs_rel y fs \<and> tree_ok fs"

lemma fuse_ok_view:
  "fuse_ok y fs \<Longrightarrow> y_inv y' \<Longrightarrow> view y' = view y \<Longrightarrow> y_locks y' = y_locks y \<Longrightarrow> fuse_ok y' fs"
  by (auto simp: fuse_ok_def intro: fs_rel_view)

text \<open>The view of a directory, with what the operations on it need.\<close>

lemma fuse_dirE:
  assumes "fuse_ok y fs" and "fs e = Some (NDir ds)"
  obtains c where "y_inv y" "view y e = Some (1, c)" "is_dir c ds" "length c < 2 ^ 32" "e \<notin> y_locks y"
  using assms fs_relD(1) dir_bound unfolding fuse_ok_def by (metis empty_iff)

lemma fs_getattr_spec:
  assumes q: "quiet_io io" and inv: "y_inv y" and v: "view y i = Some (ty, c)" and n: "is_node (ty, c) n"
    and lk: "i \<notin> y_locks y"
  shows "\<exists>s y'. fs_getattr io i y = Inr (0, s, y') \<and> stat_ok i n s \<and> y_inv y' \<and> view y' = view y \<and> y_locks y' = y_locks y"
proof -
  have isf: "\<exists>y'. yfs_isfile io i y0 = Inr (ty = 2, y') \<and> y_inv y' \<and> view y' = view y \<and> y_locks y' = y_locks y"
    and isd: "\<exists>y'. yfs_isdir io i y0 = Inr (ty = 1, y') \<and> y_inv y' \<and> view y' = view y \<and> y_locks y' = y_locks y"
    and gf: "\<exists>fin y'. yfs_getfile io i y0 = Inr (0, fin, y') \<and> (c \<noteq> [] \<longrightarrow> fi_size fin = ucast (of_nat (length c) :: u32)) \<and>
      y_inv y' \<and> view y' = view y \<and> y_locks y' = y_locks y"
    and gd: "\<exists>din y'. yfs_getdir io i y0 = Inr (0, din, y') \<and> y_inv y' \<and> view y' = view y \<and> y_locks y' = y_locks y"
    if "y_inv y0" "view y0 = view y" "y_locks y0 = y_locks y" for y0
  proof -
    have h: "y_inv y0" "view y0 i = Some (ty, c)" "i \<notin> y_locks y0" using that v lk by simp_all
    have "scast ty = (2 :: u32) \<longleftrightarrow> ty = 2" "scast ty = (1 :: u32) \<longleftrightarrow> ty = 1" using n by (cases n; simp)+
    then show "\<exists>y'. yfs_isfile io i y0 = Inr (ty = 2, y') \<and> y_inv y' \<and> view y' = view y \<and> y_locks y' = y_locks y"
      "\<exists>y'. yfs_isdir io i y0 = Inr (ty = 1, y') \<and> y_inv y' \<and> view y' = view y \<and> y_locks y' = y_locks y"
      using yfs_has_type_spec [OF q h, of T_FILE] yfs_has_type_spec [OF q h, of T_DIR] that
      by (simp_all add: yfs_isfile_def yfs_isdir_def)
    show "\<exists>fin y'. yfs_getfile io i y0 = Inr (0, fin, y') \<and> (c \<noteq> [] \<longrightarrow> fi_size fin = ucast (of_nat (length c) :: u32)) \<and>
        y_inv y' \<and> view y' = view y \<and> y_locks y' = y_locks y"
      "\<exists>din y'. yfs_getdir io i y0 = Inr (0, din, y') \<and> y_inv y' \<and> view y' = view y \<and> y_locks y' = y_locks y"
      using yfs_getfile_spec [OF q h] yfs_getdir_spec [OF q h] that by simp_all
  qed
  obtain y1 where 1: "yfs_isfile io i y = Inr (ty = 2, y1)" "y_inv y1" "view y1 = view y" "y_locks y1 = y_locks y"
    using isf [OF inv refl refl] by blast
  obtain y2 where 2: "yfs_isfile io i y1 = Inr (ty = 2, y2)" "y_inv y2" "view y2 = view y" "y_locks y2 = y_locks y"
    using isf [OF 1(2-4)] by blast
  show ?thesis
  proof (cases "ty = 2")
    case True
    with n have nf: "n = NFile c" by (cases n) auto
    obtain fin y3 where "yfs_getfile io i y2 = Inr (0, fin, y3)" "c \<noteq> [] \<longrightarrow> fi_size fin = ucast (of_nat (length c) :: u32)"
      "y_inv y3" "view y3 = view y" "y_locks y3 = y_locks y" using gf [OF 2(2-4)] by blast
    then show ?thesis using 1(1) 2(1) True nf by (simp add: fs_getattr_def zero_stat_def)
  next
    case False
    obtain din y3 where 3: "yfs_getdir io i y2 = Inr (0, din, y3)" "y_inv y3" "view y3 = view y" "y_locks y3 = y_locks y"
      using gd [OF 2(2-4)] by blast
    obtain y4 where 4: "yfs_isdir io i y3 = Inr (ty = 1, y4)" "y_inv y4" "view y4 = view y" "y_locks y4 = y_locks y"
      using isd [OF 3(2-4)] by blast
    obtain y5 where 5: "yfs_isdir io i y4 = Inr (ty = 1, y5)" "y_inv y5" "view y5 = view y" "y_locks y5 = y_locks y"
      using isd [OF 4(2-4)] by blast
    show ?thesis using 1(1) 2(1) 3(1) 4(1) 5 False n
      by (cases n) (auto simp: fs_getattr_def zero_stat_def)
  qed
qed

lemma fuse_getattrE:
  assumes q: "quiet_io io" and ok: "fuse_ok y fs" and n: "fs i = Some n"
  obtains s y' where "fs_getattr io i y = Inr (0, s, y')" "stat_ok i n s" "fuse_ok y' fs"
proof -
  obtain ty c where v: "view y i = Some (ty, c)" "is_node (ty, c) n" using fs_relD(5) ok n unfolding fuse_ok_def by blast
  have "y_inv y" "i \<notin> y_locks y" using ok by (simp_all add: fuse_ok_def)
  from fs_getattr_spec [OF q this(1) v this(2)] that ok show thesis by (metis fuse_ok_view)
qed

text \<open>Changes of the tree.\<close>

lemma tree_okD:
  assumes "tree_ok fs"
  shows "\<exists>ds. fs 1 = Some (NDir ds)"
    and "fs e = Some (NDir ds) \<Longrightarrow> distinct (map d_name ds)"
    and "fs e = Some (NDir ds) \<Longrightarrow> distinct (map d_inum ds)"
    and "fs e = Some (NDir ds) \<Longrightarrow> d \<in> set ds \<Longrightarrow> fs (d_inum d) \<noteq> None \<and> d_inum d \<noteq> 1 \<and> d_inum d \<noteq> e"
    and "fs e = Some (NDir ds) \<Longrightarrow> d \<in> set ds \<Longrightarrow> fs e' = Some (NDir ds') \<Longrightarrow> d' \<in> set ds' \<Longrightarrow>
      d_inum d = d_inum d' \<Longrightarrow> e = e'"
  using assms unfolding tree_ok_def by metis+

lemma tree_okI:
  assumes "\<exists>ds. fs 1 = Some (NDir ds)"
    and "\<And>e ds. fs e = Some (NDir ds) \<Longrightarrow> distinct (map d_name ds)"
    and "\<And>e ds. fs e = Some (NDir ds) \<Longrightarrow> distinct (map d_inum ds)"
    and "\<And>e ds d. fs e = Some (NDir ds) \<Longrightarrow> d \<in> set ds \<Longrightarrow> fs (d_inum d) \<noteq> None \<and> d_inum d \<noteq> 1 \<and> d_inum d \<noteq> e"
    and "\<And>e ds d e' ds' d'. fs e = Some (NDir ds) \<Longrightarrow> d \<in> set ds \<Longrightarrow> fs e' = Some (NDir ds') \<Longrightarrow> d' \<in> set ds' \<Longrightarrow>
      d_inum d = d_inum d' \<Longrightarrow> e = e'"
  shows "tree_ok fs"
  using assms unfolding tree_ok_def by blast

lemma tree_file:
  assumes t: "tree_ok fs" and f: "fs i = Some (NFile c)"
  shows "tree_ok (fs(i \<mapsto> NFile c'))"
proof -
  have d: "(fs(i \<mapsto> NFile c')) e = Some (NDir ds) \<longleftrightarrow> fs e = Some (NDir ds)" for e ds using f by auto
  show ?thesis
    by (rule tree_okI) (use tree_okD [OF t] f in \<open>(simp only: d; simp; metis node.distinct option.inject | simp only: d; blast)+\<close>)
qed

lemma tree_create:
  assumes t: "tree_ok fs" and p: "fs parent = Some (NDir ds)" and nm: "find_name name ds = None"
    and i: "fs i = None" and n: "\<And>xs. n = NDir xs \<Longrightarrow> xs = []"
  shows "tree_ok (fs(i \<mapsto> n, parent \<mapsto> NDir (ds @ [\<lparr>d_name = name, d_inum = i\<rparr>])))" (is "tree_ok ?fs")
proof -
  have i1: "i \<noteq> 1" "i \<noteq> parent" using tree_okD(1) [OF t] i p by auto
  have old: "d_inum d \<noteq> i" if "fs e = Some (NDir es)" "d \<in> set es" for e es d
    using tree_okD(4) [OF t that] i by metis
  have look: "?fs e = Some (NDir es) \<Longrightarrow> e = parent \<and> es = ds @ [\<lparr>d_name = name, d_inum = i\<rparr>] \<or>
      e = i \<and> es = [] \<or> e \<noteq> parent \<and> e \<noteq> i \<and> fs e = Some (NDir es)" for e es
    using n by (auto split: if_splits)
  have edge: "?fs e = Some (NDir es) \<Longrightarrow> d \<in> set es \<Longrightarrow>
      (\<exists>es'. fs e = Some (NDir es') \<and> d \<in> set es') \<or> e = parent \<and> d_inum d = i" for e es d
    using look [of e es] p by auto
  show ?thesis
  proof (rule tree_okI)
    show "\<exists>ds. ?fs 1 = Some (NDir ds)" using tree_okD(1) [OF t] i1 by auto
    show "distinct (map d_name es)" if "?fs e = Some (NDir es)" for e es
      using look [OF that] tree_okD(2) [OF t, of e es] tree_okD(2) [OF t p] nm by (auto simp: find_name_None)
    show "distinct (map d_inum es)" if "?fs e = Some (NDir es)" for e es
    proof -
      have "i \<notin> d_inum ` set ds" using old [OF p] by blast
      then show ?thesis using look [OF that] tree_okD(3) [OF t, of e es] tree_okD(3) [OF t p] by auto
    qed
    show "?fs (d_inum d) \<noteq> None \<and> d_inum d \<noteq> 1 \<and> d_inum d \<noteq> e" if "?fs e = Some (NDir es)" "d \<in> set es" for e es d
      using edge [OF that] tree_okD(4) [OF t] i1 by auto
    show "e = e'" if "?fs e = Some (NDir es)" "d \<in> set es" "?fs e' = Some (NDir es')" "d' \<in> set es'" "d_inum d = d_inum d'"
      for e es d e' es' d'
      using edge [OF that(1,2)] edge [OF that(3,4)] that(5) old tree_okD(5) [OF t] by metis
  qed
qed

lemma tree_unlink:
  assumes t: "tree_ok fs" and p: "fs parent = Some (NDir ds)" and tn: "take_name name ds = Some (i, rest)"
  shows "tree_ok (fs(i := None, parent \<mapsto> NDir rest))" (is "tree_ok ?fs")
proof -
  from find_name_Some [OF take_name_spec(2) [OF tn]] have d: "\<lparr>d_name = name, d_inum = i\<rparr> \<in> set ds" .
  have i1: "i \<noteq> 1" "i \<noteq> parent" using tree_okD(4) [OF t p d] by simp_all
  have rest: "set rest \<subseteq> set ds" "distinct (map d_name rest)" "distinct (map d_inum rest)" "i \<notin> d_inum ` set rest"
    using take_name_parts [OF tn] tree_okD(2,3) [OF t p] by auto
  have edge: "(\<exists>es'. fs e = Some (NDir es') \<and> d \<in> set es') \<and> d_inum d \<noteq> i" if "?fs e = Some (NDir es)" "d \<in> set es" for e es d
  proof (cases "e = parent")
    case True
    then show ?thesis using that rest p by auto
  next
    case False
    then have e: "fs e = Some (NDir es)" using that(1) by (auto split: if_splits)
    then show ?thesis using that(2) tree_okD(5) [OF t e that(2) p d] False by auto
  qed
  show ?thesis
  proof (rule tree_okI)
    show "\<exists>ds. ?fs 1 = Some (NDir ds)" using tree_okD(1) [OF t] i1 by auto
    show "distinct (map d_name es)" "distinct (map d_inum es)" if "?fs e = Some (NDir es)" for e es
      using that rest tree_okD(2,3) [OF t, of e es] by (auto split: if_splits)
    show "?fs (d_inum d) \<noteq> None \<and> d_inum d \<noteq> 1 \<and> d_inum d \<noteq> e" if "?fs e = Some (NDir es)" "d \<in> set es" for e es d
      using edge [OF that] tree_okD(4) [OF t] i1 by auto
    show "e = e'" if "?fs e = Some (NDir es)" "d \<in> set es" "?fs e' = Some (NDir es')" "d' \<in> set es'" "d_inum d = d_inum d'"
      for e es d e' es' d'
      using edge [OF that(1,2)] edge [OF that(3,4)] that(5) tree_okD(5) [OF t] by metis
  qed
qed

end
