(* ===== verification/Fuse_Refine.thy ===== *)
theory Fuse_Refine
  imports Fuse_Spec
begin

text \<open>
  Every FUSE handler serves its request as \<open>Fuse_Spec\<close> specifies: one lemma per handler, over the
  effect lemmas of the operations of \<^verbatim>\<open>yfs_client\<close>, and \<open>fuse_serves\<close> for all of them.
\<close>

text \<open>A request is served as specified; the process exits only when every inode is in use.\<close>

definition fs_full :: "fs \<Rightarrow> bool" where
  "fs_full fs \<longleftrightarrow> (\<forall>i. 1 < unat i \<and> unat i \<le> INODE_NUM \<longrightarrow> fs i \<noteq> None)"

lemma fuse_ok_None: "fuse_ok y fs \<Longrightarrow> fs i = None \<longleftrightarrow> view y i = None"
  unfolding fuse_ok_def using fs_relD(4) by blast

lemma fs_full_rel: "fuse_ok y fs \<Longrightarrow> inodes_full y \<Longrightarrow> fs_full fs"
  using fuse_ok_None by (simp add: fs_full_def inodes_full_def del: not_None_eq)

definition serves ::
    "dirent_enc \<Rightarrow> fuse_env \<Rightarrow> fs \<Rightarrow> fuse_request \<Rightarrow>
     (fuse_reply \<times> block_manager yfs) res \<Rightarrow> bool" where
  "serves enc fe fs r res \<longleftrightarrow>
     (case res of Inl flt \<Rightarrow> flt = Exit \<and> fs_full fs
      | Inr (p, y') \<Rightarrow> \<exists>fs'. fuse_spec enc fe fs r p fs' \<and> fuse_ok y' fs')"

lemma serves_Inr: "fuse_spec enc fe fs r p fs' \<Longrightarrow> fuse_ok y' fs' \<Longrightarrow> serves enc fe fs r (Inr (p, y'))"
  by (auto simp: serves_def)

text \<open>The effect of \<^verbatim>\<open>create\<close>, \<^verbatim>\<open>mkdir\<close> and \<^verbatim>\<open>symlink\<close> on the tree.\<close>

lemma created_ok:
  assumes ok: "fuse_ok y fs" and p: "fs parent = Some (NDir ds)" and nm: "find_name name ds = None"
    and i: "view y i = None" and n: "is_node v n" "\<And>xs. n = NDir xs \<Longrightarrow> xs = []"
    and inv: "y_inv y'" and lk: "y_locks y' = y_locks y" and dir: "is_dir c' (ds @ [\<lparr>d_name = name, d_inum = i\<rparr>])"
    and vw: "view y' = (view y)(i \<mapsto> v, parent \<mapsto> (1, c'))"
  shows "fs i = None" and "fuse_ok y' (fs(i \<mapsto> n, parent \<mapsto> NDir (ds @ [\<lparr>d_name = name, d_inum = i\<rparr>])))"
proof -
  show fi: "fs i = None" using fuse_ok_None [OF ok] i by simp
  have "tree_ok (fs(i \<mapsto> n, parent \<mapsto> NDir (ds @ [\<lparr>d_name = name, d_inum = i\<rparr>])))"
    using tree_create [OF _ p nm fi n(2)] ok by (simp add: fuse_ok_def)
  moreover have "fs_rel y' (fs(i \<mapsto> n, parent \<mapsto> NDir (ds @ [\<lparr>d_name = name, d_inum = i\<rparr>])))"
    using ok n(1) dir vw by (simp add: fuse_ok_def fs_rel_def)
  ultimately show "fuse_ok y' (fs(i \<mapsto> n, parent \<mapsto> NDir (ds @ [\<lparr>d_name = name, d_inum = i\<rparr>])))"
    using inv lk ok by (simp add: fuse_ok_def)
qed

definition create_effect :: "(int \<times> u64 \<times> block_manager yfs) res \<Rightarrow> node \<Rightarrow> fs \<Rightarrow> u64 \<Rightarrow> byte list \<Rightarrow> bool" where
  "create_effect res n fs parent name \<longleftrightarrow>
     (case res of Inl flt \<Rightarrow> flt = Exit \<and> fs_full fs
      | Inr (r, i, y') \<Rightarrow> \<exists>ds. fs parent = Some (NDir ds) \<and>
          (if find_name name ds \<noteq> None then r = y_EXIST \<and> fuse_ok y' fs
           else r = y_OK \<and> fs i = None \<and> i \<noteq> parent \<and>
             fuse_ok y' (fs(i \<mapsto> n, parent \<mapsto> NDir (ds @ [\<lparr>d_name = name, d_inum = i\<rparr>])))))"

lemma create_effectI:
  assumes ok: "fuse_ok y fs" and p: "fs parent = Some (NDir ds)" and n: "is_node v n" "\<And>xs. n = NDir xs \<Longrightarrow> xs = []"
    and sp: "case res of Inl flt \<Rightarrow> flt = Exit \<and> inodes_full y
      | Inr (r, i, y') \<Rightarrow> y_inv y' \<and> y_locks y' = y_locks y \<and>
          (case find_name name ds of
             Some j \<Rightarrow> r = y_EXIST \<and> i = j \<and> view y' = view y
           | None \<Rightarrow> r = y_OK \<and> view y i = None \<and>
               (\<exists>c'. is_dir c' (ds @ [\<lparr>d_name = name, d_inum = i\<rparr>]) \<and> view y' = (view y)(i \<mapsto> v, parent \<mapsto> (1, c'))))"
  shows "create_effect res n fs parent name"
proof (cases res)
  case (Inl flt)
  then show ?thesis using sp fs_full_rel [OF ok] by (simp add: create_effect_def)
next
  case (Inr q)
  obtain r i y' where q: "q = (r, i, y')" by (cases q)
  note s = sp [unfolded Inr q, simplified]
  show ?thesis
  proof (cases "find_name name ds")
    case None
    with s obtain c' where s': "y_inv y'" "y_locks y' = y_locks y" "r = y_OK" "view y i = None"
      "is_dir c' (ds @ [\<lparr>d_name = name, d_inum = i\<rparr>])" "view y' = (view y)(i \<mapsto> v, parent \<mapsto> (1, c'))" by auto
    note c = created_ok [OF ok p None s'(4) n s'(1,2,5,6)]
    then have "i \<noteq> parent" using p by auto
    with c s'(3) Inr q p None show ?thesis by (simp add: create_effect_def)
  next
    case (Some j)
    with s have "r = y_EXIST" "fuse_ok y' fs" using fuse_ok_view [OF ok] by auto
    then show ?thesis using Inr q p Some by (simp add: create_effect_def)
  qed
qed

text \<open>Reporting the attributes of what was created.\<close>

lemma created_served:
  assumes q: "quiet_io io" and ef: "create_effect res n fs parent name"
    and spec: "\<And>p fs'. fuse_spec enc fe fs r p fs' \<longleftrightarrow> creates reply n fs parent name p fs'"
  shows "serves enc fe fs r
    (bindR (bindR res (\<lambda>(ret, inum, y).
        if ret \<noteq> y_OK then Inr (ret, e0, y)
        else bindR (fs_getattr io inum y) (\<lambda>(ret, attr, y). Inr (ret, (e\<lparr>e_attr_timeout := 0,
          e_entry_timeout := 0, e_generation := 0\<rparr>)\<lparr>e_ino := inum, e_attr := attr\<rparr>, y))))
      (reply_created reply))"
proof (cases res)
  case (Inl flt)
  then show ?thesis using ef by (simp add: create_effect_def serves_def)
next
  case (Inr t)
  obtain ret i y' where t: "t = (ret, i, y')" by (cases t)
  note s = ef [unfolded Inr t create_effect_def, simplified]
  then obtain ds where ds: "fs parent = Some (NDir ds)" by blast
  show ?thesis
  proof (cases "find_name name ds")
    case (Some j)
    then have "serves enc fe fs r (Inr (Reply_Err EEXIST, y'))"
      using s ds by (intro serves_Inr [where fs' = fs]) (auto simp: spec creates_def)
    then show ?thesis using s ds Some Inr t by (simp add: reply_created_def)
  next
    case None
    let ?fs = "fs(i \<mapsto> n, parent \<mapsto> NDir (ds @ [\<lparr>d_name = name, d_inum = i\<rparr>]))"
    from s ds None have s': "ret = 0" "fs i = None" "i \<noteq> parent" "fuse_ok y' ?fs" by auto
    then have "?fs i = Some n" by simp
    from fuse_getattrE [OF q s'(4) this] obtain st y'' where
      g: "fs_getattr io i y' = Inr (0, st, y'')" "stat_ok i n st" "fuse_ok y'' ?fs" by blast
    let ?e = "(e\<lparr>e_attr_timeout := 0, e_entry_timeout := 0, e_generation := 0\<rparr>)\<lparr>e_ino := i, e_attr := st\<rparr>"
    have "entry_reply_ok i n ?e" using g(2) by (simp add: entry_reply_ok_def)
    then have "creates reply n fs parent name (reply ?e) ?fs"
      using s'(2) ds None unfolding creates_def by auto
    then have "serves enc fe fs r (Inr (reply ?e, y''))"
      using g(3) by (intro serves_Inr [where fs' = ?fs]) (simp_all add: spec)
    then show ?thesis using g(1) s'(1) Inr t by (simp add: reply_created_def)
  qed
qed

lemma create_file_effect:
  assumes q: "quiet_io io" and ok: "fuse_ok y fs" and p: "\<exists>ds. fs parent = Some (NDir ds)"
    and nm: "length name \<le> MAX_FILENAME_LENGTH"
  shows "create_effect (yfs_create io parent name i0 y) (NFile []) fs parent name"
    and "create_effect (yfs_mkdir io parent name i0 y) (NDir []) fs parent name"
proof -
  obtain ds where ds: "fs parent = Some (NDir ds)" using p by blast
  obtain c where c: "y_inv y" "view y parent = Some (1, c)" "is_dir c ds" "length c < 2 ^ 32" "parent \<notin> y_locks y"
    by (rule fuse_dirE [OF ok ds])
  show "create_effect (yfs_create io parent name i0 y) (NFile []) fs parent name"
    by (rule create_effectI [OF ok ds _ _ yfs_create_spec [OF q c nm]]) simp_all
  show "create_effect (yfs_mkdir io parent name i0 y) (NDir []) fs parent name"
    by (rule create_effectI [OF ok ds _ _ yfs_mkdir_spec [OF q c nm]]) simp_all
qed

lemma create_serves:
  assumes "quiet_io io" and "fuse_ok y fs" and "\<exists>ds. fs parent = Some (NDir ds)" and "length name \<le> MAX_FILENAME_LENGTH"
  shows "serves enc fe fs (Create_Req parent name e) (fuseserver_create fe io parent name e y)"
    and "serves enc fe fs (Mknod_Req parent name e) (fuseserver_mknod fe io parent name e y)"
    and "serves enc fe fs (Mkdir_Req parent name e) (fuseserver_mkdir fe io parent name e y)"
  unfolding fuseserver_create_def fuseserver_mknod_def fuseserver_mkdir_def fuseserver_createhelper_def Let_def if_P [OF refl]
  using created_served [OF assms(1) create_file_effect(1) [OF assms], of enc fe "Create_Req parent name e" Reply_Create]
    created_served [OF assms(1) create_file_effect(1) [OF assms], of enc fe "Mknod_Req parent name e" Reply_Entry]
    created_served [OF assms(1) create_file_effect(2) [OF assms], of enc fe "Mkdir_Req parent name e" Reply_Entry]
  by simp_all

lemma symlink_serves:
  assumes q: "quiet_io io" and ok: "fuse_ok y fs" and ds: "fs parent = Some (NDir ds)" and new: "find_name name ds = None"
    and nm: "length name \<le> MAX_FILENAME_LENGTH"
  shows "serves enc fe fs (Symlink_Req link parent name e) (fuseserver_symlink fe io link parent name e y)"
proof -
  obtain c where c: "y_inv y" "view y parent = Some (1, c)" "is_dir c ds" "length c < 2 ^ 32" "parent \<notin> y_locks y"
    by (rule fuse_dirE [OF ok ds])
  let ?res = "yfs_symlink io parent name link (raw_inum fe (y_tick y)) y"
  have ef: "create_effect ?res (NLink link) fs parent name"
    by (rule create_effectI [OF ok ds, where v = "(3, link)"])
      (use yfs_symlink_spec [OF q c nm, of link "raw_inum fe (y_tick y)"] new in \<open>auto split: sum.splits\<close>)
  show ?thesis
  proof (cases ?res)
    case (Inl flt)
    then show ?thesis using ef by (simp add: create_effect_def serves_def fuseserver_symlink_def)
  next
    case (Inr t)
    obtain ret i y' where t: "t = (ret, i, y')" by (cases t)
    let ?fs = "fs(i \<mapsto> NLink link, parent \<mapsto> NDir (ds @ [\<lparr>d_name = name, d_inum = i\<rparr>]))"
    from ef ds new have s: "ret = 0" "fs i = None" "i \<noteq> parent" "fuse_ok y' ?fs" by (auto simp: create_effect_def Inr t)
    then have "?fs i = Some (NLink link)" by simp
    from fuse_getattrE [OF q s(4) this] obtain st y'' where
      g: "fs_getattr io i y' = Inr (0, st, y'')" "stat_ok i (NLink link) st" "fuse_ok y'' ?fs" by blast
    let ?e = "(e\<lparr>e_ino := i, e_attr_timeout := 0, e_entry_timeout := 0, e_generation := 0\<rparr>)\<lparr>e_attr := st\<rparr>"
    have "entry_reply_ok i (NLink link) ?e" using g(2) by (simp add: entry_reply_ok_def)
    then have "creates Reply_Entry (NLink link) fs parent name (Reply_Entry ?e) ?fs"
      using s(2) ds new unfolding creates_def by auto
    then have "serves enc fe fs (Symlink_Req link parent name e) (Inr (Reply_Entry ?e, y''))"
      using g(3) by (intro serves_Inr [where fs' = ?fs]) simp_all
    then show ?thesis using g(1) s(1) Inr t by (simp add: fuseserver_symlink_def)
  qed
qed

lemma lookup_serves:
  assumes q: "quiet_io io" and ok: "fuse_ok y fs" and ds: "fs parent = Some (NDir ds)"
  shows "serves enc fe fs (Lookup_Req parent name e) (fuseserver_lookup fe io parent name e y)"
proof -
  obtain c where c: "y_inv y" "view y parent = Some (1, c)" "is_dir c ds" "length c < 2 ^ 32" "parent \<notin> y_locks y"
    by (rule fuse_dirE [OF ok ds])
  from yfs_lookup_spec [OF q c, of name "raw_inum fe (y_tick y)"] obtain y' where
    l: "yfs_lookup io parent name (raw_inum fe (y_tick y)) y =
      Inr (0, find_name name ds \<noteq> None, case find_name name ds of None \<Rightarrow> raw_inum fe (y_tick y) | Some i \<Rightarrow> i, y')"
    and y': "fuse_ok y' fs" using fuse_ok_view [OF ok] by blast
  show ?thesis
  proof (cases "find_name name ds")
    case None
    have "serves enc fe fs (Lookup_Req parent name e) (Inr (Reply_Err ENOENT, y'))"
      using ds None y' by (intro serves_Inr) simp_all
    then show ?thesis using l None by (simp add: fuseserver_lookup_def)
  next
    case (Some i)
    from ok have "tree_ok fs" by (simp add: fuse_ok_def)
    from tree_okD(4) [OF this ds find_name_Some [OF Some]] obtain n where n: "fs i = Some n" by auto
    from fuse_getattrE [OF q y' n] obtain st y'' where
      g: "fs_getattr io i y' = Inr (0, st, y'')" "stat_ok i n st" "fuse_ok y'' fs" by blast
    let ?e = "(e\<lparr>e_attr_timeout := 0, e_entry_timeout := 0, e_generation := 0\<rparr>)\<lparr>e_ino := i, e_attr := st\<rparr>"
    have "entry_reply_ok i n ?e" using g(2) by (simp add: entry_reply_ok_def)
    then have "serves enc fe fs (Lookup_Req parent name e) (Inr (Reply_Entry ?e, y''))"
      using ds Some n g(3) by (intro serves_Inr) auto
    then show ?thesis using l Some g(1) by (simp add: fuseserver_lookup_def)
  qed
qed

lemma getattr_serves:
  assumes q: "quiet_io io" and ok: "fuse_ok y fs" and n: "fs i = Some n"
  shows "serves enc fe fs (Getattr_Req i) (fuseserver_getattr io i y)"
  by (rule fuse_getattrE [OF q ok n]) (use n in \<open>auto simp: fuseserver_getattr_def intro!: serves_Inr\<close>)

text \<open>Changing the content of a file.\<close>

lemma file_updated:
  assumes ok: "fuse_ok y fs" and f: "fs i = Some (NFile c)" and "y_inv y'" and "y_locks y' = y_locks y"
    and "view y' = (view y)(i \<mapsto> (2, c'))"
  shows "fuse_ok y' (fs(i \<mapsto> NFile c'))"
  using assms tree_file [of fs i c c'] fs_rel_upd [of y fs y' i "(2, c')" "NFile c'"] by (simp add: fuse_ok_def)

lemma fuse_fileD:
  assumes ok: "fuse_ok y fs" and f: "fs i = Some (NFile c)"
  shows "y_inv y" "view y i = Some (2, c)" "i \<noteq> 1" "i \<notin> y_locks y"
proof -
  show "y_inv y" "i \<notin> y_locks y" using ok by (simp_all add: fuse_ok_def)
  show "view y i = Some (2, c)" using ok f fs_relD(2) [of y fs i c] by (simp add: fuse_ok_def)
  have "tree_ok fs" using ok by (simp add: fuse_ok_def)
  from tree_okD(1) [OF this] f show "i \<noteq> 1" by auto
qed

lemma write_serves:
  assumes q: "quiet_io io" and ok: "fuse_ok y fs" and f: "fs i = Some (NFile c)" and off: "unat off < 2 ^ 32"
    and len: "unat sz \<le> length buf" "unat sz + unat off < 2 ^ 64" and no_gap: "unat off \<le> length c"
  shows "serves enc fe fs (Write_Req i buf sz off) (fuseserver_write io i buf sz off y)"
proof -
  note d = fuse_fileD [OF ok f]
  from yfs_write_spec [OF q d write_content_spec [OF off len]] obtain y' where
    w: "yfs_write io i sz off buf y = Inr (0, if unat off \<le> length c then sz else sz + off - of_nat (length c), y')"
    and y': "y_inv y'" "y_locks y' = y_locks y" "view y' = (view y)(i \<mapsto> (2, patch c (unat off) (take (unat sz) buf)))" by blast
  from w show ?thesis unfolding fuseserver_write_def
    using file_updated [OF ok f y'] f no_gap by (auto intro!: serves_Inr)
qed

lemma setattr_serves:
  assumes q: "quiet_io io" and ok: "fuse_ok y fs" and f: "fs i = Some (NFile c)"
  shows "serves enc fe fs (Setattr_Req i a to_set) (fuseserver_setattr fe io i a to_set y)"
proof (cases "and (set_attr_size fe) to_set = 0")
  case True
  then show ?thesis using ok by (auto simp: fuseserver_setattr_def intro!: serves_Inr)
next
  case False
  let ?c = "resize (unat (st_size a)) 0 c"
  from yfs_setattr_spec [OF q fuse_fileD [OF ok f], of "st_size a"] obtain y' where
    w: "yfs_setattr io i (st_size a) y = Inr (0, y')"
    and y': "y_inv y'" "y_locks y' = y_locks y" "view y' = (view y)(i \<mapsto> (2, ?c))" by blast
  have "(fs(i \<mapsto> NFile ?c)) i = Some (NFile ?c)" by simp
  from fuse_getattrE [OF q file_updated [OF ok f y'] this] obtain st y'' where
    g: "fs_getattr io i y' = Inr (0, st, y'')" "stat_ok i (NFile ?c) st" "fuse_ok y'' (fs(i \<mapsto> NFile ?c))" by blast
  have "and to_set (set_attr_size fe) \<noteq> 0" using False by (simp add: and.commute)
  then have "fuseserver_setattr fe io i a to_set y = Inr (Reply_Attr st, y'')"
    using False w g(1) by (simp add: fuseserver_setattr_def)
  then show ?thesis using False f g(2,3) by (simp, intro serves_Inr [where fs' = "fs(i \<mapsto> NFile ?c)"]) auto
qed

lemma read_serves:
  assumes q: "quiet_io io" and ok: "fuse_ok y fs" and f: "fs i = Some (NFile c)" and off: "unat off < 2 ^ 32"
  shows "serves enc fe fs (Read_Req i sz off) (fuseserver_read io i sz off y)"
proof -
  note d = fuse_fileD [OF ok f]
  have "unat (ucast off :: u32) = unat off" by (rule unat_ucast_32 [OF off])
  with yfs_read_spec [OF q d(1,2,4), of off sz] obtain y' where
    r: "yfs_read io i sz off y = Inr (0, take (unat sz) (drop (unat off) c), y')"
    and y': "y_inv y'" "view y' = view y" "y_locks y' = y_locks y" by (fastforce split: if_splits)
  from r show ?thesis unfolding fuseserver_read_def
    using fuse_ok_view [OF ok y'] f by (auto intro!: serves_Inr)
qed

lemma readlink_serves:
  assumes q: "quiet_io io" and ok: "fuse_ok y fs" and f: "fs i = Some (NLink c)"
  shows "serves enc fe fs (Readlink_Req i) (fuseserver_readlink io i y)"
proof -
  have d: "y_inv y" "view y i = Some (3, c)" "i \<notin> y_locks y" using ok f fs_relD(3) [of y fs i c] by (simp_all add: fuse_ok_def)
  from yfs_readlink_spec [OF q d] obtain y' where "yfs_readlink io i y = Inr (0, c, y')" "fuse_ok y' fs"
    using fuse_ok_view [OF ok] by blast
  then show ?thesis using f by (auto simp: fuseserver_readlink_def intro!: serves_Inr)
qed

text \<open>The unlink handler, whatever the type of the target.\<close>

lemma unlink_effect:
  assumes q: "quiet_io io" and ok: "fuse_ok y fs" and ds: "fs parent = Some (NDir ds)"
  shows "\<exists>y'. case take_name name ds of
      None \<Rightarrow> fuseserver_unlink io parent name y = Inr (Reply_Err ENOENT, y') \<and> fuse_ok y' fs
    | Some (i, rest) \<Rightarrow> fuseserver_unlink io parent name y = Inr (Reply_Err 0, y') \<and> fuse_ok y' (fs(i := None, parent \<mapsto> NDir rest))"
proof -
  have tree: "tree_ok fs" using ok by (simp add: fuse_ok_def)
  obtain c where c: "y_inv y" "view y parent = Some (1, c)" "is_dir c ds" "length c < 2 ^ 32" "parent \<notin> y_locks y"
    by (rule fuse_dirE [OF ok ds])
  have tgt: "view y i \<noteq> None \<and> i \<noteq> parent" if "find_name name ds = Some i" for i
    using tree_okD(4) [OF tree ds find_name_Some [OF that]] fuse_ok_None [OF ok, of i] by simp
  from yfs_rmdir_spec [OF q c tgt] obtain r y' where
    u: "yfs_unlink io parent name y = Inr (r, y')" "y_inv y'" "y_locks y' = y_locks y"
    "case take_name name ds of None \<Rightarrow> r = y_NOENT \<and> view y' = view y
     | Some (i, rest) \<Rightarrow> r = y_OK \<and> (\<exists>c'. is_dir c' rest \<and> view y' = (view y)(i := None, parent \<mapsto> (1, c')))"
    unfolding yfs_unlink_def by blast
  show ?thesis
  proof (cases "take_name name ds")
    case None
    then have "fuse_ok y' fs" "r = y_NOENT" using u fuse_ok_view [OF ok] by auto
    then show ?thesis using u(1) None by (simp add: fuseserver_unlink_def)
  next
    case (Some ir)
    obtain i rest where ir: "ir = (i, rest)" by (cases ir)
    note tn = Some [unfolded ir]
    from u(4) tn obtain c' where c': "r = 0" "is_dir c' rest" "view y' = (view y)(i := None, parent \<mapsto> (1, c'))" by auto
    have "fs_rel y' (fs(i := None, parent \<mapsto> NDir rest))"
      using ok c'(2,3) by (simp add: fuse_ok_def fs_rel_def)
    then have "fuse_ok y' (fs(i := None, parent \<mapsto> NDir rest))"
      using tree_unlink [OF tree ds tn] u(2,3) ok by (simp add: fuse_ok_def)
    then show ?thesis using u(1) c'(1) tn by (simp add: fuseserver_unlink_def)
  qed
qed

lemma unlink_serves:
  assumes q: "quiet_io io" and ok: "fuse_ok y fs" and ds: "fs parent = Some (NDir ds)"
    and nd: "\<And>i xs. find_name name ds = Some i \<Longrightarrow> fs i \<noteq> Some (NDir xs)"
  shows "serves enc fe fs (Unlink_Req parent name) (fuseserver_unlink io parent name y)"
proof (cases "take_name name ds")
  case None
  then show ?thesis using unlink_effect [OF q ok ds, of name] ds by (auto intro!: serves_Inr)
next
  case (Some ir)
  obtain i rest where ir: "ir = (i, rest)" by (cases ir)
  note tn = Some [unfolded ir]
  have "fs i \<noteq> Some (NDir xs)" for xs by (rule nd [OF take_name_spec(2) [OF tn]])
  then show ?thesis using unlink_effect [OF q ok ds, of name] ds tn by (auto intro!: serves_Inr)
qed

text \<open>
  A defect: the comment in \<^verbatim>\<open>fuse.cc\<close> forbids the unlinking of a directory, but the handler removes its entry
  and its inode and reports success, which the specification does not allow.
\<close>

lemma unlink_removes_directory:
  assumes q: "quiet_io io" and ok: "fuse_ok y fs" and ds: "fs parent = Some (NDir ds)"
    and d: "find_name name ds = Some i" "fs i = Some (NDir xs)"
  shows "\<exists>y' rest. fuseserver_unlink io parent name y = Inr (Reply_Err 0, y') \<and> fuse_ok y' (fs(i := None, parent \<mapsto> NDir rest)) \<and>
    \<not> fuse_spec enc fe fs (Unlink_Req parent name) (Reply_Err 0) (fs(i := None, parent \<mapsto> NDir rest))"
proof -
  obtain rest where tn: "take_name name ds = Some (i, rest)"
    using take_name_spec(1,2) [of name ds] d(1) by (cases "take_name name ds") auto
  then show ?thesis using unlink_effect [OF q ok ds, of name] ds d(2) by auto
qed

text \<open>The buffer that \<^verbatim>\<open>fuseserver_readdir\<close> assembles.\<close>

lemma c_str_length: "length (c_str s) \<le> length s"
  by (simp add: c_str_def length_takeWhile_le)

lemma dirbuf_add_spec:
  assumes env: "fuse_env_ok fe enc" and nm: "length name \<le> MAX_FILENAME_LENGTH" and b: "length p + 2 ^ 32 < 2 ^ 64"
  shows "dirbuf_add fe \<lparr>db_p = p, db_size = of_nat (length p)\<rparr> name i =
    (let q = enc name i 0 (of_nat (length p) + fuse_dirent_size fe (of_nat (length name)))
     in \<lparr>db_p = p @ q, db_size = of_nat (length (p @ q))\<rparr>)"
    and "length (enc name i 0 off) < 2 ^ 32"
proof -
  let ?w = "fuse_dirent_size fe (of_nat (length name))"
  let ?sz = "of_nat (length p) + ?w :: u64"
  have w: "unat ?w < 2 ^ 32" and enc: "length (enc name i 0 off) = unat ?w" for off
    using env nm by (simp_all add: fuse_env_ok_def)
  from w enc show "length (enc name i 0 off) < 2 ^ 32" by simp
  have lp: "unat (of_nat (length p) :: u64) = length p" using b by (simp add: unat_of_nat)
  have sz: "unat ?sz = length p + unat ?w" using b w by (simp add: unat_word_ariths lp unat_of_nat)
  have mem: "fuse_add_dirent fe mem name s ?sz = enc name (st_ino s) (and (st_mode s) 0xF000) ?sz" if "length mem = unat ?w" for mem s
    using env nm that by (simp add: fuse_env_ok_def)
  have len: "length (drop (length p) (realloc fe p (length p + unat ?w))) = unat ?w"
    and tk: "take (length p) (realloc fe p (length p + unat ?w)) = p" by (simp_all add: realloc_def)
  have "?sz = of_nat (length (p @ enc name i 0 ?sz))" by (simp add: enc)
  then show "dirbuf_add fe \<lparr>db_p = p, db_size = of_nat (length p)\<rparr> name i =
    (let q = enc name i 0 ?sz in \<lparr>db_p = p @ q, db_size = of_nat (length (p @ q))\<rparr>)"
    using mem [OF len] tk by (simp add: dirbuf_add_def Let_def sz lp zero_stat_def)
qed

lemma dirbuf_fold:
  assumes env: "fuse_env_ok fe enc"
  shows "\<lbrakk>\<forall>d \<in> set ds. length (d_name d) \<le> MAX_FILENAME_LENGTH; length p + 2 ^ 32 * Suc (length ds) < 2 ^ 64\<rbrakk> \<Longrightarrow>
    foldl (\<lambda>b it. dirbuf_add fe b (c_str (d_name it)) (d_inum it)) \<lparr>db_p = p, db_size = of_nat (length p)\<rparr> ds =
      (let q = p @ listing enc fe (of_nat (length p)) ds in \<lparr>db_p = q, db_size = of_nat (length q)\<rparr>) \<and>
    length (p @ listing enc fe (of_nat (length p)) ds) < 2 ^ 64"
proof (induction ds arbitrary: p)
  case (Cons d ds)
  let ?off = "of_nat (length p) + fuse_dirent_size fe (of_nat (length (c_str (d_name d))))"
  let ?q = "enc (c_str (d_name d)) (d_inum d) 0 ?off"
  have "length (d_name d) \<le> MAX_FILENAME_LENGTH" using Cons.prems(1) by simp
  with c_str_length [of "d_name d"] have nm: "length (c_str (d_name d)) \<le> MAX_FILENAME_LENGTH" by linarith
  have b: "length p + 2 ^ 32 < 2 ^ 64" using Cons.prems(2) by simp
  note add = dirbuf_add_spec [OF env nm b]
  have off: "of_nat (length (p @ ?q)) = ?off"
    using env nm by (simp add: fuse_env_ok_def)
  have "length (p @ ?q) + 2 ^ 32 * Suc (length ds) < 2 ^ 64"
    using Cons.prems(2) add(2) [of "d_inum d" ?off] by simp
  from Cons.IH [OF _ this] Cons.prems(1) off
  show ?case by (simp add: add(1) Let_def)
qed simp

lemma reply_buf_limited_spec:
  assumes "length p < 2 ^ 64"
  shows "reply_buf_limited p (of_nat (length p)) off sz = Reply_Buf (take (unat sz) (drop (unat off) p))"
proof -
  have lp: "unat (of_nat (length p) :: u64) = length p" using assms by (simp add: unat_of_nat)
  have "unat (of_nat (length p) - off :: u64) = length p - unat off" if "off < of_nat (length p)"
    using that lp by (simp add: unat_sub_if' word_less_nat_alt)
  then show ?thesis using lp by (auto simp: reply_buf_limited_def word_less_nat_alt)
qed

lemma readdir_serves:
  assumes q: "quiet_io io" and env: "fuse_env_ok fe enc" and ok: "fuse_ok y fs" and n: "fs i = Some n"
  shows "serves enc fe fs (Readdir_Req i sz off) (fuseserver_readdir fe io i sz off y)"
proof -
  obtain ty c where v: "view y i = Some (ty, c)" "is_node (ty, c) n" using fs_relD(5) ok n unfolding fuse_ok_def by blast
  have y: "y_inv y" "i \<notin> y_locks y" using ok by (simp_all add: fuse_ok_def)
  have "scast ty = (1 :: u32) \<longleftrightarrow> ty = 1" using v(2) by (cases n; simp)
  with yfs_has_type_spec [OF q y(1) v(1) y(2), of T_DIR] obtain y1 where
    d: "yfs_isdir io i y = Inr (ty = 1, y1)" and y1: "fuse_ok y1 fs"
    using fuse_ok_view [OF ok] unfolding yfs_isdir_def by auto
  show ?thesis
  proof (cases n)
    case (NDir ds)
    obtain c where c: "y_inv y1" "view y1 i = Some (1, c)" "is_dir c ds" "length c < 2 ^ 32" "i \<notin> y_locks y1"
      using fuse_dirE [OF y1] n NDir by blast
    from yfs_readdir_spec [OF q c] obtain y2 where
      r: "yfs_readdir io i y1 = Inr (0, ds, y2)" and y2: "fuse_ok y2 fs" using fuse_ok_view [OF y1] by auto
    have "\<forall>d \<in> set ds. length (d_name d) \<le> MAX_FILENAME_LENGTH" using is_dir_names [OF c(3)] by blast
    moreover have "length ([] :: byte list) + 2 ^ 32 * Suc (length ds) < 2 ^ 64" using is_dir_length [OF c(3)] c(4) by simp
    ultimately have f: "foldl (\<lambda>b it. dirbuf_add fe b (c_str (d_name it)) (d_inum it)) \<lparr>db_p = [], db_size = 0\<rparr> ds =
        \<lparr>db_p = listing enc fe 0 ds, db_size = of_nat (length (listing enc fe 0 ds))\<rparr>"
      and len: "length (listing enc fe 0 ds) < 2 ^ 64"
      using dirbuf_fold [OF env, of ds "[]"] by (simp_all add: Let_def)
    have "ty = 1" using v(2) NDir by simp
    then have "fuseserver_readdir fe io i sz off y =
        Inr (Reply_Buf (take (unat sz) (drop (unat off) (listing enc fe 0 ds))), y2)"
      using d r f reply_buf_limited_spec [OF len] by (simp add: fuseserver_readdir_def Let_def)
    then show ?thesis using n NDir y2 by (auto intro!: serves_Inr)
  qed (use d n y1 v(2) in \<open>auto simp: fuseserver_readdir_def intro!: serves_Inr\<close>)
qed

lemma fuse_serves:
  assumes q: "quiet_io io" and env: "fuse_env_ok fe enc" and ok: "fuse_ok y fs" and r: "fuse_req_ok fe fs r"
  shows "serves enc fe fs r (fuseserver_oper fe io r y)"
proof (cases r)
  case (Getattr_Req i)
  then show ?thesis using r getattr_serves [OF q ok] by auto
next
  case Statfs_Req
  then show ?thesis using ok by (auto simp: fuseserver_statfs_def intro!: serves_Inr)
next
  case (Readdir_Req i sz off)
  then show ?thesis using r readdir_serves [OF q env ok] by auto
next
  case (Lookup_Req parent name e)
  then show ?thesis using r lookup_serves [OF q ok] by auto
next
  case (Create_Req parent name e)
  then show ?thesis using r create_serves(1) [OF q ok] by auto
next
  case (Mknod_Req parent name e)
  then show ?thesis using r create_serves(2) [OF q ok] by auto
next
  case (Open_Req i)
  then show ?thesis using ok by (auto simp: fuseserver_open_def intro!: serves_Inr)
next
  case (Read_Req i sz off)
  then show ?thesis using r read_serves [OF q ok] by auto
next
  case (Write_Req i buf sz off)
  then show ?thesis using r write_serves [OF q ok] by auto
next
  case (Setattr_Req i a to_set)
  then show ?thesis using r setattr_serves [OF q ok] by auto
next
  case (Unlink_Req parent name)
  then show ?thesis using r unlink_serves [OF q ok] by auto
next
  case (Mkdir_Req parent name e)
  then show ?thesis using r create_serves(3) [OF q ok] by auto
next
  case (Readlink_Req i)
  then show ?thesis using r readlink_serves [OF q ok] by auto
next
  case (Symlink_Req link parent name e)
  then show ?thesis using r symlink_serves [OF q ok] by auto
qed

end
