(* ===== verification/Yfs_Props.thy ===== *)
theory Yfs_Props
  imports Yfs_Spec
begin

text \<open>
  The correctness properties of the file-system client, and the defects found while stating them.
\<close>

section \<open>A concrete client\<close>

lemma es_id_num [simp]: "es_id 1 = 1" "es_id 2 = 2" "es_id 3 = 3"
  by (simp_all add: word_unat_eq_iff unat_es_id)

definition io0 :: "block_manager yfs_io" where
  "io0 = \<lparr>io_rpc = \<lambda>_. es_rpc (1, 2, 3), io_env = \<lambda>_. env0, io_raw = \<lambda>_. replicate sizeof_diy_dirent 0,
          io_lock = \<lambda>_ _ x. Inr x, io_unlock = \<lambda>_ _ x. Inr x\<rparr>"

definition y0 :: "block_manager yfs" where
  "y0 = \<lparr>y_cache = Map.empty, y_server = fs0, y_locks = {}, y_tick = 0\<rparr>"

lemma io0_quiet: "quiet_io io0"
  by (auto simp: quiet_io_def io0_def)

lemma y0_inv: "y_inv y0" "view y0 = [1 \<mapsto> (1, [])]" "y_locks y0 = {}"
proof -
  show "y_inv y0"
    by (auto simp: y_inv_def y0_def fs0_inv entry_def entry_inv_def entry_sound_def quiet_def split: option.splits)
  show "view y0 = [1 \<mapsto> (1, [])]"
  proof
    fix d :: u64
    have "es_id d = 1 \<longleftrightarrow> d = 1" if "canon d"
      using canon_id_inj [OF that, of 1] by (simp add: canon_def)
    then show "view y0 d = [1 \<mapsto> (1, [])] d"
      by (auto simp: view_def seen_def y0_def fs0_inv entry_def canon_def)
  qed
qed (simp add: y0_def)

lemma y0_not_full: "\<not> inodes_full y0"
  by (auto simp: inodes_full_def y0_inv intro!: exI [of _ 2])

text \<open>
  A client that holds a root directory with one entry in its cache, naming the empty file 2 of a
  server with files 2 and 3.
\<close>

definition dir_a :: "byte list" where
  "dir_a = dirent_bytes (replicate sizeof_diy_dirent 0) \<lparr>d_name = [97], d_inum = 2\<rparr>"

definition y2 :: "block_manager yfs" where
  "y2 = \<lparr>y_cache = [1 \<mapsto> Some \<lparr>cf_type = 1, cf_buf = dir_a,
            cf_attr = \<lparr>a_type = 1, a_atime = 0, a_mtime = 0, a_ctime = 0, a_size = 80\<rparr>,
            buf_valid = True, attr_valid = True, dirty = True\<rparr>],
         y_server = fs2, y_locks = {}, y_tick = 0\<rparr>"

lemma dir_a: "is_dir dir_a [\<lparr>d_name = [97], d_inum = 2\<rparr>]" "length dir_a < 2 ^ 32"
proof -
  show d: "is_dir dir_a [\<lparr>d_name = [97], d_inum = 2\<rparr>]"
    unfolding dir_a_def by (rule is_dir_entry) simp_all
  show "length dir_a < 2 ^ 32" using is_dir_length [OF d] by simp
qed

lemma entry_y2: "entry (y_cache y2) d = (if d = 1 then Some \<lparr>cf_type = 1, cf_buf = dir_a,
    cf_attr = \<lparr>a_type = 1, a_atime = 0, a_mtime = 0, a_ctime = 0, a_size = 80\<rparr>,
    buf_valid = True, attr_valid = True, dirty = True\<rparr> else None)"
  by (simp add: y2_def entry_def map_get_def)

lemma y2_inv: "y_inv y2" "view y2 = [1 \<mapsto> (1, dir_a), 2 \<mapsto> (2, []), 3 \<mapsto> (2, [])]" "y_locks y2 = {}"
proof -
  have e: "es_id d = of_nat k \<longleftrightarrow> d = of_nat k" if "canon d" "k < 1000" for d k
    using that by (simp add: canon_def word_unat_eq_iff unat_es_id unat_of_nat)
  have i: "es_id d = 1 \<longleftrightarrow> d = 1" "es_id d = 2 \<longleftrightarrow> d = 2" "es_id d = 3 \<longleftrightarrow> d = 3" if "canon d" for d
    using e [OF that, of 1] e [OF that, of 2] e [OF that, of 3] by simp_all
  have f: "file_at fs2 (es_id d) = (if d = 1 then Some (1, []) else if d = 2 \<or> d = 3 then Some (2, []) else None)"
    if "canon d" for d
    using i [OF that] by (auto simp: fs2_inv)
  have srv: "y_server y2 = fs2" by (simp add: y2_def)
  have len: "length dir_a = 80" using is_dir_length [OF dir_a(1)] by simp
  show "y_inv y2"
    by (auto simp: y_inv_def srv f fs2_inv entry_y2 entry_sound_def quiet_def len)
  have "view y2 d = [1 \<mapsto> (1, dir_a), 2 \<mapsto> (2, []), 3 \<mapsto> (2, [])] d" for d
    by (cases "canon d") (auto simp: view_def seen_def srv f entry_y2, auto simp: canon_def)
  then show "view y2 = [1 \<mapsto> (1, dir_a), 2 \<mapsto> (2, []), 3 \<mapsto> (2, [])]" by (rule ext)
  show "y_locks y2 = {}" by (simp add: y2_def)
qed

section \<open>Directories\<close>

text \<open>
  C31 (refinement). \<^verbatim>\<open>create\<close> in a directory: an existing name is reported with its inode number and
  nothing changes; a new name gets a fresh inode number that named no file, an empty regular file
  under it, and an entry appended to the parent; no other file changes, the parent's lock is free
  again, and the only failure is the exit when every inode is in use.
\<close>

theorem yfs_create_refines:
  assumes "quiet_io io" and "y_inv st" and "view st e = Some (1, c)" and "is_dir c ds"
    and "length c < 2 ^ 32" and "e \<notin> y_locks st" and "length name \<le> MAX_FILENAME_LENGTH"
  shows "case yfs_create io e name ino0 st of Inl flt \<Rightarrow> flt = Exit \<and> inodes_full st
    | Inr (r, ino, st') \<Rightarrow> y_inv st' \<and> y_locks st' = y_locks st \<and>
       (case find_name name ds of
          Some i \<Rightarrow> r = y_EXIST \<and> ino = i \<and> view st' = view st
        | None \<Rightarrow> r = y_OK \<and> view st ino = None \<and>
            (\<exists>c'. is_dir c' (ds @ [\<lparr>d_name = name, d_inum = ino\<rparr>]) \<and>
               view st' = (view st)(ino \<mapsto> (2, []), e \<mapsto> (1, c'))))"
  by (rule yfs_create_spec [OF assms])

theorem yfs_create_refines_witness:
  "\<exists>ino st'. yfs_create io0 1 [97] 0 y0 = Inr (y_OK, ino, st') \<and> view st' ino = Some (2, [])"
proof -
  have "view y0 1 = Some (1, [])" "1 \<notin> y_locks y0" by (simp_all add: y0_inv)
  from yfs_create_refines [OF io0_quiet y0_inv(1) this(1) is_dir_Nil _ this(2), of "[97]" 0] y0_not_full
  show ?thesis using y0_inv(2) by (auto split: sum.splits)
qed

text \<open>
  A name just created by \<^verbatim>\<open>create\<close> is found by \<^verbatim>\<open>lookup\<close> under the inode number that
  \<^verbatim>\<open>create\<close> returned, and every other name is found as before.
\<close>

lemma yfs_create_lookup:
  assumes "quiet_io io" and "y_inv st" and "view st e = Some (1, c)" and "is_dir c ds"
    and "length c + sizeof_diy_dirent < 2 ^ 32" and "e \<notin> y_locks st" and "length name \<le> MAX_FILENAME_LENGTH"
    and "yfs_create io e name ino0 st = Inr (y_OK, ino, st')"
  shows "\<exists>st''. yfs_lookup io e other ino1 st' =
      Inr (y_OK, other = name \<or> find_name other ds \<noteq> None,
           if other = name then ino else case find_name other ds of None \<Rightarrow> ino1 | Some i \<Rightarrow> i, st'')"
proof -
  have len: "length c < 2 ^ 32" using assms(5) by simp
  note post = yfs_create_spec [OF assms(1-4) len assms(6,7), of ino0, unfolded assms(8) sum.case prod.case]
  have i: "y_inv st'" "y_locks st' = y_locks st" using post by blast+
  have n: "find_name name ds = None" using post by (cases "find_name name ds") auto
  obtain c' where c': "is_dir c' (ds @ [\<lparr>d_name = name, d_inum = ino\<rparr>])" "view st' e = Some (1, c')"
    using post unfolding n option.case by (metis fun_upd_same)
  have "length c' = length c + sizeof_diy_dirent"
    using is_dir_length [OF c'(1)] is_dir_length [OF assms(4)] by simp
  then have "length c' < 2 ^ 32" using assms(5) by simp
  moreover have "e \<notin> y_locks st'" using i(2) assms(6) by simp
  ultimately obtain st'' where look: "yfs_lookup io e other ino1 st' =
      Inr (0, find_name other (ds @ [\<lparr>d_name = name, d_inum = ino\<rparr>]) \<noteq> None,
        case find_name other (ds @ [\<lparr>d_name = name, d_inum = ino\<rparr>]) of None \<Rightarrow> ino1 | Some i \<Rightarrow> i, st'')"
    using yfs_lookup_spec [OF assms(1) i(1) c'(2,1)] by blast
  show ?thesis
    by (rule exI [of _ st''], cases "find_name other ds") (use n in \<open>auto simp: look find_name_append\<close>)
qed

text \<open>
  \<^verbatim>\<open>mkdir\<close> behaves as \<^verbatim>\<open>create\<close>, with an empty directory under the fresh inode number.
\<close>

lemma yfs_mkdir_refines:
  assumes "quiet_io io" and "y_inv st" and "view st e = Some (1, c)" and "is_dir c ds"
    and "length c < 2 ^ 32" and "e \<notin> y_locks st" and "length name \<le> MAX_FILENAME_LENGTH"
  shows "case yfs_mkdir io e name ino0 st of Inl flt \<Rightarrow> flt = Exit \<and> inodes_full st
    | Inr (r, ino, st') \<Rightarrow> y_inv st' \<and> y_locks st' = y_locks st \<and>
       (case find_name name ds of
          Some i \<Rightarrow> r = y_EXIST \<and> ino = i \<and> view st' = view st
        | None \<Rightarrow> r = y_OK \<and> view st ino = None \<and>
            (\<exists>c'. is_dir c' (ds @ [\<lparr>d_name = name, d_inum = ino\<rparr>]) \<and>
               view st' = (view st)(ino \<mapsto> (1, []), e \<mapsto> (1, c'))))"
  by (rule yfs_mkdir_spec [OF assms])

text \<open>
  C32 (functional). \<^verbatim>\<open>unlink\<close> of a name whose entry leads to a file or symbolic link removes exactly that inode and the
  first entry of that name: the other entries stay, in their order, and no other file changes; an unknown name is
  reported and changes nothing. The operation always returns and leaves the lock free.
\<close>

theorem yfs_unlink_refines:
  assumes "quiet_io io" and "y_inv st" and "view st e = Some (1, c)" and "is_dir c ds"
    and "length c < 2 ^ 32" and "e \<notin> y_locks st"
    and "\<And>i. find_name name ds = Some i \<Longrightarrow> (\<exists>ty x. view st i = Some (ty, x) \<and> ty \<noteq> 1)"
  shows "\<exists>r st'. yfs_unlink io e name st = Inr (r, st') \<and> y_inv st' \<and> y_locks st' = y_locks st \<and>
    (if name \<in> d_name ` set ds
     then r = y_OK \<and> (\<exists>xs d ys c'. ds = xs @ d # ys \<and> d_name d = name \<and> name \<notin> d_name ` set xs \<and>
       is_dir c' (xs @ ys) \<and> view st' = (view st)(d_inum d := None, e \<mapsto> (1, c')))
     else r = y_NOENT \<and> view st' = view st)"
proof -
  have "view st i \<noteq> None \<and> i \<noteq> e" if "find_name name ds = Some i" for i
    using assms(7) [OF that] assms(3) by auto
  from yfs_rmdir_spec [OF assms(1-6) this] obtain r st' where
    run: "yfs_unlink io e name st = Inr (r, st')" "y_inv st'" "y_locks st' = y_locks st" and
    post: "case take_name name ds of None \<Rightarrow> r = y_NOENT \<and> view st' = view st
     | Some (i, rest) \<Rightarrow> r = y_OK \<and> (\<exists>c'. is_dir c' rest \<and> view st' = (view st)(i := None, e \<mapsto> (1, c')))"
    unfolding yfs_unlink_def by blast
  show ?thesis
  proof (cases "take_name name ds")
    case None
    then have "name \<notin> d_name ` set ds" using take_name_spec(1) [of name ds] by (simp add: find_name_None)
    then show ?thesis using run post None by simp
  next
    case (Some p)
    obtain i rest where p: "p = (i, rest)" by (cases p)
    note tn = Some [unfolded p]
    from post tn obtain c' where c': "r = y_OK" "is_dir c' rest" "view st' = (view st)(i := None, e \<mapsto> (1, c'))" by auto
    from take_name_parts [OF tn] obtain xs ys where
      "ds = xs @ \<lparr>d_name = name, d_inum = i\<rparr> # ys" "rest = xs @ ys" "name \<notin> d_name ` set xs" by blast
    with c' have "\<exists>xs d ys c'. ds = xs @ d # ys \<and> d_name d = name \<and> name \<notin> d_name ` set xs \<and> is_dir c' (xs @ ys) \<and>
        view st' = (view st)(d_inum d := None, e \<mapsto> (1, c'))"
      by (intro exI [of _ xs] exI [of _ "\<lparr>d_name = name, d_inum = i\<rparr>"] exI [of _ ys] exI [of _ c']) simp
    moreover have "name \<in> d_name ` set ds" using find_name_Some [OF take_name_spec(2) [OF tn]] by force
    ultimately show ?thesis using run c'(1) by auto
  qed
qed

theorem yfs_unlink_refines_witness:
  "\<exists>st'. yfs_unlink io0 1 [97] y2 = Inr (y_OK, st') \<and> view st' 2 = None \<and> view st' 3 = Some (2, [])"
proof -
  have v: "view y2 1 = Some (1, dir_a)" "1 \<notin> y_locks y2" by (simp_all add: y2_inv)
  from yfs_unlink_refines [OF io0_quiet y2_inv(1) v(1) dir_a v(2), of "[97]"] show ?thesis
    by (auto simp: y2_inv Cons_eq_append_conv split: if_splits)
qed

text \<open>
  C33 (round trip). The entries that \<^verbatim>\<open>rmdir\<close> writes back are the entries that \<^verbatim>\<open>readdir\<close> parses, in
  order, whatever the uninitialised bytes of the structs hold.
\<close>

theorem dir_roundtrip:
  assumes "\<forall>n. length (raws n) = sizeof_diy_dirent" and "\<forall>d \<in> set ds. length (d_name d) \<le> MAX_FILENAME_LENGTH"
    and "sizeof_diy_dirent * length ds < 2 ^ 32"
  shows "bindR (print_dir raws n ds) parse_dir = Inr ds"
proof -
  from print_dir_valid [OF assms(1,2)] obtain c where "print_dir raws n ds = Inr c" "is_dir c ds" by blast
  then show ?thesis using parse_dir_valid [of c ds] is_dir_length [of c ds] assms(3) by simp
qed

theorem dir_roundtrip_witness:
  "bindR (print_dir (\<lambda>n. replicate 80 (of_nat n)) 0 [\<lparr>d_name = [97, 98], d_inum = 7\<rparr>, \<lparr>d_name = [], d_inum = 9\<rparr>]) parse_dir =
     Inr [\<lparr>d_name = [97, 98], d_inum = 7\<rparr>, \<lparr>d_name = [], d_inum = 9\<rparr>]"
  by (rule dir_roundtrip) simp_all

section \<open>Files\<close>

lemma three_zeroes: "replicate 3 (0 :: byte) = [0, 0, 0]"
  by (simp add: numeral_3_eq_3)

text \<open>
  C34 (refinement). \<^verbatim>\<open>write\<close> of \<open>sz\<close> bytes at an offset below 4 GB replaces exactly that range of the
  file, extends it if needed and fills a gap with zeroes; no other file changes and the lock is free
  again.
\<close>

theorem yfs_write_refines:
  assumes "quiet_io io" and "y_inv st" and "view st e = Some (ty, c)" and "e \<noteq> 1" and "e \<notin> y_locks st"
    and "unat off < 2 ^ 32" and "unat sz \<le> length data" and "unat sz + unat off < 2 ^ 64"
  shows "\<exists>n st'. yfs_write io e sz off data st = Inr (y_OK, n, st') \<and> y_inv st' \<and> y_locks st' = y_locks st \<and>
    view st' = (view st)(e \<mapsto> (ty, patch c (unat off) (take (unat sz) data)))"
  using yfs_write_spec [OF assms(1-5) write_content_spec [OF assms(6-8)]] by simp blast

theorem yfs_write_refines_witness:
  "\<exists>n st'. yfs_write io0 2 2 3 [8, 9] y2 = Inr (y_OK, n, st') \<and> view st' 2 = Some (2, [0, 0, 0, 8, 9])"
proof -
  have v: "view y2 2 = Some (2, [])" "2 \<notin> y_locks y2" by (simp_all add: y2_inv)
  from yfs_write_refines [OF io0_quiet y2_inv(1) v(1) _ v(2), of 3 2 "[8, 9]"] show ?thesis
    by (auto simp: patch_def three_zeroes)
qed

text \<open>
  What \<^verbatim>\<open>write\<close> stored at an offset, \<^verbatim>\<open>read\<close> returns from that offset.
\<close>

lemma yfs_write_read:
  assumes "quiet_io io" and "y_inv st" and "view st e = Some (ty, c)" and "e \<noteq> 1" and "e \<notin> y_locks st"
    and "unat off < 2 ^ 32" and "unat sz \<le> length data" and "unat sz + unat off < 2 ^ 64"
    and "yfs_write io e sz off data st = Inr (r, n, st')"
  shows "\<exists>st''. yfs_read io e sz off st' = Inr (y_OK, take (unat sz) data, st'')"
proof -
  let ?c = "patch c (unat off) (take (unat sz) data)"
  from yfs_write_spec [OF assms(1-5) write_content_spec [OF assms(6-8)]] assms(9)
  have s: "y_inv st'" "y_locks st' = y_locks st" "view st' e = Some (ty, ?c)" by auto
  have len: "length ?c = max (length c) (unat off + unat sz)" using assms(7) by (simp add: length_patch)
  have rd: "take (unat sz) (drop (unat off) ?c) = take (unat sz) data"
    using read_patch [of "take (unat sz) data" "unat off" c] assms(7) by (simp add: min_absorb2)
  have "e \<notin> y_locks st'" using s(2) assms(5) by simp
  from yfs_read_spec [OF assms(1) s(1,3) this, of off sz] unat_ucast_32 [OF assms(6)] len rd
  show ?thesis by (cases "length ?c \<le> unat off") auto
qed

text \<open>
  \<^verbatim>\<open>setattr\<close> truncates the file to the new size or extends it with zeroes, and changes
  nothing else.
\<close>

lemma yfs_setattr_refines:
  assumes "quiet_io io" and "y_inv st" and "view st e = Some (ty, c)" and "e \<noteq> 1" and "e \<notin> y_locks st"
  shows "\<exists>st'. yfs_setattr io e sz st = Inr (y_OK, st') \<and> y_inv st' \<and> y_locks st' = y_locks st \<and>
    view st' = (view st)(e \<mapsto> (ty, take (unat sz) c @ replicate (unat sz - length c) 0))"
  using yfs_setattr_spec [OF assms, of sz] by (simp add: resize_def)

text \<open>
  C35 (error, a defect). \<^verbatim>\<open>read\<close> compares the low 32 bits of the offset with the file's size and then
  uses the full offset: beyond 4 GB it ends the process with an uncaught \<^verbatim>\<open>std::out_of_range\<close> whenever
  the truncated offset lies inside the file, where it should return no data.
\<close>

theorem yfs_read_aborts:
  assumes "quiet_io io" and "y_inv st" and "view st e = Some (ty, c)" and "e \<notin> y_locks st"
    and "unat (ucast off :: u32) < length c" and "length c < unat off"
  shows "yfs_read io e sz off st = Inl Abort"
  using yfs_read_spec [OF assms(1-4), of off sz] assms(5,6) by (simp split: if_splits)

theorem yfs_read_aborts_witness:
  "yfs_read io0 1 10 0x100000000 y2 = Inl Abort"
proof -
  have v: "view y2 1 = Some (1, dir_a)" "1 \<notin> y_locks y2" by (simp_all add: y2_inv)
  have "length dir_a = 80" using is_dir_length [OF dir_a(1)] by simp
  then show ?thesis by (intro yfs_read_aborts [OF io0_quiet y2_inv(1) v]) simp_all
qed

section \<open>Defects of the directory operations\<close>

text \<open>
  C36 (safety, a defect). \<^verbatim>\<open>symlink\<close> with a name that exists returns \<^verbatim>\<open>EXIST\<close> without releasing the
  parent's lock, so the next listing, lookup or creation of the client in that directory waits for itself forever.
\<close>

theorem symlink_leaks_lock:
  assumes "quiet_io io" and "y_inv st" and "view st e = Some (1, c)" and "is_dir c ds"
    and "length c < 2 ^ 32" and "e \<notin> y_locks st" and "find_name name ds = Some i"
  shows "\<exists>st'. yfs_symlink io e name link ino0 st = Inr (y_EXIST, ino0, st') \<and>
    yfs_readdir io e st' = Inl Deadlock \<and> yfs_lookup io e other ino1 st' = Inl Deadlock \<and>
    yfs_create io e other ino1 st' = Inl Deadlock"
proof -
  have "\<exists>st'. yfs_symlink io e name link ino0 st = Inr (y_EXIST, ino0, st') \<and> e \<in> y_locks st'"
  proof -
    let ?st = "(y_set (y_cache st) (y_server st) st)\<lparr>y_locks := insert e (y_locks st)\<rparr>"
    have "y_inv ?st" "view ?st e = Some (1, c)" using assms(2,3) by simp_all
    from y_get_spec [OF assms(1) this] obtain st0 where g: "y_get io e ?st = Inr (0, c, st0)"
      and s0: "y_inv st0" "view st0 = view st" "y_locks st0 = insert e (y_locks st)" by auto
    have v0: "view st0 e = Some (1, c)" using s0(2) assms(3) by simp
    from lookup_no_seria_spec [OF assms(1) s0(1) v0 assms(4,5), of name 0] assms(7) s0(3) g
    show ?thesis by (auto simp: yfs_symlink_def acquire_quiet [OF assms(1,6)])
  qed
  then show ?thesis by (auto simp: yfs_readdir_def yfs_lookup_def yfs_create_def y_acquire_def)
qed

theorem symlink_leaks_lock_witness:
  "\<exists>st'. yfs_symlink io0 1 [97] [98] 0 y2 = Inr (y_EXIST, 0, st') \<and> yfs_readdir io0 1 st' = Inl Deadlock"
proof -
  have v: "view y2 1 = Some (1, dir_a)" "1 \<notin> y_locks y2" by (simp_all add: y2_inv)
  from symlink_leaks_lock [OF io0_quiet y2_inv(1) v(1) dir_a v(2), of "[97]" 2 "[98]" 0] show ?thesis by auto
qed

text \<open>
  A defect: \<^verbatim>\<open>symlink\<close> writes the target only into its own cache and does not take the lock
  of the new inode, so nothing ever makes it write the target back: on the server, where every
  other client reads it, the new symbolic link is empty.
\<close>

lemma symlink_target_not_on_server:
  assumes "quiet_io io" and "y_inv st" and "view st e = Some (1, c)" and "is_dir c ds"
    and "length c < 2 ^ 32" and "e \<notin> y_locks st" and "length name \<le> MAX_FILENAME_LENGTH"
    and "find_name name ds = None" and "yfs_symlink io e name link ino0 st = Inr (r, ino, st')"
  shows "view st' ino = Some (3, link) \<and>
    (\<exists>a im'. es_get now ino (y_server st') = Inr (\<lparr>ff_attr = a, ff_buf = []\<rparr>, im'))"
proof -
  note post = yfs_symlink_spec [OF assms(1-7), of link ino0, unfolded assms(9) assms(8) sum.case prod.case option.case]
  have i: "y_inv st'" and f: "file_at (y_server st') (es_id ino) = Some (3, [])" and n: "view st ino = None" using post by blast+
  have "ino \<noteq> e" using n assms(3) by auto
  then have "view st' ino = Some (3, link)" using post by fastforce
  then show ?thesis using es_get_run [OF y_invD(1) [OF i] f] by blast
qed

text \<open>
  C37 (bounds, a defect). A name of more than 64 bytes overflows the fixed array of the directory
  entry: \<^verbatim>\<open>create\<close> checks neither the length of the name nor the 255 bytes the file system announces.
\<close>

theorem long_name_overflows:
  assumes "quiet_io io" and "y_inv st" and "view st e = Some (1, c)" and "is_dir c ds"
    and "length c < 2 ^ 32" and "e \<notin> y_locks st" and "\<not> inodes_full st"
    and "MAX_FILENAME_LENGTH < length name" and "length name < 2 ^ 16"
  shows "yfs_create io e name ino0 st = Inl Undefined"
proof -
  have nf: "find_name name ds = None"
  proof (cases "find_name name ds")
    case (Some i)
    from is_dir_names [OF assms(4) find_name_Some [OF Some]] assms(8) show ?thesis by simp
  qed
  from locked_lookup [OF assms(1-6), of name ino0] obtain st0 st1 where
    l: "y_acquire io e st = Inr st0" "lookup_no_seria io e name ino0 st0 = Inr (0, False, ino0, st1)"
    and s1: "y_inv st1" "view st1 = view st" "attr_hit (entry (y_cache st1) e)"
    by (auto simp: nf)
  have full: "\<not> inodes_full st1" using assms(7) inodes_full_cong [OF s1(2)] by simp
  obtain r ino st2 where c: "y_create io T_FILE ino0 st1 = Inr (r, ino, st2)"
    using y_create_spec [OF assms(1) s1(1) T_types(2), of ino0] full by (auto split: sum.splits)
  have v1: "view st1 e = Some (1, c)" using s1(2) assms(3) by simp
  note p = y_create_parent [OF assms(1) s1(1) T_types(2) c v1 s1(3)]
  from y_get_spec [OF assms(1) p(3,6)] obtain st3 where g: "y_get io e st2 = Inr (0, c, st3)" by blast
  have "make_dirent raw name i = Inl Undefined" for raw i
    using assms(8,9) by (simp add: make_dirent_def unat_of_nat)
  then show ?thesis using l c g by (simp add: yfs_create_def)
qed

theorem long_name_overflows_witness:
  "yfs_create io0 1 (replicate 65 97) 0 y0 = Inl Undefined"
proof -
  have v: "view y0 1 = Some (1, [])" "1 \<notin> y_locks y0" by (simp_all add: y0_inv)
  show ?thesis by (rule long_name_overflows [OF io0_quiet y0_inv(1) v(1) is_dir_Nil _ v(2) y0_not_full]) simp_all
qed

text \<open>
  \<^verbatim>\<open>n2i\<close> reads back the decimal name that \<^verbatim>\<open>filename\<close> prints for an inode number.
\<close>

lemma n2i_filename: "n2i (filename inum) = inum"
  using n2i_decimal [of "unat inum"] unsigned_less [of inum, where ?'a = nat] by (simp add: filename_def)

end
