(* ===== verification/Fuse_Props.thy ===== *)
theory Fuse_Props
  imports Fuse_Refine Yfs_Props
begin

text \<open>
  Properties of the mounted file system: what one FUSE request does, and that every run of requests is
  a run of the specified file system.
\<close>

section \<open>Runs of requests\<close>

fun fuse_spec_run ::
    "dirent_enc \<Rightarrow> fuse_env \<Rightarrow> fs \<Rightarrow> fuse_request list \<Rightarrow> fuse_reply list \<Rightarrow> fs \<Rightarrow> bool" where
  "fuse_spec_run enc fe fs [] ps fs' \<longleftrightarrow> ps = [] \<and> fs' = fs"
| "fuse_spec_run enc fe fs (r # rs) ps fs' \<longleftrightarrow>
     (\<exists>p ps' fs1. ps = p # ps' \<and> fuse_spec enc fe fs r p fs1 \<and> fuse_spec_run enc fe fs1 rs ps' fs')"

text \<open>Every request meets its precondition, whatever the replies before it were.\<close>

fun fuse_reqs_ok :: "dirent_enc \<Rightarrow> fuse_env \<Rightarrow> fs \<Rightarrow> fuse_request list \<Rightarrow> bool" where
  "fuse_reqs_ok enc fe fs [] \<longleftrightarrow> True"
| "fuse_reqs_ok enc fe fs (r # rs) \<longleftrightarrow> fuse_req_ok fe fs r \<and> (\<forall>p fs'. fuse_spec enc fe fs r p fs' \<longrightarrow> fuse_reqs_ok enc fe fs' rs)"

lemma fuse_run_spec:
  assumes q: "quiet_io io" and env: "fuse_env_ok fe enc"
  shows "fuse_ok y fs \<Longrightarrow> fuse_reqs_ok enc fe fs rs \<Longrightarrow>
    (case fuse_run fe io rs y of
       Inl flt \<Rightarrow> flt = Exit \<and> (\<exists>k ps fs'. k < length rs \<and> fuse_spec_run enc fe fs (take k rs) ps fs' \<and> fs_full fs')
     | Inr (ps, y') \<Rightarrow> \<exists>fs'. fuse_spec_run enc fe fs rs ps fs' \<and> fuse_ok y' fs')"
proof (induction rs arbitrary: y fs)
  case (Cons r rs)
  have r: "fuse_req_ok fe fs r" using Cons.prems(2) by simp
  note sv = fuse_serves [OF q env Cons.prems(1) r, unfolded serves_def]
  show ?case
  proof (cases "fuseserver_oper fe io r y")
    case (Inl flt)
    then have "flt = Exit" "fs_full fs" using sv by simp_all
    moreover have "fuse_spec_run enc fe fs (take 0 (r # rs)) [] fs" by simp
    ultimately show ?thesis using Inl by (auto intro!: exI [of _ 0])
  next
    case (Inr t)
    obtain p y1 where t: "t = (p, y1)" by (cases t)
    with sv Inr obtain fs1 where s: "fuse_spec enc fe fs r p fs1" "fuse_ok y1 fs1" by auto
    have "fuse_reqs_ok enc fe fs1 rs" using Cons.prems(2) s(1) by simp
    note IH = Cons.IH [OF s(2) this]
    show ?thesis
    proof (cases "fuse_run fe io rs y1")
      case (Inl flt)
      with IH obtain k ps fs' where "flt = Exit" "k < length rs" "fuse_spec_run enc fe fs1 (take k rs) ps fs'" "fs_full fs'"
        by auto
      moreover from this(3) s(1) have "fuse_spec_run enc fe fs (take (Suc k) (r # rs)) (p # ps) fs'" by auto
      ultimately have "\<exists>k ps fs'. k < length (r # rs) \<and> fuse_spec_run enc fe fs (take k (r # rs)) ps fs' \<and> fs_full fs'"
        by (intro exI [of _ "Suc k"] exI [of _ "p # ps"] exI [of _ fs']) simp
      then show ?thesis using Inl Inr t \<open>flt = Exit\<close> by simp
    next
      case R: (Inr u)
      obtain ps y' where "u = (ps, y')" by (cases u)
      then show ?thesis using IH R Inr t s(1) by auto
    qed
  qed
qed auto

section \<open>Properties\<close>

text \<open>
  A concrete library and client for the examples. An entry of the directory buffer is a \<^verbatim>\<open>struct fuse_dirent\<close>, with the
  inode number, the offset, the length of the name, the file type and the name, padded with zeroes to a multiple of
  eight bytes.
\<close>

definition enc0 :: dirent_enc where
  "enc0 name i ty off = enc64 i @ enc64 off @ enc32 (of_nat (length name)) @ enc32 (drop_bit 12 ty) @ name @
     replicate ((length name + 31) div 8 * 8 - (24 + length name)) 0"

definition fe0 :: fuse_env where
  "fe0 = \<lparr>set_attr_size = 8, fuse_dirent_size = \<lambda>n. (n + 31) div 8 * 8,
     fuse_add_dirent = \<lambda>mem name s off. enc0 name (st_ino s) (and (st_mode s) 0xF000) off,
     raw_byte = \<lambda>_. 0, raw_inum = \<lambda>_. 0\<rparr>"

definition e0 :: fuse_entry_param where
  "e0 = \<lparr>e_ino = 0, e_generation = 7, e_attr = zero_stat, e_attr_timeout = 1, e_entry_timeout = 1\<rparr>"

lemma dirent_size0: "n \<le> 64 \<Longrightarrow> unat (fuse_dirent_size fe0 (of_nat n)) = (n + 31) div 8 * 8"
proof -
  assume n: "n \<le> 64"
  have "unat (of_nat n + 31 :: u64) = n + 31" using n by (simp add: unat_word_ariths unat_of_nat)
  then have "unat ((of_nat n + 31) div 8 :: u64) = (n + 31) div 8" by (simp add: unat_div)
  moreover have "(n + 31) div 8 * 8 \<le> n + 31" by (rule div_times_less_eq_dividend)
  ultimately show ?thesis using n by (simp add: fe0_def unat_word_ariths)
qed

lemma enc0_length: "length (enc0 name i ty off) = (length name + 31) div 8 * 8"
proof -
  have "24 + length name \<le> (length name + 31) div 8 * 8"
    using div_mult_mod_eq [of "length name + 31" 8] mod_less_divisor [of 8 "length name + 31"] by linarith
  then show ?thesis by (simp add: enc0_def)
qed

lemma fe0_ok: "fuse_env_ok fe0 enc0"
proof -
  have "(n + 31) div 8 * 8 \<le> n + 31" for n :: nat by (rule div_times_less_eq_dividend)
  then have "(n + 31) div 8 * 8 < 2 ^ 32" if "n \<le> 64" for n :: nat using that le_less_trans [of "(n + 31) div 8 * 8" "n + 31" "2 ^ 32"] by simp
  then show ?thesis using dirent_size0 enc0_length by (simp add: fuse_env_ok_def) (simp add: fe0_def)
qed

lemma y0_fuse_ok: "fuse_ok y0 [1 \<mapsto> NDir []]"
proof -
  have "tree_ok [1 \<mapsto> NDir []]" by (rule tree_okI) (auto split: if_splits)
  moreover have "fs_rel y0 [1 \<mapsto> NDir []]" by (auto simp: fs_rel_def y0_inv)
  ultimately show ?thesis by (simp add: fuse_ok_def y0_inv)
qed

lemma not_fullI: "1 < unat i \<Longrightarrow> unat i \<le> INODE_NUM \<Longrightarrow> fs i = None \<Longrightarrow> \<not> fs_full fs"
  by (auto simp: fs_full_def)




lemma mkdir_root:
  "fuse_spec enc fe [1 \<mapsto> NDir []] (Mkdir_Req 1 [97] e) p fs' \<longleftrightarrow>
     (\<exists>i e. i \<noteq> 1 \<and> p = Reply_Entry e \<and> entry_reply_ok i (NDir []) e \<and>
        fs' = [1 \<mapsto> NDir [\<lparr>d_name = [97], d_inum = i\<rparr>], i \<mapsto> NDir []])"
  by (auto simp: creates_def fun_upd_twist)


text \<open>
  C11 (type). The types of the inodes stay meaningful over a whole session of requests, each of which meets
  \<open>fuse_req_ok\<close> when it is sent: at its end every inode that is
  there is a directory, a file or a symbolic link, and the content of a directory is a sequence of entries
  with distinct names, each of which leads to an inode that is there.
\<close>

theorem fuse_run_well_typed:
  assumes "quiet_io io" and "fuse_env_ok fe enc" and "fuse_ok y fs" and "fuse_reqs_ok enc fe fs rs"
    and "fuse_run fe io rs y = Inr (ps, y')" and "view y' i = Some (ty, c)"
  shows "ty \<in> {1, 2, 3} \<and>
    (ty = 1 \<longrightarrow> (\<exists>ds. parse_dir c = Inr ds \<and> distinct (map d_name ds) \<and> (\<forall>d\<in>set ds. view y' (d_inum d) \<noteq> None)))"
proof -
  obtain fs' where ok: "fuse_ok y' fs'" using fuse_run_spec [OF assms(1-4)] assms(5) by auto
  then have rel: "fs_rel y' fs'" and t: "tree_ok fs'" by (simp_all add: fuse_ok_def)
  have "rel_option is_node (Some (ty, c)) (fs' i)" using rel assms(6) unfolding fs_rel_def by metis
  then obtain n where n: "fs' i = Some n" "is_node (ty, c) n" by (auto simp: option_rel_Some1)
  show ?thesis
  proof (cases n)
    case (NDir ds)
    obtain c' where "view y' i = Some (1, c')" "is_dir c' ds" "length c' < 2 ^ 32" by (rule fuse_dirE [OF ok]) (use n NDir in auto)
    then have "parse_dir c = Inr ds" "ty = 1" using parse_dir_valid assms(6) by auto
    moreover have "distinct (map d_name ds)" using tree_okD(2) [OF t] n(1) NDir by simp
    moreover have "view y' (d_inum d) \<noteq> None" if "d \<in> set ds" for d
      using tree_okD(4) [OF t _ that] fs_relD(4) [OF rel] n(1) NDir by metis
    ultimately show ?thesis by blast
  qed (use n in auto)
qed

theorem fuse_run_well_typed_witness:
  "\<exists>ps y' c ds. fuse_run fe0 io0 [Mkdir_Req 1 [97] e0] y0 = Inr (ps, y') \<and> view y' 1 = Some (1, c) \<and> parse_dir c = Inr ds"
proof -
  have ok: "fuse_reqs_ok enc0 fe0 [1 \<mapsto> NDir []] [Mkdir_Req 1 [97] e0]" by simp
  have nf: "\<not> fs_full [1 \<mapsto> NDir []]" using not_fullI [of 2 "[1 \<mapsto> NDir []]"] by simp
  obtain ps y' fs' where r: "fuse_run fe0 io0 [Mkdir_Req 1 [97] e0] y0 = Inr (ps, y')" "fuse_ok y' fs'"
    using fuse_run_spec [OF io0_quiet fe0_ok y0_fuse_ok ok] nf by (auto split: sum.splits)
  then obtain ds where "fs' 1 = Some (NDir ds)" using tree_okD(1) by (auto simp: fuse_ok_def)
  then obtain c where c: "view y' 1 = Some (1, c)" by (rule fuse_dirE [OF r(2)])
  from fuse_run_well_typed [OF io0_quiet fe0_ok y0_fuse_ok ok r(1) c] r(1) c show ?thesis by auto
qed

end
