(* ===== verification/Posix.thy ===== *)
theory Posix
  imports Fuse Yfs_Spec
begin

text \<open>
  Processes that use the mounted file system. A program is a tree of system calls; a machine runs the
  processes of a program and its children one call at a time in any order, over a kernel that is a
  parameter. What a kernel with a mounted file system promises is the interface \<open>posix_kernel\<close>: its
  calls act on a world of directories, files, descriptors and output as \<open>px\<close> says. A rely-guarantee
  calculus for programs over that world is lifted through the interface to all interleavings.
\<close>

named_theorems rg_simps \<open>rules that run a program over the abstract world\<close>

section \<open>Programs\<close>

datatype oflag = O_WRONLY | O_CREAT | O_APPEND

text \<open>
  The calls of the C library and the kernel that the programs make. A directory stream is the list of
  the names that \<^verbatim>\<open>readdir\<close> returns one by one, so \<open>Sys_opendir\<close> gives the list.
\<close>

datatype syscall =
    Sys_sleep nat
  | Sys_printf string
  | Sys_eprintf string
  | Sys_getpid
  | Sys_creat string
  | Sys_open string "oflag list"
  | Sys_write int string
  | Sys_read int nat
  | Sys_lseek int int
  | Sys_fsync int
  | Sys_close int
  | Sys_unlink string
  | Sys_mkdir string
  | Sys_access string
  | Sys_opendir string

record sysret =
  r_val :: int
  r_errno :: int
  r_data :: string
  r_names :: "string list option"

text \<open>\<open>Crash\<close> is undefined behaviour. \<open>Fork\<close> continues in the parent and in the child, as \<^verbatim>\<open>fork\<close> returns.\<close>

datatype 'a prog =
    Return 'a
  | Exit_with int
  | Crash
  | Syscall syscall "sysret \<Rightarrow> 'a prog"
  | Fork "int \<Rightarrow> 'a prog"
  | Waitpid int "int \<times> int \<Rightarrow> 'a prog"

primrec bindP :: "'a prog \<Rightarrow> ('a \<Rightarrow> 'b prog) \<Rightarrow> 'b prog" where
  "bindP (Return x) f = f x"
| "bindP (Exit_with n) f = Exit_with n"
| "bindP Crash f = Crash"
| "bindP (Syscall s k) f = Syscall s (\<lambda>r. bindP (k r) f)"
| "bindP (Fork k) f = Fork (\<lambda>v. bindP (k v) f)"
| "bindP (Waitpid q k) f = Waitpid q (\<lambda>v. bindP (k v) f)"

primrec seqP :: "unit prog list \<Rightarrow> unit prog" where
  "seqP [] = Return ()"
| "seqP (m # ms) = bindP m (\<lambda>_. seqP ms)"

lemma bindP_assoc: "bindP (bindP m f) g = bindP m (\<lambda>x. bindP (f x) g)"
  by (induction m) simp_all

lemma bindP_Return [simp]: "bindP m Return = m"
  by (induction m) simp_all

lemma seqP_append: "seqP (ms @ ns) = bindP (seqP ms) (\<lambda>_. seqP ns)"
  by (induction ms) (simp_all add: bindP_assoc)

section \<open>Machines\<close>

text \<open>
  The kernel: a call of a process, \<^verbatim>\<open>fork\<close> (a new process number or a negative result), and what the
  end and the reaping of a process change.
\<close>

record 'w kernel =
  k_sys :: "nat \<Rightarrow> syscall \<Rightarrow> 'w \<Rightarrow> sysret \<times> 'w"
  k_fork :: "nat \<Rightarrow> 'w \<Rightarrow> int \<times> 'w"
  k_exit :: "nat \<Rightarrow> 'w \<Rightarrow> 'w"
  k_reap :: "nat \<Rightarrow> 'w \<Rightarrow> 'w"

datatype proc = Run "unit prog" | Done int

record 'w machine =
  procs :: "nat \<rightharpoonup> proc"
  world :: 'w

inductive kstep :: "'w kernel \<Rightarrow> 'w machine \<Rightarrow> 'w machine \<Rightarrow> bool" for K where
  sys: "procs c p = Some (Run (Syscall s k)) \<Longrightarrow> k_sys K p s (world c) = (r, w) \<Longrightarrow>
    kstep K c \<lparr>procs = (procs c)(p \<mapsto> Run (k r)), world = w\<rparr>"
| exit: "procs c p = Some (Run (Exit_with n)) \<Longrightarrow>
    kstep K c \<lparr>procs = (procs c)(p \<mapsto> Done n), world = k_exit K p (world c)\<rparr>"
| return: "procs c p = Some (Run (Return ())) \<Longrightarrow>
    kstep K c \<lparr>procs = (procs c)(p \<mapsto> Done 0), world = k_exit K p (world c)\<rparr>"
| fork: "procs c p = Some (Run (Fork k)) \<Longrightarrow> k_fork K p (world c) = (v, w) \<Longrightarrow>
    kstep K c \<lparr>procs = (if v < 0 then (procs c)(p \<mapsto> Run (k v))
                        else (procs c)(p \<mapsto> Run (k v), nat v \<mapsto> Run (k 0))), world = w\<rparr>"
| wait: "procs c p = Some (Run (Waitpid q k)) \<Longrightarrow> 0 < q \<Longrightarrow> procs c (nat q) = Some (Done st) \<Longrightarrow>
    kstep K c \<lparr>procs = (procs c)(p \<mapsto> Run (k (q, st)), nat q := None), world = k_reap K (nat q) (world c)\<rparr>"
| no_child: "procs c p = Some (Run (Waitpid q k)) \<Longrightarrow> q \<le> 0 \<or> procs c (nat q) = None \<Longrightarrow>
    kstep K c \<lparr>procs = (procs c)(p \<mapsto> Run (k (- 1, 0))), world = world c\<rparr>"

text \<open>Whatever steps are taken, a state with \<open>Q\<close> is reached after finitely many of them.\<close>

inductive inevitably :: "('s \<Rightarrow> 's \<Rightarrow> bool) \<Rightarrow> ('s \<Rightarrow> bool) \<Rightarrow> 's \<Rightarrow> bool" for step Q where
  now: "Q s \<Longrightarrow> inevitably step Q s"
| later: "step s t \<Longrightarrow> (\<And>t. step s t \<Longrightarrow> inevitably step Q t) \<Longrightarrow> inevitably step Q s"

lemma inev_later: "\<exists>t. step s t \<Longrightarrow> (\<And>t. step s t \<Longrightarrow> inevitably step Q t) \<Longrightarrow> inevitably step Q s"
  by (blast intro: inevitably.later)

lemma inevitably_reached:
  assumes "inevitably step Q s" and "\<And>s t. Q s \<Longrightarrow> \<not> step s t"
  shows "step\<^sup>*\<^sup>* s t \<Longrightarrow> \<not> Q t \<Longrightarrow> \<exists>u. step t u"
    and "\<not> (\<exists>f. f 0 = s \<and> (\<forall>n. step (f n) (f (Suc n))))"
proof -
  show "\<exists>u. step t u" if "step\<^sup>*\<^sup>* s t" "\<not> Q t"
  proof -
    from that(1) have "inevitably step Q t"
      by (induction rule: rtranclp_induct) (use assms in \<open>auto elim: inevitably.cases\<close>)
    then show ?thesis using that(2) by (auto elim: inevitably.cases)
  qed
  have "f 0 = s \<Longrightarrow> \<forall>n. step (f n) (f (Suc n)) \<Longrightarrow> False" for f
    using assms(1)
  proof (induction arbitrary: f rule: inevitably.induct)
    case (now s) then show ?case using assms(2) by metis
  next
    case (later s t)
    show ?case by (rule later.IH [of "f 1" "\<lambda>n. f (Suc n)"]) (use later.prems in auto)
  qed
  then show "\<not> (\<exists>f. f 0 = s \<and> (\<forall>n. step (f n) (f (Suc n))))" by blast
qed

section \<open>What a mounted file system promises\<close>

text \<open>
  The limits of the file system, and the paths under which it is mounted: every mount point shows the
  same tree. The tree has directories below the mount point and files in them. \<open>p_out\<close> is what has been
  written to the standard output.
\<close>

record posix_env =
  mounts :: "string list"
  name_max :: nat
  max_files :: nat
  max_size :: nat

record ofile =
  of_file :: "string \<times> string"
  of_pos :: nat
  of_flags :: "oflag list"

record pworld =
  p_files :: "string \<times> string \<rightharpoonup> string"
  p_dirs :: "string set"
  p_fds :: "nat \<Rightarrow> int \<rightharpoonup> ofile"
  p_pids :: "nat set"
  p_out :: string

definition split_path :: "string \<Rightarrow> string \<times> string" where
  "split_path path =
     (let base = rev (takeWhile (\<lambda>c. c \<noteq> CHR ''/'') (rev path))
      in (take (length path - length base - 1) path, base))"

definition dir_of :: "posix_env \<Rightarrow> string \<Rightarrow> string option" where
  "dir_of E path = (let (m, d) = split_path path in if m \<in> set (mounts E) then Some d else None)"

definition file_of :: "posix_env \<Rightarrow> string \<Rightarrow> (string \<times> string) option" where
  "file_of E path = (let (p, f) = split_path path in map_option (\<lambda>d. (d, f)) (dir_of E p))"

definition name_ok :: "posix_env \<Rightarrow> string \<Rightarrow> bool" where
  "name_ok E n \<longleftrightarrow> n \<noteq> [] \<and> length n \<le> name_max E \<and> CHR ''/'' \<notin> set n \<and> CHR 0x00 \<notin> set n"

definition dotted :: "string \<Rightarrow> bool" where
  "dotted n \<longleftrightarrow> n \<noteq> [] \<and> hd n = CHR ''.''"

definition set_file :: "string \<times> string \<Rightarrow> string option \<Rightarrow> pworld \<Rightarrow> pworld" where
  "set_file x c a = a\<lparr>p_files := (p_files a)(x := c)\<rparr>"

definition set_fd :: "nat \<Rightarrow> int \<Rightarrow> ofile option \<Rightarrow> pworld \<Rightarrow> pworld" where
  "set_fd p fd f a = a\<lparr>p_fds := (p_fds a)(p := (p_fds a p)(fd := f))\<rparr>"

definition splice :: "'a list \<Rightarrow> nat \<Rightarrow> 'a list \<Rightarrow> 'a list" where
  "splice c pos s = take pos c @ s @ drop (pos + length s) c"

text \<open>A new file fits: the limit counts the files and the directories.\<close>

definition room :: "posix_env \<Rightarrow> string \<times> string \<Rightarrow> pworld \<Rightarrow> bool" where
  "room E x a \<longleftrightarrow> finite (dom (p_files a)) \<and> finite (p_dirs a) \<and>
     card (insert x (dom (p_files a))) + card (p_dirs a) \<le> max_files E"

definition path_ok :: "posix_env \<Rightarrow> string \<Rightarrow> pworld \<Rightarrow> bool" where
  "path_ok E path a \<longleftrightarrow> (case file_of E path of None \<Rightarrow> False | Some x \<Rightarrow> fst x \<in> p_dirs a \<and> name_ok E (snd x))"

definition fd_pos :: "pworld \<Rightarrow> ofile \<Rightarrow> nat" where
  "fd_pos a f = (if O_APPEND \<in> set (of_flags f) then length (the (p_files a (of_file f))) else of_pos f)"

text \<open>
  The calls about which the interface says something. Appending is covered for files that are not empty:
  the size the file system reports of an empty one may be out of date.
\<close>

fun px_pre :: "posix_env \<Rightarrow> nat \<Rightarrow> syscall \<Rightarrow> pworld \<Rightarrow> bool" where
  "px_pre E p (Sys_sleep n) a \<longleftrightarrow> True"
| "px_pre E p (Sys_printf s) a \<longleftrightarrow> True"
| "px_pre E p (Sys_eprintf s) a \<longleftrightarrow> True"
| "px_pre E p Sys_getpid a \<longleftrightarrow> True"
| "px_pre E p (Sys_creat path) a \<longleftrightarrow> path_ok E path a \<and> room E (the (file_of E path)) a"
| "px_pre E p (Sys_open path fl) a \<longleftrightarrow> path_ok E path a \<and> (O_CREAT \<in> set fl \<longrightarrow> room E (the (file_of E path)) a)"
| "px_pre E p (Sys_write fd s) a \<longleftrightarrow> (\<exists>f c. p_fds a p fd = Some f \<and> O_WRONLY \<in> set (of_flags f) \<and> p_files a (of_file f) = Some c \<and>
     (O_APPEND \<in> set (of_flags f) \<longrightarrow> c \<noteq> []) \<and> fd_pos a f \<le> length c \<and> fd_pos a f + length s \<le> max_size E)"
| "px_pre E p (Sys_read fd n) a \<longleftrightarrow> (\<exists>f. p_fds a p fd = Some f \<and> O_WRONLY \<notin> set (of_flags f) \<and> p_files a (of_file f) \<noteq> None \<and>
     of_pos f + n \<le> max_size E)"
| "px_pre E p (Sys_lseek fd n) a \<longleftrightarrow> p_fds a p fd \<noteq> None \<and> 0 \<le> n \<and> nat n \<le> max_size E"
| "px_pre E p (Sys_fsync fd) a \<longleftrightarrow> p_fds a p fd \<noteq> None"
| "px_pre E p (Sys_close fd) a \<longleftrightarrow> p_fds a p fd \<noteq> None"
| "px_pre E p (Sys_unlink path) a \<longleftrightarrow> path_ok E path a \<and> p_files a (the (file_of E path)) \<noteq> None \<and>
     (\<forall>q fd f. p_fds a q fd = Some f \<longrightarrow> Some (of_file f) \<noteq> file_of E path)"
| "px_pre E p (Sys_mkdir path) a \<longleftrightarrow> (\<exists>d. dir_of E path = Some d \<and> name_ok E d \<and> d \<notin> p_dirs a) \<and>
     finite (dom (p_files a)) \<and> finite (p_dirs a) \<and> card (dom (p_files a)) + card (p_dirs a) < max_files E"
| "px_pre E p (Sys_access path) a \<longleftrightarrow> (\<exists>d. dir_of E path = Some d \<and> name_ok E d \<and> d \<in> p_dirs a)"
| "px_pre E p (Sys_opendir path) a \<longleftrightarrow> (\<exists>d. dir_of E path = Some d \<and> name_ok E d \<and> d \<in> p_dirs a)"

text \<open>A new descriptor for an open file.\<close>

definition opens :: "nat \<Rightarrow> string \<times> string \<Rightarrow> oflag list \<Rightarrow> pworld \<Rightarrow> sysret \<Rightarrow> pworld \<Rightarrow> bool" where
  "opens p x fl a r b \<longleftrightarrow> 0 \<le> r_val r \<and> p_fds a p (r_val r) = None \<and>
     b = set_fd p (r_val r) (Some \<lparr>of_file = x, of_pos = 0, of_flags = fl\<rparr>) a"

definition file_exists :: "(string \<times> string) \<Rightarrow> pworld \<Rightarrow> sysret \<Rightarrow> pworld \<Rightarrow> bool" where
  "file_exists x a r b \<longleftrightarrow> p_files a x \<noteq> None \<and> r_val r < 0 \<and> r_errno r = EEXIST \<and> b = a"

text \<open>
  What a call returns and does. Creating a file that is there either opens it (\<^verbatim>\<open>creat\<close> empties it) or is
  refused with \<^verbatim>\<open>EEXIST\<close>, which a kernel may pass on from a file system where another mount point
  has created the file first. A listing holds every file once, beside names that start with a dot.
\<close>

fun px :: "posix_env \<Rightarrow> nat \<Rightarrow> syscall \<Rightarrow> pworld \<Rightarrow> sysret \<Rightarrow> pworld \<Rightarrow> bool" where
  "px E p (Sys_sleep n) a r b \<longleftrightarrow> b = a"
| "px E p (Sys_printf s) a r b \<longleftrightarrow> b = a\<lparr>p_out := p_out a @ s\<rparr>"
| "px E p (Sys_eprintf s) a r b \<longleftrightarrow> b = a"
| "px E p Sys_getpid a r b \<longleftrightarrow> r_val r = int p \<and> b = a"
| "px E p (Sys_creat path) a r b \<longleftrightarrow>
     (let x = the (file_of E path) in file_exists x a r b \<or> opens p x [O_WRONLY] (set_file x (Some []) a) r b)"
| "px E p (Sys_open path fl) a r b \<longleftrightarrow>
     (let x = the (file_of E path) in
      if p_files a x \<noteq> None then opens p x fl a r b \<or> O_CREAT \<in> set fl \<and> file_exists x a r b
      else if O_CREAT \<in> set fl then opens p x fl (set_file x (Some []) a) r b
      else r_val r < 0 \<and> b = a)"
| "px E p (Sys_write fd s) a r b \<longleftrightarrow>
     (let f = the (p_fds a p fd); c = the (p_files a (of_file f)); n = fd_pos a f in
      r_val r = int (length s) \<and>
      b = set_fd p fd (Some (f\<lparr>of_pos := n + length s\<rparr>)) (set_file (of_file f) (Some (splice c n s)) a))"
| "px E p (Sys_read fd n) a r b \<longleftrightarrow>
     (let f = the (p_fds a p fd); c = the (p_files a (of_file f)) in
      r_data r = take n (drop (of_pos f) c) \<and> r_val r = int (length (r_data r)) \<and>
      b = set_fd p fd (Some (f\<lparr>of_pos := of_pos f + length (r_data r)\<rparr>)) a)"
| "px E p (Sys_lseek fd n) a r b \<longleftrightarrow> r_val r = n \<and> b = set_fd p fd (Some ((the (p_fds a p fd))\<lparr>of_pos := nat n\<rparr>)) a"
| "px E p (Sys_fsync fd) a r b \<longleftrightarrow> r_val r = 0 \<and> b = a"
| "px E p (Sys_close fd) a r b \<longleftrightarrow> r_val r = 0 \<and> b = set_fd p fd None a"
| "px E p (Sys_unlink path) a r b \<longleftrightarrow> r_val r = 0 \<and> b = set_file (the (file_of E path)) None a"
| "px E p (Sys_mkdir path) a r b \<longleftrightarrow>
     (let d = the (dir_of E path) in
      r_val r = 0 \<and> b = a\<lparr>p_dirs := insert d (p_dirs a), p_files := (\<lambda>x. if fst x = d then None else p_files a x)\<rparr>)"
| "px E p (Sys_access path) a r b \<longleftrightarrow> r_val r = 0 \<and> b = a"
| "px E p (Sys_opendir path) a r b \<longleftrightarrow>
     (let d = the (dir_of E path) in b = a \<and>
      (\<exists>ns. r_names r = Some ns \<and> distinct (filter (\<lambda>n. \<not> dotted n) ns) \<and>
        set (filter (\<lambda>n. \<not> dotted n) ns) = {f. p_files a (d, f) \<noteq> None \<and> \<not> dotted f}))"

section \<open>The calculus\<close>

text \<open>
  \<open>rg E p R G m Q a\<close>: started in \<open>a\<close> as process \<open>p\<close>, with the other processes changing the world only by
  \<open>R\<close>, the program makes only calls the interface covers, changes the world only by \<open>G\<close>, does not exit,
  and returns in a world with \<open>Q\<close>, which the others keep.
\<close>

type_synonym prel = "pworld \<Rightarrow> pworld \<Rightarrow> bool"

primrec rg :: "posix_env \<Rightarrow> nat \<Rightarrow> prel \<Rightarrow> prel \<Rightarrow> 'a prog \<Rightarrow> ('a \<Rightarrow> pworld \<Rightarrow> bool) \<Rightarrow> pworld \<Rightarrow> bool" where
  "rg E p R G (Return x) Q a \<longleftrightarrow> (\<forall>b. R a b \<longrightarrow> Q x b)"
| "rg E p R G (Exit_with n) Q a \<longleftrightarrow> False"
| "rg E p R G Crash Q a \<longleftrightarrow> False"
| "rg E p R G (Syscall s k) Q a \<longleftrightarrow>
     (\<forall>b. R a b \<longrightarrow> px_pre E p s b \<and> (\<forall>r c. px E p s b r c \<longrightarrow> G b c \<and> rg E p R G (k r) Q c))"
| "rg E p R G (Fork k) Q a \<longleftrightarrow> False"
| "rg E p R G (Waitpid q k) Q a \<longleftrightarrow> False"

lemma rg_mono:
  assumes "rg E p R G m Q a" and "\<And>x b. Q x b \<Longrightarrow> Q' x b"
  shows "rg E p R G m Q' a"
  using assms(1) by (induction m arbitrary: a) (use assms(2) in auto)

lemma rg_env:
  assumes "rg E p R G m Q a" and "\<And>a b. R' a b \<Longrightarrow> R a b" and "\<And>a b. G a b \<Longrightarrow> G' a b"
  shows "rg E p R' G' m Q a"
  using assms(1)
proof (induction m arbitrary: a)
  case (Syscall s k)
  then show ?case using assms(2,3) unfolding rg.simps by (meson rangeI)
qed (use assms(2) in auto)

lemma rg_stable:
  assumes "rg E p R G m Q a" and "transp R" and "R a b"
  shows "rg E p R G m Q b"
  using assms(1,3) by (cases m) (simp_all, (blast dest: transpD [OF assms(2)])+)

lemma rg_bind:
  assumes "rg E p R G m (\<lambda>x. rg E p R G (f x) Q) a" and "reflp R"
  shows "rg E p R G (bindP m f) Q a"
  using assms(1) by (induction m arbitrary: a) (use assms(2) in \<open>auto dest: reflpD\<close>)

text \<open>What a program and its environment do is one change by any preorder that has both.\<close>

lemma rg_frame:
  assumes m: "rg E p R G m Q a" and R: "\<And>a b. R a b \<Longrightarrow> H a b" and G: "\<And>a b. G a b \<Longrightarrow> H a b" and H: "reflp H" "transp H"
  shows "rg E p R G m (\<lambda>x b. Q x b \<and> H a b) a"
proof -
  have "rg E p R G m (\<lambda>x b. Q x b \<and> H a b) c" if "rg E p R G m Q c" "H a c" for c
    using that
  proof (induction m arbitrary: c)
    case (Syscall s k)
    then show ?case unfolding rg.simps by (meson rangeI R G transpD [OF H(2)])
  qed (auto dest: R transpD [OF H(2)])
  then show ?thesis using m reflpD [OF H(1)] by blast
qed

lemma rg_alone:
  assumes "rg E p (=) G m Q a" and "reflp G" and "transp G"
  shows "rg E p (=) G m (\<lambda>x b. Q x b \<and> G a b) a"
  by (rule rg_frame [OF assms(1) _ _ assms(2,3)]) (use assms(2) in \<open>auto dest: reflpD\<close>)

section \<open>The interface, and programs over it\<close>

text \<open>The process of a machine that is alone, and a process with its child.\<close>

definition alone :: "nat \<Rightarrow> unit prog \<Rightarrow> 'w \<Rightarrow> 'w machine" where
  "alone p m w = \<lparr>procs = [p \<mapsto> Run m], world = w\<rparr>"

definition both :: "nat \<Rightarrow> unit prog \<Rightarrow> nat \<Rightarrow> proc \<Rightarrow> 'w \<Rightarrow> 'w machine" where
  "both p m q pr w = \<lparr>procs = [p \<mapsto> Run m, q \<mapsto> pr], world = w\<rparr>"

inductive_cases kstepE: "kstep K c c'"

lemma kstep_callI:
  "procs c p = Some (Run (Syscall s k)) \<Longrightarrow> k_sys K p s (world c) = (r, w) \<Longrightarrow> (procs c)(p \<mapsto> Run (k r)) = ps \<Longrightarrow>
     kstep K c \<lparr>procs = ps, world = w\<rparr>"
  by (auto intro: kstep.sys)

lemma kstep_exitI:
  "procs c p = Some (Run (Exit_with n)) \<Longrightarrow> (procs c)(p \<mapsto> Done n) = ps \<Longrightarrow> kstep K c \<lparr>procs = ps, world = k_exit K p (world c)\<rparr>"
  by (auto intro: kstep.exit)

lemma kstep_alone:
  "kstep K (alone p (Syscall s k) w) c \<longleftrightarrow> (\<exists>r w'. k_sys K p s w = (r, w') \<and> c = alone p (k r) w')"
  "kstep K (alone p (Exit_with n) w) c \<longleftrightarrow> c = \<lparr>procs = [p \<mapsto> Done n], world = k_exit K p w\<rparr>"
  using kstep_callI [of "alone p (Syscall s k) w" p s k K] kstep_exitI [of "alone p (Exit_with n) w" p n]
  by (auto elim!: kstepE simp: alone_def split: if_splits)

lemma kstep_fork:
  "kstep K (alone p (Fork k) w) c \<longleftrightarrow> (\<exists>v w'. k_fork K p w = (v, w') \<and>
     c = (if v < 0 then alone p (k v) w' else both p (k v) (nat v) (Run (k 0)) w'))" (is "?L \<longleftrightarrow> ?R")
proof
  show "?L \<Longrightarrow> ?R" by (auto elim!: kstepE simp: alone_def both_def split: if_splits)
  show "?R \<Longrightarrow> ?L" using kstep.fork [of "alone p (Fork k) w" p k K] by (auto simp: alone_def both_def split: if_splits)
qed

text \<open>A parent in a call or waiting for its child, and the child in a call, before its exit or after it.\<close>

definition waits_or_calls :: "nat \<Rightarrow> unit prog \<Rightarrow> bool" where
  "waits_or_calls q m \<longleftrightarrow> (\<exists>s k. m = Syscall s k) \<or> (\<exists>k. m = Waitpid (int q) k)"

lemma kstep_both:
  assumes "p \<noteq> q" and "0 < q" and "waits_or_calls q m"
  shows "kstep K (both p m q (Run (Syscall s k)) w) c \<longleftrightarrow>
      (\<exists>s' k' r w'. m = Syscall s' k' \<and> k_sys K p s' w = (r, w') \<and> c = both p (k' r) q (Run (Syscall s k)) w') \<or>
      (\<exists>r w'. k_sys K q s w = (r, w') \<and> c = both p m q (Run (k r)) w')"
    and "kstep K (both p m q (Run (Exit_with n)) w) c \<longleftrightarrow>
      (\<exists>s' k' r w'. m = Syscall s' k' \<and> k_sys K p s' w = (r, w') \<and> c = both p (k' r) q (Run (Exit_with n)) w') \<or>
      c = both p m q (Done n) (k_exit K q w)"
    and "kstep K (both p m q (Done n) w) c \<longleftrightarrow>
      (\<exists>s' k' r w'. m = Syscall s' k' \<and> k_sys K p s' w = (r, w') \<and> c = both p (k' r) q (Done n) w') \<or>
      (\<exists>k'. m = Waitpid (int q) k' \<and> c = alone p (k' (int q, n)) (k_reap K q w))"
proof -
  have tw: "[p \<mapsto> A, q \<mapsto> B](p \<mapsto> C) = [p \<mapsto> C, q \<mapsto> B]" "[p \<mapsto> A, q \<mapsto> B](p \<mapsto> C, q := None) = [p \<mapsto> C]" for A B C :: proc
    using assms(1) by auto
  show "kstep K (both p m q (Run (Syscall s k)) w) c \<longleftrightarrow>
      (\<exists>s' k' r w'. m = Syscall s' k' \<and> k_sys K p s' w = (r, w') \<and> c = both p (k' r) q (Run (Syscall s k)) w') \<or>
      (\<exists>r w'. k_sys K q s w = (r, w') \<and> c = both p m q (Run (k r)) w')" (is "?L \<longleftrightarrow> ?R")
  proof
    show "?L \<Longrightarrow> ?R" using assms by (auto elim!: kstepE simp: waits_or_calls_def tw both_def alone_def split: if_splits)
    show "?R \<Longrightarrow> ?L" using kstep_callI [of "both p m q (Run (Syscall s k)) w" p] kstep_callI [of "both p m q (Run (Syscall s k)) w" q] assms(1)
      by (auto simp: tw both_def alone_def)
  qed
  show "kstep K (both p m q (Run (Exit_with n)) w) c \<longleftrightarrow>
      (\<exists>s' k' r w'. m = Syscall s' k' \<and> k_sys K p s' w = (r, w') \<and> c = both p (k' r) q (Run (Exit_with n)) w') \<or>
      c = both p m q (Done n) (k_exit K q w)" (is "?L \<longleftrightarrow> ?R")
  proof
    show "?L \<Longrightarrow> ?R" using assms by (auto elim!: kstepE simp: waits_or_calls_def tw both_def alone_def split: if_splits)
    show "?R \<Longrightarrow> ?L" using kstep_callI [of "both p m q (Run (Exit_with n)) w" p]
        kstep_exitI [of "both p m q (Run (Exit_with n)) w" q] assms(1) by (auto simp: tw both_def alone_def)
  qed
  show "kstep K (both p m q (Done n) w) c \<longleftrightarrow>
      (\<exists>s' k' r w'. m = Syscall s' k' \<and> k_sys K p s' w = (r, w') \<and> c = both p (k' r) q (Done n) w') \<or>
      (\<exists>k'. m = Waitpid (int q) k' \<and> c = alone p (k' (int q, n)) (k_reap K q w))" (is "?L \<longleftrightarrow> ?R")
  proof
    show "?L \<Longrightarrow> ?R" using assms by (auto elim!: kstepE simp: waits_or_calls_def tw both_def alone_def split: if_splits)
    show "?R \<Longrightarrow> ?L" using kstep_callI [of "both p m q (Done n) w" p]
        kstep.wait [of "both p m q (Done n) w" p "int q"] assms(1,2) by (auto simp: tw both_def alone_def)
  qed
qed

text \<open>
  The laws of a kernel over a mounted file system, for worlds related by \<open>Rel\<close>: a call the interface
  covers is answered as it says, \<^verbatim>\<open>fork\<close> gives a process number that is not in use and copies the
  descriptors, the end of a process closes them. These are the laws while resources last: \<^verbatim>\<open>fork\<close> does not fail, and there
  is always another descriptor.
\<close>

locale posix_kernel =
  fixes K :: "'w kernel" and E :: posix_env and Rel :: "'w \<Rightarrow> pworld \<Rightarrow> bool"
  assumes sys_law: "Rel w a \<Longrightarrow> px_pre E p s a \<Longrightarrow> k_sys K p s w = (r, w') \<Longrightarrow> \<exists>b. px E p s a r b \<and> Rel w' b"
    and fork_law: "Rel w a \<Longrightarrow> k_fork K p w = (v, w') \<Longrightarrow> 0 < v \<and> nat v \<notin> p_pids a \<and>
      Rel w' (a\<lparr>p_pids := insert (nat v) (p_pids a), p_fds := (p_fds a)(nat v := p_fds a p)\<rparr>)"
    and exit_law: "Rel w a \<Longrightarrow> Rel (k_exit K p w) (a\<lparr>p_fds := (p_fds a)(p := Map.empty)\<rparr>)"
    and reap_law: "Rel w a \<Longrightarrow> Rel (k_reap K p w) (a\<lparr>p_pids := p_pids a - {p}\<rparr>)"
begin

lemma sysE:
  assumes "Rel w a" and "px_pre E p s a"
  obtains r w' b where "k_sys K p s w = (r, w')" "px E p s a r b" "Rel w' b"
  using sys_law [OF assms] by (metis surj_pair)

lemma inev_seq:
  assumes "rg E p (=) G m Q a" and "Rel w a"
    and k: "\<And>x b w. Q x b \<Longrightarrow> Rel w b \<Longrightarrow> inevitably (kstep K) F (alone p (f x) w)"
  shows "inevitably (kstep K) F (alone p (bindP m f) w)"
  using assms(1,2)
proof (induction m arbitrary: a w)
  case (Return x)
  then have "Q x a" by simp
  from k [OF this Return.prems(2)] show ?case by (simp only: bindP.simps)
next
  case (Syscall s h)
  then have pre: "px_pre E p s a" and nxt: "\<And>r b. px E p s a r b \<Longrightarrow> rg E p (=) G (h r) Q b" by auto
  obtain r w' b where 1: "k_sys K p s w = (r, w')" "px E p s a r b" "Rel w' b" by (rule sysE [OF Syscall.prems(2) pre])
  have go: "inevitably (kstep K) F (alone p (bindP (h r) f) w')" by (rule Syscall.IH [OF rangeI nxt [OF 1(2)] 1(3)])
  have st: "kstep K (alone p (bindP (Syscall s h) f) w) c \<longleftrightarrow> c = alone p (bindP (h r) f) w'" for c
    using 1(1) by (simp add: kstep_alone)
  show ?case by (rule inev_later) (use st go in auto)
qed simp_all

lemma inev_exit:
  assumes "Rel w a" and "F \<lparr>procs = [p \<mapsto> Done n], world = k_exit K p w\<rparr>"
  shows "inevitably (kstep K) F (alone p (Exit_with n) w)"
  by (rule inevitably.later [of _ _ "\<lparr>procs = [p \<mapsto> Done n], world = k_exit K p w\<rparr>"])
     (use assms(2) in \<open>auto simp: kstep_alone intro: inevitably.now\<close>)

lemma inev_fork:
  assumes "Rel w a"
    and k: "\<And>v w'. 0 < v \<Longrightarrow> nat v \<notin> p_pids a \<Longrightarrow>
      Rel w' (a\<lparr>p_pids := insert (nat v) (p_pids a), p_fds := (p_fds a)(nat v := p_fds a p)\<rparr>) \<Longrightarrow>
      inevitably (kstep K) F (both p (h v) (nat v) (Run (h 0)) w')"
  shows "inevitably (kstep K) F (alone p (Fork h) w)"
proof -
  obtain v w' where f: "k_fork K p w = (v, w')" by fastforce
  from fork_law [OF assms(1) f] k have "inevitably (kstep K) F (both p (h v) (nat v) (Run (h 0)) w')" and v: "0 < v" by blast+
  then show ?thesis using f by - (rule inev_later, auto simp: kstep_fork)
qed

end

text \<open>
  A parent \<open>p\<close> and its child \<open>q\<close>: each keeps what the other relies on, and the child closes its files.
\<close>

definition rg_fit :: "nat \<Rightarrow> nat \<Rightarrow> prel \<Rightarrow> prel \<Rightarrow> prel \<Rightarrow> prel \<Rightarrow> (unit \<Rightarrow> pworld \<Rightarrow> bool) \<Rightarrow> bool" where
  "rg_fit p q RP GP RC GC QC \<longleftrightarrow> p \<noteq> q \<and> 0 < q \<and> reflp RP \<and> transp RP \<and> reflp RC \<and> transp RC \<and>
     (\<forall>a b. GP a b \<longrightarrow> RC a b) \<and> (\<forall>a b. GC a b \<longrightarrow> RP a b) \<and> (\<forall>a. QC () a \<longrightarrow> p_fds a q = Map.empty)"

definition then_wait :: "nat \<Rightarrow> (int \<times> int \<Rightarrow> unit prog) \<Rightarrow> unit prog \<Rightarrow> unit prog" where
  "then_wait q after m = bindP m (\<lambda>_. Waitpid (int q) after)"

lemma then_wait_simps [simp]:
  "then_wait q after (Return x) = Waitpid (int q) after"
  "then_wait q after (Syscall s k) = Syscall s (\<lambda>r. then_wait q after (k r))"
  by (simp_all add: then_wait_def)

lemma then_wait_form: "rg E p R G m Q a \<Longrightarrow> waits_or_calls q (then_wait q after m)"
  by (cases m) (simp_all add: waits_or_calls_def)

lemma fds_same: "p_fds a q = Map.empty \<Longrightarrow> a\<lparr>p_fds := (p_fds a)(q := Map.empty)\<rparr> = a"
  by (cases a) (simp add: fun_upd_idem)

context posix_kernel
begin

lemma parent_call:
  assumes m: "rg E p RP GP (Syscall s k) QP a" and w: "Rel w a" and fit: "rg_fit p q RP GP RC GC QC"
  obtains r w' b where "k_sys K p s w = (r, w')" "rg E p RP GP (k r) QP b" "Rel w' b" "RC a b"
proof -
  have "RP a a" using fit by (simp add: rg_fit_def reflpD)
  with m have pre: "px_pre E p s a" and nxt: "\<And>r b. px E p s a r b \<Longrightarrow> GP a b \<and> rg E p RP GP (k r) QP b" by auto
  obtain r w' b where "k_sys K p s w = (r, w')" "px E p s a r b" "Rel w' b" by (rule sysE [OF w pre])
  with nxt that fit show thesis unfolding rg_fit_def by blast
qed

lemma child_done:
  assumes "rg E p RP GP m QP a" and "Rel w a" and "\<forall>b. RC a b \<longrightarrow> QC () b" and fit: "rg_fit p q RP GP RC GC QC"
    and after: "\<And>b w. QP () b \<Longrightarrow> QC () b \<Longrightarrow> Rel w b \<Longrightarrow> inevitably (kstep K) F (alone p (after (int q, 0)) (k_reap K q w))"
  shows "inevitably (kstep K) F (both p (then_wait q after m) q (Done 0) w)"
  using assms(1-3)
proof (induction m arbitrary: a w)
  case (Return x)
  have pq: "p \<noteq> q" "0 < q" "RP a a" "RC a a" using fit by (simp_all add: rg_fit_def reflpD)
  then have "QP () a" "QC () a" using Return.prems by auto
  from after [OF this Return.prems(2)] show ?case
    using kstep_both(3) [where K = K, OF pq(1,2) then_wait_form [OF Return.prems(1)]] by - (rule inev_later, auto)
next
  case (Syscall s k)
  have pq: "p \<noteq> q" "0 < q" "transp RC" using fit by (simp_all add: rg_fit_def)
  obtain r w' b where 1: "k_sys K p s w = (r, w')" "rg E p RP GP (k r) QP b" "Rel w' b" "RC a b"
    by (rule parent_call [OF Syscall.prems(1,2) fit])
  have "\<forall>c. RC b c \<longrightarrow> QC () c" using Syscall.prems(3) 1(4) transpD [OF pq(3)] by blast
  from Syscall.IH [OF rangeI 1(2,3) this] show ?case
    using kstep_both(3) [where K = K, OF pq(1,2) then_wait_form [OF Syscall.prems(1)]] 1(1) by - (rule inev_later, auto)
qed simp_all

lemma child_exits:
  assumes "rg E p RP GP m QP a" and "Rel w a" and "\<forall>b. RC a b \<longrightarrow> QC () b" and fit: "rg_fit p q RP GP RC GC QC"
    and after: "\<And>b w. QP () b \<Longrightarrow> QC () b \<Longrightarrow> Rel w b \<Longrightarrow> inevitably (kstep K) F (alone p (after (int q, 0)) (k_reap K q w))"
  shows "inevitably (kstep K) F (both p (then_wait q after m) q (Run (Exit_with 0)) w)"
  using assms(1-3)
proof (induction m arbitrary: a w)
  case (Return x)
  have pq: "p \<noteq> q" "0 < q" "RC a a" using fit by (simp_all add: rg_fit_def reflpD)
  have "Rel (k_exit K q w) a" using exit_law [OF Return.prems(2), of q] fds_same [of a q] Return.prems(3) pq(3) fit
    unfolding rg_fit_def by auto
  then have "inevitably (kstep K) F (both p (then_wait q after (Return x)) q (Done 0) (k_exit K q w))"
    by (rule child_done [OF Return.prems(1) _ Return.prems(3) fit]) (rule after)
  then show ?case
    using kstep_both(2) [where K = K, OF pq(1,2) then_wait_form [OF Return.prems(1)]] by - (rule inev_later, auto)
next
  case (Syscall s k)
  have pq: "p \<noteq> q" "0 < q" "transp RC" "RC a a" using fit by (simp_all add: rg_fit_def reflpD)
  obtain r w' b where 1: "k_sys K p s w = (r, w')" "rg E p RP GP (k r) QP b" "Rel w' b" "RC a b"
    by (rule parent_call [OF Syscall.prems(1,2) fit])
  have "\<forall>c. RC b c \<longrightarrow> QC () c" using Syscall.prems(3) 1(4) transpD [OF pq(3)] by blast
  note go = Syscall.IH [OF rangeI 1(2,3) this]
  have "Rel (k_exit K q w) a" using exit_law [OF Syscall.prems(2), of q] fds_same [of a q] Syscall.prems(3) pq(4) fit
    unfolding rg_fit_def by auto
  then have "inevitably (kstep K) F (both p (then_wait q after (Syscall s k)) q (Done 0) (k_exit K q w))"
    by (rule child_done [OF Syscall.prems(1) _ Syscall.prems(3) fit]) (rule after)
  with go show ?case
    using kstep_both(2) [where K = K, OF pq(1,2) then_wait_form [OF Syscall.prems(1)]] 1(1) by - (rule inev_later, auto)
qed simp_all

lemma inev_par:
  assumes "rg E p RP GP m QP a" and "rg E q RC GC h QC a" and "Rel w a" and fit: "rg_fit p q RP GP RC GC QC"
    and after: "\<And>b w. QP () b \<Longrightarrow> QC () b \<Longrightarrow> Rel w b \<Longrightarrow> inevitably (kstep K) F (alone p (after (int q, 0)) (k_reap K q w))"
  shows "inevitably (kstep K) F (both p (then_wait q after m) q (Run (bindP h (\<lambda>_. Exit_with 0))) w)"
  using assms(1-3)
proof (induction m arbitrary: h a w)
  case (Return x)
  have pq: "p \<noteq> q" "0 < q" using fit by (simp_all add: rg_fit_def)
  from Return.prems(2,1,3) show ?case
  proof (induction h arbitrary: a w)
    case (Return y)
    have "\<forall>b. RC a b \<longrightarrow> QC () b" using Return.prems(1) by simp
    then show ?case unfolding bindP.simps by (rule child_exits [OF Return.prems(2,3) _ fit]) (rule after)
  next
    case (Syscall s k)
    obtain r w' b where 1: "k_sys K q s w = (r, w')" "rg E q RC GC (k r) QC b" "Rel w' b" "RP a b"
    proof -
      have "RC a a" using fit by (simp add: rg_fit_def reflpD)
      with Syscall.prems(1) have pre: "px_pre E q s a" and nxt: "\<And>r b. px E q s a r b \<Longrightarrow> GC a b \<and> rg E q RC GC (k r) QC b" by auto
      obtain r w' b where "k_sys K q s w = (r, w')" "px E q s a r b" "Rel w' b" by (rule sysE [OF Syscall.prems(3) pre])
      with nxt that fit show thesis unfolding rg_fit_def by blast
    qed
    have "rg E p RP GP (Return x) QP b" by (rule rg_stable [OF Syscall.prems(2) _ 1(4)]) (use fit in \<open>simp add: rg_fit_def\<close>)
    from Syscall.IH [OF rangeI 1(2) this 1(3)] show ?case
      using kstep_both(1) [where K = K, OF pq then_wait_form [OF Syscall.prems(2)]] 1(1) by - (rule inev_later, auto)
  qed simp_all
next
  case (Syscall s k)
  note outer = Syscall.IH [OF rangeI]
  have pq: "p \<noteq> q" "0 < q" "transp RC" "transp RP" using fit by (simp_all add: rg_fit_def)
  from Syscall.prems(2,1,3) show ?case
  proof (induction h arbitrary: a w)
    case (Return y)
    have "\<forall>b. RC a b \<longrightarrow> QC () b" using Return.prems(1) by simp
    then show ?case unfolding bindP.simps by (rule child_exits [OF Return.prems(2,3) _ fit]) (rule after)
  next
    case (Syscall s' k')
    obtain r w' b where 1: "k_sys K p s w = (r, w')" "rg E p RP GP (k r) QP b" "Rel w' b" "RC a b"
      by (rule parent_call [OF Syscall.prems(2,3) fit])
    have go1: "inevitably (kstep K) F (both p (then_wait q after (k r)) q (Run (bindP (Syscall s' k') (\<lambda>_. Exit_with 0))) w')"
      by (rule outer [OF 1(2) rg_stable [OF Syscall.prems(1) pq(3) 1(4)] 1(3)])
    obtain r' w'' c where 2: "k_sys K q s' w = (r', w'')" "rg E q RC GC (k' r') QC c" "Rel w'' c" "RP a c"
    proof -
      have "RC a a" using fit by (simp add: rg_fit_def reflpD)
      with Syscall.prems(1) have pre: "px_pre E q s' a" and nxt: "\<And>r b. px E q s' a r b \<Longrightarrow> GC a b \<and> rg E q RC GC (k' r) QC b" by auto
      obtain r w' b where "k_sys K q s' w = (r, w')" "px E q s' a r b" "Rel w' b" by (rule sysE [OF Syscall.prems(3) pre])
      with nxt that fit show thesis unfolding rg_fit_def by blast
    qed
    have go2: "inevitably (kstep K) F (both p (then_wait q after (Syscall s k)) q (Run (bindP (k' r') (\<lambda>_. Exit_with 0))) w'')"
      by (rule Syscall.IH [OF rangeI 2(2) rg_stable [OF Syscall.prems(2) pq(4) 2(4)] 2(3)])
    show ?case using kstep_both(1) [where K = K, OF pq(1,2) then_wait_form [OF Syscall.prems(2)]] 1(1) 2(1) go1 go2
      by - (rule inev_later, auto)
  qed simp_all
qed simp_all

end

end
