(* ===== verification/Test_Programs.thy ===== *)
theory Test_Programs
  imports Posix
begin

text \<open>
  The file-system testers \<^verbatim>\<open>test-lab2-part1-g.c\<close>, \<^verbatim>\<open>test-lab2-part2-a.c\<close>, \<^verbatim>\<open>test-lab2-part2-b.c\<close>,
  \<^verbatim>\<open>test-lab-3-a.c\<close> and \<^verbatim>\<open>test-lab-3-b.c\<close> as programs over the system calls. The five files share
  their helper functions up to the name of the program in the messages, which is a parameter here.
  A message is the text up to the name of the file; \<^verbatim>\<open>strerror\<close> is left out.
\<close>

section \<open>The C library\<close>

text \<open>A failed check: a message and \<^verbatim>\<open>exit(1)\<close>.\<close>

definition fail :: "string \<Rightarrow> string \<Rightarrow> 'a prog" where
  "fail prog msg = Syscall (Sys_eprintf (prog @ '': '' @ msg)) (\<lambda>_. Exit_with 1)"

text \<open>\<^verbatim>\<open>sprintf\<close> into a buffer of 512 bytes.\<close>

definition sprintf512 :: "string \<Rightarrow> (string \<Rightarrow> 'a prog) \<Rightarrow> 'a prog" where
  "sprintf512 s k = (if length s < 512 then k s else Crash)"

text \<open>The bytes of an \<^verbatim>\<open>int\<close> in memory, and the value read back from four bytes.\<close>

definition int_bytes :: "int \<Rightarrow> string" where
  "int_bytes i = map (\<lambda>k. char_of (nat (i div 256 ^ k mod 256))) [0..<4]"

definition bytes_int :: "string \<Rightarrow> int" where
  "bytes_int s = (let v = foldr (\<lambda>c v. of_char c + 256 * v) s 0 in if v < 2 ^ 31 then v else v - 2 ^ 32)"

fun strncmp :: "string \<Rightarrow> string \<Rightarrow> nat \<Rightarrow> int" where
  "strncmp a b 0 = 0"
| "strncmp [] [] (Suc n) = 0"
| "strncmp [] (y # ys) (Suc n) = (if y = CHR 0x00 then 0 else - 1)"
| "strncmp (x # xs) [] (Suc n) = (if x = CHR 0x00 then 0 else 1)"
| "strncmp (x # xs) (y # ys) (Suc n) =
     (if x \<noteq> y then of_char x - of_char y else if x = CHR 0x00 then 0 else strncmp xs ys n)"

fun strcmp :: "string \<Rightarrow> string \<Rightarrow> int" where
  "strcmp [] [] = 0"
| "strcmp [] (y # ys) = - 1"
| "strcmp (x # xs) [] = 1"
| "strcmp (x # xs) (y # ys) = (if x \<noteq> y then of_char x - of_char y else strcmp xs ys)"

text \<open>\<^verbatim>\<open>qsort\<close> with a comparison function.\<close>

fun insert_by :: "('a \<Rightarrow> 'a \<Rightarrow> int) \<Rightarrow> 'a \<Rightarrow> 'a list \<Rightarrow> 'a list" where
  "insert_by cmp x [] = [x]"
| "insert_by cmp x (y # ys) = (if cmp x y \<le> 0 then x # y # ys else y # insert_by cmp x ys)"

definition qsort :: "('a \<Rightarrow> 'a \<Rightarrow> int) \<Rightarrow> 'a list \<Rightarrow> 'a list" where
  "qsort cmp xs = foldr (insert_by cmp) xs []"

section \<open>Files\<close>

definition create1 :: "string \<Rightarrow> string \<Rightarrow> string \<Rightarrow> string \<Rightarrow> unit prog" where
  "create1 prog d f content =
     Syscall (Sys_sleep 1) (\<lambda>_.
     sprintf512 (d @ ''/'' @ f) (\<lambda>n.
     Syscall (Sys_creat n) (\<lambda>r. let fd = r_val r in
     if fd < 0 then fail prog (''create('' @ n @ '')'')
     else Syscall (Sys_write fd content) (\<lambda>r.
     if r_val r \<noteq> int (length content) then fail prog (''write('' @ n @ '')'')
     else Syscall (Sys_close fd) (\<lambda>r.
     if r_val r \<noteq> 0 then fail prog (''close('' @ n @ '')'')
     else Return ())))))"

text \<open>The comparison stops after as many bytes as the path has, not the content.\<close>

definition check1 :: "nat \<Rightarrow> string \<Rightarrow> string \<Rightarrow> string \<Rightarrow> string \<Rightarrow> unit prog" where
  "check1 bufsize prog d f content =
     sprintf512 (d @ ''/'' @ f) (\<lambda>n.
     Syscall (Sys_open n []) (\<lambda>r. let fd = r_val r in
     if fd < 0 then fail prog (''open('' @ n @ '')'')
     else Syscall (Sys_read fd (bufsize - 1)) (\<lambda>r.
     if r_val r \<noteq> int (length content) then fail prog (''read('' @ n @ '') returned too little'')
     else let buf = r_data r in Syscall (Sys_close fd) (\<lambda>_.
     if strncmp buf content (length n) \<noteq> 0 then fail prog (''read('' @ n @ '') got'')
     else Return ()))))"

definition unlink1 :: "string \<Rightarrow> string \<Rightarrow> string \<Rightarrow> unit prog" where
  "unlink1 prog d f =
     Syscall (Sys_sleep 1) (\<lambda>_.
     sprintf512 (d @ ''/'' @ f) (\<lambda>n.
     Syscall (Sys_unlink n) (\<lambda>r.
     if r_val r \<noteq> 0 then fail prog (''unlink('' @ n @ '')'') else Return ())))"

definition checknot :: "string \<Rightarrow> string \<Rightarrow> string \<Rightarrow> unit prog" where
  "checknot prog d f =
     sprintf512 (d @ ''/'' @ f) (\<lambda>n.
     Syscall (Sys_open n []) (\<lambda>r.
     if r_val r \<ge> 0 then fail prog (''open('' @ n @ '') succeeded for deleted file'') else Return ()))"

definition append1 :: "string \<Rightarrow> string \<Rightarrow> string \<Rightarrow> string \<Rightarrow> unit prog" where
  "append1 prog d f content =
     Syscall (Sys_sleep 1) (\<lambda>_.
     sprintf512 (d @ ''/'' @ f) (\<lambda>n.
     Syscall (Sys_open n [O_WRONLY, O_APPEND]) (\<lambda>r. let fd = r_val r in
     if fd < 0 then fail prog (''append open('' @ n @ '')'')
     else Syscall (Sys_write fd content) (\<lambda>r.
     if r_val r \<noteq> int (length content) then fail prog (''append write('' @ n @ '')'')
     else Syscall (Sys_close fd) (\<lambda>r.
     if r_val r \<noteq> 0 then fail prog (''append close('' @ n @ '')'')
     else Return ())))))"

text \<open>The loops run \<open>n\<close> times; \<open>i\<close> counts down what is left of \<^verbatim>\<open>for (i = 0; i < n; i++)\<close>.\<close>

primrec write1_loop :: "string \<Rightarrow> string \<Rightarrow> int \<Rightarrow> char \<Rightarrow> nat \<Rightarrow> unit prog" where
  "write1_loop prog name fd c 0 = Return ()"
| "write1_loop prog name fd c (Suc i) =
     Syscall (Sys_write fd [c]) (\<lambda>r.
     if r_val r \<noteq> 1 then fail prog (''write('' @ name @ '')'')
     else Syscall (Sys_fsync fd) (\<lambda>r.
     if r_val r \<noteq> 0 then fail prog (''fsync('' @ name @ '')'')
     else write1_loop prog name fd c i))"

definition write1 :: "string \<Rightarrow> string \<Rightarrow> string \<Rightarrow> nat \<Rightarrow> nat \<Rightarrow> char \<Rightarrow> unit prog" where
  "write1 prog d f start n c =
     Syscall (Sys_sleep 1) (\<lambda>_.
     sprintf512 (d @ ''/'' @ f) (\<lambda>name.
     bindP (Syscall (Sys_open name [O_WRONLY, O_CREAT]) (\<lambda>r.
            if r_val r < 0 \<and> r_errno r = EEXIST
            then Syscall (Sys_open name [O_WRONLY]) (\<lambda>r. Return (r_val r))
            else Return (r_val r))) (\<lambda>fd.
     if fd < 0 then fail prog (''open('' @ name @ '')'')
     else Syscall (Sys_lseek fd (int start)) (\<lambda>r.
     if r_val r \<noteq> int start then fail prog (''lseek('' @ name @ '')'')
     else bindP (write1_loop prog name fd c n) (\<lambda>_.
     Syscall (Sys_close fd) (\<lambda>r.
     if r_val r \<noteq> 0 then fail prog (''close('' @ name @ '')'') else Return ()))))))"

primrec checkread_loop :: "string \<Rightarrow> string \<Rightarrow> int \<Rightarrow> char \<Rightarrow> nat \<Rightarrow> unit prog" where
  "checkread_loop prog name fd c 0 = Return ()"
| "checkread_loop prog name fd c (Suc i) =
     Syscall (Sys_read fd 1) (\<lambda>r.
     if r_val r \<noteq> 1 then fail prog (''read('' @ name @ '')'')
     else if r_data r \<noteq> [c] then fail prog ''checkread off''
     else checkread_loop prog name fd c i)"

definition checkread :: "string \<Rightarrow> string \<Rightarrow> string \<Rightarrow> nat \<Rightarrow> nat \<Rightarrow> char \<Rightarrow> unit prog" where
  "checkread prog d f start n c =
     Syscall (Sys_sleep 1) (\<lambda>_.
     sprintf512 (d @ ''/'' @ f) (\<lambda>name.
     Syscall (Sys_open name []) (\<lambda>r. let fd = r_val r in
     if fd < 0 then fail prog (''open('' @ name @ '')'')
     else Syscall (Sys_lseek fd (int start)) (\<lambda>r.
     if r_val r \<noteq> int start then fail prog (''lseek('' @ name @ '')'')
     else bindP (checkread_loop prog name fd c n) (\<lambda>_.
     Syscall (Sys_close fd) (\<lambda>_. Return ()))))))"

section \<open>Many files\<close>

text \<open>The loops over \<open>i\<close> are recursions over the list of its values.\<close>

definition numbered :: "string \<Rightarrow> nat \<Rightarrow> string" where
  "numbered prefix i = prefix @ ''-'' @ decimal i"

primrec createn_loop :: "string \<Rightarrow> string \<Rightarrow> string \<Rightarrow> bool \<Rightarrow> nat list \<Rightarrow> unit prog" where
  "createn_loop prog d prefix possible_dup [] = Return ()"
| "createn_loop prog d prefix possible_dup (i # is) =
     sprintf512 (d @ ''/'' @ numbered prefix i) (\<lambda>n.
     Syscall (Sys_creat n) (\<lambda>r. let fd = r_val r in
     if fd < 0 \<and> possible_dup \<and> r_errno r = EEXIST then createn_loop prog d prefix possible_dup is
     else if fd < 0 then fail prog (''create('' @ n @ '')'')
     else Syscall (Sys_write fd (int_bytes (int i))) (\<lambda>r.
     if r_val r \<noteq> 4 then fail prog (''write('' @ n @ '')'')
     else Syscall (Sys_close fd) (\<lambda>r.
     if r_val r \<noteq> 0 then fail prog (''close('' @ n @ '')'')
     else createn_loop prog d prefix possible_dup is))))"

definition createn :: "string \<Rightarrow> string \<Rightarrow> string \<Rightarrow> nat \<Rightarrow> bool \<Rightarrow> unit prog" where
  "createn prog d prefix nf possible_dup =
     Syscall (Sys_sleep 1) (\<lambda>_. createn_loop prog d prefix possible_dup [0..<nf])"

primrec checkn_loop :: "string \<Rightarrow> string \<Rightarrow> string \<Rightarrow> nat list \<Rightarrow> unit prog" where
  "checkn_loop prog d prefix [] = Return ()"
| "checkn_loop prog d prefix (i # is) =
     sprintf512 (d @ ''/'' @ numbered prefix i) (\<lambda>n.
     Syscall (Sys_open n []) (\<lambda>r. let fd = r_val r in
     if fd < 0 then fail prog (''open('' @ n @ '')'')
     else Syscall (Sys_read fd 4) (\<lambda>r.
     if r_val r \<noteq> 4 then fail prog (''read('' @ n @ '') returned too little'')
     else if bytes_int (r_data r) \<noteq> int i then fail prog (''checkn '' @ n)
     else Syscall (Sys_close fd) (\<lambda>_. checkn_loop prog d prefix is))))"

definition checkn :: "string \<Rightarrow> string \<Rightarrow> string \<Rightarrow> nat \<Rightarrow> unit prog" where
  "checkn prog d prefix nf = checkn_loop prog d prefix [0..<nf]"

primrec unlinkn_loop :: "string \<Rightarrow> string \<Rightarrow> string \<Rightarrow> nat list \<Rightarrow> unit prog" where
  "unlinkn_loop prog d prefix [] = Return ()"
| "unlinkn_loop prog d prefix (i # is) =
     sprintf512 (d @ ''/'' @ numbered prefix i) (\<lambda>n.
     Syscall (Sys_unlink n) (\<lambda>r.
     if r_val r \<noteq> 0 then fail prog (''unlink('' @ n @ '')'') else unlinkn_loop prog d prefix is))"

definition unlinkn :: "string \<Rightarrow> string \<Rightarrow> string \<Rightarrow> nat \<Rightarrow> unit prog" where
  "unlinkn prog d prefix nf = Syscall (Sys_sleep 1) (\<lambda>_. unlinkn_loop prog d prefix [0..<nf])"

section \<open>Directories and children\<close>

definition compar :: "string \<Rightarrow> string \<Rightarrow> int" where
  "compar a b = strcmp a b"

text \<open>
  The loop over \<^verbatim>\<open>readdir\<close>, with the array \<^verbatim>\<open>names[1000]\<close>: after the warning the loop goes on and
  writes past its end. \<^verbatim>\<open>closedir\<close> and \<^verbatim>\<open>free\<close> only release memory.
\<close>

fun dir_names :: "string \<Rightarrow> string list \<Rightarrow> string list \<Rightarrow> (string list \<Rightarrow> unit prog) \<Rightarrow> unit prog" where
  "dir_names d [] names k = k names"
| "dir_names d (e # es) names k =
     (if \<not> dotted e then
        if length names \<ge> 1000 then Syscall (Sys_eprintf (''warning: too many files in '' @ d)) (\<lambda>_. Crash)
        else dir_names d es (names @ [e]) k
      else dir_names d es names k)"

fun adjacent_dup :: "string list \<Rightarrow> bool" where
  "adjacent_dup (a # b # xs) \<longleftrightarrow> strcmp a b = 0 \<or> adjacent_dup (b # xs)"
| "adjacent_dup xs \<longleftrightarrow> False"

definition dircheck :: "string \<Rightarrow> string \<Rightarrow> nat \<Rightarrow> unit prog" where
  "dircheck prog d nf =
     Syscall (Sys_opendir d) (\<lambda>r.
     case r_names r of None \<Rightarrow> fail prog (''opendir('' @ d @ '')'')
     | Some es \<Rightarrow> dir_names d es [] (\<lambda>names.
         if nf \<noteq> length names then fail prog (''wanted '' @ decimal nf @ '' dir entries, got '' @ decimal (length names))
         else if adjacent_dup (qsort compar names) then fail prog ''duplicate directory entry''
         else Return ()))"

text \<open>A child that called \<^verbatim>\<open>exit\<close> satisfies \<^verbatim>\<open>WIFEXITED\<close>.\<close>

definition reap :: "string \<Rightarrow> int \<Rightarrow> unit prog" where
  "reap prog pid =
     Waitpid pid (\<lambda>(wpid, status).
     if wpid < 0 then Syscall (Sys_eprintf ''waitpid'') (\<lambda>_. Exit_with 1)
     else if wpid \<noteq> pid then Syscall (Sys_eprintf (''unexpected pid reaped'')) (\<lambda>_. Exit_with 1)
     else if status \<noteq> 0 then Syscall (Sys_eprintf ''child exited unhappily'') (\<lambda>_. Exit_with 1)
     else Return ())"

text \<open>
  \<^verbatim>\<open>pid = fork(); if(pid < 0){ ... } if(pid == 0){ child; exit(0); } parent\<close>, where the parent knows the
  child's number.
\<close>

definition fork_test :: "string \<Rightarrow> unit prog \<Rightarrow> (int \<Rightarrow> unit prog) \<Rightarrow> unit prog" where
  "fork_test prog child parent =
     Fork (\<lambda>pid.
     if pid < 0 then Syscall (Sys_eprintf (prog @ '': fork'')) (\<lambda>_. Exit_with 1)
     else if pid = 0 then bindP child (\<lambda>_. Exit_with 0)
     else parent pid)"

abbreviation printf :: "string \<Rightarrow> unit prog" where
  "printf s \<equiv> Syscall (Sys_printf s) (\<lambda>_. Return ())"

abbreviation sleep :: "nat \<Rightarrow> unit prog" where
  "sleep n \<equiv> Syscall (Sys_sleep n) (\<lambda>_. Return ())"

section \<open>The tests of one directory seen through two mount points\<close>

definition big :: string where
  "big = replicate 20000 CHR ''x''"

definition huge :: string where
  "huge = replicate 65535 CHR ''0''"

definition test_create_read :: "string \<Rightarrow> string \<Rightarrow> string \<Rightarrow> unit prog list" where
  "test_create_read prog d1 d2 =
     [printf ''Create then read: '',
      create1 prog d1 ''f1'' ''aaa'',
      check1 21000 prog d2 ''f1'' ''aaa'',
      check1 21000 prog d1 ''f1'' ''aaa'',
      printf ''OK\<newline>'']"

definition test_unlink :: "string \<Rightarrow> string \<Rightarrow> string \<Rightarrow> unit prog list" where
  "test_unlink prog d1 d2 =
     [printf ''Unlink: '',
      unlink1 prog d2 ''f1'',
      create1 prog d1 ''fx1'' ''fxx'',
      unlink1 prog d1 ''fx1'',
      checknot prog d1 ''f1'',
      checknot prog d2 ''f1'',
      create1 prog d1 ''f2'' ''222'',
      unlink1 prog d2 ''f2'',
      checknot prog d1 ''f2'',
      checknot prog d2 ''f2'',
      create1 prog d1 ''f3'' ''333'',
      check1 21000 prog d2 ''f3'' ''333'',
      check1 21000 prog d1 ''f3'' ''333'',
      unlink1 prog d1 ''f3'',
      create1 prog d2 ''fx2'' ''22'',
      unlink1 prog d2 ''fx2'',
      checknot prog d2 ''f3'',
      checknot prog d1 ''f3'',
      printf ''OK\<newline>'']"

definition test_append :: "string \<Rightarrow> string \<Rightarrow> string \<Rightarrow> unit prog list" where
  "test_append prog d1 d2 =
     [printf ''Append: '',
      create1 prog d2 ''f1'' ''aaa'',
      append1 prog d1 ''f1'' ''bbb'',
      append1 prog d2 ''f1'' ''ccc'',
      check1 21000 prog d1 ''f1'' ''aaabbbccc'',
      check1 21000 prog d2 ''f1'' ''aaabbbccc'',
      printf ''OK\<newline>'']"

definition test_readdir :: "string \<Rightarrow> string \<Rightarrow> string \<Rightarrow> unit prog list" where
  "test_readdir prog d1 d2 =
     [printf ''Readdir: '',
      dircheck prog d1 1,
      dircheck prog d2 1,
      unlink1 prog d1 ''f1'',
      dircheck prog d1 0,
      dircheck prog d2 0,
      create1 prog d2 ''f2'' ''aaa'',
      create1 prog d1 ''f3'' ''aaa'',
      dircheck prog d1 2,
      dircheck prog d2 2,
      unlink1 prog d2 ''f2'',
      dircheck prog d2 1,
      dircheck prog d1 1,
      unlink1 prog d2 ''f3'',
      dircheck prog d1 0,
      dircheck prog d2 0,
      printf ''OK\<newline>'']"

definition test_many_creates :: "string \<Rightarrow> string \<Rightarrow> string \<Rightarrow> unit prog list" where
  "test_many_creates prog d1 d2 =
     [printf ''Many sequential creates: '',
      createn prog d1 ''aa'' 10 False,
      createn prog d2 ''bb'' 10 False,
      dircheck prog d2 20,
      checkn prog d2 ''bb'' 10,
      checkn prog d2 ''aa'' 10,
      checkn prog d1 ''aa'' 10,
      checkn prog d1 ''bb'' 10,
      unlinkn prog d1 ''aa'' 10,
      unlinkn prog d2 ''bb'' 10,
      printf ''OK\<newline>'']"

definition test_write_big :: "string \<Rightarrow> string \<Rightarrow> string \<Rightarrow> unit prog list" where
  "test_write_big prog d1 d2 =
     [printf ''Write 20000 bytes: '',
      create1 prog d1 ''bf'' big,
      check1 21000 prog d1 ''bf'' big,
      check1 21000 prog d2 ''bf'' big,
      unlink1 prog d1 ''bf'',
      printf ''OK\<newline>'']"

definition test_concurrent_creates :: "string \<Rightarrow> string \<Rightarrow> string \<Rightarrow> unit prog list" where
  "test_concurrent_creates prog d1 d2 =
     [printf ''Concurrent creates: '',
      fork_test prog (createn prog d2 ''xx'' 10 False) (\<lambda>pid. seqP
        [createn prog d1 ''yy'' 10 False,
         sleep 4,
         reap prog pid]),
      dircheck prog d1 20,
      checkn prog d1 ''xx'' 10,
      checkn prog d2 ''yy'' 10,
      unlinkn prog d1 ''xx'' 10,
      unlinkn prog d1 ''yy'' 10,
      printf ''OK\<newline>'']"

definition test_same_file :: "string \<Rightarrow> string \<Rightarrow> string \<Rightarrow> unit prog list" where
  "test_same_file prog d1 d2 =
     [printf ''Concurrent creates of the same file: '',
      fork_test prog (createn prog d2 ''zz'' 10 True) (\<lambda>pid. seqP
        [createn prog d1 ''zz'' 10 True,
         sleep 4,
         dircheck prog d1 10,
         reap prog pid]),
      checkn prog d1 ''zz'' 10,
      checkn prog d2 ''zz'' 10,
      unlinkn prog d1 ''zz'' 10,
      printf ''OK\<newline>'']"

definition test_create_delete :: "string \<Rightarrow> string \<Rightarrow> string \<Rightarrow> unit prog list" where
  "test_create_delete prog d1 d2 =
     [printf ''Concurrent create/delete: '',
      createn prog d1 ''x1'' 5 False,
      createn prog d2 ''x2'' 5 False,
      fork_test prog (seqP [unlinkn prog d2 ''x1'' 5, createn prog d1 ''x3'' 5 False]) (\<lambda>pid. seqP
        [createn prog d1 ''x4'' 5 False,
         reap prog pid]),
      unlinkn prog d2 ''x2'' 5,
      unlinkn prog d2 ''x4'' 5,
      unlinkn prog d2 ''x3'' 5,
      dircheck prog d1 0,
      printf ''OK\<newline>'']"

definition test_same_server :: "string \<Rightarrow> string \<Rightarrow> string \<Rightarrow> unit prog list" where
  "test_same_server prog d1 d2 =
     [printf ''Concurrent creates, same file, same server: '',
      fork_test prog (createn prog d1 ''zz'' 10 True) (\<lambda>pid. seqP
        [createn prog d1 ''zz'' 10 True,
         sleep 2,
         dircheck prog d1 10,
         reap prog pid]),
      checkn prog d1 ''zz'' 10,
      unlinkn prog d1 ''zz'' 10,
      printf ''OK\<newline>'']"

definition test_concurrent_writes :: "string \<Rightarrow> string \<Rightarrow> string \<Rightarrow> unit prog list" where
  "test_concurrent_writes prog d1 d2 =
     [printf ''Concurrent writes to different parts of same file: '',
      create1 prog d1 ''www'' huge,
      fork_test prog (write1 prog d2 ''www'' 10000 64 CHR ''2'') (\<lambda>pid. seqP
        [write1 prog d1 ''www'' 0 64 CHR ''1'',
         reap prog pid]),
      checkread prog d1 ''www'' 0 64 CHR ''1'',
      checkread prog d2 ''www'' 0 64 CHR ''1'',
      checkread prog d1 ''www'' 10000 64 CHR ''2'',
      checkread prog d2 ''www'' 10000 64 CHR ''2'',
      printf ''OK\<newline>'']"

text \<open>
  \<^verbatim>\<open>main\<close> of the testers: \<^verbatim>\<open>argv\<close> has the program and two directories; a directory named after the
  process is made below the first and must be visible below the second.
\<close>

definition usage :: "string \<Rightarrow> 'a prog" where
  "usage prog = Syscall (Sys_eprintf (''Usage: '' @ prog @ '' dir1 dir2'')) (\<lambda>_. Exit_with 1)"

definition one_directory :: "string \<Rightarrow> string list \<Rightarrow> (string \<times> string) prog" where
  "one_directory prog argv =
     (if length argv \<noteq> 3 then usage prog else
      Syscall Sys_getpid (\<lambda>r.
      sprintf512 (argv ! 1 @ ''/'' @ ''d'' @ decimal (nat (r_val r))) (\<lambda>d1.
      Syscall (Sys_mkdir d1) (\<lambda>r.
      if r_val r \<noteq> 0 then fail prog (''failed: mkdir('' @ d1 @ '')'') else
      Syscall Sys_getpid (\<lambda>r.
      sprintf512 (argv ! 2 @ ''/'' @ ''d'' @ decimal (nat (r_val r))) (\<lambda>d2.
      Syscall (Sys_access d2) (\<lambda>r.
      if r_val r \<noteq> 0 then fail prog (''failed: access('' @ d2 @ '') after mkdir '' @ d1)
      else Return (d1, d2))))))))"

definition part1_g_main :: "string list \<Rightarrow> unit prog" where
  "part1_g_main argv =
     (let prog = ''test-lab2-part1-g'' in
      bindP (one_directory prog argv) (\<lambda>(d1, d2).
      bindP (seqP (test_create_read prog d1 d2 @ test_unlink prog d1 d2 @ test_append prog d1 d2 @ test_readdir prog d1 d2 @
        test_many_creates prog d1 d2 @ test_write_big prog d1 d2 @
        [printf ''test-lab2-part1-g: Passed all tests.\<newline>''])) (\<lambda>_.
      Exit_with 0)))"

definition part2_a_main :: "string list \<Rightarrow> unit prog" where
  "part2_a_main argv =
     (let prog = ''test-lab2-part2-a'' in
      bindP (one_directory prog argv) (\<lambda>(d1, d2).
      bindP (seqP (test_concurrent_creates prog d1 d2 @ test_same_file prog d1 d2 @ test_create_delete prog d1 d2 @
        test_same_server prog d1 d2 @ test_concurrent_writes prog d1 d2)) (\<lambda>_.
      Exit_with 0)))"

definition lab3_a_main :: "string list \<Rightarrow> unit prog" where
  "lab3_a_main argv =
     (let prog = ''test-lab-5-a'' in
      bindP (one_directory prog argv) (\<lambda>(d1, d2).
      bindP (seqP (test_create_read prog d1 d2 @ test_unlink prog d1 d2 @ test_append prog d1 d2 @ test_readdir prog d1 d2 @
        test_many_creates prog d1 d2 @ test_write_big prog d1 d2 @
        test_concurrent_creates prog d1 d2 @ test_same_file prog d1 d2 @ test_create_delete prog d1 d2 @
        test_same_server prog d1 d2 @ test_concurrent_writes prog d1 d2 @
        [printf ''test-lab-5-a: Passed all tests.\<newline>''])) (\<lambda>_.
      Exit_with 0)))"

section \<open>The test of two directories\<close>

text \<open>\<open>n\<close> files are created and \<open>m\<close> of them removed in each directory.\<close>

definition two_directories :: "string \<Rightarrow> string list \<Rightarrow> (string \<times> string) prog" where
  "two_directories prog argv =
     (if length argv \<noteq> 3 then usage prog else
      Syscall Sys_getpid (\<lambda>r.
      sprintf512 (argv ! 1 @ ''/'' @ ''da'' @ decimal (nat (r_val r))) (\<lambda>d1.
      Syscall (Sys_mkdir d1) (\<lambda>r.
      if r_val r \<noteq> 0 then fail prog (''failed: mkdir('' @ d1 @ '')'') else
      Syscall Sys_getpid (\<lambda>r.
      sprintf512 (argv ! 2 @ ''/'' @ ''db'' @ decimal (nat (r_val r))) (\<lambda>d2.
      Syscall (Sys_mkdir d2) (\<lambda>r.
      if r_val r \<noteq> 0 then fail prog (''failed: mkdir('' @ d2 @ '')'') else
      Syscall Sys_getpid (\<lambda>r.
      sprintf512 (argv ! 2 @ ''/'' @ ''da'' @ decimal (nat (r_val r))) (\<lambda>dd.
      Syscall (Sys_access dd) (\<lambda>r.
      if r_val r \<noteq> 0 then fail prog (''failed: access('' @ dd @ '') after mkdir '' @ d1)
      else Return (d1, d2)))))))))))"

definition test_separate :: "string \<Rightarrow> nat \<Rightarrow> nat \<Rightarrow> string \<Rightarrow> string \<Rightarrow> unit prog list" where
  "test_separate prog n m d1 d2 =
     [printf ''Create/delete in separate directories: '',
      fork_test prog (seqP [createn prog d2 ''xx'' n False, unlinkn prog d2 ''xx'' m]) (\<lambda>pid. seqP
        [createn prog d1 ''yy'' n False,
         unlinkn prog d1 ''yy'' m,
         sleep 4,
         reap prog pid]),
      dircheck prog d1 1,
      dircheck prog d2 1,
      printf ''tests completed OK\<newline>'']"

definition part2_b_main :: "string list \<Rightarrow> unit prog" where
  "part2_b_main argv =
     (let prog = ''test-lab2-part2-b'' in
      bindP (two_directories prog argv) (\<lambda>(d1, d2). bindP (seqP (test_separate prog 10 9 d1 d2)) (\<lambda>_. Exit_with 0)))"

definition lab3_b_main :: "string list \<Rightarrow> unit prog" where
  "lab3_b_main argv =
     (let prog = ''test-lab-5-b'' in
      bindP (two_directories prog argv) (\<lambda>(d1, d2). bindP (seqP (test_separate prog 100 99 d1 d2)) (\<lambda>_. Exit_with 0)))"

end
