(* ===== verification/Test_Rules.thy ===== *)
theory Test_Rules
  imports Test_Programs
begin

text \<open>
  What each helper function of the testers does for a process that owns a set of files: no other
  process changes or opens them. The rules are stated for any rely and guarantee that respect the
  ownership, so they serve a process alone and two processes side by side.
\<close>

named_theorems tester_simps \<open>rules that evaluate paths and names of the testers\<close>

section \<open>Ownership\<close>

definition keeps :: "nat \<Rightarrow> (string \<times> string) set \<Rightarrow> (string \<times> string) set \<Rightarrow> prel" where
  "keeps p N U a b \<longleftrightarrow> p_fds b p = p_fds a p \<and> p_dirs b = p_dirs a \<and> p_pids b = p_pids a \<and> p_out b = p_out a \<and>
     (\<forall>x\<in>N. p_files b x = p_files a x) \<and> (dom (p_files a) \<subseteq> U \<longrightarrow> dom (p_files b) \<subseteq> U) \<and>
     (\<forall>q fd f. q \<noteq> p \<and> p_fds b q fd = Some f \<and> of_file f \<in> N \<longrightarrow> p_fds a q fd = Some f)"

definition touches :: "nat \<Rightarrow> (string \<times> string) set \<Rightarrow> (string \<times> string) set \<Rightarrow> prel" where
  "touches p N U a b \<longleftrightarrow> (dom (p_files a) \<subseteq> U \<longrightarrow> dom (p_files b) \<subseteq> U) \<and> (\<forall>q. q \<noteq> p \<longrightarrow> p_fds b q = p_fds a q) \<and> p_dirs b = p_dirs a \<and> p_pids b = p_pids a \<and>
     p_out b = p_out a \<and> (\<forall>x. x \<notin> N \<longrightarrow> p_files b x = p_files a x) \<and>
     (\<forall>fd f. p_fds b p fd = Some f \<longrightarrow> of_file f \<in> N \<or> p_fds a p fd = Some f)"

lemma keeps_refl: "reflp (keeps p N U)"
  by (simp add: reflp_def keeps_def)

lemma keeps_trans: "transp (keeps p N U)"
  unfolding transp_def keeps_def by metis

lemma touches_refl: "reflp (touches p N U)"
  by (simp add: reflp_def touches_def)

lemma touches_trans: "transp (touches p N U)"
  unfolding transp_def touches_def by metis

lemma touches_keeps:
  assumes "touches p N U a b" and "p \<noteq> q" and "N \<inter> M = {}"
  shows "keeps q M U a b"
proof -
  have "p_files b x = p_files a x" if "x \<in> M" for x using assms(1,3) that unfolding touches_def by blast
  moreover have "p_fds a r fd = Some f" if "p_fds b r fd = Some f" "of_file f \<in> M" for r fd f
    using assms(1,3) that unfolding touches_def by (metis disjoint_iff)
  ultimately show ?thesis using assms(1,2) unfolding keeps_def touches_def by metis
qed

text \<open>
  The part of the world that process \<open>p\<close> knows when it owns \<open>N\<close>: its descriptors, the content of its
  files, the directories, and that the files of all processes stay in \<open>U\<close>, which fits the limit.
\<close>

definition loc :: "posix_env \<Rightarrow> nat \<Rightarrow> (string \<times> string) set \<Rightarrow> (string \<times> string) set \<Rightarrow> string set \<Rightarrow>
    (int \<rightharpoonup> ofile) \<Rightarrow> (string \<times> string \<rightharpoonup> string) \<Rightarrow> pworld \<Rightarrow> bool" where
  "loc E p N U D F fs a \<longleftrightarrow> p_fds a p = F \<and> (\<forall>x\<in>N. p_files a x = fs x) \<and> dom (p_files a) \<subseteq> U \<and> finite U \<and>
     p_dirs a = D \<and> finite D \<and> card U + card D \<le> max_files E \<and>
     (\<forall>q fd f. q \<noteq> p \<and> p_fds a q fd = Some f \<longrightarrow> of_file f \<notin> N)"

definition owner :: "nat \<Rightarrow> (string \<times> string) set \<Rightarrow> (string \<times> string) set \<Rightarrow> prel \<Rightarrow> prel \<Rightarrow> bool" where
  "owner p N U R G \<longleftrightarrow> reflp R \<and> (\<forall>a b. R a b \<longrightarrow> keeps p N U a b) \<and> (\<forall>a b. touches p N U a b \<longrightarrow> G a b)"

lemma loc_keeps: "loc E p N U D F fs a \<Longrightarrow> keeps p N U a b \<Longrightarrow> loc E p N U D F fs b"
  unfolding loc_def keeps_def by (metis (no_types, lifting))

lemma loc_rely: "owner p N U R G \<Longrightarrow> loc E p N U D F fs a \<Longrightarrow> R a b \<Longrightarrow> loc E p N U D F fs b"
  unfolding owner_def using loc_keeps by blast

declare rg.simps [simp del]

lemma rg_loc_Return: "owner p N U R G \<Longrightarrow> loc E p N U D F fs a \<Longrightarrow> rg E p R G (Return ()) (\<lambda>_. loc E p N U D F fs) a"
  using loc_rely by (fastforce simp: rg.simps)

lemma loc_room: "loc E p N U D F fs a \<Longrightarrow> x \<in> U \<Longrightarrow> room E x a"
proof -
  assume l: "loc E p N U D F fs a" and x: "x \<in> U"
  then have sub: "insert x (dom (p_files a)) \<subseteq> U" and fin: "finite U" by (simp_all add: loc_def)
  then have "card (insert x (dom (p_files a))) \<le> card U" by (simp add: card_mono)
  moreover have "finite (dom (p_files a))" using sub fin by (meson finite_subset insert_subset)
  ultimately show ?thesis using l by (simp add: room_def loc_def)
qed

section \<open>One call\<close>

lemma loc_call:
  assumes own: "owner p N U R G" and l: "loc E p N U D F fs a"
    and pre: "\<And>b. loc E p N U D F fs b \<Longrightarrow> px_pre E p s b"
    and step: "\<And>b r c. loc E p N U D F fs b \<Longrightarrow> px E p s b r c \<Longrightarrow> touches p N U b c \<and> rg E p R G (k r) Q c"
  shows "rg E p R G (Syscall s k) Q a"
  using loc_rely [OF own l] pre step own unfolding owner_def by (simp add: rg.simps) blast

lemma loc_set_fd: "loc E p N U D F fs a \<Longrightarrow> loc E p N U D (F(fd := f)) fs (set_fd p fd f a)"
  by (auto simp: loc_def set_fd_def)

lemma loc_set_file: "loc E p N U D F fs a \<Longrightarrow> x \<in> N \<Longrightarrow> x \<in> U \<Longrightarrow> loc E p N U D F (fs(x := c)) (set_file x c a)"
  unfolding loc_def set_file_def by (auto split: if_splits)

lemma touches_sets:
  "x \<in> N \<Longrightarrow> x \<in> U \<Longrightarrow> touches p N U a (set_file x c a)"
  "of_file f \<in> N \<Longrightarrow> touches p N U a (set_fd p fd (Some f) a)"
  "touches p N U a (set_fd p fd None a)"
  by (auto simp: touches_def set_fd_def set_file_def split: if_splits)

lemma touches_both:
  "x \<in> N \<Longrightarrow> x \<in> U \<Longrightarrow> of_file f \<in> N \<Longrightarrow> touches p N U a (set_fd p fd (Some f) (set_file x c a))"
  using touches_sets transpD [OF touches_trans] by metis

lemma rg_sleep:
  assumes "owner p N U R G" and "loc E p N U D F fs a"
    and "\<And>r b. loc E p N U D F fs b \<Longrightarrow> rg E p R G (k r) Q b"
  shows "rg E p R G (Syscall (Sys_sleep n) k) Q a"
  by (rule loc_call [OF assms(1,2)]) (use assms(3) reflpD [OF touches_refl] in auto)

lemma rg_creat:
  assumes own: "owner p N U R G" and l: "loc E p N U D F fs a" and x: "file_of E path = Some x" "x \<in> N" "x \<in> U"
    and d: "fst x \<in> D" "name_ok E (snd x)" and new: "fs x = None"
    and k: "\<And>r b. 0 \<le> r_val r \<Longrightarrow> F (r_val r) = None \<Longrightarrow>
      loc E p N U D (F(r_val r \<mapsto> \<lparr>of_file = x, of_pos = 0, of_flags = [O_WRONLY]\<rparr>)) (fs(x \<mapsto> [])) b \<Longrightarrow> rg E p R G (k r) Q b"
  shows "rg E p R G (Syscall (Sys_creat path) k) Q a"
proof (rule loc_call [OF own l])
  show "px_pre E p (Sys_creat path) b" if "loc E p N U D F fs b" for b
    using that x d loc_room [OF that x(3)] by (simp add: path_ok_def loc_def)
  show "touches p N U b c \<and> rg E p R G (k r) Q c" if l: "loc E p N U D F fs b" and p: "px E p (Sys_creat path) b r c" for b r c
  proof -
    have "p_files b x = None" using l x(2) new by (simp add: loc_def)
    with p x have o1: "opens p x [O_WRONLY] (set_file x (Some []) b) r c" by (simp add: file_exists_def)
    then have "F (r_val r) = None" using l by (simp add: opens_def set_file_def loc_def)
    with o1 k [of r c] loc_set_fd [OF loc_set_file [OF l x(2,3)]] x(2,3) show ?thesis
      by (auto simp: opens_def intro!: touches_both)
  qed
qed

lemma rg_open:
  assumes own: "owner p N U R G" and l: "loc E p N U D F fs a" and x: "file_of E path = Some x" "x \<in> N"
    and d: "fst x \<in> D" "name_ok E (snd x)" and old: "fs x = Some s" and fl: "O_CREAT \<notin> set fl"
    and k: "\<And>r b. 0 \<le> r_val r \<Longrightarrow> F (r_val r) = None \<Longrightarrow>
      loc E p N U D (F(r_val r \<mapsto> \<lparr>of_file = x, of_pos = 0, of_flags = fl\<rparr>)) fs b \<Longrightarrow> rg E p R G (k r) Q b"
  shows "rg E p R G (Syscall (Sys_open path fl) k) Q a"
proof (rule loc_call [OF own l])
  show "px_pre E p (Sys_open path fl) b" if "loc E p N U D F fs b" for b
    using that x d fl by (simp add: path_ok_def loc_def)
  show "touches p N U b c \<and> rg E p R G (k r) Q c" if l: "loc E p N U D F fs b" and p: "px E p (Sys_open path fl) b r c" for b r c
  proof -
    have "p_files b x = Some s" using l x(2) old by (simp add: loc_def)
    with p x fl have o1: "opens p x fl b r c" by simp
    then have "F (r_val r) = None" using l by (simp add: opens_def loc_def)
    with o1 k [of r c] loc_set_fd [OF l] x(2) show ?thesis by (auto simp: opens_def intro!: touches_sets)
  qed
qed

lemma rg_open_none:
  assumes own: "owner p N U R G" and l: "loc E p N U D F fs a" and x: "file_of E path = Some x" "x \<in> N"
    and d: "fst x \<in> D" "name_ok E (snd x)" and none: "fs x = None" and fl: "O_CREAT \<notin> set fl"
    and k: "\<And>r b. r_val r < 0 \<Longrightarrow> loc E p N U D F fs b \<Longrightarrow> rg E p R G (k r) Q b"
  shows "rg E p R G (Syscall (Sys_open path fl) k) Q a"
proof (rule loc_call [OF own l])
  show "px_pre E p (Sys_open path fl) b" if "loc E p N U D F fs b" for b
    using that x d fl by (simp add: path_ok_def loc_def)
  show "touches p N U b c \<and> rg E p R G (k r) Q c" if l: "loc E p N U D F fs b" and p: "px E p (Sys_open path fl) b r c" for b r c
  proof -
    have "p_files b x = None" using l x(2) none by (simp add: loc_def)
    with p x fl have "r_val r < 0 \<and> c = b" by simp
    then show ?thesis using k [OF _ l] reflpD [OF touches_refl] by simp
  qed
qed

lemma rg_write:
  assumes own: "owner p N U R G" and l: "loc E p N U D F fs a" and f: "F fd = Some f" "O_WRONLY \<in> set (of_flags f)"
    and x: "of_file f \<in> N" "of_file f \<in> U" "fs (of_file f) = Some c"
    and n: "n = (if O_APPEND \<in> set (of_flags f) then length c else of_pos f)" "n \<le> length c" "n + length s \<le> max_size E"
    and ap: "O_APPEND \<in> set (of_flags f) \<Longrightarrow> c \<noteq> []"
    and k: "\<And>r b. r_val r = int (length s) \<Longrightarrow>
      loc E p N U D (F(fd \<mapsto> f\<lparr>of_pos := n + length s\<rparr>)) (fs(of_file f \<mapsto> splice c n s)) b \<Longrightarrow> rg E p R G (k r) Q b"
  shows "rg E p R G (Syscall (Sys_write fd s) k) Q a"
proof (rule loc_call [OF own l])
  have at: "p_fds b p fd = Some f" "p_files b (of_file f) = Some c" "fd_pos b f = n" if "loc E p N U D F fs b" for b
    using that f x n(1) by (simp_all add: loc_def fd_pos_def)
  show "px_pre E p (Sys_write fd s) b" if "loc E p N U D F fs b" for b using at [OF that] f(2) n ap by simp
  show "touches p N U b b' \<and> rg E p R G (k r) Q b'" if l: "loc E p N U D F fs b" and p: "px E p (Sys_write fd s) b r b'" for b r b'
    using p at [OF l] k [of r b'] loc_set_fd [OF loc_set_file [OF l x(1,2)]] x(1,2) by (auto intro!: touches_both)
qed

lemma rg_read:
  assumes own: "owner p N U R G" and l: "loc E p N U D F fs a" and f: "F fd = Some f" "O_WRONLY \<notin> set (of_flags f)"
    and x: "of_file f \<in> N" "fs (of_file f) = Some c" and n: "of_pos f + n \<le> max_size E"
    and k: "\<And>r b. r_data r = take n (drop (of_pos f) c) \<Longrightarrow> r_val r = int (length (take n (drop (of_pos f) c))) \<Longrightarrow>
      loc E p N U D (F(fd \<mapsto> f\<lparr>of_pos := of_pos f + length (take n (drop (of_pos f) c))\<rparr>)) fs b \<Longrightarrow> rg E p R G (k r) Q b"
  shows "rg E p R G (Syscall (Sys_read fd n) k) Q a"
proof (rule loc_call [OF own l])
  have at: "p_fds b p fd = Some f" "p_files b (of_file f) = Some c" if "loc E p N U D F fs b" for b
    using that f x by (simp_all add: loc_def)
  show "px_pre E p (Sys_read fd n) b" if "loc E p N U D F fs b" for b using at [OF that] f(2) n by simp
  show "touches p N U b b' \<and> rg E p R G (k r) Q b'" if l: "loc E p N U D F fs b" and p: "px E p (Sys_read fd n) b r b'" for b r b'
    using p at [OF l] k [of r b'] loc_set_fd [OF l] x(1) by (auto simp: Let_def intro!: touches_sets)
qed

lemma rg_close:
  assumes own: "owner p N U R G" and l: "loc E p N U D F fs a" and f: "F fd = Some f"
    and k: "\<And>r b. r_val r = 0 \<Longrightarrow> loc E p N U D (F(fd := None)) fs b \<Longrightarrow> rg E p R G (k r) Q b"
  shows "rg E p R G (Syscall (Sys_close fd) k) Q a"
proof (rule loc_call [OF own l])
  show "px_pre E p (Sys_close fd) b" if "loc E p N U D F fs b" for b using that f by (simp add: loc_def)
  show "touches p N U b c \<and> rg E p R G (k r) Q c" if l: "loc E p N U D F fs b" and p: "px E p (Sys_close fd) b r c" for b r c
    using p k [of r c] loc_set_fd [OF l, of fd None] by (simp add: touches_sets)
qed

lemma rg_unlink:
  assumes own: "owner p N U R G" and l: "loc E p N U D F fs a" and x: "file_of E path = Some x" "x \<in> N" "x \<in> U"
    and d: "fst x \<in> D" "name_ok E (snd x)" and old: "fs x \<noteq> None" and shut: "\<And>fd f. F fd = Some f \<Longrightarrow> of_file f \<noteq> x"
    and k: "\<And>r b. r_val r = 0 \<Longrightarrow> loc E p N U D F (fs(x := None)) b \<Longrightarrow> rg E p R G (k r) Q b"
  shows "rg E p R G (Syscall (Sys_unlink path) k) Q a"
proof (rule loc_call [OF own l])
  show "px_pre E p (Sys_unlink path) b" if l: "loc E p N U D F fs b" for b
  proof -
    have "of_file f \<noteq> x" if "p_fds b q fd = Some f" for q fd f
      using l shut that x(2) unfolding loc_def by (cases "q = p") auto
    then show ?thesis using l x d old by (auto simp: path_ok_def loc_def)
  qed
  show "touches p N U b c \<and> rg E p R G (k r) Q c" if l: "loc E p N U D F fs b" and p: "px E p (Sys_unlink path) b r c" for b r c
    using p x k [of r c] loc_set_file [OF l x(2,3), of None] by (simp add: touches_sets)
qed

lemma rg_lseek:
  assumes own: "owner p N U R G" and l: "loc E p N U D F fs a" and f: "F fd = Some f" "of_file f \<in> N"
    and n: "0 \<le> n" "nat n \<le> max_size E"
    and k: "\<And>r b. r_val r = n \<Longrightarrow> loc E p N U D (F(fd \<mapsto> f\<lparr>of_pos := nat n\<rparr>)) fs b \<Longrightarrow> rg E p R G (k r) Q b"
  shows "rg E p R G (Syscall (Sys_lseek fd n) k) Q a"
proof (rule loc_call [OF own l])
  show "px_pre E p (Sys_lseek fd n) b" if "loc E p N U D F fs b" for b using that f n by (simp add: loc_def)
  show "touches p N U b c \<and> rg E p R G (k r) Q c" if l: "loc E p N U D F fs b" and p: "px E p (Sys_lseek fd n) b r c" for b r c
  proof -
    have "p_fds b p fd = Some f" using l f by (simp add: loc_def)
    then show ?thesis using p k [of r c] loc_set_fd [OF l] f(2) by (auto intro!: touches_sets)
  qed
qed

section \<open>Paths and names\<close>

lemma split_path_slash: "CHR ''/'' \<notin> set f \<Longrightarrow> split_path (d @ ''/'' @ f) = (d, f)"
proof -
  assume "CHR ''/'' \<notin> set f"
  then have "takeWhile (\<lambda>c. c \<noteq> CHR ''/'') (rev f @ CHR ''/'' # rev d) = rev f" by (subst takeWhile_append2) auto
  then show ?thesis by (simp add: split_path_def)
qed

text \<open>A path of the directory \<open>d\<close>, short enough for the buffers, and the names of the files in it.\<close>

definition dpath :: "posix_env \<Rightarrow> string set \<Rightarrow> string \<Rightarrow> string \<Rightarrow> bool" where
  "dpath E D dp d \<longleftrightarrow> dir_of E dp = Some d \<and> d \<in> D \<and> name_ok E d \<and> length dp < 440"

definition tname :: "posix_env \<Rightarrow> string \<Rightarrow> bool" where
  "tname E f \<longleftrightarrow> name_ok E f \<and> length f < 64 \<and> \<not> dotted f"

lemma dpath_file:
  assumes "dpath E D dp d" and "tname E f"
  shows "file_of E (dp @ ''/'' @ f) = Some (d, f)" and "sprintf512 (dp @ ''/'' @ f) k = k (dp @ ''/'' @ f)"
  using assms split_path_slash [of f dp] by (simp_all add: dpath_def tname_def name_ok_def file_of_def sprintf512_def)

lemma dpathI:
  assumes "m \<in> set (mounts E)" and "name_ok E d" and "d \<in> D" and "length m + length d < 430"
  shows "dpath E D (m @ ''/'' @ d) d"
  using assms split_path_slash [of d m] by (simp add: dpath_def dir_of_def name_ok_def)

section \<open>Helper functions on one file\<close>

lemma fd_back: "F fd = None \<Longrightarrow> F(fd := v, fd := None) = F" "F fd = None \<Longrightarrow> F(fd := None) = F"
  for F :: "int \<rightharpoonup> ofile"
  by (simp_all add: fun_upd_idem)

lemma splice_Nil [simp]: "splice [] 0 s = s"
  by (simp add: splice_def)

lemma strncmp_same [simp]: "strncmp s s n = 0"
proof (induction s arbitrary: n)
  case Nil show ?case by (cases n) simp_all
next
  case (Cons x s) then show ?case by (cases n) simp_all
qed

lemma create1_rg:
  assumes own: "owner p N U R G" and l: "loc E p N U D F fs a" and dp: "dpath E D dp d" and f: "tname E f"
    and x: "(d, f) \<in> N" "(d, f) \<in> U" "fs (d, f) = None" and s: "length s \<le> max_size E"
  shows "rg E p R G (create1 prog dp f s) (\<lambda>_. loc E p N U D F (fs((d, f) \<mapsto> s))) a"
  unfolding create1_def
  by (rule rg_sleep [OF own l], unfold dpath_file(2) [OF dp f],
      rule rg_creat [OF own _ dpath_file(1) [OF dp f] x(1,2)], assumption)
     (use dp f x s in \<open>auto simp: dpath_def tname_def Let_def fd_back
        intro!: rg_write [OF own] rg_close [OF own] rg_loc_Return [OF own]\<close>)

lemma check1_rg:
  assumes own: "owner p N U R G" and l: "loc E p N U D F fs a" and dp: "dpath E D dp d" and f: "tname E f"
    and x: "(d, f) \<in> N" "fs (d, f) = Some s" and s: "length s < n" "n \<le> max_size E"
  shows "rg E p R G (check1 n prog dp f s) (\<lambda>_. loc E p N U D F fs) a"
  unfolding check1_def dpath_file(2) [OF dp f]
  by (rule rg_open [OF own l dpath_file(1) [OF dp f] x(1) _ _ x(2)])
     (use dp f x s in \<open>auto simp: dpath_def tname_def Let_def fd_back
        intro!: rg_read [OF own] rg_close [OF own] rg_loc_Return [OF own]\<close>)

lemma unlink1_rg:
  assumes own: "owner p N U R G" and l: "loc E p N U D F fs a" and dp: "dpath E D dp d" and f: "tname E f"
    and x: "(d, f) \<in> N" "(d, f) \<in> U" "fs (d, f) \<noteq> None" and shut: "\<And>fd h. F fd = Some h \<Longrightarrow> of_file h \<noteq> (d, f)"
  shows "rg E p R G (unlink1 prog dp f) (\<lambda>_. loc E p N U D F (fs((d, f) := None))) a"
  unfolding unlink1_def
  by (rule rg_sleep [OF own l], unfold dpath_file(2) [OF dp f],
      rule rg_unlink [where fs = fs, OF own _ dpath_file(1) [OF dp f] x(1,2) _ _ x(3)], assumption)
     (use dp f shut in \<open>auto simp: dpath_def tname_def intro!: rg_loc_Return [OF own]\<close>)

lemma checknot_rg:
  assumes own: "owner p N U R G" and l: "loc E p N U D F fs a" and dp: "dpath E D dp d" and f: "tname E f"
    and x: "(d, f) \<in> N" "fs (d, f) = None"
  shows "rg E p R G (checknot prog dp f) (\<lambda>_. loc E p N U D F fs) a"
  unfolding checknot_def dpath_file(2) [OF dp f]
  by (rule rg_open_none [OF own l dpath_file(1) [OF dp f] x(1) _ _ x(2)])
     (use dp f in \<open>auto simp: dpath_def tname_def intro!: rg_loc_Return [OF own]\<close>)

lemma append1_rg:
  assumes own: "owner p N U R G" and l: "loc E p N U D F fs a" and dp: "dpath E D dp d" and f: "tname E f"
    and x: "(d, f) \<in> N" "(d, f) \<in> U" "fs (d, f) = Some c" "c \<noteq> []" and s: "length c + length s \<le> max_size E"
  shows "rg E p R G (append1 prog dp f s) (\<lambda>_. loc E p N U D F (fs((d, f) \<mapsto> c @ s))) a"
  unfolding append1_def
  by (rule rg_sleep [OF own l], unfold dpath_file(2) [OF dp f],
      rule rg_open [where fs = fs, OF own _ dpath_file(1) [OF dp f] x(1) _ _ x(3)], assumption)
     (use dp f x s in \<open>auto simp: dpath_def tname_def Let_def fd_back splice_def
        intro!: rg_write [OF own] rg_close [OF own] rg_loc_Return [OF own]\<close>)

section \<open>Loops\<close>

lemma rg_seqP_Cons:
  assumes "rg E p R G m (\<lambda>_. I) a" and "reflp R" and "\<And>b. I b \<Longrightarrow> rg E p R G (seqP ms) Q b"
  shows "rg E p R G (seqP (m # ms)) Q a"
  unfolding seqP.simps by (rule rg_bind [OF _ assms(2)], rule rg_mono [OF assms(1)]) (rule assms(3))

lemma rg_seqP_Nil: "(\<And>b. R a b \<Longrightarrow> Q () b) \<Longrightarrow> rg E p R G (seqP []) Q a"
  by (simp add: rg.simps)

text \<open>The descriptors of a loop over one file, at offset \<open>n\<close>.\<close>

definition at_pos :: "(int \<rightharpoonup> ofile) \<Rightarrow> int \<Rightarrow> string \<times> string \<Rightarrow> oflag list \<Rightarrow> nat \<Rightarrow> (int \<rightharpoonup> ofile)" where
  "at_pos F fd x fl n = F(fd \<mapsto> \<lparr>of_file = x, of_pos = n, of_flags = fl\<rparr>)"

lemma at_pos_simps:
  "at_pos F fd x fl n fd = Some \<lparr>of_file = x, of_pos = n, of_flags = fl\<rparr>"
  "(at_pos F fd x fl n)(fd \<mapsto> \<lparr>of_file = x, of_pos = m, of_flags = fl\<rparr>) = at_pos F fd x fl m"
  "F fd = None \<Longrightarrow> (at_pos F fd x fl n)(fd := None) = F"
  by (simp_all add: at_pos_def fun_upd_idem)

lemma checkread_loop_rg:
  assumes own: "owner p N U R G" and x: "x \<in> N" "fs x = Some c" and n: "n + m \<le> length c" "n + m \<le> max_size E"
    and c: "\<And>i. n \<le> i \<Longrightarrow> i < n + m \<Longrightarrow> c ! i = ch" and l: "loc E p N U D (at_pos F fd x [] n) fs a"
  shows "rg E p R G (checkread_loop prog name fd ch m) (\<lambda>_. loc E p N U D (at_pos F fd x [] (n + m)) fs) a"
  using n c l
proof (induction m arbitrary: n a)
  case 0
  then show ?case by (simp add: rg_loc_Return [OF own])
next
  case (Suc m)
  have "take 1 (drop n c) = [ch]" using Suc.prems(1) Suc.prems(3) [of n] by (simp add: take_Suc_conv_app_nth)
  moreover have "rg E p R G (checkread_loop prog name fd ch m) (\<lambda>_. loc E p N U D (at_pos F fd x [] (Suc n + m)) fs) b"
    if "loc E p N U D (at_pos F fd x [] (Suc n)) fs b" for b
    by (rule Suc.IH [OF _ _ _ that]) (use Suc.prems(1-3) in auto)
  ultimately show ?case using Suc.prems(1,2) x
    by (auto simp: at_pos_simps intro!: rg_read [OF own Suc.prems(4)])
qed

lemma checkread_rg:
  assumes own: "owner p N U R G" and l: "loc E p N U D F fs a" and dp: "dpath E D dp d" and f: "tname E f"
    and x: "(d, f) \<in> N" "fs (d, f) = Some c" and n: "n + m \<le> length c" "n + m \<le> max_size E"
    and c: "\<And>i. n \<le> i \<Longrightarrow> i < n + m \<Longrightarrow> c ! i = ch"
  shows "rg E p R G (checkread prog dp f n m ch) (\<lambda>_. loc E p N U D F fs) a"
proof -
  have loop: "rg E p R G (bindP (checkread_loop prog name fd ch m)
      (\<lambda>_. Syscall (Sys_close fd) (\<lambda>_. Return ()))) (\<lambda>_. loc E p N U D F fs) b"
    if "loc E p N U D (at_pos F fd (d, f) [] n) fs b" "F fd = None" for b fd name
    by (rule rg_bind, rule rg_mono [OF checkread_loop_rg [OF own x n c that(1)]])
       (use that own in \<open>auto simp: at_pos_simps owner_def intro!: rg_close [OF own] rg_loc_Return [OF own]\<close>)
  show ?thesis unfolding checkread_def
    by (rule rg_sleep [OF own l], unfold dpath_file(2) [OF dp f],
        rule rg_open [where fs = fs, OF own _ dpath_file(1) [OF dp f] x(1) _ _ x(2)], assumption)
       (use dp f n x in \<open>auto simp: dpath_def tname_def Let_def at_pos_def intro!: rg_lseek [OF own] loop\<close>)
qed

section \<open>Numbered files\<close>

lemma length_int_bytes [simp]: "length (int_bytes i) = 4"
  by (simp add: int_bytes_def)

lemma bytes_int_bytes: "n < 2 ^ 31 \<Longrightarrow> bytes_int (int_bytes (int n)) = int n"
proof -
  assume n: "n < 2 ^ 31"
  have b: "of_char (char_of (nat (int n div 256 ^ k mod 256)) :: char) = int n div 256 ^ k mod 256" for k
  proof -
    have "int (of_char (char_of (nat (int n div 256 ^ k mod 256)) :: char)) = int n div 256 ^ k mod 256" by (simp add: nat_mod_distrib)
    then show ?thesis by (simp only: of_nat_of_char)
  qed
  have "[0..<4] = [0, 1, 2, 3]" by (simp add: upt_rec)
  then have "foldr (\<lambda>c v. of_char c + 256 * v) (int_bytes (int n)) 0 =
      int n mod 256 + 256 * (int n div 256 mod 256 + 256 * (int n div 256 ^ 2 mod 256 + 256 * (int n div 256 ^ 3 mod 256)))"
    using b [of 0] b [of 1] b [of 2] b [of 3] by (simp add: int_bytes_def)
  also have "\<dots> = int n"
  proof -
    have d: "int n div 256\<^sup>2 = int n div 256 div 256" "int n div 256 ^ 3 = int n div 256 div 256 div 256"
      by (simp_all add: div_mult2_eq [symmetric] power2_eq_square power3_eq_cube zdiv_zmult2_eq [symmetric])
    have "int n div 256 div 256 div 256 mod 256 = int n div 256 div 256 div 256" using n by simp
    then show ?thesis unfolding d by (simp only: mod_mult_div_eq)
  qed
  finally show ?thesis using n by (simp add: bytes_int_def)
qed

primrec put_all :: "string \<Rightarrow> string \<Rightarrow> nat list \<Rightarrow> (string \<times> string \<rightharpoonup> string) \<Rightarrow> (string \<times> string \<rightharpoonup> string)" where
  "put_all d prefix [] fs = fs"
| "put_all d prefix (i # js) fs = put_all d prefix js (fs((d, numbered prefix i) \<mapsto> int_bytes (int i)))"

primrec drop_all :: "string \<Rightarrow> string \<Rightarrow> nat list \<Rightarrow> (string \<times> string \<rightharpoonup> string) \<Rightarrow> (string \<times> string \<rightharpoonup> string)" where
  "drop_all d prefix [] fs = fs"
| "drop_all d prefix (i # js) fs = drop_all d prefix js (fs((d, numbered prefix i) := None))"

lemma numbered_inj: "numbered prefix i = numbered prefix j \<longleftrightarrow> i = j"
  unfolding numbered_def by (metis append_Cons append_Nil same_append_eq list.inject digits_val_decimal)

lemma createn_loop_rg:
  assumes own: "owner p N U R G" and dp: "dpath E D dp d" and sz: "4 \<le> max_size E" and dist: "distinct js"
    and i: "\<And>i. i \<in> set js \<Longrightarrow> tname E (numbered prefix i) \<and> (d, numbered prefix i) \<in> N \<inter> U \<and> fs (d, numbered prefix i) = None"
    and l: "loc E p N U D F fs a"
  shows "rg E p R G (createn_loop prog dp prefix dup js) (\<lambda>_. loc E p N U D F (put_all d prefix js fs)) a"
  using dist i l
proof (induction js arbitrary: fs a)
  case Nil
  then show ?case by (simp add: rg_loc_Return [OF own])
next
  case (Cons i js)
  have f: "tname E (numbered prefix i)" and x: "(d, numbered prefix i) \<in> N" "(d, numbered prefix i) \<in> U" "fs (d, numbered prefix i) = None"
    using Cons.prems(2) [of i] by auto
  let ?fs = "fs((d, numbered prefix i) \<mapsto> int_bytes (int i))"
  have IH: "rg E p R G (createn_loop prog dp prefix dup js) (\<lambda>_. loc E p N U D F (put_all d prefix js ?fs)) b"
    if "loc E p N U D F ?fs b" for b
    by (rule Cons.IH [OF _ _ that]) (use Cons.prems(1,2) in \<open>auto simp: numbered_inj\<close>)
  show ?case unfolding createn_loop.simps dpath_file(2) [OF dp f]
    by (rule rg_creat [OF own Cons.prems(3) dpath_file(1) [OF dp f] x(1,2)])
       (use dp f x sz in \<open>auto simp: dpath_def tname_def Let_def fd_back intro!: rg_write [OF own] rg_close [OF own] IH\<close>)
qed

lemma createn_rg:
  assumes own: "owner p N U R G" and l: "loc E p N U D F fs a" and dp: "dpath E D dp d" and sz: "4 \<le> max_size E"
    and i: "\<And>i. i < n \<Longrightarrow> tname E (numbered prefix i) \<and> (d, numbered prefix i) \<in> N \<inter> U \<and> fs (d, numbered prefix i) = None"
  shows "rg E p R G (createn prog dp prefix n dup) (\<lambda>_. loc E p N U D F (put_all d prefix [0..<n] fs)) a"
  unfolding createn_def by (rule rg_sleep [OF own l]) (rule createn_loop_rg [OF own dp sz], use i in auto)

lemma checkn_rg:
  assumes own: "owner p N U R G" and l: "loc E p N U D F fs a" and dp: "dpath E D dp d" and sz: "4 \<le> max_size E"
    and i: "\<And>i. i < n \<Longrightarrow> i < 2 ^ 31 \<and> tname E (numbered prefix i) \<and> (d, numbered prefix i) \<in> N \<and>
      fs (d, numbered prefix i) = Some (int_bytes (int i))"
  shows "rg E p R G (checkn prog dp prefix n) (\<lambda>_. loc E p N U D F fs) a"
proof -
  have "rg E p R G (checkn_loop prog dp prefix js) (\<lambda>_. loc E p N U D F fs) a" if "set js \<subseteq> {..<n}" for js
    using that l
  proof (induction js arbitrary: a)
    case Nil
    then show ?case by (simp add: rg_loc_Return [OF own])
  next
    case (Cons i js)
    have f: "tname E (numbered prefix i)" and x: "(d, numbered prefix i) \<in> N" "fs (d, numbered prefix i) = Some (int_bytes (int i))"
      and j: "bytes_int (int_bytes (int i)) = int i"
      using Cons.prems(1) i [of i] bytes_int_bytes [of i] by auto
    have IH: "rg E p R G (checkn_loop prog dp prefix js) (\<lambda>_. loc E p N U D F fs) b" if "loc E p N U D F fs b" for b
      by (rule Cons.IH [OF _ that]) (use Cons.prems(1) in auto)
    show ?case unfolding checkn_loop.simps dpath_file(2) [OF dp f]
      by (rule rg_open [OF own Cons.prems(2) dpath_file(1) [OF dp f] x(1) _ _ x(2)])
         (use dp f x sz j in \<open>auto simp: dpath_def tname_def Let_def fd_back intro!: rg_read [OF own] rg_close [OF own] IH\<close>)
  qed
  from this [of "[0..<n]"] show ?thesis by (simp add: checkn_def atLeast0LessThan)
qed

lemma unlinkn_rg:
  assumes own: "owner p N U R G" and l: "loc E p N U D F fs a" and dp: "dpath E D dp d"
    and i: "\<And>i. i < n \<Longrightarrow> tname E (numbered prefix i) \<and> (d, numbered prefix i) \<in> N \<inter> U \<and> fs (d, numbered prefix i) \<noteq> None"
    and shut: "\<And>fd h i. F fd = Some h \<Longrightarrow> i < n \<Longrightarrow> of_file h \<noteq> (d, numbered prefix i)"
  shows "rg E p R G (unlinkn prog dp prefix n) (\<lambda>_. loc E p N U D F (drop_all d prefix [0..<n] fs)) a"
proof -
  have "rg E p R G (unlinkn_loop prog dp prefix js) (\<lambda>_. loc E p N U D F (drop_all d prefix js fs)) a"
    if "set js \<subseteq> {..<n}" "distinct js" "\<And>i. i \<in> set js \<Longrightarrow> fs (d, numbered prefix i) \<noteq> None" "loc E p N U D F fs a" for js a
    using that
  proof (induction js arbitrary: fs a)
    case Nil
    then show ?case by (simp add: rg_loc_Return [OF own])
  next
    case (Cons i js)
    have f: "tname E (numbered prefix i)" and x: "(d, numbered prefix i) \<in> N" "(d, numbered prefix i) \<in> U" "fs (d, numbered prefix i) \<noteq> None"
      using Cons.prems(1,3) i [of i] by auto
    have IH: "rg E p R G (unlinkn_loop prog dp prefix js) (\<lambda>_. loc E p N U D F (drop_all d prefix js (fs((d, numbered prefix i) := None)))) b"
      if "loc E p N U D F (fs((d, numbered prefix i) := None)) b" for b
      by (rule Cons.IH [OF _ _ _ that]) (use Cons.prems in \<open>auto simp: numbered_inj\<close>)
    show ?case unfolding unlinkn_loop.simps dpath_file(2) [OF dp f]
      by (rule rg_unlink [OF own Cons.prems(4) dpath_file(1) [OF dp f] x(1,2) _ _ x(3)])
         (use dp f shut Cons.prems(1) in \<open>auto simp: dpath_def tname_def intro!: IH\<close>)
  qed
  from this [of "[0..<n]"] i show ?thesis unfolding unlinkn_def by (intro rg_sleep [OF own l]) (auto simp: atLeast0LessThan)
qed

section \<open>Directory listings\<close>

lemma strcmp_same [simp]: "strcmp a a = 0"
  by (induction a) simp_all

lemma strcmp_eq_0: "strcmp a b = 0 \<longleftrightarrow> a = b"
  by (induction a b rule: strcmp.induct) auto

lemma strcmp_antisym: "strcmp a b \<le> 0 \<Longrightarrow> strcmp b a \<le> 0 \<Longrightarrow> a = b"
  by (induction a b rule: strcmp.induct) (auto split: if_splits)

lemma strcmp_total: "\<not> strcmp a b \<le> 0 \<Longrightarrow> strcmp b a \<le> 0"
  by (induction a b rule: strcmp.induct) (auto split: if_splits)

lemma strcmp_trans: "strcmp a b \<le> 0 \<Longrightarrow> strcmp b c \<le> 0 \<Longrightarrow> strcmp a c \<le> 0"
proof (induction a c arbitrary: b rule: strcmp.induct)
  case (4 x xs z zs)
  then obtain y ys where b: "b = y # ys" by (cases b) auto
  show ?case
  proof (cases "x = y \<and> y = z")
    case True
    then show ?thesis using 4 b by auto
  next
    case False
    with 4(2,3) b have "(of_char x :: int) \<le> of_char y" "(of_char y :: int) \<le> of_char z" by (auto split: if_splits)
    moreover from False have "of_char x \<noteq> (of_char y :: int) \<or> of_char y \<noteq> (of_char z :: int)" by simp
    ultimately have "(of_char x :: int) < of_char z" by linarith
    then show ?thesis by auto
  qed
next
  case (3 x xs) then show ?case by (cases b) auto
qed auto

lemma set_insert_by [simp]: "set (insert_by cmp x ys) = insert x (set ys)"
  by (induction ys) auto

lemma distinct_insert_by: "distinct (insert_by cmp x ys) \<longleftrightarrow> distinct (x # ys)"
  by (induction ys) auto

lemma set_qsort: "set (qsort cmp xs) = set xs"
  by (induction xs) (simp_all add: qsort_def)

lemma distinct_qsort: "distinct (qsort cmp xs) \<longleftrightarrow> distinct xs"
proof (induction xs)
  case (Cons x xs)
  have "qsort cmp (x # xs) = insert_by cmp x (qsort cmp xs)" by (simp add: qsort_def)
  then show ?case using Cons set_qsort [of cmp xs] by (simp only: distinct_insert_by distinct.simps)
qed (simp add: qsort_def)

lemma sorted_insert_by:
  "sorted_wrt (\<lambda>a b. compar a b \<le> 0) ys \<Longrightarrow> sorted_wrt (\<lambda>a b. compar a b \<le> 0) (insert_by compar x ys)"
  by (induction ys) (auto simp: compar_def intro: strcmp_trans dest: strcmp_total)

lemma sorted_qsort: "sorted_wrt (\<lambda>a b. compar a b \<le> 0) (qsort compar xs)"
  unfolding qsort_def by (induction xs) (simp_all add: sorted_insert_by)

lemma adjacent_dup_sorted: "sorted_wrt (\<lambda>a b. compar a b \<le> 0) xs \<Longrightarrow> adjacent_dup xs \<longleftrightarrow> \<not> distinct xs"
proof (induction xs rule: adjacent_dup.induct)
  case (1 a b xs)
  have "a = b" if "a \<in> set xs" using 1(2) that by (auto simp: compar_def intro: strcmp_antisym)
  then show ?case using 1 by (auto simp: strcmp_eq_0)
qed auto

text \<open>The check for duplicates is exact.\<close>

lemma dup_check: "adjacent_dup (qsort compar names) \<longleftrightarrow> \<not> distinct names"
  by (simp add: adjacent_dup_sorted [OF sorted_qsort] distinct_qsort)

lemma dir_names_short:
  "length names + length (filter (\<lambda>n. \<not> dotted n) es) \<le> 1000 \<Longrightarrow>
     dir_names d es names k = k (names @ filter (\<lambda>n. \<not> dotted n) es)"
  by (induction es arbitrary: names) auto

lemma dircheck_rg:
  assumes R: "reflp R" "transp R" and G: "\<And>b. G b b" and n: "n \<le> 1000"
    and dir: "\<And>b. R a b \<Longrightarrow> (\<exists>D. p_dirs b = D \<and> dpath E D dp d) \<and> finite {f. p_files b (d, f) \<noteq> None \<and> \<not> dotted f} \<and>
      card {f. p_files b (d, f) \<noteq> None \<and> \<not> dotted f} = n"
  shows "rg E p R G (dircheck prog dp n) (\<lambda>_. R a) a"
  unfolding dircheck_def
proof (simp only: rg.simps, intro allI impI conjI)
  fix b
  assume b: "R a b"
  show "px_pre E p (Sys_opendir dp) b" using dir [OF b] by (auto simp: dpath_def)
  fix r c
  assume "px E p (Sys_opendir dp) b r c"
  then obtain ns where ns: "r_names r = Some ns" "distinct (filter (\<lambda>n. \<not> dotted n) ns)"
      "set (filter (\<lambda>n. \<not> dotted n) ns) = {f. p_files b (d, f) \<noteq> None \<and> \<not> dotted f}" and c: "c = b"
    using dir [OF b] by (auto simp: dpath_def Let_def)
  show "G b c" using c G by simp
  have len: "length (filter (\<lambda>n. \<not> dotted n) ns) = n"
    using distinct_card [OF ns(2)] ns(3) dir [OF b] by simp
  have "rg E p R G (Return ()) (\<lambda>_. R a) c" using transpD [OF R(2) b] c by (simp add: rg.simps)
  then show "rg E p R G (case r_names r of None \<Rightarrow> fail prog (''opendir('' @ dp @ '')'')
      | Some es \<Rightarrow> dir_names dp es [] (\<lambda>names. if n \<noteq> length names
          then fail prog (''wanted '' @ decimal n @ '' dir entries, got '' @ decimal (length names))
          else if adjacent_dup (qsort compar names) then fail prog ''duplicate directory entry'' else Return ())) (\<lambda>_. R a) c"
    using ns(1,2) len n by (simp add: dir_names_short dup_check)
qed

end
