(* ===== verification/Test_Seq.thy ===== *)
theory Test_Seq
  imports Test_Rules
begin

text \<open>
  The testers between their forks: one process, whose directory is an association list of names and
  contents. A triple says that a program, started in one such state, ends in another; the sequential
  tests are chains of triples.
\<close>

named_theorems triples \<open>the triples of the helper functions\<close>

section \<open>States and triples\<close>

definition st :: "posix_env \<Rightarrow> nat \<Rightarrow> (string \<times> string) set \<Rightarrow> (string \<times> string) set \<Rightarrow> string set \<Rightarrow> string \<Rightarrow>
    (string \<times> string \<rightharpoonup> string) \<Rightarrow> pworld \<Rightarrow> bool" where
  "st E p N U D out fs a \<longleftrightarrow> loc E p N U D Map.empty fs a \<and> p_out a = out \<and> p \<in> p_pids a \<and> p_fds a = (\<lambda>_. Map.empty)"

definition hoare :: "posix_env \<Rightarrow> nat \<Rightarrow> (pworld \<Rightarrow> bool) \<Rightarrow> unit prog \<Rightarrow> (pworld \<Rightarrow> bool) \<Rightarrow> bool" where
  "hoare E p P m P' \<longleftrightarrow> (\<forall>a. P a \<longrightarrow> rg E p (=) (\<lambda>_ _. True) m (\<lambda>_. P') a)"

lemma owner_alone: "owner p N U (=) (touches p N U)"
  by (simp add: owner_def reflp_def keeps_def)

lemma st_lift:
  assumes "\<And>a. loc E p N U D Map.empty fs a \<Longrightarrow> rg E p (=) (touches p N U) m (\<lambda>_. loc E p N U D Map.empty fs') a"
  shows "hoare E p (st E p N U D out fs) m (st E p N U D out fs')"
  unfolding hoare_def
proof (intro allI impI)
  fix a
  assume a: "st E p N U D out fs a"
  have "rg E p (=) (touches p N U) m (\<lambda>_ b. loc E p N U D Map.empty fs' b \<and> touches p N U a b) a"
    by (rule rg_alone [OF assms touches_refl touches_trans]) (use a in \<open>simp add: st_def\<close>)
  then have "rg E p (=) (touches p N U) m (\<lambda>_. st E p N U D out fs') a"
  proof (rule rg_mono)
    fix x b
    assume b: "loc E p N U D Map.empty fs' b \<and> touches p N U a b"
    have "p_fds b q = Map.empty" for q using a b unfolding st_def touches_def loc_def by (cases "q = p") metis+
    then show "st E p N U D out fs' b" using a b by (auto simp: st_def touches_def)
  qed
  then show "rg E p (=) (\<lambda>_ _. True) m (\<lambda>_. st E p N U D out fs') a" by (rule rg_env) auto
qed

lemma hoare_Nil: "hoare E p P (seqP []) P"
  by (simp add: hoare_def rg.simps)

lemma hoare_Cons: "hoare E p P m P1 \<Longrightarrow> hoare E p P1 (seqP ms) P2 \<Longrightarrow> hoare E p P (seqP (m # ms)) P2"
  unfolding hoare_def by (intro allI impI, rule rg_seqP_Cons [where I = P1]) (auto simp: reflp_def)

lemma hoare_printf: "hoare E p (st E p N U D out fs) (printf s) (st E p N U D (out @ s) fs)"
  by (simp add: hoare_def rg.simps st_def loc_def)

lemma hoare_sleep: "hoare E p (st E p N U D out fs) (sleep n) (st E p N U D out fs)"
  by (simp add: hoare_def rg.simps)

section \<open>A directory as an association list\<close>

definition dmap :: "string \<Rightarrow> (string \<times> string) list \<Rightarrow> (string \<times> string \<rightharpoonup> string)" where
  "dmap d xs x = (if fst x = d then map_of xs (snd x) else None)"

definition delete :: "string set \<Rightarrow> (string \<times> string) list \<Rightarrow> (string \<times> string) list" where
  "delete S xs = filter (\<lambda>e. fst e \<notin> S) xs"

definition ents :: "string \<Rightarrow> nat \<Rightarrow> (string \<times> string) list" where
  "ents prefix n = rev (map (\<lambda>i. (numbered prefix i, int_bytes (int i))) [0..<n])"

definition nums :: "string \<Rightarrow> nat \<Rightarrow> string set" where
  "nums prefix n = numbered prefix ` {..<n}"

lemma dmap_at [simp]: "dmap d xs (d, f) = map_of xs f"
  by (simp add: dmap_def)

lemma dmap_put: "(dmap d xs)((d, f) \<mapsto> s) = dmap d ((f, s) # xs)"
  by (auto simp: dmap_def)

lemma map_of_delete: "map_of (delete S xs) f = (if f \<in> S then None else map_of xs f)"
  by (induction xs) (auto simp: delete_def)

lemma dmap_del: "(dmap d xs)((d, f) := None) = dmap d (delete {f} xs)"
  by (auto simp: dmap_def map_of_delete)

lemma ents_fst: "fst ` set (ents prefix n) = nums prefix n" "distinct (map fst (ents prefix n))" "length (ents prefix n) = n"
  by (force simp: ents_def nums_def) (simp_all add: ents_def distinct_map inj_on_def numbered_inj rev_map [symmetric] comp_def)

lemma map_of_ents: "i < n \<Longrightarrow> map_of (ents prefix n) (numbered prefix i) = Some (int_bytes (int i))"
  by (rule map_of_is_SomeI) (use ents_fst in \<open>auto simp: ents_def\<close>)

lemma map_of_ents_None: "f \<notin> nums prefix n \<Longrightarrow> map_of (ents prefix n) f = None"
  by (simp add: map_of_eq_None_iff ents_fst)

lemma put_all_ents: "put_all d prefix js (dmap d xs) = dmap d (rev (map (\<lambda>i. (numbered prefix i, int_bytes (int i))) js) @ xs)"
  by (induction js arbitrary: xs) (simp_all add: dmap_put)

lemma drop_all_delete: "drop_all d prefix js (dmap d xs) = dmap d (delete (numbered prefix ` set js) xs)"
proof (induction js arbitrary: xs)
  case (Cons i js)
  have "delete (numbered prefix ` set js) (delete {numbered prefix i} xs) = delete (numbered prefix ` set (i # js)) xs"
    by (auto simp: delete_def intro: filter_cong)
  then show ?case using Cons by (simp add: dmap_del)
qed (simp add: delete_def)

text \<open>Names with different prefixes of the same length differ.\<close>

lemma numbered_clash: "length pre = length pre' \<Longrightarrow> pre \<noteq> pre' \<Longrightarrow> numbered pre i \<noteq> numbered pre' j"
  by (simp add: numbered_def)

lemma nums_clash: "length pre = length pre' \<Longrightarrow> pre \<noteq> pre' \<Longrightarrow> nums pre n \<inter> nums pre' m = {}"
  using numbered_clash by (fastforce simp: nums_def)

lemma delete_ents:
  "delete (nums prefix n) (ents prefix n @ xs) = delete (nums prefix n) xs"
  "length pre = length prefix \<Longrightarrow> pre \<noteq> prefix \<Longrightarrow> delete (nums prefix n) (ents pre m @ xs) = ents pre m @ delete (nums prefix n) xs"
  "delete (nums prefix n) [] = []"
proof -
  show "delete (nums prefix n) (ents prefix n @ xs) = delete (nums prefix n) xs"
    using ents_fst(1) [of prefix n] by (fastforce simp: delete_def filter_empty_conv)
  show "delete (nums prefix n) (ents pre m @ xs) = ents pre m @ delete (nums prefix n) xs"
    if "length pre = length prefix" "pre \<noteq> prefix"
    using ents_fst(1) [of pre m] nums_clash [OF that, of m n] by (fastforce simp: delete_def filter_id_conv)
qed (simp add: delete_def)

lemma numbered_tname:
  assumes "n < 1000" and "tname E prefix" and "length prefix + 4 \<le> name_max E" and "length prefix < 60"
  shows "tname E (numbered prefix n)"
proof -
  have "length (decimal n) \<le> 3" using length_decimal [of n 3] assms(1) by simp
  moreover have "CHR ''/'' \<notin> set (decimal n)" "CHR 0x00 \<notin> set (decimal n)"
    using decimal_digits [of "CHR ''/''" n] decimal_digits [of "CHR 0x00" n] by (auto simp: is_digit_def)
  ultimately show ?thesis using assms(2-) by (auto simp: tname_def name_ok_def numbered_def dotted_def)
qed

section \<open>The triples\<close>

text \<open>
  The directory \<open>d\<close> of the tests, known under the paths in \<open>ds\<close>, is the process's own; \<open>U\<close> has the files
  the tests use, and the limits of the file system are wide enough.
\<close>

definition setting :: "posix_env \<Rightarrow> (string \<times> string) set \<Rightarrow> string set \<Rightarrow> string \<Rightarrow> string set \<Rightarrow> bool" where
  "setting E U D d ds \<longleftrightarrow> (\<forall>dp\<in>ds. dpath E D dp d) \<and> 16 \<le> name_max E \<and> 131072 \<le> max_size E"

abbreviation std :: "posix_env \<Rightarrow> nat \<Rightarrow> (string \<times> string) set \<Rightarrow> string set \<Rightarrow> string \<Rightarrow> string \<Rightarrow> (string \<times> string) list \<Rightarrow> pworld \<Rightarrow> bool" where
  "std E p U D d out xs \<equiv> st E p ({d} \<times> UNIV) U D out (dmap d xs)"

lemma t_create1:
  assumes "setting E U D d ds" "dp \<in> ds" "tname E f" "(d, f) \<in> U" "map_of xs f = None" "length s \<le> 131072"
  shows "hoare E p (std E p U D d out xs) (create1 prog dp f s) (std E p U D d out ((f, s) # xs))"
  using assms by (intro st_lift) (auto simp: setting_def simp flip: dmap_put intro!: create1_rg [OF owner_alone])

lemma t_check1:
  assumes "setting E U D d ds" "dp \<in> ds" "tname E f" "map_of xs f = Some s" "length s < n" "n \<le> 131072"
  shows "hoare E p (std E p U D d out xs) (check1 n prog dp f s) (std E p U D d out xs)"
  using assms by (intro st_lift) (auto simp: setting_def intro!: check1_rg [OF owner_alone])

lemma t_unlink1:
  assumes "setting E U D d ds" "dp \<in> ds" "tname E f" "(d, f) \<in> U" "map_of xs f \<noteq> None"
  shows "hoare E p (std E p U D d out xs) (unlink1 prog dp f) (std E p U D d out (delete {f} xs))"
  using assms by (intro st_lift) (auto simp: setting_def simp flip: dmap_del intro!: unlink1_rg [OF owner_alone])

lemma t_checknot:
  assumes "setting E U D d ds" "dp \<in> ds" "tname E f" "map_of xs f = None"
  shows "hoare E p (std E p U D d out xs) (checknot prog dp f) (std E p U D d out xs)"
  using assms by (intro st_lift) (auto simp: setting_def intro!: checknot_rg [OF owner_alone])

lemma t_append1:
  assumes "setting E U D d ds" "dp \<in> ds" "tname E f" "(d, f) \<in> U" "length c + length s \<le> 131072" "c \<noteq> []"
  shows "hoare E p (std E p U D d out ((f, c) # xs)) (append1 prog dp f s) (std E p U D d out ((f, c @ s) # xs))"
proof -
  have "dmap d ((f, c @ s) # xs) = (dmap d ((f, c) # xs))((d, f) \<mapsto> c @ s)" by (auto simp: dmap_def)
  then show ?thesis using assms by (intro st_lift) (auto simp: setting_def intro!: append1_rg [OF owner_alone])
qed

lemma t_checkread:
  assumes "setting E U D d ds" "dp \<in> ds" "tname E f" "map_of xs f = Some c" "n + m \<le> length c" "n + m \<le> 131072"
    "\<And>i. n \<le> i \<Longrightarrow> i < n + m \<Longrightarrow> c ! i = ch"
  shows "hoare E p (std E p U D d out xs) (checkread prog dp f n m ch) (std E p U D d out xs)"
  using assms by (intro st_lift) (auto simp: setting_def intro!: checkread_rg [OF owner_alone])

definition numbers_ok :: "posix_env \<Rightarrow> (string \<times> string) set \<Rightarrow> string \<Rightarrow> string \<Rightarrow> nat \<Rightarrow> bool" where
  "numbers_ok E U d prefix n \<longleftrightarrow> n \<le> 1000 \<and> tname E prefix \<and> length prefix \<le> 8 \<and> {d} \<times> nums prefix n \<subseteq> U"

lemma numbers_okD: "numbers_ok E U d prefix n \<Longrightarrow> 16 \<le> name_max E \<Longrightarrow> i < n \<Longrightarrow> tname E (numbered prefix i) \<and> (d, numbered prefix i) \<in> U"
  using numbered_tname [of i E prefix] by (auto simp: numbers_ok_def nums_def)

lemma t_createn:
  assumes s: "setting E U D d ds" "dp \<in> ds" and n: "numbers_ok E U d prefix n"
    and new: "nums prefix n \<inter> fst ` set xs = {}"
  shows "hoare E p (std E p U D d out xs) (createn prog dp prefix n dup) (std E p U D d out (ents prefix n @ xs))"
proof -
  have "map_of xs (numbered prefix i) = None" if "i < n" for i using new that by (auto simp: map_of_eq_None_iff nums_def)
  moreover have eq: "put_all d prefix [0..<n] (dmap d xs) = dmap d (ents prefix n @ xs)" by (simp add: put_all_ents ents_def)
  ultimately show ?thesis unfolding eq [symmetric]
    by (intro st_lift createn_rg [OF owner_alone]) (use s numbers_okD [OF n] in \<open>auto simp: setting_def\<close>)
qed

lemma t_checkn:
  assumes s: "setting E U D d ds" "dp \<in> ds" and n: "numbers_ok E U d prefix n"
    and old: "\<And>i. i < n \<Longrightarrow> map_of xs (numbered prefix i) = Some (int_bytes (int i))"
  shows "hoare E p (std E p U D d out xs) (checkn prog dp prefix n) (std E p U D d out xs)"
proof (rule st_lift, rule checkn_rg [OF owner_alone, where d = d])
  have "n \<le> 1000" using n by (simp add: numbers_ok_def)
  then show "i < 2 ^ 31 \<and> tname E (numbered prefix i) \<and> (d, numbered prefix i) \<in> {d} \<times> UNIV \<and>
      dmap d xs (d, numbered prefix i) = Some (int_bytes (int i))" if "i < n" for i
    using old numbers_okD [OF n] s that by (auto simp: setting_def)
qed (use s in \<open>auto simp: setting_def\<close>)

lemma t_unlinkn:
  assumes s: "setting E U D d ds" "dp \<in> ds" and n: "numbers_ok E U d prefix n" and old: "nums prefix n \<subseteq> fst ` set xs"
  shows "hoare E p (std E p U D d out xs) (unlinkn prog dp prefix n) (std E p U D d out (delete (nums prefix n) xs))"
proof -
  have eq: "drop_all d prefix [0..<n] (dmap d xs) = dmap d (delete (nums prefix n) xs)"
    by (simp add: drop_all_delete nums_def atLeast0LessThan)
  have "map_of xs (numbered prefix i) \<noteq> None" if "i < n" for i using old that by (auto simp: map_of_eq_None_iff nums_def)
  then show ?thesis unfolding eq [symmetric]
    by (intro st_lift unlinkn_rg [OF owner_alone]) (use s numbers_okD [OF n] in \<open>auto simp: setting_def\<close>)
qed

lemma t_dircheck:
  assumes s: "setting E U D d ds" "dp \<in> ds" and xs: "distinct (map fst xs)" "\<forall>e\<in>set xs. \<not> dotted (fst e)" and n: "length xs = n" "n \<le> 1000"
  shows "hoare E p (std E p U D d out xs) (dircheck prog dp n) (std E p U D d out xs)"
  unfolding hoare_def
proof (intro allI impI)
  fix a
  assume a: "std E p U D d out xs a"
  have "{f. p_files a (d, f) \<noteq> None \<and> \<not> dotted f} = fst ` set xs"
    using a xs(2) by (auto simp: st_def loc_def map_of_eq_None_iff dest: map_of_SomeD)
  moreover have "card (fst ` set xs) = n" using distinct_card [OF xs(1)] n(1) by simp
  ultimately have "rg E p (=) (\<lambda>_ _. True) (dircheck prog dp n) (\<lambda>_. (=) a) a"
    using a s n by (intro dircheck_rg [where d = d]) (auto simp: reflp_def transp_def st_def loc_def setting_def)
  then show "rg E p (=) (\<lambda>_ _. True) (dircheck prog dp n) (\<lambda>_. std E p U D d out xs) a"
    by (rule rg_mono) (use a in simp)
qed

section \<open>The sequential tests\<close>

text \<open>The files that the tests use.\<close>

definition test_names :: "string set" where
  "test_names = {''f1'', ''fx1'', ''f2'', ''f3'', ''fx2'', ''bf'', ''www''} \<union> nums ''aa'' 10 \<union> nums ''bb'' 10 \<union>
     nums ''xx'' 10 \<union> nums ''yy'' 10 \<union> nums ''zz'' 10 \<union> nums ''x1'' 5 \<union> nums ''x2'' 5 \<union> nums ''x3'' 5 \<union> nums ''x4'' 5"

definition arena :: "posix_env \<Rightarrow> (string \<times> string) set \<Rightarrow> string set \<Rightarrow> string \<Rightarrow> string \<Rightarrow> string \<Rightarrow> bool" where
  "arena E U D d d1 d2 \<longleftrightarrow> setting E U D d {d1, d2} \<and> {d} \<times> test_names \<subseteq> U"

lemma arenaD:
  assumes "arena E U D d d1 d2"
  shows "setting E U D d {d1, d2}"
    and "length f < 8 \<Longrightarrow> f \<noteq> [] \<Longrightarrow> list_all (\<lambda>c. c \<notin> {CHR ''/'', CHR 0x00}) f \<Longrightarrow> hd f \<noteq> CHR ''.'' \<Longrightarrow> tname E f"
    and "f \<in> test_names \<Longrightarrow> (d, f) \<in> U"
  using assms by (auto simp: arena_def setting_def tname_def name_ok_def dotted_def list_all_iff)

lemma arena_numbers:
  assumes "arena E U D d d1 d2" and "nums prefix n \<subseteq> test_names" and "length prefix = 2" and "n \<le> 1000"
    and "list_all (\<lambda>c. c \<notin> {CHR ''/'', CHR 0x00}) prefix" and "hd prefix \<noteq> CHR ''.''"
  shows "numbers_ok E U d prefix n"
  using assms arenaD(2) [OF assms(1), of prefix] by (cases prefix) (auto simp: numbers_ok_def arena_def)

text \<open>One command in front of the rest of a test: its side conditions in one premise, to be evaluated.\<close>

lemma chain:
  assumes s: "arena E U D d d1 d2"
  shows chain_Nil: "out = out' \<and> xs = xs' \<Longrightarrow> hoare E p (std E p U D d out xs) (seqP []) (std E p U D d out' xs')"
    and chain_printf: "True \<Longrightarrow> hoare E p (std E p U D d (out @ t) xs) (seqP ms) P \<Longrightarrow> hoare E p (std E p U D d out xs) (seqP (printf t # ms)) P"
    and chain_create1: "dp \<in> {d1, d2} \<and> tname E f \<and> (d, f) \<in> U \<and> map_of xs f = None \<and> length c \<le> 131072 \<Longrightarrow>
      hoare E p (std E p U D d out ((f, c) # xs)) (seqP ms) P \<Longrightarrow> hoare E p (std E p U D d out xs) (seqP (create1 prog dp f c # ms)) P"
    and chain_check1: "dp \<in> {d1, d2} \<and> tname E f \<and> map_of xs f = Some c \<and> length c < n \<and> n \<le> 131072 \<Longrightarrow>
      hoare E p (std E p U D d out xs) (seqP ms) P \<Longrightarrow> hoare E p (std E p U D d out xs) (seqP (check1 n prog dp f c # ms)) P"
    and chain_unlink1: "dp \<in> {d1, d2} \<and> tname E f \<and> (d, f) \<in> U \<and> map_of xs f \<noteq> None \<and> xs' = delete {f} xs \<Longrightarrow>
      hoare E p (std E p U D d out xs') (seqP ms) P \<Longrightarrow> hoare E p (std E p U D d out xs) (seqP (unlink1 prog dp f # ms)) P"
    and chain_checknot: "dp \<in> {d1, d2} \<and> tname E f \<and> map_of xs f = None \<Longrightarrow>
      hoare E p (std E p U D d out xs) (seqP ms) P \<Longrightarrow> hoare E p (std E p U D d out xs) (seqP (checknot prog dp f # ms)) P"
    and chain_append1: "dp \<in> {d1, d2} \<and> tname E f \<and> (d, f) \<in> U \<and> length c + length t \<le> 131072 \<and> c \<noteq> [] \<and> c' = c @ t \<Longrightarrow>
      hoare E p (std E p U D d out ((f, c') # xs)) (seqP ms) P \<Longrightarrow>
      hoare E p (std E p U D d out ((f, c) # xs)) (seqP (append1 prog dp f t # ms)) P"
    and chain_dircheck: "dp \<in> {d1, d2} \<and> distinct (map fst xs) \<and> (\<forall>e\<in>set xs. \<not> dotted (fst e)) \<and> length xs = n \<and> n \<le> 1000 \<Longrightarrow>
      hoare E p (std E p U D d out xs) (seqP ms) P \<Longrightarrow> hoare E p (std E p U D d out xs) (seqP (dircheck prog dp n # ms)) P"
    and chain_createn: "dp \<in> {d1, d2} \<and> numbers_ok E U d prefix n \<and> nums prefix n \<inter> fst ` set xs = {} \<Longrightarrow>
      hoare E p (std E p U D d out (ents prefix n @ xs)) (seqP ms) P \<Longrightarrow>
      hoare E p (std E p U D d out xs) (seqP (createn prog dp prefix n dup # ms)) P"
    and chain_checkn: "dp \<in> {d1, d2} \<and> numbers_ok E U d prefix n \<and> (\<forall>i<n. map_of xs (numbered prefix i) = Some (int_bytes (int i))) \<Longrightarrow>
      hoare E p (std E p U D d out xs) (seqP ms) P \<Longrightarrow> hoare E p (std E p U D d out xs) (seqP (checkn prog dp prefix n # ms)) P"
    and chain_unlinkn: "dp \<in> {d1, d2} \<and> numbers_ok E U d prefix n \<and> nums prefix n \<subseteq> fst ` set xs \<and> xs' = delete (nums prefix n) xs \<Longrightarrow>
      hoare E p (std E p U D d out xs') (seqP ms) P \<Longrightarrow> hoare E p (std E p U D d out xs) (seqP (unlinkn prog dp prefix n # ms)) P"
    and chain_checkread: "dp \<in> {d1, d2} \<and> tname E f \<and> map_of xs f = Some c \<and> n + m \<le> length c \<and> n + m \<le> 131072 \<and>
        (\<forall>i. n \<le> i \<longrightarrow> i < n + m \<longrightarrow> c ! i = ch) \<Longrightarrow>
      hoare E p (std E p U D d out xs) (seqP ms) P \<Longrightarrow> hoare E p (std E p U D d out xs) (seqP (checkread prog dp f n m ch # ms)) P"
  using arenaD(1) [OF s]
  by (blast intro: hoare_Nil hoare_Cons hoare_printf t_create1 t_check1 t_unlink1 t_checknot t_append1 t_dircheck t_createn t_checkn t_unlinkn t_checkread)+

lemmas chains = chain_printf chain_create1 chain_check1 chain_unlink1 chain_checknot chain_append1 chain_dircheck
  chain_createn chain_checkn chain_unlinkn chain_checkread

lemma create_read_passes:
  assumes s: "arena E U D d d1 d2"
  shows "hoare E p (std E p U D d out []) (seqP (test_create_read prog d1 d2))
    (std E p U D d (out @ ''Create then read: OK\<newline>'') [(''f1'', ''aaa'')])"
  unfolding test_create_read_def
  by (rule chains [OF s] chain_Nil [OF s], force simp: test_names_def arenaD(2,3) [OF s])+

lemma unlink_passes:
  assumes s: "arena E U D d d1 d2"
  shows "hoare E p (std E p U D d out [(''f1'', ''aaa'')]) (seqP (test_unlink prog d1 d2)) (std E p U D d (out @ ''Unlink: OK\<newline>'') [])"
  unfolding test_unlink_def
  by (rule chains [OF s] chain_Nil [OF s], force simp: test_names_def delete_def arenaD(2,3) [OF s])+

lemma append_passes:
  assumes s: "arena E U D d d1 d2"
  shows "hoare E p (std E p U D d out []) (seqP (test_append prog d1 d2))
    (std E p U D d (out @ ''Append: OK\<newline>'') [(''f1'', ''aaabbbccc'')])"
  unfolding test_append_def
  by (rule chains [OF s] chain_Nil [OF s], force simp: test_names_def arenaD(2,3) [OF s])+

lemma readdir_passes:
  assumes s: "arena E U D d d1 d2"
  shows "hoare E p (std E p U D d out [(''f1'', ''aaabbbccc'')]) (seqP (test_readdir prog d1 d2))
    (std E p U D d (out @ ''Readdir: OK\<newline>'') [])"
  unfolding test_readdir_def
  by (rule chains [OF s] chain_Nil [OF s], force simp: test_names_def delete_def dotted_def arenaD(2,3) [OF s])+

lemma write_big_passes:
  assumes s: "arena E U D d d1 d2"
  shows "hoare E p (std E p U D d out []) (seqP (test_write_big prog d1 d2)) (std E p U D d (out @ ''Write 20000 bytes: OK\<newline>'') [])"
  unfolding test_write_big_def
  by (rule chains [OF s] chain_Nil [OF s], force simp: test_names_def big_def delete_def arenaD(2,3) [OF s])+

text \<open>Evaluation of directories made of numbered files.\<close>

lemma map_of_ents_append:
  "i < n \<Longrightarrow> map_of (ents pre n @ xs) (numbered pre i) = Some (int_bytes (int i))"
  "length pre = length pre' \<Longrightarrow> pre \<noteq> pre' \<Longrightarrow> map_of (ents pre' n @ xs) (numbered pre i) = map_of xs (numbered pre i)"
proof -
  show "map_of (ents pre n @ xs) (numbered pre i) = Some (int_bytes (int i))" if "i < n"
    using map_of_ents [OF that] by (simp add: map_add_def)
  show "map_of (ents pre' n @ xs) (numbered pre i) = map_of xs (numbered pre i)" if "length pre = length pre'" "pre \<noteq> pre'"
  proof -
    have "numbered pre i \<notin> nums pre' n" using numbered_clash [OF that, of i] by (auto simp: nums_def)
    from map_of_ents_None [OF this] show ?thesis by (simp add: map_add_def)
  qed
qed

lemma dotted_Cons: "dotted (c # cs) \<longleftrightarrow> c = CHR ''.''"
  by (simp add: dotted_def)

lemma ents_not_dotted: "pre \<noteq> [] \<Longrightarrow> \<not> dotted pre \<Longrightarrow> (\<forall>e\<in>set (ents pre n). \<not> dotted (fst e))"
  by (auto simp: ents_def dotted_def numbered_def)

lemma ents_set_fst: "fst ` (set (ents pre n) \<union> S) = nums pre n \<union> fst ` S" "fst ` set (ents pre n) = nums pre n"
  by (simp_all add: image_Un ents_fst)

lemma ents_ball: "pre \<noteq> [] \<Longrightarrow> \<not> dotted pre \<Longrightarrow>
    (\<forall>e\<in>set (ents pre n) \<union> S. \<not> dotted (fst e)) \<longleftrightarrow> (\<forall>e\<in>S. \<not> dotted (fst e))"
  "pre \<noteq> [] \<Longrightarrow> \<not> dotted pre \<Longrightarrow> (\<forall>e\<in>set (ents pre n). \<not> dotted (fst e)) = True"
  using ents_not_dotted by blast+

lemmas ents_simps = map_of_ents_append map_of_ents_append(1) [where xs = "[]", simplified] ents_set_fst ents_fst ents_ball
  delete_ents delete_ents(1) [where xs = "[]", simplified] delete_ents(2) [where xs = "[]", simplified] nums_clash Int_Un_distrib

lemma arena_pre:
  assumes "arena E U D d d1 d2" and "(prefix, n) \<in> {(''aa'', 10), (''bb'', 10), (''xx'', 10), (''yy'', 10), (''zz'', 10),
     (''x1'', 5), (''x2'', 5), (''x3'', 5), (''x4'', 5)}"
  shows "numbers_ok E U d prefix n"
  by (rule arena_numbers [OF assms(1)]) (use assms(2) in \<open>auto simp: test_names_def\<close>)

lemma many_creates_passes:
  assumes s: "arena E U D d d1 d2"
  shows "hoare E p (std E p U D d out []) (seqP (test_many_creates prog d1 d2))
    (std E p U D d (out @ ''Many sequential creates: OK\<newline>'') [])"
  unfolding test_many_creates_def
  by (rule chains [OF s] chain_Nil [OF s], simp add: arena_pre [OF s] ents_simps dotted_Cons del: map_of_append)+

section \<open>The start of a tester\<close>

text \<open>
  A process \<open>p\<close> that may run a tester: the two directories it is given are mount points of the file
  system with short paths, nothing is open, the directory it will make is not there, and \<open>n\<close> more files
  and directories fit.
\<close>

definition starts :: "posix_env \<Rightarrow> nat \<Rightarrow> string \<Rightarrow> string \<Rightarrow> string list \<Rightarrow> nat \<Rightarrow> pworld \<Rightarrow> bool" where
  "starts E p m1 m2 ds n a \<longleftrightarrow> p \<in> p_pids a \<and> p_fds a = (\<lambda>_. Map.empty) \<and> p_out a = [] \<and> p < 10 ^ 9 \<and>
     {m1, m2} \<subseteq> set (mounts E) \<and> length m1 \<le> 400 \<and> length m2 \<le> 400 \<and> 16 \<le> name_max E \<and> 131072 \<le> max_size E \<and>
     (\<forall>d\<in>set ds. d @ decimal p \<notin> p_dirs a) \<and> finite (dom (p_files a)) \<and> finite (p_dirs a) \<and>
     card (dom (p_files a)) + card (p_dirs a) + n \<le> max_files E"

lemma pid_name:
  assumes "p < 10 ^ 9" and "16 \<le> name_max E" and "d = ''d'' \<or> d = ''da'' \<or> d = ''db''"
  shows "name_ok E (d @ decimal p)" and "length (d @ decimal p) \<le> 11"
proof -
  have "length (decimal p) \<le> 9" using length_decimal [of p 9] assms(1) by simp
  then show "name_ok E (d @ decimal p)" "length (d @ decimal p) \<le> 11"
    using decimal_digits [of "CHR ''/''" p] decimal_digits [of "CHR 0x00" p] assms(2,3) by (auto simp: name_ok_def is_digit_def)
qed

lemma dpath_pid:
  assumes "m \<in> set (mounts E)" and "length m \<le> 400" and "p < 10 ^ 9" and "16 \<le> name_max E" and "d = ''d'' \<or> d = ''da'' \<or> d = ''db''"
    and "d @ decimal p \<in> D"
  shows "dpath E D (m @ ''/'' @ d @ decimal p) (d @ decimal p)"
  using dpathI [OF assms(1) pid_name(1) [OF assms(3-5)] assms(6)] pid_name(2) [OF assms(3-5)] assms(2) by simp

lemma card_test_names: "finite test_names" "card test_names \<le> 77"
proof -
  let ?l = "[''f1'', ''fx1'', ''f2'', ''f3'', ''fx2'', ''bf'', ''www''] @
    concat (map (\<lambda>p. map (numbered p) [0..<10]) [''aa'', ''bb'', ''xx'', ''yy'', ''zz'']) @
    concat (map (\<lambda>p. map (numbered p) [0..<5]) [''x1'', ''x2'', ''x3'', ''x4''])"
  have l: "test_names = set ?l" by (simp add: test_names_def nums_def atLeast0LessThan Un_ac insert_commute)
  show "finite test_names" unfolding l by simp
  have "length ?l = 77" by simp
  then show "card test_names \<le> 77" unfolding l using card_length [of ?l] by linarith
qed

text \<open>The world after \<^verbatim>\<open>mkdir\<close>: what a process that owns the new directory knows.\<close>

definition made :: "string \<Rightarrow> pworld \<Rightarrow> pworld" where
  "made d a = a\<lparr>p_dirs := insert d (p_dirs a), p_files := (\<lambda>x. if fst x = d then None else p_files a x)\<rparr>"

lemma made_dom: "dom (p_files (made d a)) \<subseteq> dom (p_files a)"
  by (auto simp: made_def split: if_splits)

lemma mkdir_rg:
  assumes dp: "dpath E (insert d D) dp d" and d: "d \<notin> p_dirs a" and fin: "finite (dom (p_files a))" "finite (p_dirs a)"
    and room: "card (dom (p_files a)) + card (p_dirs a) < max_files E"
    and k: "\<And>r. r_val r = 0 \<Longrightarrow> rg E p (=) (\<lambda>_ _. True) (k r) Q (made d a)"
  shows "rg E p (=) (\<lambda>_ _. True) (Syscall (Sys_mkdir dp) k) Q a"
  using assms by (auto simp: rg.simps dpath_def made_def)

lemma getpid_rg:
  "(\<And>r. r_val r = int p \<Longrightarrow> rg E p (=) (\<lambda>_ _. True) (k r) Q a) \<Longrightarrow> rg E p (=) (\<lambda>_ _. True) (Syscall Sys_getpid k) Q a"
  by (simp add: rg.simps)

lemma access_rg:
  "dpath E (p_dirs a) dp d \<Longrightarrow> (\<And>r. r_val r = 0 \<Longrightarrow> rg E p (=) (\<lambda>_ _. True) (k r) Q a) \<Longrightarrow>
     rg E p (=) (\<lambda>_ _. True) (Syscall (Sys_access dp) k) Q a"
  by (auto simp: rg.simps dpath_def)

text \<open>The arguments and the process number in the paths.\<close>

lemmas argv_simps = nth_Cons_0 nth_Cons_Suc One_nat_def numeral_2_eq_2 nat_int sprintf512_def if_True

lemma one_directory_rg:
  assumes s: "starts E p m1 m2 [''d''] 78 a"
  shows "rg E p (=) (\<lambda>_ _. True) (one_directory prog [argv0, m1, m2])
    (\<lambda>(d1, d2) b. \<exists>U D d. arena E U D d d1 d2 \<and> std E p U D d [] [] b) a"
proof -
  let ?d = "''d'' @ decimal p"
  let ?D = "insert ?d (p_dirs a)" and ?U = "dom (p_files a) \<union> {?d} \<times> test_names"
  have dp: "dpath E ?D (m1 @ ''/'' @ ?d) ?d" "dpath E ?D (m2 @ ''/'' @ ?d) ?d"
    by (rule dpath_pid; use s in \<open>simp add: starts_def\<close>)+
  then have len: "length (m1 @ ''/'' @ ?d) < 512" "length (m2 @ ''/'' @ ?d) < 512" by (simp_all add: dpath_def)
  have U: "finite ?U" "card ?U \<le> card (dom (p_files a)) + 77"
    using card_test_names s card_Un_le [of "dom (p_files a)" "{?d} \<times> test_names"] by (auto simp: starts_def card_cartesian_product)
  have "std E p ?U ?D ?d [] [] (made ?d a)"
    using s U made_dom [of ?d a] by (auto simp: starts_def st_def loc_def made_def dmap_def card_insert_if)
  moreover have "arena E ?U ?D ?d (m1 @ ''/'' @ ?d) (m2 @ ''/'' @ ?d)" using dp s by (simp add: arena_def setting_def starts_def)
  ultimately have fin: "rg E p (=) (\<lambda>_ _. True) (Return (m1 @ ''/'' @ ?d, m2 @ ''/'' @ ?d))
      (\<lambda>(d1, d2) b. \<exists>U D d. arena E U D d d1 d2 \<and> std E p U D d [] [] b) (made ?d a)" by (auto simp: rg.simps)
  have dirs: "p_dirs (made ?d a) = ?D" by (simp add: made_def)
  have argc: "\<not> length [argv0, m1, m2] \<noteq> 3" by simp
  show ?thesis unfolding one_directory_def if_not_P [OF argc]
    apply (rule getpid_rg, simp only: argv_simps len, rule mkdir_rg [OF dp(1)])
        apply (use s in \<open>simp_all add: starts_def\<close>)[4]
    apply (simp only: simp_thms if_False, rule getpid_rg, simp only: argv_simps len, rule access_rg, simp only: dirs, rule dp(2))
    apply (simp only: simp_thms if_False, rule fin)
    done
qed

end
