(* ===== verification/Test_Conc.thy ===== *)
theory Test_Conc
  imports Test_Seq
begin

text \<open>
  The tests that fork. A step of a tester from one abstract state to another is lifted from triples to
  all runs of the machine; a test with a child is such a step when parent and child keep out of each
  other's way: they use different files, or the same files in compatible ways.
\<close>

section \<open>Steps of a tester\<close>

definition runs :: "'w kernel \<Rightarrow> ('w \<Rightarrow> pworld \<Rightarrow> bool) \<Rightarrow> nat \<Rightarrow> (pworld \<Rightarrow> bool) \<Rightarrow> unit prog \<Rightarrow> (pworld \<Rightarrow> bool) \<Rightarrow> bool" where
  "runs K Rel p P m P' \<longleftrightarrow> (\<forall>F f a w. P a \<longrightarrow> Rel w a \<longrightarrow>
     (\<forall>b w. P' b \<longrightarrow> Rel w b \<longrightarrow> inevitably (kstep K) F (alone p (f ()) w)) \<longrightarrow>
     inevitably (kstep K) F (alone p (bindP m f) w))"

lemma runsI:
  assumes "\<And>F f a w. P a \<Longrightarrow> Rel w a \<Longrightarrow>
    (\<And>b w. P' b \<Longrightarrow> Rel w b \<Longrightarrow> inevitably (kstep K) F (alone p (f ()) w)) \<Longrightarrow> inevitably (kstep K) F (alone p (bindP m f) w)"
  shows "runs K Rel p P m P'"
  using assms unfolding runs_def by blast

lemma runsD:
  assumes "runs K Rel p P m P'" and "P a" and "Rel w a"
    and "\<And>b w. P' b \<Longrightarrow> Rel w b \<Longrightarrow> inevitably (kstep K) F (alone p (f ()) w)"
  shows "inevitably (kstep K) F (alone p (bindP m f) w)"
  using assms unfolding runs_def by blast

lemma runs_Cons:
  assumes "runs K Rel p P m P1" and "runs K Rel p P1 (seqP ms) P2"
  shows "runs K Rel p P (seqP (m # ms)) P2"
proof (rule runsI)
  fix F f a w
  assume 1: "P a" "Rel w a" and f: "\<And>b w. P2 b \<Longrightarrow> Rel w b \<Longrightarrow> inevitably (kstep K) F (alone p (f ()) w)"
  show "inevitably (kstep K) F (alone p (bindP (seqP (m # ms)) f) w)" unfolding seqP.simps bindP_assoc
    by (rule runsD [OF assms(1) 1]) (rule runsD [OF assms(2)], assumption+, rule f)
qed

lemma runs_append:
  assumes "runs K Rel p P (seqP ms) P1" and "runs K Rel p P1 (seqP ns) P2"
  shows "runs K Rel p P (seqP (ms @ ns)) P2"
proof (rule runsI)
  fix F f a w
  assume 1: "P a" "Rel w a" and f: "\<And>b w. P2 b \<Longrightarrow> Rel w b \<Longrightarrow> inevitably (kstep K) F (alone p (f ()) w)"
  show "inevitably (kstep K) F (alone p (bindP (seqP (ms @ ns)) f) w)" unfolding seqP_append bindP_assoc
    by (rule runsD [OF assms(1) 1]) (rule runsD [OF assms(2)], assumption+, rule f)
qed

context posix_kernel
begin

lemma hoare_runs: "hoare E p P m P' \<Longrightarrow> runs K Rel p P m P'"
proof (rule runsI)
  fix F f a w
  assume h: "hoare E p P m P'" "P a" and w: "Rel w a"
    and f: "\<And>b w. P' b \<Longrightarrow> Rel w b \<Longrightarrow> inevitably (kstep K) F (alone p (f ()) w)"
  have "rg E p (=) (\<lambda>_ _. True) m (\<lambda>_. P') a" using h by (simp add: hoare_def)
  from inev_seq [OF this w] f show "inevitably (kstep K) F (alone p (bindP m f) w)" by simp
qed

text \<open>A child next to its parent, which waits for it.\<close>

lemma fork_runs:
  assumes par: "\<And>a q. P a \<Longrightarrow> 0 < q \<Longrightarrow> q \<notin> p_pids a \<Longrightarrow>
      \<exists>RP GP RC GC QP QC. rg_fit p q RP GP RC GC QC \<and>
        rg E p RP GP m QP (a\<lparr>p_pids := insert q (p_pids a), p_fds := (p_fds a)(q := p_fds a p)\<rparr>) \<and>
        rg E q RC GC h QC (a\<lparr>p_pids := insert q (p_pids a), p_fds := (p_fds a)(q := p_fds a p)\<rparr>) \<and>
        (\<forall>b. QP () b \<and> QC () b \<longrightarrow> P' (b\<lparr>p_pids := p_pids b - {q}\<rparr>))"
  shows "runs K Rel p P (fork_test prog h (\<lambda>pid. bindP m (\<lambda>_. reap prog pid))) P'"
proof (rule runsI)
  fix F f a w
  assume a: "P a" "Rel w a" and f: "\<And>b w. P' b \<Longrightarrow> Rel w b \<Longrightarrow> inevitably (kstep K) F (alone p (f ()) w)"
  let ?k = "\<lambda>pid. bindP (if pid < 0 then Syscall (Sys_eprintf (prog @ '': fork'')) (\<lambda>_. Exit_with 1)
     else if pid = 0 then bindP h (\<lambda>_. Exit_with 0) else bindP m (\<lambda>_. reap prog pid)) f"
  have "inevitably (kstep K) F (alone p (Fork ?k) w)"
  proof (rule inev_fork [OF a(2)])
    fix v w'
    assume v: "0 < v" "nat v \<notin> p_pids a"
      and w': "Rel w' (a\<lparr>p_pids := insert (nat v) (p_pids a), p_fds := (p_fds a)(nat v := p_fds a p)\<rparr>)"
    let ?after = "\<lambda>(wpid, status). bindP (if wpid < 0 then Syscall (Sys_eprintf ''waitpid'') (\<lambda>_. Exit_with 1)
       else if wpid \<noteq> v then Syscall (Sys_eprintf (''unexpected pid reaped'')) (\<lambda>_. Exit_with 1)
       else if status \<noteq> 0 then Syscall (Sys_eprintf ''child exited unhappily'') (\<lambda>_. Exit_with 1) else Return ()) f"
    have parent: "?k v = then_wait (nat v) ?after m"
      using v(1) by (simp add: bindP_assoc reap_def then_wait_def case_prod_unfold)
    have child: "?k 0 = bindP h (\<lambda>_. Exit_with 0)" by (simp add: bindP_assoc)
    from v(1) have "0 < nat v" by simp
    from par [OF a(1) this v(2)] obtain RP GP RC GC QP QC where fit: "rg_fit p (nat v) RP GP RC GC QC"
      and m: "rg E p RP GP m QP (a\<lparr>p_pids := insert (nat v) (p_pids a), p_fds := (p_fds a)(nat v := p_fds a p)\<rparr>)"
      and h: "rg E (nat v) RC GC h QC (a\<lparr>p_pids := insert (nat v) (p_pids a), p_fds := (p_fds a)(nat v := p_fds a p)\<rparr>)"
      and P': "\<And>b. QP () b \<Longrightarrow> QC () b \<Longrightarrow> P' (b\<lparr>p_pids := p_pids b - {nat v}\<rparr>)" by blast
    show "inevitably (kstep K) F (both p (?k v) (nat v) (Run (?k 0)) w')" unfolding parent child
    proof (rule inev_par [OF m h w' fit])
      fix b u
      assume "QP () b" "QC () b" "Rel u b"
      then show "inevitably (kstep K) F (alone p (?after (int (nat v), 0)) (k_reap K (nat v) u))"
        using v(1) by (auto intro: f [OF P' reap_law])
    qed
  qed
  then show "inevitably (kstep K) F (alone p (bindP (fork_test prog h (\<lambda>pid. bindP m (\<lambda>_. reap prog pid))) f) w)"
    by (simp add: fork_test_def)
qed

end

section \<open>Parent and child with files of their own\<close>

text \<open>What a program does to the files it owns, for every process and every rely that respects them.\<close>

definition does :: "posix_env \<Rightarrow> (string \<times> string) set \<Rightarrow> (string \<times> string) set \<Rightarrow> string set \<Rightarrow> (string \<times> string \<rightharpoonup> string) \<Rightarrow>
    unit prog \<Rightarrow> (string \<times> string \<rightharpoonup> string) \<Rightarrow> bool" where
  "does E N U D fs m fs' \<longleftrightarrow> (\<forall>p R G a. owner p N U R G \<longrightarrow> loc E p N U D Map.empty fs a \<longrightarrow>
     rg E p R G m (\<lambda>_. loc E p N U D Map.empty fs') a)"

lemma doesD: "does E N U D fs m fs' \<Longrightarrow> owner p N U R G \<Longrightarrow> loc E p N U D Map.empty fs a \<Longrightarrow>
    rg E p R G m (\<lambda>_. loc E p N U D Map.empty fs') a"
  by (simp add: does_def)

lemma does_Nil: "does E N U D fs (seqP []) fs"
  by (simp add: does_def rg_loc_Return)

lemma does_Cons: "does E N U D fs m gs \<Longrightarrow> does E N U D gs (seqP ms) hs \<Longrightarrow> does E N U D fs (seqP (m # ms)) hs"
  unfolding does_def[of E N U D fs "seqP (m # ms)"]
  by (intro allI impI, rule rg_seqP_Cons [OF doesD]) (auto simp: owner_def intro: doesD)

lemma does_sleep: "does E N U D fs (sleep n) fs"
  unfolding does_def by (intro allI impI, rule rg_sleep) (auto intro: rg_loc_Return)

lemma does_createn:
  assumes "setting E U D d ds" "dp \<in> ds" "numbers_ok E U d prefix n" "{d} \<times> nums prefix n \<subseteq> N" "nums prefix n \<inter> fst ` set xs = {}"
  shows "does E N U D (dmap d xs) (createn prog dp prefix n dup) (dmap d (ents prefix n @ xs))"
proof -
  have eq: "put_all d prefix [0..<n] (dmap d xs) = dmap d (ents prefix n @ xs)" by (simp add: put_all_ents ents_def)
  have "map_of xs (numbered prefix i) = None" if "i < n" for i using assms(5) that by (auto simp: map_of_eq_None_iff nums_def)
  then show ?thesis unfolding does_def eq [symmetric] using numbers_okD [OF assms(3)] assms(1,2,4)
    by (intro allI impI createn_rg) (auto simp: setting_def nums_def)
qed

lemma does_unlinkn:
  assumes "setting E U D d ds" "dp \<in> ds" "numbers_ok E U d prefix n" "{d} \<times> nums prefix n \<subseteq> N" "nums prefix n \<subseteq> fst ` set xs"
  shows "does E N U D (dmap d xs) (unlinkn prog dp prefix n) (dmap d (delete (nums prefix n) xs))"
proof -
  have eq: "drop_all d prefix [0..<n] (dmap d xs) = dmap d (delete (nums prefix n) xs)"
    by (simp add: drop_all_delete nums_def atLeast0LessThan)
  have "map_of xs (numbered prefix i) \<noteq> None" if "i < n" for i using assms(5) that by (auto simp: map_of_eq_None_iff nums_def)
  then show ?thesis unfolding does_def eq [symmetric] using numbers_okD [OF assms(3)] assms(1,2,4)
    by (intro allI impI unlinkn_rg) (auto simp: setting_def nums_def)
qed

definition framed :: "nat \<Rightarrow> nat \<Rightarrow> prel" where
  "framed p q a b \<longleftrightarrow> p_out b = p_out a \<and> p_pids b = p_pids a \<and> (\<forall>r. r \<noteq> p \<and> r \<noteq> q \<longrightarrow> p_fds b r = p_fds a r)"

lemma framed_preorder: "reflp (framed p q)" "transp (framed p q)"
  unfolding reflp_def transp_def framed_def by auto

lemma seqP_snoc: "seqP (ms @ [m]) = bindP (seqP ms) (\<lambda>_. m)"
  by (simp add: seqP_append)

text \<open>The worlds of the two processes put together again.\<close>

lemma joined_st:
  assumes a: "st E p N U D out fs a" and q: "p \<noteq> q" "q \<notin> p_pids a"
    and b: "framed p q (a\<lparr>p_pids := insert q (p_pids a), p_fds := F\<rparr>) b" "\<And>r. r \<noteq> p \<Longrightarrow> r \<noteq> q \<Longrightarrow> F r = Map.empty"
    and fds: "p_fds b p = Map.empty" "p_fds b q = Map.empty"
    and l: "\<And>x. x \<in> N \<Longrightarrow> p_files b x = fs' x" "dom (p_files b) \<subseteq> U" "p_dirs b = D"
  shows "st E p N U D out fs' (b\<lparr>p_pids := p_pids b - {q}\<rparr>)"
proof -
  have "p_fds b r = Map.empty" for r using fds b by (cases "r = p"; cases "r = q") (auto simp: framed_def)
  then have "p_fds b = (\<lambda>_. Map.empty)" by blast
  then show ?thesis using a q b(1) l by (auto simp: st_def loc_def framed_def)
qed

context posix_kernel
begin

lemma disjoint_runs:
  assumes m: "does E NP U D fs m fsP" and h: "does E NC U D fs h fsC" and N: "NP \<inter> NC = {}"
  shows "runs K Rel p (st E p (NP \<union> NC) U D out fs) (fork_test prog h (\<lambda>pid. bindP m (\<lambda>_. reap prog pid)))
    (st E p (NP \<union> NC) U D out (\<lambda>x. if x \<in> NC then fsC x else fsP x))"
proof (rule fork_runs)
  fix a q
  assume a: "st E p (NP \<union> NC) U D out fs a" and q: "0 < q" "q \<notin> p_pids a"
  let ?a = "a\<lparr>p_pids := insert q (p_pids a), p_fds := (p_fds a)(q := p_fds a p)\<rparr>"
  let ?RP = "\<lambda>a b. keeps p NP U a b \<and> framed p q a b" and ?RC = "\<lambda>a b. keeps q NC U a b \<and> framed p q a b"
  let ?QP = "\<lambda>(_ :: unit) b. loc E p NP U D Map.empty fsP b \<and> framed p q ?a b"
  let ?QC = "\<lambda>(_ :: unit) b. loc E q NC U D Map.empty fsC b"
  have pq: "p \<noteq> q" using a q(2) by (auto simp: st_def)
  have tp: "touches p NP U x y \<Longrightarrow> framed p q x y" and tq: "touches q NC U x y \<Longrightarrow> framed p q x y" for x y
    using pq by (auto simp: touches_def framed_def)
  have ownP: "owner p NP U ?RP (touches p NP U)" and ownC: "owner q NC U ?RC (touches q NC U)"
    using reflpD [OF keeps_refl] reflpD [OF framed_preorder(1)] by (auto simp: owner_def reflp_def)
  have locs: "loc E p NP U D Map.empty fs ?a" "loc E q NC U D Map.empty fs ?a" using a pq by (auto simp: st_def loc_def)
  from rg_frame [OF doesD [OF m ownP locs(1)], of "framed p q", OF _ tp framed_preorder] have rgP: "rg E p ?RP (touches p NP U) m ?QP ?a" by simp
  have rgC: "rg E q ?RC (touches q NC U) h ?QC ?a" by (rule doesD [OF h ownC locs(2)])
  have fit: "rg_fit p q ?RP (touches p NP U) ?RC (touches q NC U) ?QC"
  proof -
    have "reflp ?RP" "transp ?RP" "reflp ?RC" "transp ?RC"
      using keeps_refl keeps_trans framed_preorder unfolding reflp_def transp_def by metis+
    moreover have "keeps q NC U x y" if "touches p NP U x y" for x y by (rule touches_keeps [OF that pq N])
    moreover have "keeps p NP U x y" if "touches q NC U x y" for x y
      by (rule touches_keeps [OF that]) (use pq N in auto)
    ultimately show ?thesis using pq q(1) tp tq by (auto simp: rg_fit_def loc_def)
  qed
  have "st E p (NP \<union> NC) U D out (\<lambda>x. if x \<in> NC then fsC x else fsP x) (b\<lparr>p_pids := p_pids b - {q}\<rparr>)"
    if "?QP () b" "?QC () b" for b
    by (rule joined_st [OF a pq q(2), where F = "(p_fds a)(q := p_fds a p)"]) (use that a in \<open>auto simp: loc_def st_def\<close>)
  with fit rgP rgC show "\<exists>RP GP RC GC QP QC. rg_fit p q RP GP RC GC QC \<and> rg E p RP GP m QP ?a \<and> rg E q RC GC h QC ?a \<and>
      (\<forall>b. QP () b \<and> QC () b \<longrightarrow> st E p (NP \<union> NC) U D out (\<lambda>x. if x \<in> NC then fsC x else fsP x) (b\<lparr>p_pids := p_pids b - {q}\<rparr>))"
    by blast
qed

end

lemma map_of_ents_if: "map_of (ents prefix n @ ys) f = (if f \<in> nums prefix n then map_of (ents prefix n) f else map_of ys f)"
proof (cases "f \<in> nums prefix n")
  case True
  then show ?thesis using map_of_ents by (fastforce simp: nums_def map_add_def)
next
  case False
  then show ?thesis using map_of_ents_None [OF False] by (simp add: map_add_def)
qed

lemma dmap_join:
  assumes "\<And>f. (if f \<in> S then map_of xs f else map_of ys f) = map_of zs f"
  shows "(\<lambda>x. if x \<in> {d} \<times> S then dmap d xs x else dmap d ys x) = dmap d zs"
proof
  fix x :: "string \<times> string"
  show "(if x \<in> {d} \<times> S then dmap d xs x else dmap d ys x) = dmap d zs x"
    using assms [of "snd x"] by (cases x) (auto simp: dmap_def split: if_splits)
qed

context posix_kernel
begin

text \<open>A child that owns the names \<open>S\<close> of the directory, and a parent that owns the others.\<close>

lemma split_runs:
  assumes m: "does E ({d} \<times> - S) U D (dmap d xs) m (dmap d ys)" and h: "does E ({d} \<times> S) U D (dmap d xs) h (dmap d zs)"
    and j: "\<And>f. (if f \<in> S then map_of zs f else map_of ys f) = map_of xs' f"
  shows "runs K Rel p (std E p U D d out xs) (fork_test prog h (\<lambda>pid. bindP m (\<lambda>_. reap prog pid))) (std E p U D d out xs')"
proof -
  have "({d} \<times> - S) \<union> ({d} \<times> S) = {d} \<times> UNIV" "({d} \<times> - S) \<inter> ({d} \<times> S) = {}" by auto
  with disjoint_runs [OF m h, of p out prog] show ?thesis by (simp only: dmap_join [OF j])
qed

lemma concurrent_creates_runs:
  assumes s: "arena E U D d d1 d2"
  shows "runs K Rel p (std E p U D d out []) (seqP (test_concurrent_creates prog d1 d2))
    (std E p U D d (out @ ''Concurrent creates: OK\<newline>'') [])"
proof -
  have par: "(\<lambda>pid. seqP [createn prog d1 ''yy'' 10 False, sleep 4, reap prog pid]) =
      (\<lambda>pid. bindP (seqP [createn prog d1 ''yy'' 10 False, sleep 4]) (\<lambda>_. reap prog pid))" by (simp add: bindP_assoc)
  have m: "does E ({d} \<times> - nums ''xx'' 10) U D (dmap d []) (seqP [createn prog d1 ''yy'' 10 False, sleep 4]) (dmap d (ents ''yy'' 10 @ []))"
    by (rule does_Cons [OF does_createn [OF arenaD(1) [OF s]] does_Cons [OF does_sleep does_Nil]])
       (use nums_clash [of "''yy''" "''xx''" 10 10] in \<open>auto simp: arena_pre [OF s]\<close>)
  have h: "does E ({d} \<times> nums ''xx'' 10) U D (dmap d []) (createn prog d2 ''xx'' 10 False) (dmap d (ents ''xx'' 10 @ []))"
    by (rule does_createn [OF arenaD(1) [OF s]]) (auto simp: arena_pre [OF s])
  have rest: "hoare E p (std E p U D d (out @ ''Concurrent creates: '') (ents ''xx'' 10 @ ents ''yy'' 10 @ []))
      (seqP [dircheck prog d1 20, checkn prog d1 ''xx'' 10, checkn prog d2 ''yy'' 10, unlinkn prog d1 ''xx'' 10,
        unlinkn prog d1 ''yy'' 10, printf ''OK\<newline>'']) (std E p U D d (out @ ''Concurrent creates: OK\<newline>'') [])"
    by (rule chains [OF s] chain_Nil [OF s], simp add: arena_pre [OF s] ents_simps dotted_Cons le_supI1 le_supI2 del: map_of_append)+
  show ?thesis unfolding test_concurrent_creates_def par
    by (rule runs_Cons [OF hoare_runs [OF hoare_printf] runs_Cons [OF split_runs [OF m h] hoare_runs [OF rest]]])
       (simp add: map_of_ents_if del: map_of_append append_Nil2)
qed

lemma create_delete_runs:
  assumes s: "arena E U D d d1 d2"
  shows "runs K Rel p (std E p U D d out []) (seqP (test_create_delete prog d1 d2))
    (std E p U D d (out @ ''Concurrent create/delete: OK\<newline>'') [])"
proof -
  let ?xs = "ents ''x2'' 5 @ ents ''x1'' 5 @ []" and ?S = "nums ''x1'' 5 \<union> nums ''x3'' 5"
  have par: "(\<lambda>pid. seqP [createn prog d1 ''x4'' 5 False, reap prog pid]) =
      (\<lambda>pid. bindP (seqP [createn prog d1 ''x4'' 5 False]) (\<lambda>_. reap prog pid))" by (simp add: bindP_assoc)
  have first: "hoare E p (std E p U D d (out @ ''Concurrent create/delete: '') [])
      (seqP [createn prog d1 ''x1'' 5 False, createn prog d2 ''x2'' 5 False]) (std E p U D d (out @ ''Concurrent create/delete: '') ?xs)"
    by (rule chains [OF s] chain_Nil [OF s], simp add: arena_pre [OF s] ents_simps del: map_of_append append_Nil2)+
  have m: "does E ({d} \<times> - ?S) U D (dmap d ?xs) (seqP [createn prog d1 ''x4'' 5 False]) (dmap d (ents ''x4'' 5 @ ?xs))"
  proof (rule does_Cons [OF does_createn [OF arenaD(1) [OF s]] does_Nil])
    have "nums ''x4'' 5 \<inter> nums ''x1'' 5 = {}" "nums ''x4'' 5 \<inter> nums ''x3'' 5 = {}" by (simp_all add: nums_clash)
    then show "{d} \<times> nums ''x4'' 5 \<subseteq> {d} \<times> - ?S" by blast
  qed (auto simp: arena_pre [OF s] ents_simps)
  have h: "does E ({d} \<times> ?S) U D (dmap d ?xs) (seqP [unlinkn prog d2 ''x1'' 5, createn prog d1 ''x3'' 5 False])
      (dmap d (ents ''x3'' 5 @ delete (nums ''x1'' 5) ?xs))"
    by (rule does_Cons [OF does_unlinkn [OF arenaD(1) [OF s]] does_Cons [OF does_createn [OF arenaD(1) [OF s]] does_Nil]])
       (auto simp: arena_pre [OF s] ents_simps)
  have rest: "hoare E p (std E p U D d (out @ ''Concurrent create/delete: '') (ents ''x3'' 5 @ ents ''x4'' 5 @ ents ''x2'' 5 @ []))
      (seqP [unlinkn prog d2 ''x2'' 5, unlinkn prog d2 ''x4'' 5, unlinkn prog d2 ''x3'' 5, dircheck prog d1 0, printf ''OK\<newline>''])
      (std E p U D d (out @ ''Concurrent create/delete: OK\<newline>'') [])"
    by (rule chains [OF s] chain_Nil [OF s], simp add: arena_pre [OF s] ents_simps dotted_Cons le_supI1 le_supI2 del: map_of_append)+
  have join: "(if f \<in> ?S then map_of (ents ''x3'' 5 @ delete (nums ''x1'' 5) ?xs) f else map_of (ents ''x4'' 5 @ ?xs) f) =
      map_of (ents ''x3'' 5 @ ents ''x4'' 5 @ ents ''x2'' 5 @ []) f" for f
  proof -
    have "nums ''x1'' 5 \<inter> nums ''x4'' 5 = {}" by (simp add: nums_clash)
    then have "f \<in> nums ''x1'' 5 \<Longrightarrow> f \<notin> nums ''x4'' 5" by blast
    then show ?thesis by (simp add: map_of_ents_if ents_simps del: map_of_append append_Nil2)
  qed
  show ?thesis unfolding test_create_delete_def par
    by (rule runs_Cons [OF hoare_runs [OF hoare_printf]], 
        rule runs_append [OF hoare_runs [OF first] runs_Cons [OF split_runs [OF m h join] hoare_runs [OF rest]], simplified append_Cons append_Nil])
qed

end

section \<open>Parent and child creating the same files\<close>

text \<open>
  Both processes create, fill and close the files \<open>prefix-0\<close>, \<open>prefix-1\<close>, ... A file that is there holds
  its number, or it is empty and one of the two has it open at offset 0 and is about to write.
\<close>

definition fresh_fd :: "string \<times> string \<Rightarrow> nat \<Rightarrow> ofile" where
  "fresh_fd x n = \<lparr>of_file = x, of_pos = n, of_flags = [O_WRONLY]\<rparr>"

definition zfile :: "nat set \<Rightarrow> string \<times> string \<Rightarrow> string \<Rightarrow> pworld \<Rightarrow> bool" where
  "zfile P x c b \<longleftrightarrow> p_files b x = None \<or> p_files b x = Some c \<or>
     p_files b x = Some [] \<and> (\<exists>r\<in>P. \<exists>fd. p_fds b r fd = Some (fresh_fd x 0))"

definition zinv :: "nat set \<Rightarrow> (string \<times> string) set \<Rightarrow> string set \<Rightarrow> string \<Rightarrow> string \<Rightarrow> nat \<Rightarrow> pworld \<Rightarrow> bool" where
  "zinv P U D d prefix n b \<longleftrightarrow> p_dirs b = D \<and> dom (p_files b) \<subseteq> U \<and> (\<forall>f. f \<notin> nums prefix n \<longrightarrow> p_files b (d, f) = None) \<and>
     (\<forall>i<n. zfile P (d, numbered prefix i) (int_bytes (int i)) b)"

definition zrel :: "nat \<Rightarrow> nat \<Rightarrow> (string \<times> string) set \<Rightarrow> string set \<Rightarrow> string \<Rightarrow> string \<Rightarrow> nat \<Rightarrow> prel" where
  "zrel p q U D d prefix n a b \<longleftrightarrow> p_fds b p = p_fds a p \<and> framed p q a b \<and> (zinv {p, q} U D d prefix n a \<longrightarrow> zinv {p, q} U D d prefix n b) \<and>
     (\<forall>f. p_files a (d, f) \<noteq> None \<longrightarrow> p_files b (d, f) \<noteq> None)"

lemma zrel_preorder: "reflp (zrel p q U D d prefix n)" "transp (zrel p q U D d prefix n)"
  using framed_preorder unfolding reflp_def transp_def zrel_def by metis+

text \<open>What process \<open>p\<close> knows: its descriptors, and that some of the files are there.\<close>

definition zst :: "nat \<Rightarrow> nat \<Rightarrow> (string \<times> string) set \<Rightarrow> string set \<Rightarrow> string \<Rightarrow> string \<Rightarrow> nat \<Rightarrow> (int \<rightharpoonup> ofile) \<Rightarrow> nat set \<Rightarrow> pworld \<Rightarrow> bool" where
  "zst p q U D d prefix n F js b \<longleftrightarrow> zinv {p, q} U D d prefix n b \<and> p_fds b p = F \<and> (\<forall>i\<in>js. p_files b (d, numbered prefix i) \<noteq> None)"

lemma zst_rely: "zst p q U D d prefix n F js a \<Longrightarrow> zrel p q U D d prefix n a b \<Longrightarrow> zst p q U D d prefix n F js b"
  unfolding zst_def zrel_def by blast

lemma zst_call:
  assumes l: "zst p q U D d prefix n F js a"
    and pre: "\<And>b. zst p q U D d prefix n F js b \<Longrightarrow> px_pre E p s b"
    and step: "\<And>b r c. zst p q U D d prefix n F js b \<Longrightarrow> px E p s b r c \<Longrightarrow>
      zrel q p U D d prefix n b c \<and> rg E p (zrel p q U D d prefix n) (zrel q p U D d prefix n) (k r) Q c"
  shows "rg E p (zrel p q U D d prefix n) (zrel q p U D d prefix n) (Syscall s k) Q a"
  using zst_rely [OF l] pre step unfolding rg.simps by blast

text \<open>A change of one file and of one's own descriptors keeps the invariant when the file ends up in order.\<close>

lemma zinv_step:
  assumes b: "zinv {p, q} U D d prefix n b" and pq: "p \<noteq> q" and i: "i < n" and x: "x = (d, numbered prefix i)" "x \<in> U"
    and own: "\<And>fd f. p_fds b p fd = Some f \<Longrightarrow> of_file f = x"
    and c: "p_files c = (p_files b)(x := v)" "p_fds c = (p_fds b)(p := F)" "p_dirs c = p_dirs b"
    and x': "zfile {p, q} x (int_bytes (int i)) c"
  shows "zinv {p, q} U D d prefix n c"
proof -
  have "zfile {p, q} (d, numbered prefix j) (int_bytes (int j)) c" if j: "j < n" "j \<noteq> i" for j
  proof -
    have ne: "(d, numbered prefix j) \<noteq> x" using j(2) x(1) by (simp add: numbered_inj)
    have "zfile {p, q} (d, numbered prefix j) (int_bytes (int j)) b" using b j(1) by (simp add: zinv_def)
    moreover have "r = q" if "r \<in> {p, q}" "p_fds b r fd = Some (fresh_fd (d, numbered prefix j) 0)" for r fd
      using own that ne by (fastforce simp: fresh_fd_def)
    ultimately show ?thesis using c ne pq unfolding zfile_def by (metis fun_upd_other insertI1 insertI2)
  qed
  moreover have "p_files c (d, f) = None" if "f \<notin> nums prefix n" for f
    using b c(1) that i x by (auto simp: zinv_def nums_def)
  moreover have "dom (p_files c) \<subseteq> U" using b c(1) x(2) by (auto simp: zinv_def split: if_splits)
  ultimately show ?thesis using b c(3) x x' unfolding zinv_def by metis
qed

lemma zrelI:
  assumes "zinv {p, q} U D d prefix n c" and "p_fds c = (p_fds b)(p := F)" and "p \<noteq> q" and "p_out c = p_out b" and "p_pids c = p_pids b"
    and "\<And>f. p_files b (d, f) \<noteq> None \<Longrightarrow> p_files c (d, f) \<noteq> None"
  shows "zrel q p U D d prefix n b c"
  using assms unfolding zrel_def framed_def by (auto simp: insert_commute)

lemma zst_room: "zst p q U D d prefix n F js b \<Longrightarrow> finite U \<Longrightarrow> finite D \<Longrightarrow> card U + card D \<le> max_files E \<Longrightarrow> x \<in> U \<Longrightarrow> room E x b"
  by (rule loc_room [where p = p and N = "{}" and U = U and D = D and F = "p_fds b p"]) (auto simp: zst_def zinv_def loc_def)

text \<open>The three calls for one file: \<^verbatim>\<open>creat\<close>, which the other process may have beaten, \<^verbatim>\<open>write\<close>, \<^verbatim>\<open>close\<close>.\<close>

lemma z_close:
  assumes pq: "p \<noteq> q" and i: "i < n" and xU: "(d, numbered prefix i) \<in> U"
    and a: "zst p q U D d prefix n [fd \<mapsto> fresh_fd (d, numbered prefix i) 4] js a"
    and k: "\<And>r c. r_val r = 0 \<Longrightarrow> zst p q U D d prefix n Map.empty js c \<Longrightarrow>
      rg E p (zrel p q U D d prefix n) (zrel q p U D d prefix n) (k r) Q c"
  shows "rg E p (zrel p q U D d prefix n) (zrel q p U D d prefix n) (Syscall (Sys_close fd) k) Q a"
proof (rule zst_call [OF a])
  let ?x = "(d, numbered prefix i)"
  fix b r c
  assume b: "zst p q U D d prefix n [fd \<mapsto> fresh_fd ?x 4] js b" and px: "px E p (Sys_close fd) b r c"
  have c: "p_files c = (p_files b)(?x := p_files b ?x)" "p_fds c = (p_fds b)(p := Map.empty)" "p_dirs c = p_dirs b" "r_val r = 0"
      "p_out c = p_out b" "p_pids c = p_pids b"
    using px b by (auto simp: set_fd_def zst_def)
  have "zfile {p, q} ?x (int_bytes (int i)) b" using b i by (simp add: zst_def zinv_def)
  then have "zfile {p, q} ?x (int_bytes (int i)) c"
    using b pq c(1,2) unfolding zst_def by (auto simp: zfile_def fresh_fd_def split: if_splits)
  moreover have "zinv {p, q} U D d prefix n b" "\<And>fd' f. p_fds b p fd' = Some f \<Longrightarrow> of_file f = ?x"
    using b by (auto simp: zst_def fresh_fd_def split: if_splits)
  ultimately have z: "zinv {p, q} U D d prefix n c" using zinv_step [OF _ pq i refl xU _ c(1-3)] by blast
  have "zst p q U D d prefix n Map.empty js c" using z c b by (auto simp: zst_def)
  from k [OF c(4) this] zrelI [OF z c(2) pq c(5,6)] c(1)
  show "zrel q p U D d prefix n b c \<and> rg E p (zrel p q U D d prefix n) (zrel q p U D d prefix n) (k r) Q c" by auto
qed (auto simp: zst_def)

lemma z_write:
  assumes pq: "p \<noteq> q" and i: "i < n" "i \<in> js" and xU: "(d, numbered prefix i) \<in> U" and sz: "4 \<le> max_size E"
    and a: "zst p q U D d prefix n [fd \<mapsto> fresh_fd (d, numbered prefix i) 0] js a"
    and k: "\<And>r c. r_val r = 4 \<Longrightarrow> zst p q U D d prefix n [fd \<mapsto> fresh_fd (d, numbered prefix i) 4] js c \<Longrightarrow>
      rg E p (zrel p q U D d prefix n) (zrel q p U D d prefix n) (k r) Q c"
  shows "rg E p (zrel p q U D d prefix n) (zrel q p U D d prefix n) (Syscall (Sys_write fd (int_bytes (int i))) k) Q a"
proof (rule zst_call [OF a])
  let ?x = "(d, numbered prefix i)" and ?st = "zst p q U D d prefix n"
  have ct: "p_files b ?x = Some [] \<or> p_files b ?x = Some (int_bytes (int i))" if "?st [fd \<mapsto> fresh_fd ?x 0] js b" for b
  proof -
    have "zfile {p, q} ?x (int_bytes (int i)) b" "p_files b ?x \<noteq> None" using that i by (auto simp: zst_def zinv_def)
    then show ?thesis by (auto simp: zfile_def)
  qed
  show "px_pre E p (Sys_write fd (int_bytes (int i))) b" if "?st [fd \<mapsto> fresh_fd ?x 0] js b" for b
    using that ct [OF that] sz by (auto simp: zst_def fresh_fd_def fd_pos_def)
  fix b r c
  assume b: "?st [fd \<mapsto> fresh_fd ?x 0] js b" and px: "px E p (Sys_write fd (int_bytes (int i))) b r c"
  have fd: "p_fds b p fd = Some (fresh_fd ?x 0)" using b by (simp add: zst_def)
  have sp: "splice (the (p_files b ?x)) 0 (int_bytes (int i)) = int_bytes (int i)" using ct [OF b] by (auto simp: splice_def)
  have c: "p_files c = (p_files b)(?x \<mapsto> int_bytes (int i))" "p_fds c = (p_fds b)(p := [fd \<mapsto> fresh_fd ?x 4])" "p_dirs c = p_dirs b"
      "r_val r = 4" "p_out c = p_out b" "p_pids c = p_pids b"
    using px b fd sp by (auto simp: set_fd_def set_file_def zst_def fresh_fd_def fd_pos_def Let_def)
  have "zinv {p, q} U D d prefix n b" "\<And>fd' f. p_fds b p fd' = Some f \<Longrightarrow> of_file f = ?x"
    using b by (auto simp: zst_def fresh_fd_def split: if_splits)
  moreover have "zfile {p, q} ?x (int_bytes (int i)) c" using c(1) by (simp add: zfile_def)
  ultimately have z: "zinv {p, q} U D d prefix n c" using zinv_step [OF _ pq i(1) refl xU _ c(1-3)] by blast
  have "?st [fd \<mapsto> fresh_fd ?x 4] js c" using z c b by (auto simp: zst_def)
  from k [OF c(4) this] zrelI [OF z c(2) pq c(5,6)] c(1)
  show "zrel q p U D d prefix n b c \<and> rg E p (zrel p q U D d prefix n) (zrel q p U D d prefix n) (k r) Q c" by auto
qed

lemma z_creat:
  assumes pq: "p \<noteq> q" and i: "i < n" and xU: "(d, numbered prefix i) \<in> U" and U: "finite U" "finite D" "card U + card D \<le> max_files E"
    and dp: "dpath E D dp d" and f: "tname E (numbered prefix i)" and a: "zst p q U D d prefix n Map.empty js a"
    and made: "\<And>r c. 0 \<le> r_val r \<Longrightarrow> zst p q U D d prefix n [r_val r \<mapsto> fresh_fd (d, numbered prefix i) 0] (insert i js) c \<Longrightarrow>
      rg E p (zrel p q U D d prefix n) (zrel q p U D d prefix n) (k r) Q c"
    and there: "\<And>r c. r_val r < 0 \<Longrightarrow> r_errno r = EEXIST \<Longrightarrow> zst p q U D d prefix n Map.empty (insert i js) c \<Longrightarrow>
      rg E p (zrel p q U D d prefix n) (zrel q p U D d prefix n) (k r) Q c"
  shows "rg E p (zrel p q U D d prefix n) (zrel q p U D d prefix n) (Syscall (Sys_creat (dp @ ''/'' @ numbered prefix i)) k) Q a"
proof (rule zst_call [OF a])
  let ?x = "(d, numbered prefix i)" and ?st = "zst p q U D d prefix n"
  show "px_pre E p (Sys_creat (dp @ ''/'' @ numbered prefix i)) b" if "?st Map.empty js b" for b
    using that zst_room [OF that U xU] dpath_file(1) [OF dp f] dp f by (simp add: path_ok_def zst_def zinv_def dpath_def tname_def)
  fix b r c
  assume b: "?st Map.empty js b" and px: "px E p (Sys_creat (dp @ ''/'' @ numbered prefix i)) b r c"
  have own: "zinv {p, q} U D d prefix n b" "\<And>fd' f. p_fds b p fd' = Some f \<Longrightarrow> of_file f = ?x" using b by (auto simp: zst_def)
  show "zrel q p U D d prefix n b c \<and> rg E p (zrel p q U D d prefix n) (zrel q p U D d prefix n) (k r) Q c"
  proof (cases "file_exists ?x b r c")
    case True
    then have "c = b" "r_val r < 0" "r_errno r = EEXIST" "?st Map.empty (insert i js) b" using b by (auto simp: file_exists_def zst_def)
    then show ?thesis using there reflpD [OF zrel_preorder(1)] by simp
  next
    case False
    then have o1: "opens p ?x [O_WRONLY] (set_file ?x (Some []) b) r c" using px dpath_file(1) [OF dp f] by (simp add: Let_def)
    then have c: "p_files c = (p_files b)(?x \<mapsto> [])" "p_fds c = (p_fds b)(p := [r_val r \<mapsto> fresh_fd ?x 0])" "p_dirs c = p_dirs b"
        "0 \<le> r_val r" "p_out c = p_out b" "p_pids c = p_pids b"
      using b by (auto simp: opens_def set_fd_def set_file_def zst_def fresh_fd_def)
    have "zfile {p, q} ?x (int_bytes (int i)) c" using c(1,2) by (auto simp: zfile_def)
    then have z: "zinv {p, q} U D d prefix n c" using own zinv_step [OF _ pq i refl xU _ c(1-3)] by blast
    have "?st [r_val r \<mapsto> fresh_fd ?x 0] (insert i js) c" using z c b by (auto simp: zst_def)
    from made [OF c(4) this] zrelI [OF z c(2) pq c(5,6)] c(1) show ?thesis by auto
  qed
qed

lemma zloop:
  assumes pq: "p \<noteq> q" and dp: "dpath E D dp d" and num: "numbers_ok E U d prefix n" and lim: "16 \<le> name_max E" "4 \<le> max_size E"
    and U: "finite U" "finite D" "card U + card D \<le> max_files E" and ks: "set ks \<subseteq> {..<n}" and a: "zst p q U D d prefix n Map.empty js a"
  shows "rg E p (zrel p q U D d prefix n) (zrel q p U D d prefix n) (createn_loop prog dp prefix True ks)
    (\<lambda>_. zst p q U D d prefix n Map.empty (js \<union> set ks)) a"
  using ks a
proof (induction ks arbitrary: js a)
  case Nil
  then show ?case using zst_rely by (auto simp: rg.simps)
next
  case (Cons i ks)
  have i: "i < n" using Cons.prems(1) by simp
  have f: "tname E (numbered prefix i)" and xU: "(d, numbered prefix i) \<in> U" using numbers_okD [OF num lim(1) i] by auto
  have next': "rg E p (zrel p q U D d prefix n) (zrel q p U D d prefix n) (createn_loop prog dp prefix True ks)
      (\<lambda>_. zst p q U D d prefix n Map.empty (insert i (js \<union> set ks))) b"
    if "zst p q U D d prefix n Map.empty (insert i js) b" for b
    using Cons.IH [of "insert i js" b] Cons.prems(1) that by simp
  show ?case unfolding createn_loop.simps dpath_file(2) [OF dp f]
    by (rule z_creat [OF pq i xU U dp f Cons.prems(2)])
       (auto simp: Let_def intro!: z_write [where js = "insert i js", OF pq i _ xU lim(2)] z_close [OF pq i xU] next')
qed

lemma z_createn:
  assumes pq: "p \<noteq> q" and dp: "dpath E D dp d" and num: "numbers_ok E U d prefix n" and lim: "16 \<le> name_max E" "4 \<le> max_size E"
    and U: "finite U" "finite D" "card U + card D \<le> max_files E" and a: "zst p q U D d prefix n Map.empty {} a"
  shows "rg E p (zrel p q U D d prefix n) (zrel q p U D d prefix n) (createn prog dp prefix n True)
    (\<lambda>_. zst p q U D d prefix n Map.empty {..<n}) a"
  unfolding createn_def
proof (rule zst_call [OF a])
  show "zrel q p U D d prefix n b c \<and> rg E p (zrel p q U D d prefix n) (zrel q p U D d prefix n)
      (createn_loop prog dp prefix True [0..<n]) (\<lambda>_. zst p q U D d prefix n Map.empty {..<n}) c"
    if "zst p q U D d prefix n Map.empty {} b" "px E p (Sys_sleep 1) b r c" for b r c
    using zloop [OF pq dp num lim U _ that(1), of "[0..<n]" prog] that(2) reflpD [OF zrel_preorder(1)] by (auto simp: atLeast0LessThan)
qed simp

lemma z_sleep:
  assumes "zst p q U D d prefix n F js a"
  shows "rg E p (zrel p q U D d prefix n) (zrel q p U D d prefix n) (sleep m) (\<lambda>_. zst p q U D d prefix n F js) a"
  by (rule zst_call [OF assms]) (use zst_rely reflpD [OF zrel_preorder(1)] in \<open>auto simp: rg.simps\<close>)

lemma z_dircheck:
  assumes dp: "dpath E D dp d" and n: "n \<le> 1000" and prefix: "prefix \<noteq> []" "\<not> dotted prefix" and a: "zst p q U D d prefix n F {..<n} a"
  shows "rg E p (zrel p q U D d prefix n) (zrel q p U D d prefix n) (dircheck prog dp n) (\<lambda>_. zst p q U D d prefix n F {..<n}) a"
proof (rule rg_mono [OF dircheck_rg [OF zrel_preorder _ n, where d = d]])
  fix b
  assume "zrel p q U D d prefix n a b"
  from zst_rely [OF a this] have b: "zst p q U D d prefix n F {..<n} b" .
  have "\<not> dotted f" if "f \<in> nums prefix n" for f using that prefix by (auto simp: nums_def numbered_def dotted_def)
  then have eq: "{f. p_files b (d, f) \<noteq> None \<and> \<not> dotted f} = nums prefix n"
    using b unfolding zst_def zinv_def nums_def by auto
  have "card (nums prefix n) = n" unfolding nums_def by (subst card_image) (auto simp: inj_on_def numbered_inj)
  then show "(\<exists>D. p_dirs b = D \<and> dpath E D dp d) \<and> finite {f. p_files b (d, f) \<noteq> None \<and> \<not> dotted f} \<and>
      card {f. p_files b (d, f) \<noteq> None \<and> \<not> dotted f} = n"
    unfolding eq using b dp by (auto simp: zst_def zinv_def nums_def)
qed (use zst_rely [OF a] reflpD [OF zrel_preorder(1)] in auto)

text \<open>When both have closed their files, every file holds its number.\<close>

lemma z_final:
  assumes "zst p q U D d prefix n Map.empty {..<n} b" and "zst q p U D d prefix n Map.empty {..<n} b"
  shows "p_files b (d, f) = map_of (ents prefix n) f"
proof (cases "f \<in> nums prefix n")
  case True
  then obtain i where i: "f = numbered prefix i" "i < n" by (auto simp: nums_def)
  have "zfile {p, q} (d, f) (int_bytes (int i)) b" "p_files b (d, f) \<noteq> None" using assms(1) i by (auto simp: zst_def zinv_def)
  then have "p_files b (d, f) = Some (int_bytes (int i))" using assms by (auto simp: zfile_def zst_def)
  then show ?thesis using map_of_ents [OF i(2)] i(1) by simp
next
  case False
  then show ?thesis using assms(1) map_of_ents_None [OF False] by (simp add: zst_def zinv_def)
qed

context posix_kernel
begin

lemma same_files_runs:
  assumes s: "setting E U D d ds" "dp \<in> ds" "dp' \<in> ds" and num: "numbers_ok E U d prefix n"
  shows "runs K Rel p (std E p U D d out [])
    (fork_test prog (createn prog dp' prefix n True)
      (\<lambda>pid. bindP (seqP [createn prog dp prefix n True, sleep m, dircheck prog dp n]) (\<lambda>_. reap prog pid)))
    (std E p U D d out (ents prefix n))"
proof (rule fork_runs)
  fix a q
  assume a: "std E p U D d out [] a" and q: "0 < q" "q \<notin> p_pids a"
  let ?a = "a\<lparr>p_pids := insert q (p_pids a), p_fds := (p_fds a)(q := p_fds a p)\<rparr>"
  let ?m = "seqP [createn prog dp prefix n True, sleep m, dircheck prog dp n]" and ?h = "createn prog dp' prefix n True"
  let ?RP = "zrel p q U D d prefix n" and ?RC = "zrel q p U D d prefix n"
  let ?QP = "\<lambda>(_ :: unit) b. zst p q U D d prefix n Map.empty {..<n} b \<and> framed p q ?a b"
  let ?QC = "\<lambda>(_ :: unit) b. zst q p U D d prefix n Map.empty {..<n} b"
  have pq: "p \<noteq> q" "q \<noteq> p" using a q(2) by (auto simp: st_def)
  have dps: "dpath E D dp d" "dpath E D dp' d" and lim: "16 \<le> name_max E" "4 \<le> max_size E" using s by (auto simp: setting_def)
  have U: "finite U" "finite D" "card U + card D \<le> max_files E" using a by (auto simp: st_def loc_def)
  have pre: "prefix \<noteq> []" "\<not> dotted prefix" "n \<le> 1000" using num by (auto simp: numbers_ok_def tname_def name_ok_def)
  have z: "zst p q U D d prefix n Map.empty {} ?a" "zst q p U D d prefix n Map.empty {} ?a"
    using a by (auto simp: zst_def zinv_def zfile_def st_def loc_def)
  have "rg E p ?RP ?RC ?m (\<lambda>_. zst p q U D d prefix n Map.empty {..<n}) ?a"
    by (rule rg_seqP_Cons [OF z_createn [OF pq(1) dps(1) num lim U z(1)] zrel_preorder(1)],
        rule rg_seqP_Cons [OF z_sleep zrel_preorder(1)], assumption,
        rule rg_seqP_Cons [OF z_dircheck [OF dps(1) pre(3,1,2)] zrel_preorder(1)], assumption,
        rule rg_seqP_Nil, rule zst_rely)
  from rg_frame [OF this, of "framed p q", OF _ _ framed_preorder] have m: "rg E p ?RP ?RC ?m ?QP ?a"
    by (auto simp: zrel_def framed_def)
  have h: "rg E q ?RC ?RP ?h ?QC ?a" by (rule z_createn [OF pq(2) dps(2) num lim U z(2)])
  have fit: "rg_fit p q ?RP ?RC ?RC ?RP ?QC" using pq q(1) zrel_preorder by (auto simp: rg_fit_def zst_def)
  have "std E p U D d out (ents prefix n) (b\<lparr>p_pids := p_pids b - {q}\<rparr>)" if "?QP () b" "?QC () b" for b
  proof (rule joined_st [OF a pq(1) q(2), where F = "(p_fds a)(q := p_fds a p)"])
    show "p_files b x = dmap d (ents prefix n) x" if "x \<in> {d} \<times> UNIV" for x
      using z_final [of p q U D d prefix n b] \<open>?QP () b\<close> \<open>?QC () b\<close> that by auto
  qed (use that a in \<open>auto simp: zst_def zinv_def st_def\<close>)
  with fit m h show "\<exists>RP GP RC GC QP QC. rg_fit p q RP GP RC GC QC \<and> rg E p RP GP ?m QP ?a \<and> rg E q RC GC ?h QC ?a \<and>
      (\<forall>b. QP () b \<and> QC () b \<longrightarrow> std E p U D d out (ents prefix n) (b\<lparr>p_pids := p_pids b - {q}\<rparr>))"
    by blast
qed

end

section \<open>Parent and child writing different parts of one file\<close>

text \<open>Whoever is not \<open>p\<close> leaves \<open>p\<close>'s range \<open>[s, s + n)\<close> of the file \<open>x\<close> and its length alone, and all other files.\<close>

definition same_part :: "nat \<Rightarrow> nat \<Rightarrow> string option \<Rightarrow> string option \<Rightarrow> bool" where
  "same_part s n = rel_option (\<lambda>c c'. length c' = length c \<and> (\<forall>i. s \<le> i \<and> i < s + n \<longrightarrow> c' ! i = c ! i))"

definition wrel :: "nat \<Rightarrow> nat \<Rightarrow> string \<times> string \<Rightarrow> nat \<Rightarrow> nat \<Rightarrow> prel" where
  "wrel p q x s n a b \<longleftrightarrow> p_fds b p = p_fds a p \<and> framed p q a b \<and> p_dirs b = p_dirs a \<and> (\<forall>y. y \<noteq> x \<longrightarrow> p_files b y = p_files a y) \<and>
     same_part s n (p_files a x) (p_files b x)"

lemma same_part_preorder: "same_part s n c c" "same_part s n c d \<Longrightarrow> same_part s n d e \<Longrightarrow> same_part s n c e"
  unfolding same_part_def by (cases c; simp) (cases c; cases d; cases e; simp)

lemma wrel_preorder: "reflp (wrel p q x s n)" "transp (wrel p q x s n)"
proof -
  show "reflp (wrel p q x s n)"
    using same_part_preorder(1) reflpD [OF framed_preorder(1)] by (auto simp: reflp_def wrel_def)
  show "transp (wrel p q x s n)"
    unfolding transp_def wrel_def using same_part_preorder(2) transpD [OF framed_preorder(2)] by metis
qed

text \<open>The first \<open>k\<close> bytes of its range hold \<open>p\<close>'s character.\<close>

definition wst :: "nat \<Rightarrow> (string \<times> string) set \<Rightarrow> string set \<Rightarrow> string \<times> string \<Rightarrow> nat \<Rightarrow> nat \<Rightarrow> char \<Rightarrow> (int \<rightharpoonup> ofile) \<Rightarrow> nat \<Rightarrow> pworld \<Rightarrow> bool" where
  "wst p U D x L s ch F k b \<longleftrightarrow> p_fds b p = F \<and> p_dirs b = D \<and> dom (p_files b) \<subseteq> U \<and>
     (\<exists>c. p_files b x = Some c \<and> length c = L \<and> (\<forall>i. s \<le> i \<and> i < s + k \<longrightarrow> c ! i = ch))"

lemma wst_rely:
  assumes "wst p U D x L s ch F k a" and "wrel p q x s n a b" and "k \<le> n"
  shows "wst p U D x L s ch F k b"
proof -
  obtain c where c: "p_files a x = Some c" "length c = L" "\<forall>i. s \<le> i \<and> i < s + k \<longrightarrow> c ! i = ch" using assms(1) by (auto simp: wst_def)
  with assms(2) obtain c' where c': "p_files b x = Some c'" "length c' = L" "\<forall>i. s \<le> i \<and> i < s + n \<longrightarrow> c' ! i = c ! i"
    by (auto simp: wrel_def same_part_def option_rel_Some1)
  have "dom (p_files b) \<subseteq> U"
  proof
    fix y
    assume "y \<in> dom (p_files b)"
    then have "y \<in> dom (p_files a)" using assms(2) c(1) unfolding wrel_def domIff by (metis option.distinct(1))
    then show "y \<in> U" using assms(1) by (auto simp: wst_def)
  qed
  moreover have "\<forall>i. s \<le> i \<and> i < s + k \<longrightarrow> c' ! i = ch" using c(3) c'(3) assms(3) by simp
  ultimately show ?thesis using assms(1,2) c' by (simp add: wst_def wrel_def)
qed

lemma w_call:
  assumes a: "wst p U D x L s ch F k a" and k: "k \<le> n"
    and pre: "\<And>b. wst p U D x L s ch F k b \<Longrightarrow> px_pre E p c b"
    and step: "\<And>b r b'. wst p U D x L s ch F k b \<Longrightarrow> px E p c b r b' \<Longrightarrow>
      wrel q p x t m b b' \<and> rg E p (wrel p q x s n) (wrel q p x t m) (g r) Q b'"
  shows "rg E p (wrel p q x s n) (wrel q p x t m) (Syscall c g) Q a"
  using wst_rely [OF a _ k] pre step unfolding rg.simps by blast

text \<open>Changes of the own descriptors only.\<close>

lemma w_fd:
  assumes "wst p U D x L s ch F k b" and "p \<noteq> q" and "b' = set_fd p fd f b"
  shows "wrel q p x t m b b'" and "wst p U D x L s ch (F(fd := f)) k b'"
  using assms same_part_preorder(1) by (auto simp: wrel_def framed_def set_fd_def wst_def)

lemma w_open:
  assumes pq: "p \<noteq> q" and k: "k \<le> n" and a: "wst p U D x L s ch Map.empty k a" and x: "file_of E path = Some x" "fst x \<in> D" "name_ok E (snd x)" "x \<in> U"
    and U: "finite U" "finite D" "card U + card D \<le> max_files E"
    and go: "\<And>r b. 0 \<le> r_val r \<Longrightarrow> wst p U D x L s ch [r_val r \<mapsto> \<lparr>of_file = x, of_pos = 0, of_flags = fl\<rparr>] k b \<Longrightarrow>
      rg E p (wrel p q x s n) (wrel q p x t m) (g r) Q b"
    and dup: "\<And>r b. O_CREAT \<in> set fl \<Longrightarrow> r_val r < 0 \<Longrightarrow> r_errno r = EEXIST \<Longrightarrow> wst p U D x L s ch Map.empty k b \<Longrightarrow>
      rg E p (wrel p q x s n) (wrel q p x t m) (g r) Q b"
  shows "rg E p (wrel p q x s n) (wrel q p x t m) (Syscall (Sys_open path fl) g) Q a"
proof (rule w_call [OF a k])
  fix b
  assume b: "wst p U D x L s ch Map.empty k b"
  have "room E x b"
    by (rule loc_room [where p = p and N = "{}" and U = U and D = D and F = "p_fds b p"]) (use b U x(4) in \<open>auto simp: wst_def loc_def\<close>)
  then show "px_pre E p (Sys_open path fl) b" using b x by (simp add: path_ok_def wst_def)
  fix r b'
  assume px: "px E p (Sys_open path fl) b r b'"
  have "p_files b x \<noteq> None" using b by (auto simp: wst_def)
  with px x(1) consider (opened) "opens p x fl b r b'" | (exists) "O_CREAT \<in> set fl" "file_exists x b r b'" by (auto simp: Let_def)
  then show "wrel q p x t m b b' \<and> rg E p (wrel p q x s n) (wrel q p x t m) (g r) Q b'"
  proof cases
    case opened
    then have b': "b' = set_fd p (r_val r) (Some \<lparr>of_file = x, of_pos = 0, of_flags = fl\<rparr>) b" "0 \<le> r_val r" by (auto simp: opens_def)
    show ?thesis using w_fd [OF b pq b'(1)] go [OF b'(2)] by blast
  next
    case exists
    then show ?thesis using dup b reflpD [OF wrel_preorder(1)] by (auto simp: file_exists_def)
  qed
qed

lemma w_loop:
  assumes pq: "p \<noteq> q" and sep: "s + n \<le> t \<or> t + m \<le> s" and L: "s + n \<le> L" "L \<le> max_size E" and xU: "x \<in> U"
    and fl: "O_WRONLY \<in> set fl" "O_APPEND \<notin> set fl" and k: "k + j = n"
    and a: "wst p U D x L s ch (at_pos Map.empty fd x fl (s + k)) k a"
  shows "rg E p (wrel p q x s n) (wrel q p x t m) (write1_loop prog name fd ch j)
    (\<lambda>_. wst p U D x L s ch (at_pos Map.empty fd x fl (s + n)) n) a"
  using k a
proof (induction j arbitrary: k a)
  case 0
  then show ?case using wst_rely [OF 0(2)] by (auto simp: rg.simps)
next
  case (Suc j)
  let ?F = "at_pos Map.empty fd x fl" and ?R = "wrel p q x s n" and ?G = "wrel q p x t m"
  have next': "rg E p ?R ?G (write1_loop prog name fd ch j) (\<lambda>_. wst p U D x L s ch (?F (s + n)) n) b"
    if "wst p U D x L s ch (?F (s + Suc k)) (Suc k) b" for b by (rule Suc.IH [OF _ that]) (use Suc.prems(1) in simp)
  have sync: "rg E p ?R ?G (Syscall (Sys_fsync fd) (\<lambda>r. if r_val r \<noteq> 0 then fail prog (''fsync('' @ name @ '')'')
      else write1_loop prog name fd ch j)) (\<lambda>_. wst p U D x L s ch (?F (s + n)) n) b"
    if "wst p U D x L s ch (?F (s + Suc k)) (Suc k) b" for b
    by (rule w_call [OF that]) (use Suc.prems(1) next' reflpD [OF wrel_preorder(1)] in \<open>auto simp: wst_def at_pos_simps\<close>)
  show ?case unfolding write1_loop.simps
  proof (rule w_call [OF Suc.prems(2)])
    show "k \<le> n" using Suc.prems(1) by simp
    fix b
    assume b: "wst p U D x L s ch (?F (s + k)) k b"
    then obtain c where c: "p_files b x = Some c" "length c = L" "\<forall>i. s \<le> i \<and> i < s + k \<longrightarrow> c ! i = ch" by (auto simp: wst_def)
    have fd: "p_fds b p fd = Some \<lparr>of_file = x, of_pos = s + k, of_flags = fl\<rparr>" using b by (simp add: wst_def at_pos_simps)
    have lt: "s + k < L" using Suc.prems(1) L(1) by simp
    show "px_pre E p (Sys_write fd [ch]) b" using fd fl c lt L(2) by (simp add: fd_pos_def)
    fix r b'
    assume px: "px E p (Sys_write fd [ch]) b r b'"
    let ?c = "c[s + k := ch]"
    have "splice c (s + k) [ch] = ?c" using lt c(2) by (simp add: splice_def upd_conv_take_nth_drop)
    then have b': "b' = set_fd p fd (Some \<lparr>of_file = x, of_pos = s + Suc k, of_flags = fl\<rparr>) (set_file x (Some ?c) b)" "r_val r = 1"
      using px fd c(1) fl(2) by (auto simp: fd_pos_def Let_def)
    have "same_part t m (Some c) (Some ?c)" using sep Suc.prems(1) by (auto simp: same_part_def nth_list_update)
    then have "?G b b'" using b' c(1) pq by (auto simp: wrel_def framed_def set_fd_def set_file_def)
    moreover have "\<forall>i. s \<le> i \<and> i < s + Suc k \<longrightarrow> ?c ! i = ch" using c(2,3) lt by (simp add: nth_list_update less_Suc_eq)
    then have "wst p U D x L s ch (?F (s + Suc k)) (Suc k) b'"
      using b b' c(2) xU by (auto simp: wst_def set_fd_def set_file_def at_pos_simps split: if_splits)
    ultimately show "?G b b' \<and> rg E p ?R ?G (if r_val r \<noteq> 1 then fail prog (''write('' @ name @ '')'')
        else Syscall (Sys_fsync fd) (\<lambda>r. if r_val r \<noteq> 0 then fail prog (''fsync('' @ name @ '')'')
        else write1_loop prog name fd ch j)) (\<lambda>_. wst p U D x L s ch (?F (s + n)) n) b'"
      using sync b'(2) by simp
  qed
qed

lemma w_lseek:
  assumes pq: "p \<noteq> q" and k: "k \<le> n" and s: "s \<le> max_size E" and a: "wst p U D x L s ch (at_pos Map.empty fd x fl i) k a"
    and go: "\<And>r b. r_val r = int s \<Longrightarrow> wst p U D x L s ch (at_pos Map.empty fd x fl s) k b \<Longrightarrow>
      rg E p (wrel p q x s n) (wrel q p x t m) (g r) Q b"
  shows "rg E p (wrel p q x s n) (wrel q p x t m) (Syscall (Sys_lseek fd (int s)) g) Q a"
proof (rule w_call [OF a k])
  fix b
  assume b: "wst p U D x L s ch (at_pos Map.empty fd x fl i) k b"
  then have fd: "p_fds b p fd = Some \<lparr>of_file = x, of_pos = i, of_flags = fl\<rparr>" by (simp add: wst_def at_pos_simps)
  then show "px_pre E p (Sys_lseek fd (int s)) b" using s by simp
  fix r b'
  assume "px E p (Sys_lseek fd (int s)) b r b'"
  then have b': "b' = set_fd p fd (Some \<lparr>of_file = x, of_pos = s, of_flags = fl\<rparr>) b" "r_val r = int s" using fd by simp_all
  from w_fd [OF b pq b'(1)] go b'(2) show "wrel q p x t m b b' \<and> rg E p (wrel p q x s n) (wrel q p x t m) (g r) Q b'"
    by (simp add: at_pos_simps)
qed

lemma w_close:
  assumes pq: "p \<noteq> q" and k: "k \<le> n" and a: "wst p U D x L s ch (at_pos Map.empty fd x fl i) k a"
    and go: "\<And>r b. r_val r = 0 \<Longrightarrow> wst p U D x L s ch Map.empty k b \<Longrightarrow> rg E p (wrel p q x s n) (wrel q p x t m) (g r) Q b"
  shows "rg E p (wrel p q x s n) (wrel q p x t m) (Syscall (Sys_close fd) g) Q a"
proof (rule w_call [OF a k])
  fix b
  assume b: "wst p U D x L s ch (at_pos Map.empty fd x fl i) k b"
  then show "px_pre E p (Sys_close fd) b" by (simp add: wst_def at_pos_simps)
  fix r b'
  assume "px E p (Sys_close fd) b r b'"
  then have b': "b' = set_fd p fd None b" "r_val r = 0" by simp_all
  from w_fd [OF b pq b'(1)] go b'(2) show "wrel q p x t m b b' \<and> rg E p (wrel p q x s n) (wrel q p x t m) (g r) Q b'"
    by (simp add: at_pos_simps)
qed

lemma w_write1:
  assumes pq: "p \<noteq> q" and sep: "s + n \<le> t \<or> t + m \<le> s" and L: "s + n \<le> L" "L \<le> max_size E"
    and dp: "dpath E D dp d" and f: "tname E f" and xU: "(d, f) \<in> U" and U: "finite U" "finite D" "card U + card D \<le> max_files E"
    and a: "wst p U D (d, f) L s ch Map.empty 0 a"
  shows "rg E p (wrel p q (d, f) s n) (wrel q p (d, f) t m) (write1 prog dp f s n ch) (\<lambda>_. wst p U D (d, f) L s ch Map.empty n) a"
proof -
  let ?R = "wrel p q (d, f) s n" and ?G = "wrel q p (d, f) t m" and ?Q = "\<lambda>_. wst p U D (d, f) L s ch Map.empty n"
  let ?rest = "\<lambda>name fd. if fd < 0 then fail prog (''open('' @ name @ '')'')
     else Syscall (Sys_lseek fd (int s)) (\<lambda>r. if r_val r \<noteq> int s then fail prog (''lseek('' @ name @ '')'')
     else bindP (write1_loop prog name fd ch n) (\<lambda>_. Syscall (Sys_close fd) (\<lambda>r.
       if r_val r \<noteq> 0 then fail prog (''close('' @ name @ '')'') else Return ())))"
  have loop: "rg E p ?R ?G (bindP (write1_loop prog name fd ch n) (\<lambda>_. Syscall (Sys_close fd) (\<lambda>r.
      if r_val r \<noteq> 0 then fail prog (''close('' @ name @ '')'') else Return ()))) ?Q b"
    if "wst p U D (d, f) L s ch (at_pos Map.empty fd (d, f) fl s) 0 b" "O_WRONLY \<in> set fl" "O_APPEND \<notin> set fl" for b fd fl name
    by (rule rg_bind [OF rg_mono [OF w_loop [where k = 0, OF pq sep L xU that(2,3)]] wrel_preorder(1)])
       (use that(1) wst_rely [of p U D "(d, f)" L s ch Map.empty n _ q n] in \<open>auto simp: rg.simps(1) intro!: w_close [OF pq order_refl]\<close>)
  have tail_ok: "rg E p ?R ?G (?rest name fd) ?Q b"
    if "0 \<le> fd" "wst p U D (d, f) L s ch [fd \<mapsto> \<lparr>of_file = (d, f), of_pos = 0, of_flags = fl\<rparr>] 0 b" "O_WRONLY \<in> set fl" "O_APPEND \<notin> set fl"
    for name fd fl b
    using that L by (auto simp: at_pos_def [of Map.empty, symmetric] intro!: w_lseek [OF pq] loop)
  have x: "fst (d, f) \<in> D" "name_ok E (snd (d, f))" using dp f by (simp_all add: dpath_def tname_def)
  note op = w_open [OF pq le0 _ dpath_file(1) [OF dp f] x xU U]
  have reopen: "rg E p ?R ?G (Syscall (Sys_open (dp @ ''/'' @ f) [O_WRONLY]) (\<lambda>r. ?rest (dp @ ''/'' @ f) (r_val r))) ?Q b"
    if "wst p U D (d, f) L s ch Map.empty 0 b" for b
    by (rule op [OF that], rule tail_ok) auto
  show ?thesis unfolding write1_def
  proof (rule w_call [OF a le0], simp, unfold dpath_file(2) [OF dp f], intro conjI)
    fix b r b'
    assume b: "wst p U D (d, f) L s ch Map.empty 0 b" and px: "px E p (Sys_sleep 1) b r b'"
    then show "?G b b'" using reflpD [OF wrel_preorder(1)] by simp
    have "wst p U D (d, f) L s ch Map.empty 0 b'" using b px by simp
    then show "rg E p ?R ?G (bindP (Syscall (Sys_open (dp @ ''/'' @ f) [O_WRONLY, O_CREAT]) (\<lambda>r.
        if r_val r < 0 \<and> r_errno r = EEXIST then Syscall (Sys_open (dp @ ''/'' @ f) [O_WRONLY]) (\<lambda>r. Return (r_val r))
        else Return (r_val r))) (?rest (dp @ ''/'' @ f))) ?Q b'"
      unfolding bindP.simps using tail_ok reopen by (intro op) (auto simp: if_distrib [where f = "\<lambda>m. bindP m _"])
  qed
qed

section \<open>The concurrent tests\<close>

lemma hoare_ex:
  assumes "\<And>c. C c \<Longrightarrow> hoare E p (P c) m (P' c)"
  shows "hoare E p (\<lambda>b. \<exists>c. C c \<and> P c b) m (\<lambda>b. \<exists>c. C c \<and> P' c b)"
  unfolding hoare_def
proof (intro allI impI, elim exE conjE)
  fix a c
  assume "C c" "P c a"
  then have "rg E p (=) (\<lambda>_ _. True) m (\<lambda>_. P' c) a" using assms by (simp add: hoare_def)
  then show "rg E p (=) (\<lambda>_ _. True) m (\<lambda>_ b. \<exists>c. C c \<and> P' c b) a" by (rule rg_mono) (use \<open>C c\<close> in blast)
qed

text \<open>What the file \<^verbatim>\<open>www\<close> holds after both ranges have been written.\<close>

definition both_written :: "string \<Rightarrow> bool" where
  "both_written c \<longleftrightarrow> length c = 65535 \<and> (\<forall>i<64. c ! i = CHR ''1'') \<and> (\<forall>i. 10000 \<le> i \<and> i < 10064 \<longrightarrow> c ! i = CHR ''2'')"

context posix_kernel
begin

lemma same_file_runs:
  assumes s: "arena E U D d d1 d2"
  shows "runs K Rel p (std E p U D d out []) (seqP (test_same_file prog d1 d2))
    (std E p U D d (out @ ''Concurrent creates of the same file: OK\<newline>'') [])"
proof -
  have par: "(\<lambda>pid. seqP [createn prog d1 ''zz'' 10 True, sleep 4, dircheck prog d1 10, reap prog pid]) =
      (\<lambda>pid. bindP (seqP [createn prog d1 ''zz'' 10 True, sleep 4, dircheck prog d1 10]) (\<lambda>_. reap prog pid))" by (simp add: bindP_assoc)
  have rest: "hoare E p (std E p U D d (out @ ''Concurrent creates of the same file: '') (ents ''zz'' 10))
      (seqP [checkn prog d1 ''zz'' 10, checkn prog d2 ''zz'' 10, unlinkn prog d1 ''zz'' 10, printf ''OK\<newline>''])
      (std E p U D d (out @ ''Concurrent creates of the same file: OK\<newline>'') [])"
    by (rule chains [OF s] chain_Nil [OF s], simp add: arena_pre [OF s] ents_simps del: map_of_append)+
  show ?thesis unfolding test_same_file_def par
    by (rule runs_Cons [OF hoare_runs [OF hoare_printf] runs_Cons [OF same_files_runs [OF arenaD(1) [OF s]] hoare_runs [OF rest]]])
       (simp_all add: arena_pre [OF s])
qed

lemma same_server_runs:
  assumes s: "arena E U D d d1 d2"
  shows "runs K Rel p (std E p U D d out []) (seqP (test_same_server prog d1 d2))
    (std E p U D d (out @ ''Concurrent creates, same file, same server: OK\<newline>'') [])"
proof -
  have par: "(\<lambda>pid. seqP [createn prog d1 ''zz'' 10 True, sleep 2, dircheck prog d1 10, reap prog pid]) =
      (\<lambda>pid. bindP (seqP [createn prog d1 ''zz'' 10 True, sleep 2, dircheck prog d1 10]) (\<lambda>_. reap prog pid))" by (simp add: bindP_assoc)
  have rest: "hoare E p (std E p U D d (out @ ''Concurrent creates, same file, same server: '') (ents ''zz'' 10))
      (seqP [checkn prog d1 ''zz'' 10, unlinkn prog d1 ''zz'' 10, printf ''OK\<newline>''])
      (std E p U D d (out @ ''Concurrent creates, same file, same server: OK\<newline>'') [])"
    by (rule chains [OF s] chain_Nil [OF s], simp add: arena_pre [OF s] ents_simps del: map_of_append)+
  show ?thesis unfolding test_same_server_def par
    by (rule runs_Cons [OF hoare_runs [OF hoare_printf] runs_Cons [OF same_files_runs [OF arenaD(1) [OF s]] hoare_runs [OF rest]]])
       (simp_all add: arena_pre [OF s])
qed

lemma writes_runs:
  assumes s: "arena E U D d d1 d2"
  shows "runs K Rel p (std E p U D d out [(''www'', huge)])
    (fork_test prog (write1 prog d2 ''www'' 10000 64 CHR ''2'')
      (\<lambda>pid. bindP (write1 prog d1 ''www'' 0 64 CHR ''1'') (\<lambda>_. reap prog pid)))
    (\<lambda>b. \<exists>c. both_written c \<and> std E p U D d out [(''www'', c)] b)"
proof (rule fork_runs)
  fix a q
  assume a: "std E p U D d out [(''www'', huge)] a" and q: "0 < q" "q \<notin> p_pids a"
  let ?a = "a\<lparr>p_pids := insert q (p_pids a), p_fds := (p_fds a)(q := p_fds a p)\<rparr>" and ?x = "(d, ''www'')"
  let ?m = "write1 prog d1 ''www'' 0 64 CHR ''1''" and ?h = "write1 prog d2 ''www'' 10000 64 CHR ''2''"
  let ?RP = "wrel p q ?x 0 64" and ?RC = "wrel q p ?x 10000 64"
  let ?H = "\<lambda>a b. framed p q a b \<and> (\<forall>y. y \<noteq> ?x \<longrightarrow> p_files b y = p_files a y)"
  let ?QP = "\<lambda>(_ :: unit) b. wst p U D ?x 65535 0 CHR ''1'' Map.empty 64 b \<and> ?H ?a b"
  let ?QC = "\<lambda>(_ :: unit) b. wst q U D ?x 65535 10000 CHR ''2'' Map.empty 64 b"
  have pq: "p \<noteq> q" "q \<noteq> p" using a q(2) by (auto simp: st_def)
  have dps: "dpath E D d1 d" "dpath E D d2 d" and L: "(65535 :: nat) \<le> max_size E" using s by (auto simp: arena_def setting_def)
  have U: "finite U" "finite D" "card U + card D \<le> max_files E" using a by (auto simp: st_def loc_def)
  have f: "tname E ''www''" "?x \<in> U" by (simp_all add: arenaD(2,3) [OF s] test_names_def)
  have w: "wst p U D ?x 65535 0 CHR ''1'' Map.empty 0 ?a" "wst q U D ?x 65535 10000 CHR ''2'' Map.empty 0 ?a"
    using a by (auto simp: wst_def st_def loc_def huge_def)
  have "rg E p ?RP ?RC ?m (\<lambda>_. wst p U D ?x 65535 0 CHR ''1'' Map.empty 64) ?a"
    by (rule w_write1 [OF pq(1) _ _ L dps(1) f U w(1)]) simp_all
  then have m: "rg E p ?RP ?RC ?m ?QP ?a"
    by (rule rg_frame [where H = ?H]) (auto simp: wrel_def framed_def reflp_def transp_def)
  have h: "rg E q ?RC ?RP ?h ?QC ?a" by (rule w_write1 [OF pq(2) _ _ L dps(2) f U w(2)]) simp_all
  have fit: "rg_fit p q ?RP ?RC ?RC ?RP ?QC" using pq q(1) wrel_preorder by (auto simp: rg_fit_def wst_def)
  have "\<exists>c. both_written c \<and> std E p U D d out [(''www'', c)] (b\<lparr>p_pids := p_pids b - {q}\<rparr>)" if b: "?QP () b" "?QC () b" for b
  proof -
    obtain c where c: "p_files b ?x = Some c" "length c = 65535" "\<forall>i. 0 \<le> i \<and> i < 0 + 64 \<longrightarrow> c ! i = CHR ''1''" using b(1) by (auto simp: wst_def)
    then have "both_written c" using b(2) by (auto simp: both_written_def wst_def)
    moreover have "std E p U D d out [(''www'', c)] (b\<lparr>p_pids := p_pids b - {q}\<rparr>)"
    proof (rule joined_st [OF a pq(1) q(2), where F = "(p_fds a)(q := p_fds a p)"])
      show "p_files b y = dmap d [(''www'', c)] y" if y: "y \<in> {d} \<times> UNIV" for y
      proof (cases "y = ?x")
        case False
        then have "p_files b y = p_files ?a y" using b(1) by blast
        moreover have "p_files a y = dmap d [(''www'', huge)] y" using a y unfolding st_def loc_def by blast
        ultimately show ?thesis using False by (cases y) (simp add: dmap_def)
      qed (use c(1) in simp)
    qed (use b a in \<open>auto simp: wst_def st_def\<close>)
    ultimately show ?thesis by blast
  qed
  with fit m h show "\<exists>RP GP RC GC QP QC. rg_fit p q RP GP RC GC QC \<and> rg E p RP GP ?m QP ?a \<and> rg E q RC GC ?h QC ?a \<and>
      (\<forall>b. QP () b \<and> QC () b \<longrightarrow> (\<exists>c. both_written c \<and> std E p U D d out [(''www'', c)] (b\<lparr>p_pids := p_pids b - {q}\<rparr>)))"
    by blast
qed

lemma concurrent_writes_runs:
  assumes s: "arena E U D d d1 d2"
  shows "runs K Rel p (std E p U D d out []) (seqP (test_concurrent_writes prog d1 d2))
    (\<lambda>b. \<exists>c. both_written c \<and> std E p U D d (out @ ''Concurrent writes to different parts of same file: OK\<newline>'') [(''www'', c)] b)"
proof -
  let ?out = "out @ ''Concurrent writes to different parts of same file: ''"
  have par: "(\<lambda>pid. seqP [write1 prog d1 ''www'' 0 64 CHR ''1'', reap prog pid]) =
      (\<lambda>pid. bindP (write1 prog d1 ''www'' 0 64 CHR ''1'') (\<lambda>_. reap prog pid))" by simp
  have first: "hoare E p (std E p U D d ?out []) (seqP [create1 prog d1 ''www'' huge]) (std E p U D d ?out [(''www'', huge)])"
    by (rule chains [OF s] chain_Nil [OF s], simp add: test_names_def huge_def arenaD(2,3) [OF s])+
  have "hoare E p (std E p U D d ?out [(''www'', c)])
      (seqP [checkread prog d1 ''www'' 0 64 CHR ''1'', checkread prog d2 ''www'' 0 64 CHR ''1'', checkread prog d1 ''www'' 10000 64 CHR ''2'',
        checkread prog d2 ''www'' 10000 64 CHR ''2'', printf ''OK\<newline>''])
      (std E p U D d (?out @ ''OK\<newline>'') [(''www'', c)])" if "both_written c" for c
    using that unfolding both_written_def
    by - (rule chains [OF s] chain_Nil [OF s], force simp: arenaD(2) [OF s])+
  then have rest: "hoare E p (\<lambda>b. \<exists>c. both_written c \<and> std E p U D d ?out [(''www'', c)] b)
      (seqP [checkread prog d1 ''www'' 0 64 CHR ''1'', checkread prog d2 ''www'' 0 64 CHR ''1'', checkread prog d1 ''www'' 10000 64 CHR ''2'',
        checkread prog d2 ''www'' 10000 64 CHR ''2'', printf ''OK\<newline>''])
      (\<lambda>b. \<exists>c. both_written c \<and> std E p U D d (?out @ ''OK\<newline>'') [(''www'', c)] b)" by (rule hoare_ex)
  have out: "?out @ ''OK\<newline>'' = out @ ''Concurrent writes to different parts of same file: OK\<newline>''" by simp
  show ?thesis unfolding test_concurrent_writes_def par out [symmetric]
    by (rule runs_Cons [OF hoare_runs [OF hoare_printf]],
        rule runs_append [OF hoare_runs [OF first] runs_Cons [OF writes_runs [OF s] hoare_runs [OF rest]], unfolded append_Cons append_Nil])
qed

end

section \<open>Two directories\<close>

text \<open>The directories \<open>da\<close> and \<open>db\<close> of the test, with room for \<open>n\<close> files in each.\<close>

definition arena2 :: "posix_env \<Rightarrow> (string \<times> string) set \<Rightarrow> string set \<Rightarrow> string \<Rightarrow> string \<Rightarrow> string \<Rightarrow> string \<Rightarrow> nat \<Rightarrow> bool" where
  "arena2 E U D da db d1 d2 n \<longleftrightarrow> da \<noteq> db \<and> setting E U D da {d1} \<and> setting E U D db {d2} \<and>
     numbers_ok E U da ''yy'' n \<and> numbers_ok E U db ''xx'' n"

lemma delete_ents_Suc: "delete (nums prefix m) (ents prefix (Suc m) @ []) = [(numbered prefix m, int_bytes (int m))]"
  using delete_ents(1) [of prefix m "[]"] by (auto simp: ents_def delete_def nums_def numbered_inj)

lemma t_dircheck_in:
  assumes s: "setting E U D d {dp}" and N: "{d} \<times> UNIV \<subseteq> N" and fs: "\<And>f. fs (d, f) = map_of [(g, c)] f" and g: "\<not> dotted g"
  shows "hoare E p (st E p N U D out fs) (dircheck prog dp 1) (st E p N U D out fs)"
  unfolding hoare_def
proof (intro allI impI)
  fix a
  assume a: "st E p N U D out fs a"
  have "p_files a (d, f) = map_of [(g, c)] f" for f using a N fs unfolding st_def loc_def by (metis (no_types) SigmaI UNIV_I singletonI subsetD)
  then have "{f. p_files a (d, f) \<noteq> None \<and> \<not> dotted f} = {g}" using g by (auto split: if_splits)
  then have "rg E p (=) (\<lambda>_ _. True) (dircheck prog dp 1) (\<lambda>_. (=) a) a"
    using a s by (intro dircheck_rg [where d = d]) (auto simp: reflp_def transp_def st_def loc_def setting_def)
  then show "rg E p (=) (\<lambda>_ _. True) (dircheck prog dp 1) (\<lambda>_. st E p N U D out fs) a"
    by (rule rg_mono) (use a in simp)
qed

lemma dmap_Nil: "dmap d [] = Map.empty"
  by (auto simp: dmap_def)

lemma numbers_ok_le: "numbers_ok E U d prefix n \<Longrightarrow> m \<le> n \<Longrightarrow> numbers_ok E U d prefix m"
  unfolding numbers_ok_def nums_def by (auto simp: subset_iff)

lemma does_create_unlink:
  assumes s: "setting E U D d {dp}" and n: "numbers_ok E U d prefix (Suc m)"
  shows "does E ({d} \<times> UNIV) U D Map.empty (createn prog dp prefix (Suc m) False) (dmap d (ents prefix (Suc m) @ []))"
    and "does E ({d} \<times> UNIV) U D (dmap d (ents prefix (Suc m) @ [])) (unlinkn prog dp prefix m) (dmap d [(numbered prefix m, int_bytes (int m))])"
proof -
  show "does E ({d} \<times> UNIV) U D Map.empty (createn prog dp prefix (Suc m) False) (dmap d (ents prefix (Suc m) @ []))"
    unfolding dmap_Nil [of d, symmetric] by (rule does_createn [OF s _ n]) auto
  show "does E ({d} \<times> UNIV) U D (dmap d (ents prefix (Suc m) @ [])) (unlinkn prog dp prefix m) (dmap d [(numbered prefix m, int_bytes (int m))])"
    unfolding delete_ents_Suc [symmetric]
    by (rule does_unlinkn [OF s _ numbers_ok_le [OF n]]) (auto simp: ents_set_fst ents_fst(1) nums_def)
qed

context posix_kernel
begin

lemma separate_runs:
  assumes s: "arena2 E U D da db d1 d2 (Suc m)"
  shows "runs K Rel p (st E p ({da, db} \<times> UNIV) U D out Map.empty) (seqP (test_separate prog (Suc m) m d1 d2))
    (\<lambda>b. p_out b = out @ ''Create/delete in separate directories: tests completed OK\<newline>'')"
proof -
  let ?out = "out @ ''Create/delete in separate directories: ''"
  let ?fs = "\<lambda>x. if x \<in> {db} \<times> UNIV then dmap db [(numbered ''xx'' m, int_bytes (int m))] x
    else dmap da [(numbered ''yy'' m, int_bytes (int m))] x"
  have st: "da \<noteq> db" "setting E U D da {d1}" "setting E U D db {d2}" "numbers_ok E U da ''yy'' (Suc m)" "numbers_ok E U db ''xx'' (Suc m)"
    using s by (simp_all add: arena2_def)
  note yy = does_create_unlink [OF st(2,4)] and xx = does_create_unlink [OF st(3,5)]
  have par: "(\<lambda>pid. seqP [createn prog d1 ''yy'' (Suc m) False, unlinkn prog d1 ''yy'' m, sleep 4, reap prog pid]) =
      (\<lambda>pid. bindP (seqP [createn prog d1 ''yy'' (Suc m) False, unlinkn prog d1 ''yy'' m, sleep 4]) (\<lambda>_. reap prog pid))" by (simp add: bindP_assoc)
  have N: "({da} \<times> UNIV) \<union> ({db} \<times> UNIV) = {da, db} \<times> UNIV" by auto
  have fork: "runs K Rel p (st E p ({da, db} \<times> UNIV) U D ?out Map.empty)
      (fork_test prog (seqP [createn prog d2 ''xx'' (Suc m) False, unlinkn prog d2 ''xx'' m])
        (\<lambda>pid. bindP (seqP [createn prog d1 ''yy'' (Suc m) False, unlinkn prog d1 ''yy'' m, sleep 4]) (\<lambda>_. reap prog pid)))
      (st E p ({da, db} \<times> UNIV) U D ?out ?fs)"
    unfolding N [symmetric]
    by (rule disjoint_runs [OF does_Cons [OF yy(1) does_Cons [OF yy(2) does_Cons [OF does_sleep does_Nil]]]
          does_Cons [OF xx(1) does_Cons [OF xx(2) does_Nil]]]) (use st(1) in auto)
  have dc: "hoare E p (st E p ({da, db} \<times> UNIV) U D ?out ?fs) (dircheck prog d1 1) (st E p ({da, db} \<times> UNIV) U D ?out ?fs)"
      "hoare E p (st E p ({da, db} \<times> UNIV) U D ?out ?fs) (dircheck prog d2 1) (st E p ({da, db} \<times> UNIV) U D ?out ?fs)"
    by (rule t_dircheck_in [OF st(2), of _ _ "numbered ''yy'' m" "int_bytes (int m)"];
          use st(1) in \<open>force simp: numbered_def dotted_def\<close>)
       (rule t_dircheck_in [OF st(3), of _ _ "numbered ''xx'' m" "int_bytes (int m)"];
          use st(1) in \<open>force simp: numbered_def dotted_def\<close>)
  have "hoare E p (st E p ({da, db} \<times> UNIV) U D ?out ?fs) (seqP [dircheck prog d1 1, dircheck prog d2 1, printf ''tests completed OK\<newline>''])
      (st E p ({da, db} \<times> UNIV) U D (?out @ ''tests completed OK\<newline>'') ?fs)"
    by (rule hoare_Cons [OF dc(1)], rule hoare_Cons [OF dc(2)], rule hoare_Cons [OF hoare_printf hoare_Nil])
  then have rest: "hoare E p (st E p ({da, db} \<times> UNIV) U D ?out ?fs) (seqP [dircheck prog d1 1, dircheck prog d2 1, printf ''tests completed OK\<newline>''])
      (\<lambda>b. p_out b = out @ ''Create/delete in separate directories: tests completed OK\<newline>'')"
    unfolding hoare_def by (elim all_forward imp_forward) (auto elim!: rg_mono simp: st_def)
  show ?thesis unfolding test_separate_def par
    by (rule runs_Cons [OF hoare_runs [OF hoare_printf] runs_Cons [OF fork hoare_runs [OF rest]]])
qed

end

section \<open>Whole testers\<close>

lemma two_directories_rg:
  assumes s: "starts E p m1 m2 [''da'', ''db''] (2 * n + 2) a" and n: "n \<le> 1000"
  shows "rg E p (=) (\<lambda>_ _. True) (two_directories prog [argv0, m1, m2])
    (\<lambda>(d1, d2) b. \<exists>U D da db. arena2 E U D da db d1 d2 n \<and> st E p ({da, db} \<times> UNIV) U D [] Map.empty b) a"
proof -
  let ?da = "''da'' @ decimal p" and ?db = "''db'' @ decimal p"
  let ?D = "insert ?db (insert ?da (p_dirs a))" and ?b = "made ?db (made ?da a)"
  let ?U = "dom (p_files a) \<union> ({?da} \<times> nums ''yy'' n \<union> {?db} \<times> nums ''xx'' n)"
  have ne: "?da \<noteq> ?db" by simp
  have dp: "dpath E (insert ?da (p_dirs a)) (m1 @ ''/'' @ ?da) ?da" "dpath E ?D (m1 @ ''/'' @ ?da) ?da" "dpath E ?D (m2 @ ''/'' @ ?db) ?db" "dpath E ?D (m2 @ ''/'' @ ?da) ?da"
    by (rule dpath_pid; use s in \<open>simp add: starts_def\<close>)+
  have len: "length (m1 @ ''/'' @ ?da) < 512" "length (m2 @ ''/'' @ ?db) < 512" "length (m2 @ ''/'' @ ?da) < 512"
    using dp by (simp_all add: dpath_def)
  have nums: "finite (nums pre n)" "card (nums pre n) \<le> n" for pre
    using card_image_le [of "{..<n}" "numbered pre"] by (simp_all add: nums_def)
  have U: "finite ?U" "card ?U \<le> card (dom (p_files a)) + (n + n)"
  proof -
    have "card ({?da} \<times> nums ''yy'' n \<union> {?db} \<times> nums ''xx'' n) \<le> n + n"
      using card_Un_le [of "{?da} \<times> nums ''yy'' n" "{?db} \<times> nums ''xx'' n"] nums(2) [of "''yy''"] nums(2) [of "''xx''"]
      unfolding card_cartesian_product_singleton by linarith
    then show "card ?U \<le> card (dom (p_files a)) + (n + n)"
      using card_Un_le [of "dom (p_files a)" "{?da} \<times> nums ''yy'' n \<union> {?db} \<times> nums ''xx'' n"] by linarith
    show "finite ?U" using nums(1) s by (simp add: starts_def)
  qed
  have D: "finite ?D" "card ?D \<le> card (p_dirs a) + 2" "p_dirs ?b = ?D" using s by (auto simp: starts_def card_insert_if made_def)
  have "dom (p_files ?b) \<subseteq> ?U" using made_dom [of ?db "made ?da a"] made_dom [of ?da a] by blast
  moreover have "p_files ?b x = None" if "x \<in> {?da, ?db} \<times> UNIV" for x using that by (auto simp: made_def)
  ultimately have "st E p ({?da, ?db} \<times> UNIV) ?U ?D [] Map.empty ?b"
    using s U D by (auto simp: starts_def st_def loc_def made_def)
  moreover have "arena2 E ?U ?D ?da ?db (m1 @ ''/'' @ ?da) (m2 @ ''/'' @ ?db) n"
    using dp s n ne by (auto simp: arena2_def setting_def starts_def numbers_ok_def tname_def name_ok_def dotted_def)
  ultimately have fin: "rg E p (=) (\<lambda>_ _. True) (Return (m1 @ ''/'' @ ?da, m2 @ ''/'' @ ?db))
      (\<lambda>(d1, d2) b. \<exists>U D da db. arena2 E U D da db d1 d2 n \<and> st E p ({da, db} \<times> UNIV) U D [] Map.empty b) ?b"
    by (auto simp only: rg.simps case_prod_conv)
  have a1: "?db \<notin> p_dirs (made ?da a)" "finite (dom (p_files (made ?da a)))" "finite (p_dirs (made ?da a))"
      "card (dom (p_files (made ?da a))) + card (p_dirs (made ?da a)) < max_files E"
  proof -
    have "card (dom (p_files (made ?da a))) \<le> card (dom (p_files a))" by (rule card_mono [OF _ made_dom]) (use s in \<open>simp add: starts_def\<close>)
    moreover have "card (p_dirs (made ?da a)) \<le> card (p_dirs a) + 1" using s by (simp add: starts_def made_def card_insert_if)
    ultimately show "card (dom (p_files (made ?da a))) + card (p_dirs (made ?da a)) < max_files E" using s by (simp add: starts_def)
    show "finite (dom (p_files (made ?da a)))" by (rule finite_subset [OF made_dom]) (use s in \<open>simp add: starts_def\<close>)
  qed (use s in \<open>auto simp: starts_def made_def\<close>)
  have argc: "\<not> length [argv0, m1, m2] \<noteq> 3" by simp
  show ?thesis unfolding two_directories_def if_not_P [OF argc]
    apply (rule getpid_rg, simp only: argv_simps len, rule mkdir_rg [OF dp(1)])
        apply (use s in \<open>simp_all add: starts_def\<close>)[4]
    apply (simp only: simp_thms if_False, rule getpid_rg, simp only: argv_simps len, rule mkdir_rg [OF dp(3) a1])
    apply (simp only: simp_thms if_False, rule getpid_rg, simp only: argv_simps len, rule access_rg, simp only: D(3), rule dp(4))
    apply (simp only: simp_thms if_False, rule fin)
    done
qed

text \<open>The tester has ended with exit code 0, its children have been reaped, and \<open>out\<close> has been printed.\<close>

definition passed :: "('w \<Rightarrow> pworld \<Rightarrow> bool) \<Rightarrow> nat \<Rightarrow> string \<Rightarrow> 'w machine \<Rightarrow> bool" where
  "passed Rel p out c \<longleftrightarrow> procs c = [p \<mapsto> Done 0] \<and> (\<exists>b. Rel (world c) b \<and> p_out b = out)"

context posix_kernel
begin

lemma tester_passes:
  assumes start: "rg E p (=) (\<lambda>_ _. True) pre P a" and w: "Rel w a"
    and runs: "\<And>d b. P d b \<Longrightarrow> \<exists>P0 P1. P0 b \<and> runs K Rel p P0 (seqP (tests d)) P1 \<and> (\<forall>b. P1 b \<longrightarrow> p_out b = out)"
  shows "inevitably (kstep K) (passed Rel p out) (alone p (bindP pre (\<lambda>d. bindP (seqP (tests d)) (\<lambda>_. Exit_with 0))) w)"
proof (rule inev_seq [OF start w])
  fix d b u
  assume "P d b" and u: "Rel u b"
  from runs [OF this(1)] obtain P0 P1 where r: "P0 b" "runs K Rel p P0 (seqP (tests d)) P1" "\<And>b. P1 b \<Longrightarrow> p_out b = out" by blast
  show "inevitably (kstep K) (passed Rel p out) (alone p (bindP (seqP (tests d)) (\<lambda>_. Exit_with 0)) u)"
  proof (rule runsD [OF r(2,1) u])
    fix b u
    assume b: "P1 b" "Rel u b"
    have "passed Rel p out \<lparr>procs = [p \<mapsto> Done 0], world = k_exit K p u\<rparr>"
      using exit_law [OF b(2), of p] r(3) [OF b(1)] by (auto simp: passed_def)
    then show "inevitably (kstep K) (passed Rel p out) (alone p (Exit_with 0) u)" by (rule inev_exit [OF b(2)])
  qed
qed

text \<open>The tests one after the other.\<close>

lemma sequential_runs:
  assumes s: "arena E U D d d1 d2"
  shows "runs K Rel p (std E p U D d out []) (seqP (test_create_read prog d1 d2 @ test_unlink prog d1 d2 @ test_append prog d1 d2 @
      test_readdir prog d1 d2 @ test_many_creates prog d1 d2 @ test_write_big prog d1 d2))
    (std E p U D d (((((((out @ ''Create then read: OK\<newline>'') @ ''Unlink: OK\<newline>'') @ ''Append: OK\<newline>'') @ ''Readdir: OK\<newline>'') @
      ''Many sequential creates: OK\<newline>'') @ ''Write 20000 bytes: OK\<newline>'')) [])"
  by (rule runs_append [OF hoare_runs [OF create_read_passes [OF s]]], rule runs_append [OF hoare_runs [OF unlink_passes [OF s]]],
      rule runs_append [OF hoare_runs [OF append_passes [OF s]]], rule runs_append [OF hoare_runs [OF readdir_passes [OF s]]],
      rule runs_append [OF hoare_runs [OF many_creates_passes [OF s]]], rule hoare_runs [OF write_big_passes [OF s]])

lemma concurrent_runs:
  assumes s: "arena E U D d d1 d2"
  shows "runs K Rel p (std E p U D d out []) (seqP (test_concurrent_creates prog d1 d2 @ test_same_file prog d1 d2 @ test_create_delete prog d1 d2 @
      test_same_server prog d1 d2 @ test_concurrent_writes prog d1 d2))
    (\<lambda>b. \<exists>c. both_written c \<and> std E p U D d (((((out @ ''Concurrent creates: OK\<newline>'') @ ''Concurrent creates of the same file: OK\<newline>'') @
      ''Concurrent create/delete: OK\<newline>'') @ ''Concurrent creates, same file, same server: OK\<newline>'') @
      ''Concurrent writes to different parts of same file: OK\<newline>'') [(''www'', c)] b)"
  by (rule runs_append [OF concurrent_creates_runs [OF s]], rule runs_append [OF same_file_runs [OF s]],
      rule runs_append [OF create_delete_runs [OF s]], rule runs_append [OF same_server_runs [OF s]], rule concurrent_writes_runs [OF s])

end

end
