(* ===== verification/Posix_Yfs.thy ===== *)
theory Posix_Yfs
  imports Posix Fuse_Props
begin

text \<open>
  The interface \<open>posix_kernel\<close> on the modelled file system: a small kernel that turns the system calls
  into FUSE requests, keeps the descriptors and offsets itself, and is served by the FUSE handlers of
  one \<^verbatim>\<open>yfs_client\<close>. It stands for the Linux kernel in the examples; the laws it is shown to keep are
  those the testers rely on.
\<close>

section \<open>The kernel\<close>

record kfile =
  kf_ino :: u64
  kf_pos :: nat
  kf_flags :: "oflag list"

record yworld =
  yw_client :: "block_manager yfs"
  yw_fds :: "nat \<Rightarrow> int \<rightharpoonup> kfile"
  yw_next_fd :: nat
  yw_next_pid :: nat
  yw_out :: string

text \<open>
  What the kernel is built over: the FUSE library, the way to the servers, the mount points, and the
  reader of the buffers that \<^verbatim>\<open>readdir\<close> answers with.
\<close>

record yenv =
  ye_fuse :: fuse_env
  ye_io :: "block_manager yfs_io"
  ye_posix :: posix_env
  ye_names :: "byte list \<Rightarrow> byte list list"

definition ask :: "yenv \<Rightarrow> fuse_request \<Rightarrow> yworld \<Rightarrow> fuse_reply \<times> yworld" where
  "ask V r w = (case fuseserver_oper (ye_fuse V) (ye_io V) r (yw_client w) of
     Inl _ \<Rightarrow> (Reply_Err 5, w) | Inr (p, y) \<Rightarrow> (p, w\<lparr>yw_client := y\<rparr>))"

definition sys_ok :: "int \<Rightarrow> sysret" where
  "sys_ok v = \<lparr>r_val = v, r_errno = 0, r_data = [], r_names = None\<rparr>"

definition sys_err :: "int \<Rightarrow> sysret" where
  "sys_err e = \<lparr>r_val = - 1, r_errno = e, r_data = [], r_names = None\<rparr>"

definition k_lookup :: "yenv \<Rightarrow> u64 \<Rightarrow> string \<Rightarrow> yworld \<Rightarrow> u64 option \<times> yworld" where
  "k_lookup V i n w = (case ask V (Lookup_Req i (sbytes n) e0) w of
     (Reply_Entry e, w) \<Rightarrow> (Some (e_ino e), w) | (_, w) \<Rightarrow> (None, w))"

text \<open>The directory and the inode, if any, that a path leads to.\<close>

definition k_walk :: "yenv \<Rightarrow> string \<times> string \<Rightarrow> yworld \<Rightarrow> u64 option \<times> u64 option \<times> yworld" where
  "k_walk V x w = (case k_lookup V 1 (fst x) w of
     (None, w) \<Rightarrow> (None, None, w)
   | (Some i, w) \<Rightarrow> (case k_lookup V i (snd x) w of (j, w) \<Rightarrow> (Some i, j, w)))"

definition k_open :: "nat \<Rightarrow> u64 \<Rightarrow> oflag list \<Rightarrow> yworld \<Rightarrow> sysret \<times> yworld" where
  "k_open p j fl w =
     (let fd = int (yw_next_fd w) in
      (sys_ok fd, w\<lparr>yw_fds := (yw_fds w)(p := (yw_fds w p)(fd \<mapsto> \<lparr>kf_ino = j, kf_pos = 0, kf_flags = fl\<rparr>)),
                    yw_next_fd := Suc (yw_next_fd w)\<rparr>))"

definition k_create :: "yenv \<Rightarrow> nat \<Rightarrow> u64 \<Rightarrow> string \<Rightarrow> oflag list \<Rightarrow> yworld \<Rightarrow> sysret \<times> yworld" where
  "k_create V p i f fl w = (case ask V (Create_Req i (sbytes f) e0) w of
     (Reply_Create e, w) \<Rightarrow> k_open p (e_ino e) fl w | (_, w) \<Rightarrow> (sys_err ENOENT, w))"

definition k_seek :: "nat \<Rightarrow> int \<Rightarrow> nat \<Rightarrow> yworld \<Rightarrow> yworld" where
  "k_seek p fd n w = (case yw_fds w p fd of None \<Rightarrow> w
     | Some k \<Rightarrow> w\<lparr>yw_fds := (yw_fds w)(p := (yw_fds w p)(fd \<mapsto> k\<lparr>kf_pos := n\<rparr>))\<rparr>)"

text \<open>With \<^verbatim>\<open>O_APPEND\<close> a write goes to the size that \<^verbatim>\<open>getattr\<close> reports.\<close>

definition k_write_pos :: "yenv \<Rightarrow> kfile \<Rightarrow> yworld \<Rightarrow> nat \<times> yworld" where
  "k_write_pos V k w = (if O_APPEND \<in> set (kf_flags k)
     then (case ask V (Getattr_Req (kf_ino k)) w of (Reply_Attr s, w) \<Rightarrow> (unat (st_size s), w) | (_, w) \<Rightarrow> (0, w))
     else (kf_pos k, w))"

fun yfs_sys :: "yenv \<Rightarrow> nat \<Rightarrow> syscall \<Rightarrow> yworld \<Rightarrow> sysret \<times> yworld" where
  "yfs_sys V p (Sys_sleep n) w = (sys_ok 0, w)"
| "yfs_sys V p (Sys_printf s) w = (sys_ok (int (length s)), w\<lparr>yw_out := yw_out w @ s\<rparr>)"
| "yfs_sys V p (Sys_eprintf s) w = (sys_ok (int (length s)), w)"
| "yfs_sys V p Sys_getpid w = (sys_ok (int p), w)"
| "yfs_sys V p (Sys_creat path) w = (case file_of (ye_posix V) path of None \<Rightarrow> (sys_err ENOENT, w) | Some x \<Rightarrow>
     (case k_walk V x w of
        (None, _, w) \<Rightarrow> (sys_err ENOENT, w)
      | (Some i, Some j, w) \<Rightarrow> k_open p j [O_WRONLY] (snd (ask V (Setattr_Req j zero_stat (set_attr_size (ye_fuse V))) w))
      | (Some i, None, w) \<Rightarrow> k_create V p i (snd x) [O_WRONLY] w))"
| "yfs_sys V p (Sys_open path fl) w = (case file_of (ye_posix V) path of None \<Rightarrow> (sys_err ENOENT, w) | Some x \<Rightarrow>
     (case k_walk V x w of
        (None, _, w) \<Rightarrow> (sys_err ENOENT, w)
      | (Some i, Some j, w) \<Rightarrow> k_open p j fl w
      | (Some i, None, w) \<Rightarrow> if O_CREAT \<in> set fl then k_create V p i (snd x) fl w else (sys_err ENOENT, w)))"
| "yfs_sys V p (Sys_write fd s) w = (case yw_fds w p fd of None \<Rightarrow> (sys_err 9, w) | Some k \<Rightarrow>
     (case k_write_pos V k w of (n, w) \<Rightarrow>
      (case ask V (Write_Req (kf_ino k) (sbytes s) (of_nat (length s)) (of_nat n)) w of
         (Reply_Write m, w) \<Rightarrow> (sys_ok (int (unat m)), k_seek p fd (n + length s) w) | (_, w) \<Rightarrow> (sys_err 5, w))))"
| "yfs_sys V p (Sys_read fd n) w = (case yw_fds w p fd of None \<Rightarrow> (sys_err 9, w) | Some k \<Rightarrow>
     (case ask V (Read_Req (kf_ino k) (of_nat n) (of_nat (kf_pos k))) w of
        (Reply_Buf b, w) \<Rightarrow> ((sys_ok (int (length b)))\<lparr>r_data := bstring b\<rparr>, k_seek p fd (kf_pos k + length b) w) | (_, w) \<Rightarrow> (sys_err 5, w)))"
| "yfs_sys V p (Sys_lseek fd n) w = (if yw_fds w p fd = None then (sys_err 9, w) else (sys_ok n, k_seek p fd (nat n) w))"
| "yfs_sys V p (Sys_fsync fd) w = (if yw_fds w p fd = None then (sys_err 9, w) else (sys_ok 0, w))"
| "yfs_sys V p (Sys_close fd) w =
     (if yw_fds w p fd = None then (sys_err 9, w) else (sys_ok 0, w\<lparr>yw_fds := (yw_fds w)(p := (yw_fds w p)(fd := None))\<rparr>))"
| "yfs_sys V p (Sys_unlink path) w = (case file_of (ye_posix V) path of None \<Rightarrow> (sys_err ENOENT, w) | Some x \<Rightarrow>
     (case k_lookup V 1 (fst x) w of
        (None, w) \<Rightarrow> (sys_err ENOENT, w)
      | (Some i, w) \<Rightarrow> (case ask V (Unlink_Req i (sbytes (snd x))) w of
           (Reply_Err e, w) \<Rightarrow> (if e = 0 then sys_ok 0 else sys_err e, w) | (_, w) \<Rightarrow> (sys_err 5, w))))"
| "yfs_sys V p (Sys_mkdir path) w = (case dir_of (ye_posix V) path of None \<Rightarrow> (sys_err ENOENT, w) | Some d \<Rightarrow>
     (case ask V (Mkdir_Req 1 (sbytes d) e0) w of (Reply_Entry _, w) \<Rightarrow> (sys_ok 0, w) | (_, w) \<Rightarrow> (sys_err EEXIST, w)))"
| "yfs_sys V p (Sys_access path) w = (case dir_of (ye_posix V) path of None \<Rightarrow> (sys_err ENOENT, w) | Some d \<Rightarrow>
     (case k_lookup V 1 d w of (None, w) \<Rightarrow> (sys_err ENOENT, w) | (Some i, w) \<Rightarrow> (sys_ok 0, w)))"
| "yfs_sys V p (Sys_opendir path) w = (case dir_of (ye_posix V) path of None \<Rightarrow> (sys_err ENOENT, w) | Some d \<Rightarrow>
     (case k_lookup V 1 d w of
        (None, w) \<Rightarrow> (sys_err ENOENT, w)
      | (Some i, w) \<Rightarrow> (case ask V (Readdir_Req i (- 1) 0) w of
           (Reply_Buf b, w) \<Rightarrow> ((sys_ok 0)\<lparr>r_names := Some (map bstring (ye_names V b))\<rparr>, w) | (_, w) \<Rightarrow> (sys_err ENOENT, w))))"

definition yfs_kernel :: "yenv \<Rightarrow> yworld kernel" where
  "yfs_kernel V = \<lparr>k_sys = yfs_sys V,
     k_fork = (\<lambda>p w. (int (yw_next_pid w), w\<lparr>yw_next_pid := Suc (yw_next_pid w), yw_fds := (yw_fds w)(yw_next_pid w := yw_fds w p)\<rparr>)),
     k_exit = (\<lambda>p w. w\<lparr>yw_fds := (yw_fds w)(p := Map.empty)\<rparr>),
     k_reap = (\<lambda>p w. w)\<rparr>"

section \<open>Trees of two levels\<close>

text \<open>The entries of a directory, and the inodes of the directories and files of the testers' tree.\<close>

definition dents :: "fs \<Rightarrow> u64 \<Rightarrow> dirent list" where
  "dents fs i = (case fs i of Some (NDir ds) \<Rightarrow> ds | _ \<Rightarrow> [])"

definition kdir :: "fs \<Rightarrow> string \<Rightarrow> u64 option" where
  "kdir fs d = find_name (sbytes d) (dents fs 1)"

definition kfil :: "fs \<Rightarrow> string \<times> string \<Rightarrow> u64 option" where
  "kfil fs x = (case kdir fs (fst x) of None \<Rightarrow> None | Some i \<Rightarrow> find_name (sbytes (snd x)) (dents fs i))"

definition kcontent :: "fs \<Rightarrow> string \<times> string \<Rightarrow> string option" where
  "kcontent fs x = (case kfil fs x of None \<Rightarrow> None | Some j \<Rightarrow> (case fs j of Some (NFile c) \<Rightarrow> Some (bstring c) | _ \<Rightarrow> None))"

definition two_level :: "fs \<Rightarrow> bool" where
  "two_level fs \<longleftrightarrow> (\<exists>ds. fs 1 = Some (NDir ds)) \<and>
     (\<forall>d i. kdir fs d = Some i \<longrightarrow> (\<exists>ds. fs i = Some (NDir ds))) \<and>
     (\<forall>x j. kfil fs x = Some j \<longrightarrow> (\<exists>c. fs j = Some (NFile c)) \<and> 0 \<notin> set (sbytes (snd x))) \<and>
     (\<forall>i. fs i \<noteq> None \<longrightarrow> i = 1 \<or> (\<exists>d. kdir fs d = Some i) \<or> (\<exists>x. kfil fs x = Some i))"

lemma two_levelD:
  assumes "two_level fs"
  shows "\<exists>ds. fs 1 = Some (NDir ds)" and "kdir fs d = Some i \<Longrightarrow> \<exists>ds. fs i = Some (NDir ds)"
    and "kfil fs x = Some j \<Longrightarrow> \<exists>c. fs j = Some (NFile c)" and "kfil fs x = Some j \<Longrightarrow> 0 \<notin> set (sbytes (snd x))"
    and "fs i = Some n \<Longrightarrow> i = 1 \<or> (\<exists>d. kdir fs d = Some i) \<or> (\<exists>x. kfil fs x = Some i)"
  using assms unfolding two_level_def by blast+

lemma find_name_distinct:
  "distinct (map d_inum ds) \<Longrightarrow> find_name n ds = Some i \<Longrightarrow> find_name m ds = Some i \<Longrightarrow> n = m"
  using find_name_Some [of n ds i] find_name_Some [of m ds i]
  by (metis (mono_tags, lifting) dirent.select_convs distinct_map inj_onD)

lemma find_name_mem: "find_name n ds = Some i \<Longrightarrow> \<exists>e\<in>set ds. d_name e = n \<and> d_inum e = i"
  by (induction ds) (auto split: if_splits)

text \<open>Directories and files of the tree are different inodes, and names lead to different inodes.\<close>

lemma kdir_facts:
  assumes t: "tree_ok fs" "two_level fs" and i: "kdir fs d = Some i"
  shows "i \<noteq> 1" and "fs i = Some (NDir (dents fs i))" and "kdir fs d' = Some i \<Longrightarrow> d' = d"
proof -
  obtain ds where r: "fs 1 = Some (NDir ds)" using t(2) by (auto simp: two_level_def)
  then have e: "find_name (sbytes d) ds = Some i" using i by (simp add: kdir_def dents_def)
  from find_name_mem [OF this] show "i \<noteq> 1" using tree_okD(4) [OF t(1) r] by blast
  obtain es where "fs i = Some (NDir es)" using t(2) i unfolding two_level_def by blast
  then show "fs i = Some (NDir (dents fs i))" by (simp add: dents_def)
  show "d' = d" if "kdir fs d' = Some i"
    using find_name_distinct [OF tree_okD(3) [OF t(1) r] e, of "sbytes d'"] that r by (simp add: kdir_def dents_def sbytes_inj)
qed

lemma kfil_facts:
  assumes t: "tree_ok fs" "two_level fs" and j: "kfil fs x = Some j"
  obtains i c where "kdir fs (fst x) = Some i" "find_name (sbytes (snd x)) (dents fs i) = Some j" "fs j = Some (NFile c)" "j \<noteq> 1" "j \<noteq> i"
    "\<And>y. kfil fs y = Some j \<Longrightarrow> y = x"
proof -
  obtain i where i: "kdir fs (fst x) = Some i" "find_name (sbytes (snd x)) (dents fs i) = Some j"
    using j by (auto simp: kfil_def split: option.splits)
  obtain c where c: "fs j = Some (NFile c)" using t(2) j unfolding two_level_def by blast
  note di = kdir_facts [OF t i(1)]
  have "y = x" if y: "kfil fs y = Some j" for y
  proof -
    obtain i' where i': "kdir fs (fst y) = Some i'" "find_name (sbytes (snd y)) (dents fs i') = Some j"
      using y by (auto simp: kfil_def split: option.splits)
    have "i' = i" using find_name_mem [OF i(2)] find_name_mem [OF i'(2)] tree_okD(5) [OF t(1) di(2) _ kdir_facts(2) [OF t i'(1)]] by metis
    then have "sbytes (snd x) = sbytes (snd y)" "fst y = fst x"
      using kdir_facts(3) [OF t i(1)] i'(1) find_name_distinct [OF tree_okD(3) [OF t(1) di(2)] i(2)] i'(2) by simp_all
    then have "snd y = snd x" "fst y = fst x" by (simp_all add: sbytes_inj)
    then show ?thesis by (simp add: prod_eq_iff)
  qed
  then show thesis using that i c di t(2) by (metis node.distinct(1) option.inject two_level_def)
qed

subsection \<open>Changes of the tree\<close>

lemma dents_upd:
  "dents (fs(j \<mapsto> NDir ds)) i = (if i = j then ds else dents fs i)"
  "dents (fs(j \<mapsto> NFile c)) i = (if i = j then [] else dents fs i)"
  "dents (fs(j := None)) i = (if i = j then [] else dents fs i)"
  by (simp_all add: dents_def)

lemma dents_file: "fs j = Some (NFile c) \<Longrightarrow> dents fs j = []" "fs j = None \<Longrightarrow> dents fs j = []"
  by (simp_all add: dents_def)

lemma kcontent_upd:
  assumes "kfil fs' = (kfil fs)(x \<mapsto> k)" and "fs' k = Some (NFile c)" and "\<And>y j. y \<noteq> x \<Longrightarrow> kfil fs y = Some j \<Longrightarrow> fs' j = fs j"
  shows "kcontent fs' = (kcontent fs)(x \<mapsto> bstring c)"
proof
  fix y show "kcontent fs' y = ((kcontent fs)(x \<mapsto> bstring c)) y"
    using assms(1,2) assms(3) [of y] by (cases "y = x"; cases "kfil fs y") (simp_all add: kcontent_def)
qed

lemma written_tree:
  assumes t: "tree_ok fs" "two_level fs" and j: "kfil fs x = Some j"
  shows "kdir (fs(j \<mapsto> NFile c)) = kdir fs" and "kfil (fs(j \<mapsto> NFile c)) = kfil fs"
    and "kcontent (fs(j \<mapsto> NFile c)) = (kcontent fs)(x \<mapsto> bstring c)" and "two_level (fs(j \<mapsto> NFile c))"
proof -
  obtain i c0 where i: "fs j = Some (NFile c0)" "j \<noteq> 1" "\<And>y. kfil fs y = Some j \<Longrightarrow> y = x" by (rule kfil_facts [OF t j]) blast
  have d: "dents (fs(j \<mapsto> NFile c)) = dents fs" using dents_file(1) [of fs j c0] i(1) by (auto simp: dents_upd)
  show kd: "kdir (fs(j \<mapsto> NFile c)) = kdir fs" by (simp add: kdir_def d fun_eq_iff)
  show kf: "kfil (fs(j \<mapsto> NFile c)) = kfil fs" unfolding kfil_def kd d ..
  have kf': "kfil (fs(j \<mapsto> NFile c)) = (kfil fs)(x \<mapsto> j)" using j by (simp add: kf fun_upd_idem)
  show "kcontent (fs(j \<mapsto> NFile c)) = (kcontent fs)(x \<mapsto> bstring c)" by (rule kcontent_upd [OF kf']) (use i(3) in auto)
  have nd: "kdir fs d \<noteq> Some j" for d using two_levelD(2) [OF t(2), of d j] i(1) by auto
  show "two_level (fs(j \<mapsto> NFile c))" unfolding two_level_def kd kf
    using two_levelD(1-4) [OF t(2)] i(2) nd j
    by (auto dest: two_levelD(5) [OF t(2)] split: if_splits simp del: split_paired_Ex split_paired_All)
qed

lemma created_tree:
  assumes t: "tree_ok fs" "two_level fs" and i: "kdir fs d = Some i" and new: "find_name (sbytes f) (dents fs i) = None" and k: "fs k = None"
    and f: "0 \<notin> set (sbytes f)" and fs': "fs' = fs(k \<mapsto> NFile [], i \<mapsto> NDir (dents fs i @ [\<lparr>d_name = sbytes f, d_inum = k\<rparr>]))"
  shows "kdir fs' = kdir fs" and "kfil fs' = (kfil fs)((d, f) \<mapsto> k)" and "kcontent fs' = (kcontent fs)((d, f) \<mapsto> [])" and "two_level fs'"
proof -
  note di = kdir_facts [OF t i]
  have ki: "k \<noteq> i" "k \<noteq> 1" using di(2) k t(2) by (auto simp: two_level_def)
  have d: "dents fs' = (dents fs)(i := dents fs i @ [\<lparr>d_name = sbytes f, d_inum = k\<rparr>])"
    using ki dents_file(2) [of fs k] k by (auto simp: fs' dents_upd)
  show kd: "kdir fs' = kdir fs" using di(1) by (auto simp: kdir_def d fun_eq_iff)
  show kf: "kfil fs' = (kfil fs)((d, f) \<mapsto> k)"
  proof
    fix y :: "string \<times> string"
    show "kfil fs' y = ((kfil fs)((d, f) \<mapsto> k)) y"
    proof (cases "kdir fs (fst y)")
      case (Some i')
      have "i' = i \<Longrightarrow> fst y = d" using di(3) [of "fst y"] Some by simp
      then show ?thesis using Some new i
        by (cases y) (auto simp: kfil_def kd d find_name_append sbytes_inj split: option.splits)
    qed (use i in \<open>auto simp: kfil_def kd\<close>)
  qed
  have old: "kfil fs y \<noteq> Some k" "kfil fs y \<noteq> Some i" for y
    using t(2) k di(2) unfolding two_level_def by (metis option.distinct(1), metis node.distinct(1) option.inject)
  show "kcontent fs' = (kcontent fs)((d, f) \<mapsto> [])"
    by (rule kcontent_upd [OF kf, where c = "[]", unfolded bstring_def list.map]) (use old ki in \<open>auto simp: fs'\<close>)
  show "two_level fs'" unfolding two_level_def kd
  proof (intro conjI allI impI)
    show "\<exists>ds. fs' 1 = Some (NDir ds)" using t(2) di(1) ki by (auto simp: fs' two_level_def)
    show "\<exists>ds. fs' e = Some (NDir ds)" if "kdir fs d' = Some e" for d' e
      using two_levelD(2) [OF t(2) that] k by (auto simp: fs')
    show "\<exists>c. fs' j = Some (NFile c)" "0 \<notin> set (sbytes (snd y))" if "kfil fs' y = Some j" for y j
      using two_levelD(3,4) [OF t(2), of y j] that [unfolded kf] f old [of y] ki by (auto simp: fs' split: if_splits)
    show "e = 1 \<or> (\<exists>d. kdir fs d = Some e) \<or> (\<exists>y. kfil fs' y = Some e)" if "fs' e \<noteq> None" for e
    proof (cases "e = k \<or> e = i")
      case True then show ?thesis using i by (auto simp: kf)
    next
      case False
      then have "fs e \<noteq> None" using that by (simp add: fs')
      moreover have "kfil fs' y = Some e" if "kfil fs y = Some e" for y
        using that new i by (auto simp: kf kfil_def split: if_splits)
      ultimately show ?thesis using t(2) unfolding two_level_def by metis
    qed
  qed
qed

lemma kcontent_same:
  assumes "kfil fs' = kfil fs" and "\<And>y j. kfil fs y = Some j \<Longrightarrow> fs' j = fs j"
  shows "kcontent fs' = kcontent fs"
proof
  fix y show "kcontent fs' y = kcontent fs y" using assms(1) assms(2) [of y] by (cases "kfil fs y") (simp_all add: kcontent_def)
qed

lemma kcontent_gone:
  assumes "kfil fs' = (kfil fs)(x := None)" and "\<And>y j. y \<noteq> x \<Longrightarrow> kfil fs y = Some j \<Longrightarrow> fs' j = fs j"
  shows "kcontent fs' = (kcontent fs)(x := None)"
proof
  fix y show "kcontent fs' y = ((kcontent fs)(x := None)) y"
    using assms(1) assms(2) [of y] by (cases "y = x"; cases "kfil fs y") (simp_all add: kcontent_def)
qed

lemma mkdir_tree:
  assumes t: "tree_ok fs" "two_level fs" and new: "kdir fs d = None" and k: "fs k = None"
    and fs': "fs' = fs(k \<mapsto> NDir [], 1 \<mapsto> NDir (dents fs 1 @ [\<lparr>d_name = sbytes d, d_inum = k\<rparr>]))"
  shows "kdir fs' = (kdir fs)(d \<mapsto> k)" and "kfil fs' = kfil fs" and "kcontent fs' = kcontent fs" and "two_level fs'"
proof -
  have k1: "k \<noteq> 1" using two_levelD(1) [OF t(2)] k by auto
  have d: "dents fs' = (dents fs)(1 := dents fs 1 @ [\<lparr>d_name = sbytes d, d_inum = k\<rparr>])"
    using k1 dents_file(2) [of fs k] k by (auto simp: fs' dents_upd)
  have "kdir fs' e = ((kdir fs)(d \<mapsto> k)) e" for e
    using new by (auto simp: kdir_def d find_name_append sbytes_inj split: option.splits)
  then show kd: "kdir fs' = (kdir fs)(d \<mapsto> k)" by blast
  have "kfil fs' y = kfil fs y" for y
  proof (cases "fst y = d")
    case True then show ?thesis using new k k1 dents_file(2) [of fs k] unfolding kfil_def kd d by simp
  next
    case False
    then show ?thesis using kdir_facts(1) [OF t, of "fst y"] unfolding kfil_def kd d by (cases "kdir fs (fst y)") auto
  qed
  then show kf: "kfil fs' = kfil fs" by blast
  have old: "j \<noteq> k" "j \<noteq> 1" if "kfil fs y = Some j" for y j
    using two_levelD(3) [OF t(2) that] two_levelD(1) [OF t(2)] k by auto
  show "kcontent fs' = kcontent fs" by (rule kcontent_same [OF kf]) (use old in \<open>auto simp: fs'\<close>)
  show "two_level fs'" unfolding two_level_def kf
  proof (intro conjI allI impI)
    show "\<exists>ds. fs' 1 = Some (NDir ds)" by (simp add: fs')
    show "\<exists>ds. fs' e = Some (NDir ds)" if "kdir fs' d' = Some e" for d' e
      using two_levelD(2) [OF t(2), of d' e] that [unfolded kd] k by (auto simp: fs' split: if_splits)
    show "\<exists>c. fs' j = Some (NFile c)" "0 \<notin> set (sbytes (snd y))" if "kfil fs y = Some j" for y j
      using two_levelD(3,4) [OF t(2) that] old [OF that] by (simp_all add: fs')
    show "e = 1 \<or> (\<exists>d. kdir fs' d = Some e) \<or> (\<exists>y. kfil fs y = Some e)" if e: "fs' e \<noteq> None" for e
    proof (cases "e = k \<or> e = 1")
      case True then show ?thesis by (auto simp: kd)
    next
      case False
      then obtain n where "fs e = Some n" using e by (auto simp: fs')
      moreover have "kdir fs' d' = Some e" if "kdir fs d' = Some e" for d' using that new by (auto simp: kd)
      ultimately show ?thesis using two_levelD(5) [OF t(2)] by metis
    qed
  qed
qed

lemma unlinked_tree:
  assumes t: "tree_ok fs" "two_level fs" and i: "kdir fs d = Some i" and tn: "take_name (sbytes f) (dents fs i) = Some (j, rest)"
    and fs': "fs' = fs(j := None, i \<mapsto> NDir rest)"
  shows "kdir fs' = kdir fs" and "kfil fs' = (kfil fs)((d, f) := None)" and "kcontent fs' = (kcontent fs)((d, f) := None)" and "two_level fs'"
proof -
  note di = kdir_facts [OF t i]
  have j: "kfil fs (d, f) = Some j" using i take_name_spec(2) [OF tn] by (simp add: kfil_def)
  obtain c where c: "fs j = Some (NFile c)" "j \<noteq> 1" "j \<noteq> i" "\<And>y. kfil fs y = Some j \<Longrightarrow> y = (d, f)"
    by (rule kfil_facts [OF t j]) (use i in auto)
  have d: "dents fs' = (dents fs)(i := rest)" using c(3) dents_file(1) [of fs j c] c(1) by (auto simp: fs' dents_upd)
  show kd: "kdir fs' = kdir fs" using di(1) by (auto simp: kdir_def d fun_eq_iff)
  note rest = take_name_spec(4) [OF tn tree_okD(2) [OF t(1) di(2)]]
  have "kfil fs' y = ((kfil fs)((d, f) := None)) y" for y
  proof (cases "kdir fs (fst y)")
    case (Some i')
    have "i' = i \<Longrightarrow> fst y = d" using di(3) [of "fst y"] Some by simp
    then show ?thesis using Some rest i by (cases y) (auto simp: kfil_def kd d sbytes_inj)
  qed (use i in \<open>auto simp: kfil_def kd\<close>)
  then show kf: "kfil fs' = (kfil fs)((d, f) := None)" by blast
  have old: "e \<noteq> i" "y \<noteq> (d, f) \<Longrightarrow> e \<noteq> j" if "kfil fs y = Some e" for y e
    using two_levelD(3) [OF t(2) that] di(2) c(4) [of y] that by auto
  show "kcontent fs' = (kcontent fs)((d, f) := None)" by (rule kcontent_gone [OF kf]) (use old in \<open>auto simp: fs'\<close>)
  show "two_level fs'" unfolding two_level_def kd
  proof (intro conjI allI impI)
    show "\<exists>ds. fs' 1 = Some (NDir ds)" using two_levelD(1) [OF t(2)] di(1) c(2) by (simp add: fs')
    show "\<exists>ds. fs' e = Some (NDir ds)" if "kdir fs d' = Some e" for d' e
      using two_levelD(2) [OF t(2) that] c(1) by (auto simp: fs')
    show "\<exists>c. fs' e = Some (NFile c)" "0 \<notin> set (sbytes (snd y))" if "kfil fs' y = Some e" for y e
      using two_levelD(3,4) [OF t(2), of y e] that [unfolded kf] old [of y e] by (auto simp: fs' split: if_splits)
    show "e = 1 \<or> (\<exists>d. kdir fs d = Some e) \<or> (\<exists>y. kfil fs' y = Some e)" if e: "fs' e \<noteq> None" for e
    proof (cases "e = i")
      case True then show ?thesis using i by auto
    next
      case False
      then obtain n where "fs e = Some n" "e \<noteq> j" using e by (auto simp: fs' split: if_splits)
      moreover have "kfil fs' y = Some e" if "kfil fs y = Some e" "e \<noteq> j" for y using that j by (auto simp: kf)
      ultimately show ?thesis using two_levelD(5) [OF t(2)] by metis
    qed
  qed
qed

end
