(* ===== verification/Yfs_Kernel.thy ===== *)
theory Yfs_Kernel
  imports Posix_Yfs
begin

text \<open>
  The kernel of \<open>Posix_Yfs\<close> over the FUSE handlers keeps the laws of \<open>posix_kernel\<close>: the world of files
  and directories is the tree that the handlers refine, and each call is one or more requests, every one
  of which the handlers answer as their specification says.
\<close>

section \<open>The relation to the abstract world\<close>

text \<open>
  What the handlers need of the FUSE library and the servers, and the reader of the listings: it gives
  back the names that were written. The limits stay below those of the file system.
\<close>

definition yenv_ok :: "dirent_enc \<Rightarrow> yenv \<Rightarrow> bool" where
  "yenv_ok enc V \<longleftrightarrow> quiet_io (ye_io V) \<and> fuse_env_ok (ye_fuse V) enc \<and> set_attr_size (ye_fuse V) \<noteq> 0 \<and>
     name_max (ye_posix V) \<le> MAX_FILENAME_LENGTH \<and> max_files (ye_posix V) \<le> 1000 \<and> max_size (ye_posix V) < 2 ^ 31 \<and>
     (\<forall>ds. (\<forall>d\<in>set ds. length (d_name d) \<le> MAX_FILENAME_LENGTH) \<longrightarrow>
        ye_names V (listing enc (ye_fuse V) 0 ds) = map (\<lambda>d. c_str (d_name d)) ds)"

definition kf_rel :: "fs \<Rightarrow> kfile \<Rightarrow> ofile \<Rightarrow> bool" where
  "kf_rel fs k f \<longleftrightarrow> kfil fs (of_file f) = Some (kf_ino k) \<and> kf_pos k = of_pos f \<and> kf_flags k = of_flags f"

definition tree_rel :: "fs \<Rightarrow> pworld \<Rightarrow> bool" where
  "tree_rel fs a \<longleftrightarrow> two_level fs \<and> p_dirs a = dom (kdir fs) \<and> p_files a = kcontent fs \<and>
     finite (dom (kdir fs)) \<and> finite (dom (kcontent fs)) \<and> card (dom (kcontent fs)) + card (dom (kdir fs)) \<le> 1000"

lemma tree_rel_procs [simp]:
  "tree_rel fs (set_fd p fd f a) = tree_rel fs a" "tree_rel fs (a\<lparr>p_out := s\<rparr>) = tree_rel fs a"
  "tree_rel fs (a\<lparr>p_pids := ps, p_fds := ff\<rparr>) = tree_rel fs a" "tree_rel fs (a\<lparr>p_pids := ps\<rparr>) = tree_rel fs a"
  "tree_rel fs (a\<lparr>p_fds := ff\<rparr>) = tree_rel fs a"
  by (simp_all add: tree_rel_def set_fd_def)

definition procs_rel :: "fs \<Rightarrow> yworld \<Rightarrow> pworld \<Rightarrow> bool" where
  "procs_rel fs w a \<longleftrightarrow> (\<forall>p fd. rel_option (kf_rel fs) (yw_fds w p fd) (p_fds a p fd)) \<and>
     (\<forall>p fd f. p_fds a p fd = Some f \<longrightarrow> fd < int (yw_next_fd w)) \<and> p_out a = yw_out w \<and>
     p_pids a \<subseteq> {..<yw_next_pid w} \<and> 0 < yw_next_pid w"

definition yfs_rel :: "fs \<Rightarrow> yworld \<Rightarrow> pworld \<Rightarrow> bool" where
  "yfs_rel fs w a \<longleftrightarrow> fuse_ok (yw_client w) fs \<and> tree_rel fs a \<and> procs_rel fs w a"

definition yrel :: "yworld \<Rightarrow> pworld \<Rightarrow> bool" where
  "yrel w a \<longleftrightarrow> (\<exists>fs. yfs_rel fs w a)"

lemma dom_kcontent:
  assumes "two_level fs"
  shows "dom (kcontent fs) = dom (kfil fs)"
proof -
  have "kcontent fs x \<noteq> None \<longleftrightarrow> kfil fs x \<noteq> None" for x
    using two_levelD(3) [OF assms, of x] by (cases "kfil fs x") (auto simp: kcontent_def)
  then show ?thesis by (auto simp: dom_def)
qed

text \<open>There is always a free inode.\<close>

lemma tree_not_full:
  assumes "tree_rel fs a"
  shows "\<not> fs_full fs"
proof
  assume full: "fs_full fs"
  have t: "two_level fs" "p_dirs a = dom (kdir fs)" "p_files a = kcontent fs" "finite (p_dirs a)" "finite (dom (p_files a))"
      "card (dom (p_files a)) + card (p_dirs a) \<le> 1000" using assms by (simp_all add: tree_rel_def)
  have le: "card (dom (p_files a)) + card (p_dirs a) \<le> 1000" using t by blast
  let ?I = "{i :: u64. 1 < unat i \<and> unat i \<le> INODE_NUM}"
  have sub: "?I \<subseteq> (the \<circ> kfil fs) ` dom (p_files a) \<union> (the \<circ> kdir fs) ` p_dirs a"
  proof
    fix i assume "i \<in> ?I"
    then have "fs i \<noteq> None" "i \<noteq> 1" using full by (auto simp: fs_full_def simp del: not_None_eq)
    then obtain n where "fs i = Some n" "i \<noteq> 1" by auto
    then have "(\<exists>d. kdir fs d = Some i) \<or> (\<exists>x. kfil fs x = Some i)" using two_levelD(5) [of fs i n] t by blast
    then show "i \<in> (the \<circ> kfil fs) ` dom (p_files a) \<union> (the \<circ> kdir fs) ` p_dirs a"
      using t dom_kcontent [of fs] by (auto simp: image_iff) force+
  qed
  have un: "unat (of_nat n :: u64) = n" if "n \<in> {2..INODE_NUM}" for n using that by (simp add: unat_of_nat)
  have "card {2..INODE_NUM} = card ((of_nat :: nat \<Rightarrow> u64) ` {2..INODE_NUM})"
    by (rule card_image [symmetric], rule inj_on_inverseI [where g = unat]) (rule un)
  also have "\<dots> \<le> card ?I" by (rule card_mono) (use un in auto)
  also have "\<dots> \<le> card ((the \<circ> kfil fs) ` dom (p_files a)) + card ((the \<circ> kdir fs) ` p_dirs a)"
    using card_mono [OF _ sub] card_Un_le t by (meson finite_Un finite_imageI le_trans)
  also have "\<dots> \<le> card (dom (p_files a)) + card (p_dirs a)" using t by (meson add_mono card_image_le)
  finally show False using le by simp
qed

lemma yfs_rel_client: "yfs_rel fs w a \<Longrightarrow> fuse_ok y fs \<Longrightarrow> yfs_rel fs (w\<lparr>yw_client := y\<rparr>) a"
  by (simp add: yfs_rel_def procs_rel_def)

lemma yfs_relD:
  assumes "yfs_rel fs w a"
  shows "fuse_ok (yw_client w) fs" and "tree_ok fs" and "two_level fs" and "p_dirs a = dom (kdir fs)" and "p_files a = kcontent fs"
    and "\<not> fs_full fs" and "tree_rel fs a" and "procs_rel fs w a"
  using assms tree_not_full by (auto simp: yfs_rel_def tree_rel_def fuse_ok_def)

section \<open>Requests\<close>

lemma ask_spec:
  assumes V: "yenv_ok enc V" and w: "yfs_rel fs w a" and r: "fuse_req_ok (ye_fuse V) fs r"
  obtains p y fs' where "ask V r w = (p, w\<lparr>yw_client := y\<rparr>)" "fuse_spec enc (ye_fuse V) fs r p fs'" "fuse_ok y fs'"
proof -
  have q: "quiet_io (ye_io V)" "fuse_env_ok (ye_fuse V) enc" using V by (simp_all add: yenv_ok_def)
  from fuse_serves [OF q yfs_relD(1) [OF w] r] yfs_relD(6) [OF w] that show thesis
    by (auto simp: serves_def ask_def split: sum.splits)
qed

lemma lookup_spec:
  assumes V: "yenv_ok enc V" and w: "yfs_rel fs w a" and i: "fs i = Some (NDir ds)"
  obtains y where "k_lookup V i n w = (find_name (sbytes n) ds, w\<lparr>yw_client := y\<rparr>)" "yfs_rel fs (w\<lparr>yw_client := y\<rparr>) a"
proof -
  have "fuse_req_ok (ye_fuse V) fs (Lookup_Req i (sbytes n) e0)" using i by simp
  then obtain p y fs' where r: "ask V (Lookup_Req i (sbytes n) e0) w = (p, w\<lparr>yw_client := y\<rparr>)"
      "fuse_spec enc (ye_fuse V) fs (Lookup_Req i (sbytes n) e0) p fs'" "fuse_ok y fs'" by (rule ask_spec [OF V w])
  then have "fuse_ok y fs" by simp
  from that [OF _ yfs_rel_client [OF w this]] show thesis
    using r i by (cases "find_name (sbytes n) ds") (auto simp: k_lookup_def entry_reply_ok_def)
qed

lemma root_spec:
  assumes V: "yenv_ok enc V" and w: "yfs_rel fs w a"
  obtains y where "k_lookup V 1 d w = (kdir fs d, w\<lparr>yw_client := y\<rparr>)" "yfs_rel fs (w\<lparr>yw_client := y\<rparr>) a"
proof -
  obtain ds where "fs 1 = Some (NDir ds)" using two_levelD(1) [OF yfs_relD(3) [OF w]] by blast
  from lookup_spec [OF V w this, of d] that this show thesis by (auto simp: kdir_def dents_def)
qed

lemma walk_spec:
  assumes V: "yenv_ok enc V" and w: "yfs_rel fs w a" and x: "fst x \<in> p_dirs a"
  obtains y i where "kdir fs (fst x) = Some i" "k_walk V x w = (Some i, kfil fs x, w\<lparr>yw_client := y\<rparr>)" "yfs_rel fs (w\<lparr>yw_client := y\<rparr>) a"
proof -
  obtain i where i: "kdir fs (fst x) = Some i" using x yfs_relD(4) [OF w] by auto
  obtain y where y: "k_lookup V 1 (fst x) w = (Some i, w\<lparr>yw_client := y\<rparr>)" "yfs_rel fs (w\<lparr>yw_client := y\<rparr>) a"
    using root_spec [OF V w, of "fst x"] i by metis
  obtain z where "k_lookup V i (snd x) (w\<lparr>yw_client := y\<rparr>) = (find_name (sbytes (snd x)) (dents fs i), w\<lparr>yw_client := z\<rparr>)"
      "yfs_rel fs (w\<lparr>yw_client := z\<rparr>) a"
    using lookup_spec [OF V y(2) kdir_facts(2) [OF yfs_relD(2,3) [OF w] i], of "snd x"] by auto
  then show thesis using that [OF i] y i by (auto simp: k_walk_def kfil_def)
qed

section \<open>Calls\<close>

lemma open_spec:
  assumes w: "yfs_rel fs w a" and j: "kfil fs x = Some j"
  shows "\<exists>b. opens p x fl a (fst (k_open p j fl w)) b \<and> yrel (snd (k_open p j fl w)) b"
proof -
  let ?fd = "int (yw_next_fd w)" and ?f = "\<lparr>of_file = x, of_pos = 0, of_flags = fl\<rparr>"
  let ?b = "set_fd p ?fd (Some ?f) a"
  note pr = yfs_relD(8) [OF w, unfolded procs_rel_def]
  have new: "p_fds a p ?fd = None" using pr by (metis less_irrefl option.exhaust)
  have "kf_rel fs \<lparr>kf_ino = j, kf_pos = 0, kf_flags = fl\<rparr> ?f" using j by (simp add: kf_rel_def)
  moreover have "fd < 1 + ?fd" if "p_fds a q fd = Some f" for q fd f
  proof -
    have "fd < ?fd" using pr that by blast
    then show ?thesis by simp
  qed
  ultimately have "procs_rel fs (snd (k_open p j fl w)) ?b"
    using pr by (auto simp: procs_rel_def k_open_def set_fd_def Let_def)
  moreover have "tree_rel fs ?b" using yfs_relD(7) [OF w] by simp
  moreover have "fuse_ok (yw_client (snd (k_open p j fl w))) fs" using yfs_relD(1) [OF w] by (simp add: k_open_def Let_def)
  ultimately have "yrel (snd (k_open p j fl w)) ?b" by (auto simp: yrel_def yfs_rel_def)
  then show ?thesis using new by (auto simp: opens_def k_open_def sys_ok_def Let_def)
qed

lemma seek_spec:
  assumes w: "yfs_rel fs w a" and f: "p_fds a p fd = Some f"
  shows "yfs_rel fs (k_seek p fd n w) (set_fd p fd (Some (f\<lparr>of_pos := n\<rparr>)) a)"
proof -
  note pr = yfs_relD(8) [OF w, unfolded procs_rel_def]
  have "rel_option (kf_rel fs) (yw_fds w p fd) (Some f)" using pr f by metis
  then obtain k where k: "yw_fds w p fd = Some k" "kf_rel fs k f" by (auto simp: option_rel_Some2)
  have "kf_rel fs (k\<lparr>kf_pos := n\<rparr>) (f\<lparr>of_pos := n\<rparr>)" using k(2) by (simp add: kf_rel_def)
  moreover have "fd < int (yw_next_fd w)" using pr f by blast
  ultimately have "procs_rel fs (k_seek p fd n w) (set_fd p fd (Some (f\<lparr>of_pos := n\<rparr>)) a)"
    using pr k(1) by (auto simp: procs_rel_def k_seek_def set_fd_def)
  then show ?thesis using yfs_relD(1,7) [OF w] k(1) by (simp add: yfs_rel_def k_seek_def)
qed

lemma close_spec:
  assumes w: "yfs_rel fs w a"
  shows "yfs_rel fs (w\<lparr>yw_fds := (yw_fds w)(p := (yw_fds w p)(fd := None))\<rparr>) (set_fd p fd None a)"
  using yfs_relD(1,7,8) [OF w] by (auto simp: yfs_rel_def procs_rel_def) (auto simp: set_fd_def split: if_splits, blast+)

lemma tree_change:
  assumes w: "yfs_rel fs w a" and y: "fuse_ok y fs'" and t: "tree_rel fs' b"
    and b: "p_fds b = p_fds a" "p_out b = p_out a" "p_pids b = p_pids a"
    and kept: "\<And>p fd f. p_fds a p fd = Some f \<Longrightarrow> kfil fs' (of_file f) = kfil fs (of_file f)"
  shows "yfs_rel fs' (w\<lparr>yw_client := y\<rparr>) b"
proof -
  have "rel_option (kf_rel fs') (yw_fds w p fd) (p_fds a p fd)" for p fd
  proof -
    have "rel_option (kf_rel fs) (yw_fds w p fd) (p_fds a p fd)" using yfs_relD(8) [OF w] by (simp add: procs_rel_def)
    then show ?thesis using kept [of p fd] by (cases "yw_fds w p fd"; cases "p_fds a p fd") (auto simp: kf_rel_def)
  qed
  then show ?thesis using yfs_relD(8) [OF w] y t b by (simp add: yfs_rel_def procs_rel_def)
qed

lemma fd_spec:
  assumes w: "yfs_rel fs w a" and f: "p_fds a p fd = Some f"
  obtains k c where "yw_fds w p fd = Some k" "kfil fs (of_file f) = Some (kf_ino k)" "kf_pos k = of_pos f" "kf_flags k = of_flags f"
    "fs (kf_ino k) = Some (NFile c)" "p_files a (of_file f) = Some (bstring c)"
proof -
  have "rel_option (kf_rel fs) (yw_fds w p fd) (Some f)" using yfs_relD(8) [OF w] f unfolding procs_rel_def by metis
  then obtain k where k: "yw_fds w p fd = Some k" "kf_rel fs k f" by (auto simp: option_rel_Some2)
  then have kf: "kfil fs (of_file f) = Some (kf_ino k)" by (simp add: kf_rel_def)
  obtain c where "fs (kf_ino k) = Some (NFile c)" using two_levelD(3) [OF yfs_relD(3) [OF w] kf] by blast
  then show thesis using that k kf yfs_relD(5) [OF w] by (simp add: kf_rel_def kcontent_def)
qed

text \<open>Calls that only concern the process.\<close>

lemma seek_law:
  assumes w: "yfs_rel fs w a" and pre: "px_pre E p (Sys_lseek fd n) a"
  shows "\<exists>b. px E p (Sys_lseek fd n) a (fst (yfs_sys V p (Sys_lseek fd n) w)) b \<and> yrel (snd (yfs_sys V p (Sys_lseek fd n) w)) b"
proof -
  obtain f where f: "p_fds a p fd = Some f" using pre by auto
  obtain k where "yw_fds w p fd = Some k" by (rule fd_spec [OF w f])
  then show ?thesis using seek_spec [OF w f, of "nat n"] f by (auto simp: sys_ok_def yrel_def)
qed

lemma close_law:
  assumes w: "yfs_rel fs w a" and pre: "px_pre E p (Sys_close fd) a"
  shows "\<exists>b. px E p (Sys_close fd) a (fst (yfs_sys V p (Sys_close fd) w)) b \<and> yrel (snd (yfs_sys V p (Sys_close fd) w)) b"
proof -
  obtain f where f: "p_fds a p fd = Some f" using pre by auto
  obtain k where "yw_fds w p fd = Some k" by (rule fd_spec [OF w f])
  then show ?thesis using close_spec [OF w, of p fd] by (auto simp: sys_ok_def yrel_def)
qed

lemma process_laws:
  assumes w: "yfs_rel fs w a"
  shows "\<exists>b. px E p (Sys_sleep n) a (fst (yfs_sys V p (Sys_sleep n) w)) b \<and> yrel (snd (yfs_sys V p (Sys_sleep n) w)) b"
    and "\<exists>b. px E p (Sys_printf s) a (fst (yfs_sys V p (Sys_printf s) w)) b \<and> yrel (snd (yfs_sys V p (Sys_printf s) w)) b"
    and "\<exists>b. px E p (Sys_eprintf s) a (fst (yfs_sys V p (Sys_eprintf s) w)) b \<and> yrel (snd (yfs_sys V p (Sys_eprintf s) w)) b"
    and "\<exists>b. px E p Sys_getpid a (fst (yfs_sys V p Sys_getpid w)) b \<and> yrel (snd (yfs_sys V p Sys_getpid w)) b"
    and "px_pre E p (Sys_fsync fd) a \<Longrightarrow>
      \<exists>b. px E p (Sys_fsync fd) a (fst (yfs_sys V p (Sys_fsync fd) w)) b \<and> yrel (snd (yfs_sys V p (Sys_fsync fd) w)) b"
proof -
  have r: "yrel w a" using w by (auto simp: yrel_def)
  have "yfs_rel fs (w\<lparr>yw_out := yw_out w @ s\<rparr>) (a\<lparr>p_out := p_out a @ s\<rparr>)"
    using w by (simp add: yfs_rel_def procs_rel_def)
  then show "\<exists>b. px E p (Sys_printf s) a (fst (yfs_sys V p (Sys_printf s) w)) b \<and> yrel (snd (yfs_sys V p (Sys_printf s) w)) b"
    by (auto simp: yrel_def)
  show "\<exists>b. px E p (Sys_fsync fd) a (fst (yfs_sys V p (Sys_fsync fd) w)) b \<and> yrel (snd (yfs_sys V p (Sys_fsync fd) w)) b"
    if pre: "px_pre E p (Sys_fsync fd) a"
  proof -
    obtain f where f: "p_fds a p fd = Some f" using pre by auto
    obtain k where "yw_fds w p fd = Some k" by (rule fd_spec [OF w f])
    then show ?thesis using r by (auto simp: sys_ok_def)
  qed
qed (use w in \<open>auto simp: sys_ok_def yrel_def\<close>)

text \<open>Reading and writing.\<close>

lemma read_law:
  assumes V: "yenv_ok enc V" and w: "yfs_rel fs w a" and pre: "px_pre (ye_posix V) p (Sys_read fd n) a"
  shows "\<exists>b. px E p (Sys_read fd n) a (fst (yfs_sys V p (Sys_read fd n) w)) b \<and> yrel (snd (yfs_sys V p (Sys_read fd n) w)) b"
proof -
  obtain f where f: "p_fds a p fd = Some f" and sz: "of_pos f + n \<le> max_size (ye_posix V)" using pre by auto
  obtain k c where k: "yw_fds w p fd = Some k" "kf_pos k = of_pos f" "fs (kf_ino k) = Some (NFile c)" "p_files a (of_file f) = Some (bstring c)"
    by (rule fd_spec [OF w f])
  have "max_size (ye_posix V) < 2 ^ 31" using V by (simp add: yenv_ok_def)
  then have u: "unat (of_nat n :: u64) = n" "unat (of_nat (of_pos f) :: u64) = of_pos f" and lt: "of_pos f < 2 ^ 32"
    using sz by (simp_all add: unat_of_nat)
  have "fuse_req_ok (ye_fuse V) fs (Read_Req (kf_ino k) (of_nat n) (of_nat (kf_pos k)))" using k u lt by simp
  then obtain q y fs' where r: "ask V (Read_Req (kf_ino k) (of_nat n) (of_nat (kf_pos k))) w = (q, w\<lparr>yw_client := y\<rparr>)"
      "fuse_spec enc (ye_fuse V) fs (Read_Req (kf_ino k) (of_nat n) (of_nat (kf_pos k))) q fs'" "fuse_ok y fs'" by (rule ask_spec [OF V w])
  let ?d = "take n (drop (of_pos f) c)"
  have y: "fuse_ok y fs" and q: "q = Reply_Buf ?d" using r k u by simp_all
  from seek_spec [OF yfs_rel_client [OF w y] f, of "of_pos f + length ?d"] show ?thesis
    using r(1) q k f by (auto simp: sys_ok_def yrel_def bstring_parts Let_def intro!: exI)
qed

lemma tree_rel_write:
  assumes "tree_ok fs" and t: "tree_rel fs a" and j: "kfil fs x = Some j"
  shows "tree_rel (fs(j \<mapsto> NFile c)) (set_file x (Some (bstring c)) a)"
proof -
  have two: "two_level fs" using t by (simp add: tree_rel_def)
  have "x \<in> dom (p_files a)" using t dom_kcontent [OF two] j by (auto simp: tree_rel_def)
  then have "insert x (dom (p_files a)) = dom (p_files a)" by blast
  then show ?thesis using t written_tree [OF assms(1) two j, of c] by (simp add: tree_rel_def set_file_def)
qed

lemma write_spec:
  assumes V: "yenv_ok enc V" and w: "yfs_rel fs w a" and j: "kfil fs x = Some j" and c: "fs j = Some (NFile c)"
    and n: "n \<le> length c" "n + length s < 2 ^ 31"
  obtains y where "ask V (Write_Req j (sbytes s) (of_nat (length s)) (of_nat n)) w = (Reply_Write (of_nat (length s)), w\<lparr>yw_client := y\<rparr>)"
    "yrel (w\<lparr>yw_client := y\<rparr>) (set_file x (Some (splice (bstring c) n s)) a)"
    "\<exists>fs'. yfs_rel fs' (w\<lparr>yw_client := y\<rparr>) (set_file x (Some (splice (bstring c) n s)) a)"
proof -
  let ?r = "Write_Req j (sbytes s) (of_nat (length s)) (of_nat n)"
  have u: "unat (of_nat (length s) :: u64) = length s" "unat (of_nat n :: u64) = n" using n by (simp_all add: unat_of_nat)
  have "fuse_req_ok (ye_fuse V) fs ?r" using c u n by simp
  then obtain q y fs' where r: "ask V ?r w = (q, w\<lparr>yw_client := y\<rparr>)" "fuse_spec enc (ye_fuse V) fs ?r q fs'" "fuse_ok y fs'"
    by (rule ask_spec [OF V w])
  let ?c = "patch c n (sbytes s)"
  have q: "q = Reply_Write (of_nat (length s))" and fs': "fs' = fs(j \<mapsto> NFile ?c)" using r(2) c u n(1) by simp_all
  have b: "bstring ?c = splice (bstring c) n s" using n(1) by (simp add: patch_def splice_def bstring_parts)
  have "yfs_rel fs' (w\<lparr>yw_client := y\<rparr>) (set_file x (Some (bstring ?c)) a)"
    by (rule tree_change [OF w r(3)])
       (use tree_rel_write [OF yfs_relD(2,7) [OF w] j, of ?c] written_tree(2) [OF yfs_relD(2,3) [OF w] j, of ?c] in \<open>simp_all add: fs' set_file_def\<close>)
  then show thesis using that r(1) q b by (auto simp: yrel_def)
qed

lemma write_pos_spec:
  assumes V: "yenv_ok enc V" and w: "yfs_rel fs w a" and f: "of_flags f = kf_flags k" "of_pos f = kf_pos k" "kfil fs (of_file f) = Some (kf_ino k)"
    and c: "fs (kf_ino k) = Some (NFile c)" "O_APPEND \<in> set (of_flags f) \<Longrightarrow> c \<noteq> [] \<and> length c < 2 ^ 31"
  obtains y where "k_write_pos V k w = (fd_pos a f, w\<lparr>yw_client := y\<rparr>)" "yfs_rel fs (w\<lparr>yw_client := y\<rparr>) a"
proof (cases "O_APPEND \<in> set (of_flags f)")
  case True
  have "fuse_req_ok (ye_fuse V) fs (Getattr_Req (kf_ino k))" using c by simp
  then obtain q y fs' where r: "ask V (Getattr_Req (kf_ino k)) w = (q, w\<lparr>yw_client := y\<rparr>)"
      "fuse_spec enc (ye_fuse V) fs (Getattr_Req (kf_ino k)) q fs'" "fuse_ok y fs'" by (rule ask_spec [OF V w])
  then obtain st where st: "q = Reply_Attr st" "st_size st = ucast (of_nat (length c) :: u32)" and y: "fuse_ok y fs" using c True by auto
  have "unat (ucast (of_nat (length c) :: u32) :: u64) = length c" using c(2) True
    by (simp add: unsigned_ucast_eq unsigned_of_nat take_bit_nat_eq_self)
  moreover have "fd_pos a f = length c" using True yfs_relD(5) [OF w] f c by (simp add: fd_pos_def kcontent_def)
  ultimately show ?thesis using that [OF _ yfs_rel_client [OF w y]] r(1) st True f by (simp add: k_write_pos_def)
next
  case False
  then show ?thesis using that [of "yw_client w"] w f by (simp add: k_write_pos_def fd_pos_def)
qed

lemma write_law:
  assumes V: "yenv_ok enc V" and w: "yfs_rel fs w a" and pre: "px_pre (ye_posix V) p (Sys_write fd s) a"
  shows "\<exists>b. px E p (Sys_write fd s) a (fst (yfs_sys V p (Sys_write fd s) w)) b \<and> yrel (snd (yfs_sys V p (Sys_write fd s) w)) b"
proof -
  obtain f c0 where f: "p_fds a p fd = Some f" and c0: "p_files a (of_file f) = Some c0" "O_APPEND \<in> set (of_flags f) \<longrightarrow> c0 \<noteq> []"
      "fd_pos a f \<le> length c0" "fd_pos a f + length s \<le> max_size (ye_posix V)" using pre by auto
  obtain k c where k: "yw_fds w p fd = Some k" "kfil fs (of_file f) = Some (kf_ino k)" "kf_pos k = of_pos f" "kf_flags k = of_flags f"
      "fs (kf_ino k) = Some (NFile c)" "p_files a (of_file f) = Some (bstring c)" by (rule fd_spec [OF w f])
  have c: "c0 = bstring c" using c0(1) k(6) by simp
  have "max_size (ye_posix V) < 2 ^ 31" using V by (simp add: yenv_ok_def)
  then have n: "fd_pos a f \<le> length c" "fd_pos a f + length s < 2 ^ 31" using c0(3,4) c by simp_all
  have ap: "c \<noteq> [] \<and> length c < 2 ^ 31" if "O_APPEND \<in> set (of_flags f)"
    using c0(2) c n(2) that by (auto simp: fd_pos_def c0(1) bstring_def)
  obtain y where y: "k_write_pos V k w = (fd_pos a f, w\<lparr>yw_client := y\<rparr>)" "yfs_rel fs (w\<lparr>yw_client := y\<rparr>) a"
    by (rule write_pos_spec [OF V w _ _ k(2,5) ap]) (use k in auto)
  obtain z fs' where z: "ask V (Write_Req (kf_ino k) (sbytes s) (of_nat (length s)) (of_nat (fd_pos a f))) (w\<lparr>yw_client := y\<rparr>) =
        (Reply_Write (of_nat (length s)), w\<lparr>yw_client := z\<rparr>)"
      "yfs_rel fs' (w\<lparr>yw_client := z\<rparr>) (set_file (of_file f) (Some (splice (bstring c) (fd_pos a f) s)) a)"
    by (rule write_spec [OF V y(2) k(2,5) n]) auto
  have "p_fds (set_file (of_file f) (Some (splice (bstring c) (fd_pos a f) s)) a) p fd = Some f" using f by (simp add: set_file_def)
  from seek_spec [OF z(2) this, of "fd_pos a f + length s"] show ?thesis
    using k(1,6) y(1) z(1) f n(2) by (auto simp: sys_ok_def yrel_def Let_def unat_of_nat intro!: exI)
qed

text \<open>Creating files and directories.\<close>

lemma create_spec:
  assumes V: "yenv_ok enc V" and w: "yfs_rel fs w a" and i: "kdir fs (fst x) = Some i" and new: "kfil fs x = None"
    and n: "name_ok (ye_posix V) (snd x)" and room: "room (ye_posix V) x a"
  shows "\<exists>b. opens p x fl (set_file x (Some []) a) (fst (k_create V p i (snd x) fl w)) b \<and> yrel (snd (k_create V p i (snd x) fl w)) b"
proof -
  let ?r = "Create_Req i (sbytes (snd x)) e0"
  note t = yfs_relD(2,3) [OF w]
  note di = kdir_facts(2) [OF t i]
  have fn: "find_name (sbytes (snd x)) (dents fs i) = None" using new i by (simp add: kfil_def)
  have "name_max (ye_posix V) \<le> 64" "max_files (ye_posix V) \<le> 1000" using V by (simp_all add: yenv_ok_def)
  then have le: "length (snd x) \<le> 64" "card (insert x (dom (p_files a))) + card (p_dirs a) \<le> 1000" and z: "0 \<notin> set (sbytes (snd x))"
    using n room sbytes_zero by (auto simp: name_ok_def room_def)
  have "fuse_req_ok (ye_fuse V) fs ?r" using di le by simp
  then obtain q y fs' where r: "ask V ?r w = (q, w\<lparr>yw_client := y\<rparr>)" "fuse_spec enc (ye_fuse V) fs ?r q fs'" "fuse_ok y fs'"
    by (rule ask_spec [OF V w])
  then obtain k e where k: "fs k = None" "q = Reply_Create e" "e_ino e = k"
      and fs': "fs' = fs(k \<mapsto> NFile [], i \<mapsto> NDir (dents fs i @ [\<lparr>d_name = sbytes (snd x), d_inum = k\<rparr>]))"
    using di fn by (auto simp: creates_def entry_reply_ok_def)
  note ct = created_tree [OF t i fn k(1) z fs', unfolded prod.collapse]
  have tr: "tree_rel fs' (set_file x (Some []) a)"
    using ct le(2) yfs_relD(7) [OF w] by (simp add: tree_rel_def set_file_def)
  have "x \<noteq> of_file f" if "p_fds a p fd = Some f" for p fd f by (rule fd_spec [OF w that]) (use new in auto)
  then have "yfs_rel fs' (w\<lparr>yw_client := y\<rparr>) (set_file x (Some []) a)"
    by (intro tree_change [OF w r(3) tr]) (auto simp: set_file_def ct(2))
  from open_spec [OF this, of x k p fl] show ?thesis using r(1) k ct(2) by (simp add: k_create_def)
qed

lemma creat_law:
  assumes V: "yenv_ok enc V" and w: "yfs_rel fs w a" and pre: "px_pre (ye_posix V) p (Sys_creat path) a"
  shows "\<exists>b. px (ye_posix V) p (Sys_creat path) a (fst (yfs_sys V p (Sys_creat path) w)) b \<and> yrel (snd (yfs_sys V p (Sys_creat path) w)) b"
proof -
  obtain x where x: "file_of (ye_posix V) path = Some x" "fst x \<in> p_dirs a" "name_ok (ye_posix V) (snd x)" "room (ye_posix V) x a"
    using pre by (auto simp: path_ok_def split: option.splits)
  obtain y i where y: "kdir fs (fst x) = Some i" "k_walk V x w = (Some i, kfil fs x, w\<lparr>yw_client := y\<rparr>)" "yfs_rel fs (w\<lparr>yw_client := y\<rparr>) a"
    by (rule walk_spec [OF V w x(2)])
  have "\<exists>b. opens p x [O_WRONLY] (set_file x (Some []) a) (fst (yfs_sys V p (Sys_creat path) w)) b \<and> yrel (snd (yfs_sys V p (Sys_creat path) w)) b"
  proof (cases "kfil fs x")
    case None
    then show ?thesis using create_spec [OF V y(3,1) None x(3,4), of p "[O_WRONLY]"] x(1) y(2) by simp
  next
    case (Some j)
    obtain c where c: "fs j = Some (NFile c)" using two_levelD(3) [OF yfs_relD(3) [OF w] Some] by blast
    let ?r = "Setattr_Req j zero_stat (set_attr_size (ye_fuse V))"
    have "fuse_req_ok (ye_fuse V) fs ?r" using c by simp
    then obtain q z fs' where r: "ask V ?r (w\<lparr>yw_client := y\<rparr>) = (q, w\<lparr>yw_client := y, yw_client := z\<rparr>)"
        "fuse_spec enc (ye_fuse V) fs ?r q fs'" "fuse_ok z fs'" by (rule ask_spec [OF V y(3)])
    have "set_attr_size (ye_fuse V) \<noteq> 0" using V by (simp add: yenv_ok_def)
    then have fs': "fs' = fs(j \<mapsto> NFile [])" using r(2) c by (auto simp: resize_def zero_stat_def)
    have tr: "tree_rel fs' (set_file x (Some []) a)"
      using tree_rel_write [OF yfs_relD(2,7) [OF w] Some, of "[]"] by (simp add: fs' bstring_def)
    note kf = written_tree(2) [OF yfs_relD(2,3) [OF w] Some, of "[]"]
    have "yfs_rel fs' (w\<lparr>yw_client := z\<rparr>) (set_file x (Some []) a)"
      using tree_change [OF w r(3) tr] kf by (simp add: fs' set_file_def)
    from open_spec [OF this, of x j p] show ?thesis using x(1) y(2) r(1) Some kf by (simp add: fs')
  qed
  then show ?thesis using x(1) by auto
qed

lemma open_law:
  assumes V: "yenv_ok enc V" and w: "yfs_rel fs w a" and pre: "px_pre (ye_posix V) p (Sys_open path fl) a"
  shows "\<exists>b. px (ye_posix V) p (Sys_open path fl) a (fst (yfs_sys V p (Sys_open path fl) w)) b \<and> yrel (snd (yfs_sys V p (Sys_open path fl) w)) b"
proof -
  obtain x where x: "file_of (ye_posix V) path = Some x" "fst x \<in> p_dirs a" "name_ok (ye_posix V) (snd x)" "O_CREAT \<in> set fl \<Longrightarrow> room (ye_posix V) x a"
    using pre by (auto simp: path_ok_def split: option.splits)
  obtain y i where y: "kdir fs (fst x) = Some i" "k_walk V x w = (Some i, kfil fs x, w\<lparr>yw_client := y\<rparr>)" "yfs_rel fs (w\<lparr>yw_client := y\<rparr>) a"
    by (rule walk_spec [OF V w x(2)])
  have df: "p_files a x \<noteq> None \<longleftrightarrow> kfil fs x \<noteq> None" using dom_kcontent [OF yfs_relD(3) [OF w]] yfs_relD(5) [OF w] by (metis domIff)
  show ?thesis
  proof (cases "kfil fs x")
    case None
    show ?thesis
    proof (cases "O_CREAT \<in> set fl")
      case True
      from create_spec [OF V y(3,1) None x(3) x(4) [OF True], of p fl] show ?thesis using x(1) y(2) None True df by (auto simp: Let_def)
    next
      case False
      then show ?thesis using x(1) y(2,3) None df by (auto simp: Let_def sys_err_def yrel_def)
    qed
  next
    case (Some j)
    from open_spec [OF y(3) Some, of p fl] show ?thesis using x(1) y(2) Some df by (auto simp: Let_def)
  qed
qed

text \<open>Removing files, and directories.\<close>

lemma unlink_law:
  assumes V: "yenv_ok enc V" and w: "yfs_rel fs w a" and pre: "px_pre (ye_posix V) p (Sys_unlink path) a"
  shows "\<exists>b. px (ye_posix V) p (Sys_unlink path) a (fst (yfs_sys V p (Sys_unlink path) w)) b \<and> yrel (snd (yfs_sys V p (Sys_unlink path) w)) b"
proof -
  obtain x where x: "file_of (ye_posix V) path = Some x" "fst x \<in> p_dirs a" "p_files a x \<noteq> None"
    and no: "\<And>q fd f. p_fds a q fd = Some f \<Longrightarrow> of_file f \<noteq> x"
    using pre by (auto simp: path_ok_def split: option.splits)
  note t = yfs_relD(2,3) [OF w]
  obtain i where i: "kdir fs (fst x) = Some i" using x(2) yfs_relD(4) [OF w] by auto
  obtain y where y: "k_lookup V 1 (fst x) w = (Some i, w\<lparr>yw_client := y\<rparr>)" "yfs_rel fs (w\<lparr>yw_client := y\<rparr>) a"
    using root_spec [OF V w, of "fst x"] i by metis
  let ?r = "Unlink_Req i (sbytes (snd x))"
  note di = kdir_facts(2) [OF t i]
  have "fs j \<noteq> Some (NDir xs)" if "find_name (sbytes (snd x)) (dents fs i) = Some j" for j xs
  proof -
    have "kfil fs x = Some j" using that i by (simp add: kfil_def)
    from two_levelD(3) [OF t(2) this] show ?thesis by auto
  qed
  then have "fuse_req_ok (ye_fuse V) fs ?r" using di by simp
  then obtain q z fs' where r: "ask V ?r (w\<lparr>yw_client := y\<rparr>) = (q, w\<lparr>yw_client := y, yw_client := z\<rparr>)"
      "fuse_spec enc (ye_fuse V) fs ?r q fs'" "fuse_ok z fs'" by (rule ask_spec [OF V y(2)])
  have "x \<in> dom (kfil fs)" using dom_kcontent [OF t(2)] x(3) yfs_relD(5) [OF w] by auto
  then have "find_name (sbytes (snd x)) (dents fs i) \<noteq> None" using i by (auto simp: kfil_def)
  then obtain j rest where tn: "take_name (sbytes (snd x)) (dents fs i) = Some (j, rest)"
    using take_name_spec(1) [of "sbytes (snd x)" "dents fs i"] by auto
  have q: "q = Reply_Err 0" and fs': "fs' = fs(j := None, i \<mapsto> NDir rest)" using r(2) di tn by auto
  note ut = unlinked_tree [OF t i tn fs', unfolded prod.collapse]
  have fin: "finite (dom (kcontent fs))" "card (dom (kcontent fs)) + card (dom (kdir fs)) \<le> 1000" using yfs_relD(7) [OF w] by (simp_all add: tree_rel_def)
  have "card (dom (kcontent fs) - {x}) \<le> card (dom (kcontent fs))" by (rule card_mono [OF fin(1)]) blast
  then have "tree_rel fs' (set_file x None a)" using ut yfs_relD(7) [OF w] fin by (simp add: tree_rel_def set_file_def)
  then have "yfs_rel fs' (w\<lparr>yw_client := z\<rparr>) (set_file x None a)"
    by (rule tree_change [OF w r(3)]) (use no in \<open>auto simp: set_file_def ut(2)\<close>)
  then show ?thesis using x(1) y(1) r(1) q by (auto simp: sys_ok_def yrel_def)
qed

lemma mkdir_law:
  assumes V: "yenv_ok enc V" and w: "yfs_rel fs w a" and pre: "px_pre (ye_posix V) p (Sys_mkdir path) a"
  shows "\<exists>b. px (ye_posix V) p (Sys_mkdir path) a (fst (yfs_sys V p (Sys_mkdir path) w)) b \<and> yrel (snd (yfs_sys V p (Sys_mkdir path) w)) b"
proof -
  obtain d where d: "dir_of (ye_posix V) path = Some d" "name_ok (ye_posix V) d" "d \<notin> p_dirs a"
    and c: "card (dom (p_files a)) + card (p_dirs a) < max_files (ye_posix V)" using pre by auto
  note t = yfs_relD(2,3) [OF w]
  have new: "kdir fs d = None" using d(3) yfs_relD(4) [OF w] by auto
  obtain ds where ds: "fs 1 = Some (NDir ds)" using two_levelD(1) [OF t(2)] by blast
  then have fn: "find_name (sbytes d) ds = None" using new by (simp add: kdir_def dents_def)
  have "name_max (ye_posix V) \<le> 64" "max_files (ye_posix V) \<le> 1000" using V by (simp_all add: yenv_ok_def)
  then have le: "length d \<le> 64" "card (dom (kcontent fs)) + card (dom (kdir fs)) < 1000"
    using d(2) c yfs_relD(4,5) [OF w] by (auto simp: name_ok_def)
  let ?r = "Mkdir_Req 1 (sbytes d) e0"
  have "fuse_req_ok (ye_fuse V) fs ?r" using ds le by simp
  then obtain q y fs' where r: "ask V ?r w = (q, w\<lparr>yw_client := y\<rparr>)" "fuse_spec enc (ye_fuse V) fs ?r q fs'" "fuse_ok y fs'"
    by (rule ask_spec [OF V w])
  then obtain k e where k: "fs k = None" "q = Reply_Entry e"
      and fs': "fs' = fs(k \<mapsto> NDir [], 1 \<mapsto> NDir (dents fs 1 @ [\<lparr>d_name = sbytes d, d_inum = k\<rparr>]))"
    using ds fn by (auto simp: creates_def dents_def)
  note mt = mkdir_tree [OF t new k(1) fs']
  let ?b = "a\<lparr>p_dirs := insert d (p_dirs a), p_files := (\<lambda>x. if fst x = d then None else p_files a x)\<rparr>"
  have "kcontent fs x = None" if "fst x = d" for x using new that by (simp add: kcontent_def kfil_def)
  then have pf: "p_files ?b = kcontent fs" using yfs_relD(5) [OF w] by auto
  have fin: "finite (dom (kdir fs))" using yfs_relD(7) [OF w] by (simp add: tree_rel_def)
  have "tree_rel fs' ?b" using mt pf le(2) fin new yfs_relD(7) [OF w] by (auto simp: tree_rel_def card_insert_if)
  then have "yfs_rel fs' (w\<lparr>yw_client := y\<rparr>) ?b" by (rule tree_change [OF w r(3)]) (simp_all add: mt(2))
  then show ?thesis using d(1) r(1) k(2) by (auto simp: sys_ok_def yrel_def Let_def)
qed

lemma access_law:
  assumes V: "yenv_ok enc V" and w: "yfs_rel fs w a" and pre: "px_pre (ye_posix V) p (Sys_access path) a"
  shows "\<exists>b. px (ye_posix V) p (Sys_access path) a (fst (yfs_sys V p (Sys_access path) w)) b \<and> yrel (snd (yfs_sys V p (Sys_access path) w)) b"
proof -
  obtain d where d: "dir_of (ye_posix V) path = Some d" "d \<in> p_dirs a" using pre by auto
  then obtain i where "kdir fs d = Some i" using yfs_relD(4) [OF w] by auto
  with root_spec [OF V w, of d] obtain y where "k_lookup V 1 d w = (Some i, w\<lparr>yw_client := y\<rparr>)" "yfs_rel fs (w\<lparr>yw_client := y\<rparr>) a"
    by metis
  then show ?thesis using d(1) by (auto simp: sys_ok_def yrel_def)
qed

text \<open>Listing: the reader of the buffer gives the names of the entries.\<close>

lemma c_str_id: "0 \<notin> set s \<Longrightarrow> c_str s = s"
  by (auto simp: c_str_def takeWhile_eq_all_conv)

lemma entry_names:
  assumes w: "yfs_rel fs w a" and i: "kdir fs d = Some i"
  shows "map (\<lambda>e. bstring (c_str (d_name e))) (dents fs i) = map (bstring \<circ> d_name) (dents fs i)"
    and "set (map (bstring \<circ> d_name) (dents fs i)) = {f. p_files a (d, f) \<noteq> None}"
    and "distinct (map (bstring \<circ> d_name) (dents fs i))"
proof -
  note t = yfs_relD(2,3) [OF w]
  note di = kdir_facts(2) [OF t i]
  have kf: "kfil fs (d, f) = find_name (sbytes f) (dents fs i)" for f using i by (simp add: kfil_def)
  have "c_str (d_name e) = d_name e" if e: "e \<in> set (dents fs i)" for e
  proof -
    have "find_name (d_name e) (dents fs i) \<noteq> None" using e by (auto simp: find_name_None)
    then obtain j where "kfil fs (d, bstring (d_name e)) = Some j" by (auto simp: kf)
    from two_levelD(4) [OF t(2) this] show ?thesis by (simp add: c_str_id)
  qed
  then show "map (\<lambda>e. bstring (c_str (d_name e))) (dents fs i) = map (bstring \<circ> d_name) (dents fs i)" by simp
  show "set (map (bstring \<circ> d_name) (dents fs i)) = {f. p_files a (d, f) \<noteq> None}"
  proof (rule set_eqI)
    fix f
    have "p_files a (d, f) \<noteq> None \<longleftrightarrow> sbytes f \<in> d_name ` set (dents fs i)"
      using dom_kcontent [OF t(2)] yfs_relD(5) [OF w] kf [of f] find_name_None [of "sbytes f" "dents fs i"] by (metis domIff)
    moreover have "sbytes f \<in> d_name ` set (dents fs i) \<longleftrightarrow> f \<in> set (map (bstring \<circ> d_name) (dents fs i))"
      by (auto simp: image_iff) (metis bstring_sbytes)
    ultimately show "f \<in> set (map (bstring \<circ> d_name) (dents fs i)) \<longleftrightarrow> f \<in> {f. p_files a (d, f) \<noteq> None}" by (simp only: mem_Collect_eq)
  qed
  have "inj bstring" by (rule injI) (metis sbytes_bstring)
  then show "distinct (map (bstring \<circ> d_name) (dents fs i))"
    using tree_okD(2) [OF t(1) di] by (simp add: distinct_map inj_on_def)
qed

lemma opendir_law:
  assumes V: "yenv_ok enc V" and w: "yfs_rel fs w a" and pre: "px_pre (ye_posix V) p (Sys_opendir path) a"
  shows "\<exists>b. px (ye_posix V) p (Sys_opendir path) a (fst (yfs_sys V p (Sys_opendir path) w)) b \<and> yrel (snd (yfs_sys V p (Sys_opendir path) w)) b"
proof -
  obtain d where d: "dir_of (ye_posix V) path = Some d" "d \<in> p_dirs a" using pre by auto
  then obtain i where i: "kdir fs d = Some i" using yfs_relD(4) [OF w] by auto
  with root_spec [OF V w, of d] obtain y where y: "k_lookup V 1 d w = (Some i, w\<lparr>yw_client := y\<rparr>)" "yfs_rel fs (w\<lparr>yw_client := y\<rparr>) a"
    by metis
  note di = kdir_facts(2) [OF yfs_relD(2,3) [OF w] i]
  let ?r = "Readdir_Req i (- 1) 0" and ?l = "listing enc (ye_fuse V) 0 (dents fs i)"
  have "fuse_req_ok (ye_fuse V) fs ?r" using di by simp
  then obtain q z fs' where r: "ask V ?r (w\<lparr>yw_client := y\<rparr>) = (q, w\<lparr>yw_client := y, yw_client := z\<rparr>)"
      "fuse_spec enc (ye_fuse V) fs ?r q fs'" "fuse_ok z fs'" by (rule ask_spec [OF V y(2)])
  obtain c where c: "is_dir c (dents fs i)" "length c < 2 ^ 32" by (rule fuse_dirE [OF yfs_relD(1) [OF w] di])
  then have nm: "\<forall>e\<in>set (dents fs i). length (d_name e) \<le> MAX_FILENAME_LENGTH" using is_dir_names by blast
  have "length (dents fs i) < 2 ^ 31" using is_dir_length [OF c(1)] c(2) by simp
  then have "length ?l < 2 ^ 64" using dirbuf_fold [of "ye_fuse V" enc "dents fs i" "[]"] nm V by (simp add: yenv_ok_def)
  then have "q = Reply_Buf ?l" and y': "fuse_ok z fs" using r di by (simp_all add: unsigned_minus_1_eq_mask mask_eq_exp_minus_1)
  then have "yfs_sys V p (Sys_opendir path) w = ((sys_ok 0)\<lparr>r_names := Some (map (bstring \<circ> d_name) (dents fs i))\<rparr>, w\<lparr>yw_client := z\<rparr>)"
    using d(1) y(1) r(1) nm V entry_names(1) [OF w i] by (simp add: yenv_ok_def)
  moreover have "yrel (w\<lparr>yw_client := z\<rparr>) a" using yfs_rel_client [OF w y'] by (auto simp: yrel_def)
  ultimately show ?thesis using d(1) entry_names(2,3) [OF w i] by (auto simp: Let_def simp del: set_map)
qed

section \<open>The interface\<close>

lemma yfs_posix_kernel:
  assumes V: "yenv_ok enc V"
  shows "posix_kernel (yfs_kernel V) (ye_posix V) yrel"
proof
  fix w a p s r w'
  assume "yrel w a" and pre: "px_pre (ye_posix V) p s a" and run: "k_sys (yfs_kernel V) p s w = (r, w')"
  then obtain fs where w: "yfs_rel fs w a" by (auto simp: yrel_def)
  have "\<exists>b. px (ye_posix V) p s a (fst (yfs_sys V p s w)) b \<and> yrel (snd (yfs_sys V p s w)) b"
    using pre by (cases s) (simp_all only: process_laws [OF w] seek_law [OF w] close_law [OF w] read_law [OF V w] write_law [OF V w]
      creat_law [OF V w] open_law [OF V w] unlink_law [OF V w] mkdir_law [OF V w] access_law [OF V w] opendir_law [OF V w])
  then show "\<exists>b. px (ye_posix V) p s a r b \<and> yrel w' b" using run by (simp add: yfs_kernel_def)
next
  fix w a p v w'
  assume "yrel w a" and run: "k_fork (yfs_kernel V) p w = (v, w')"
  then obtain fs where w: "yfs_rel fs w a" by (auto simp: yrel_def)
  have v: "v = int (yw_next_pid w)"
    and w': "w' = w\<lparr>yw_next_pid := Suc (yw_next_pid w), yw_fds := (yw_fds w)(yw_next_pid w := yw_fds w p)\<rparr>"
    using run by (simp_all add: yfs_kernel_def)
  have "yfs_rel fs w' (a\<lparr>p_pids := insert (nat v) (p_pids a), p_fds := (p_fds a)(nat v := p_fds a p)\<rparr>)"
    using w by (auto simp: yfs_rel_def procs_rel_def w' v)
  moreover have "0 < v" "nat v \<notin> p_pids a" using w by (auto simp: yfs_rel_def procs_rel_def v)
  ultimately show "0 < v \<and> nat v \<notin> p_pids a \<and> yrel w' (a\<lparr>p_pids := insert (nat v) (p_pids a), p_fds := (p_fds a)(nat v := p_fds a p)\<rparr>)"
    by (auto simp: yrel_def)
next
  show "yrel (k_exit (yfs_kernel V) p w) (a\<lparr>p_fds := (p_fds a)(p := Map.empty)\<rparr>)" if "yrel w a" for w a p
    using that by (fastforce simp: yrel_def yfs_rel_def procs_rel_def yfs_kernel_def)
  show "yrel (k_reap (yfs_kernel V) p w) (a\<lparr>p_pids := p_pids a - {p}\<rparr>)" if "yrel w a" for w a p
    using that by (fastforce simp: yrel_def yfs_rel_def procs_rel_def yfs_kernel_def)
qed

section \<open>An instance\<close>

text \<open>A reader for the directory buffers of the library \<open>fe0\<close>, and a kernel with two mount points over a new file system.\<close>

fun read_names :: "nat \<Rightarrow> byte list \<Rightarrow> byte list list" where
  "read_names 0 b = []"
| "read_names (Suc n) b = (if b = [] then []
     else let l = unat (dec32 (take 4 (drop 16 b))) in take l (drop 24 b) # read_names n (drop ((l + 31) div 8 * 8) b))"

definition V0 :: yenv where
  "V0 = \<lparr>ye_fuse = fe0, ye_io = io0, ye_posix = \<lparr>mounts = [''/yfs1'', ''/yfs2''], name_max = 64, max_files = 1000, max_size = 1048576\<rparr>,
     ye_names = (\<lambda>b. read_names (length b) b)\<rparr>"

definition w0 :: yworld where
  "w0 = \<lparr>yw_client = y0, yw_fds = (\<lambda>_. Map.empty), yw_next_fd = 3, yw_next_pid = 2, yw_out = []\<rparr>"

definition a0 :: pworld where
  "a0 = \<lparr>p_files = Map.empty, p_dirs = {}, p_fds = (\<lambda>_. Map.empty), p_pids = {1}, p_out = []\<rparr>"

lemma length_c_str: "length (c_str s) \<le> length s"
  by (simp add: c_str_def length_takeWhile_le)

lemma read_names_listing:
  "(\<forall>d\<in>set ds. length (d_name d) \<le> MAX_FILENAME_LENGTH) \<Longrightarrow> length ds \<le> n \<Longrightarrow>
     read_names n (listing enc0 fe0 off ds) = map (\<lambda>d. c_str (d_name d)) ds"
proof (induction ds arbitrary: n off)
  case Nil
  then show ?case by (cases n) simp_all
next
  case (Cons d ds)
  let ?n = "c_str (d_name d)"
  let ?off = "off + fuse_dirent_size fe0 (of_nat (length ?n))"
  obtain m where m: "n = Suc m" "length ds \<le> m" using Cons.prems(2) by (cases n) simp_all
  have "length ?n \<le> 64" using length_c_str [of "d_name d"] Cons.prems(1) by simp
  then have l: "unat (of_nat (length ?n) :: u32) = length ?n" by (simp add: unat_of_nat)
  have e: "listing enc0 fe0 off (d # ds) = enc0 ?n (d_inum d) 0 ?off @ listing enc0 fe0 ?off ds" by (simp add: Let_def)
  have parts: "take 4 (drop 16 (listing enc0 fe0 off (d # ds))) = enc32 (of_nat (length ?n))"
    "take (length ?n) (drop 24 (listing enc0 fe0 off (d # ds))) = ?n"
    unfolding e by (simp_all add: enc0_def)
  have rest: "drop ((length ?n + 31) div 8 * 8) (listing enc0 fe0 off (d # ds)) = listing enc0 fe0 ?off ds"
    unfolding e by (simp add: enc0_length)
  have ne: "listing enc0 fe0 off (d # ds) \<noteq> []" unfolding e enc0_def using length_enc(3) [of "d_inum d"] by fastforce
  have "read_names m (listing enc0 fe0 ?off ds) = map (\<lambda>d. c_str (d_name d)) ds" using Cons.IH [OF _ m(2)] Cons.prems(1) by simp
  then show ?case unfolding m(1) read_names.simps Let_def parts(1) dec_enc l parts(2) rest using ne by simp
qed

lemma length_listing: "length ds \<le> length (listing enc0 fe0 off ds)"
proof (induction ds arbitrary: off)
  case (Cons d ds)
  show ?case using Cons.IH [of "off + fuse_dirent_size fe0 (of_nat (length (c_str (d_name d))))"] by (simp add: enc0_def Let_def)
qed simp

lemma V0_ok: "yenv_ok enc0 V0"
  using read_names_listing [OF _ length_listing] io0_quiet fe0_ok by (simp add: yenv_ok_def V0_def) (simp add: fe0_def)

interpretation yk: posix_kernel "yfs_kernel V0" "ye_posix V0" yrel
  by (rule yfs_posix_kernel [OF V0_ok])

lemma w0_rel: "yrel w0 a0"
proof -
  have k: "kdir [1 \<mapsto> NDir []] = Map.empty" "kfil [1 \<mapsto> NDir []] = Map.empty" "kcontent [1 \<mapsto> NDir []] = Map.empty"
    by (auto simp: kdir_def kfil_def kcontent_def dents_def fun_eq_iff)
  then have "two_level [1 \<mapsto> NDir []]" by (auto simp: two_level_def)
  then have "yfs_rel [1 \<mapsto> NDir []] w0 a0"
    using k y0_fuse_ok by (auto simp: yfs_rel_def tree_rel_def procs_rel_def w0_def a0_def)
  then show ?thesis by (auto simp: yrel_def)
qed

end
