(* ===== verification/Test_Props.thy ===== *)
theory Test_Props
  imports Test_Conc Yfs_Kernel
begin

text \<open>
  The testers accept every file system that keeps the interface: whatever the kernel does within it and
  however the processes are interleaved, each tester ends with exit code 0 and the expected output.
\<close>

definition out_sequential :: string where
  "out_sequential = ''Create then read: OK\<newline>'' @ ''Unlink: OK\<newline>'' @ ''Append: OK\<newline>'' @ ''Readdir: OK\<newline>'' @
     ''Many sequential creates: OK\<newline>'' @ ''Write 20000 bytes: OK\<newline>''"

definition out_concurrent :: string where
  "out_concurrent = ''Concurrent creates: OK\<newline>'' @ ''Concurrent creates of the same file: OK\<newline>'' @ ''Concurrent create/delete: OK\<newline>'' @
     ''Concurrent creates, same file, same server: OK\<newline>'' @ ''Concurrent writes to different parts of same file: OK\<newline>''"

context posix_kernel
begin

lemma part1_g_run:
  assumes s: "arena E U D d d1 d2"
  shows "runs K Rel p (std E p U D d [] []) (seqP (test_create_read prog d1 d2 @ test_unlink prog d1 d2 @ test_append prog d1 d2 @
      test_readdir prog d1 d2 @ test_many_creates prog d1 d2 @ test_write_big prog d1 d2 @ [printf t]))
    (std E p U D d (out_sequential @ t) [])"
  using runs_append [OF sequential_runs [OF s, where out = "[]"] hoare_runs [OF hoare_Cons [OF hoare_printf hoare_Nil]]]
  unfolding append_assoc out_sequential_def append_Nil .

lemma part2_a_run:
  assumes s: "arena E U D d d1 d2"
  shows "runs K Rel p (std E p U D d [] []) (seqP (test_concurrent_creates prog d1 d2 @ test_same_file prog d1 d2 @ test_create_delete prog d1 d2 @
      test_same_server prog d1 d2 @ test_concurrent_writes prog d1 d2))
    (\<lambda>b. \<exists>c. both_written c \<and> std E p U D d out_concurrent [(''www'', c)] b)"
  using concurrent_runs [OF s, of p "[]" prog] unfolding append_assoc out_concurrent_def append_Nil .

lemma lab3_a_run:
  assumes s: "arena E U D d d1 d2"
  shows "runs K Rel p (std E p U D d [] []) (seqP (test_create_read prog d1 d2 @ test_unlink prog d1 d2 @ test_append prog d1 d2 @
      test_readdir prog d1 d2 @ test_many_creates prog d1 d2 @ test_write_big prog d1 d2 @
      test_concurrent_creates prog d1 d2 @ test_same_file prog d1 d2 @ test_create_delete prog d1 d2 @
      test_same_server prog d1 d2 @ test_concurrent_writes prog d1 d2 @ [printf t]))
    (\<lambda>b. \<exists>c. both_written c \<and> std E p U D d (out_sequential @ out_concurrent @ t) [(''www'', c)] b)"
proof -
  have pr: "runs K Rel p (\<lambda>b. \<exists>c. both_written c \<and> std E p U D d out [(''www'', c)] b) (seqP [printf t])
      (\<lambda>b. \<exists>c. both_written c \<and> std E p U D d (out @ t) [(''www'', c)] b)" for out
    by (rule hoare_runs [OF hoare_ex [OF hoare_Cons [OF hoare_printf hoare_Nil]]])
  show ?thesis
    using runs_append [OF sequential_runs [OF s, where out = "[]" and prog = prog] runs_append [OF concurrent_runs [OF s] pr]]
    unfolding append_assoc out_sequential_def out_concurrent_def append_Nil .
qed

lemma one_directory_passes:
  assumes s: "starts E p m1 m2 [''d''] 78 a" and w: "Rel w a"
    and runs: "\<And>U D d d1 d2. arena E U D d d1 d2 \<Longrightarrow> runs K Rel p (std E p U D d [] []) (seqP (tests d1 d2)) (P1 U D d)"
    and out: "\<And>U D d b. P1 U D d b \<Longrightarrow> p_out b = out"
  shows "inevitably (kstep K) (passed Rel p out)
    (alone p (bindP (one_directory prog [argv0, m1, m2]) (\<lambda>(d1, d2). bindP (seqP (tests d1 d2)) (\<lambda>_. Exit_with 0))) w)"
  unfolding case_prod_unfold
proof (rule tester_passes [where tests = "\<lambda>ds. tests (fst ds) (snd ds)", OF one_directory_rg [OF s] w])
  fix ds b
  assume "(\<lambda>(d1, d2) b. \<exists>U D d. arena E U D d d1 d2 \<and> std E p U D d [] [] b) ds b"
  then obtain U D d where "arena E U D d (fst ds) (snd ds)" and b: "std E p U D d [] [] b" by (auto simp: case_prod_unfold)
  from runs [OF this(1)] b out show "\<exists>P0 P1. P0 b \<and> runs K Rel p P0 (seqP (tests (fst ds) (snd ds))) P1 \<and> (\<forall>b. P1 b \<longrightarrow> p_out b = out)"
    by blast
qed

lemma two_directories_passes:
  assumes s: "starts E p m1 m2 [''da'', ''db''] (2 * Suc m + 2) a" and m: "Suc m \<le> 1000" and w: "Rel w a"
  shows "inevitably (kstep K) (passed Rel p ''Create/delete in separate directories: tests completed OK\<newline>'')
    (alone p (bindP (two_directories prog [argv0, m1, m2]) (\<lambda>(d1, d2). bindP (seqP (test_separate prog (Suc m) m d1 d2)) (\<lambda>_. Exit_with 0))) w)"
  unfolding case_prod_unfold
proof (rule tester_passes [where tests = "\<lambda>ds. test_separate prog (Suc m) m (fst ds) (snd ds)", OF two_directories_rg [OF s m] w])
  fix ds b
  assume "(\<lambda>(d1, d2) b. \<exists>U D da db. arena2 E U D da db d1 d2 (Suc m) \<and> st E p ({da, db} \<times> UNIV) U D [] Map.empty b) ds b"
  then obtain U D da db where a: "arena2 E U D da db (fst ds) (snd ds) (Suc m)" and b: "st E p ({da, db} \<times> UNIV) U D [] Map.empty b"
    by (auto simp: case_prod_unfold)
  from separate_runs [OF a, of p "[]" prog] b
  show "\<exists>P0 P1. P0 b \<and> runs K Rel p P0 (seqP (test_separate prog (Suc m) m (fst ds) (snd ds))) P1 \<and>
      (\<forall>b. P1 b \<longrightarrow> p_out b = ''Create/delete in separate directories: tests completed OK\<newline>'')" by fastforce
qed

end

text \<open>The instance of the interface on the modelled file system, for the examples.\<close>

lemma starts0:
  "starts (ye_posix V0) 1 ''/yfs1'' ''/yfs2'' [''d''] 78 a0" "starts (ye_posix V0) 1 ''/yfs1'' ''/yfs2'' [''da'', ''db''] 202 a0"
  by (simp_all add: starts_def V0_def a0_def)

text \<open>
  C9 (liveness). The two testers of one directory, given two mount points of one file system, inevitably
  end with exit code 0. \<^verbatim>\<open>test-lab2-part1-g\<close> has printed \<^verbatim>\<open>OK\<close> for each of its six tests and that all passed:
  what is created through one mount point is read, listed, appended to and removed through the other.
  \<^verbatim>\<open>test-lab2-part2-a\<close>, in which a child process works next to its parent, has printed \<^verbatim>\<open>OK\<close> for each of its five
  under every interleaving of their system calls: creations of different files, creations of the same
  files, creations next to removals and writes to two parts of one file all have their sequential effect.
\<close>

theorem lab2_testers_pass:
  assumes "posix_kernel K E Rel" and "Rel w a" and "starts E p m1 m2 [''d''] 78 a"
  shows "inevitably (kstep K) (passed Rel p (out_sequential @ ''test-lab2-part1-g: Passed all tests.\<newline>''))
      (alone p (part1_g_main [argv0, m1, m2]) w) \<and>
    inevitably (kstep K) (passed Rel p out_concurrent) (alone p (part2_a_main [argv0, m1, m2]) w)"
proof
  show "inevitably (kstep K) (passed Rel p (out_sequential @ ''test-lab2-part1-g: Passed all tests.\<newline>''))
      (alone p (part1_g_main [argv0, m1, m2]) w)"
    unfolding part1_g_main_def Let_def
    by (rule posix_kernel.one_directory_passes [OF assms(1,3,2)], rule posix_kernel.part1_g_run [OF assms(1)], assumption) (simp add: st_def)
  show "inevitably (kstep K) (passed Rel p out_concurrent) (alone p (part2_a_main [argv0, m1, m2]) w)"
    unfolding part2_a_main_def Let_def
    by (rule posix_kernel.one_directory_passes [OF assms(1,3,2)], rule posix_kernel.part2_a_run [OF assms(1)], assumption) (auto simp: st_def)
qed

theorem lab2_testers_pass_witness:
  "inevitably (kstep (yfs_kernel V0)) (passed yrel 1 (out_sequential @ ''test-lab2-part1-g: Passed all tests.\<newline>''))
      (alone 1 (part1_g_main [''t'', ''/yfs1'', ''/yfs2'']) w0) \<and>
    inevitably (kstep (yfs_kernel V0)) (passed yrel 1 out_concurrent) (alone 1 (part2_a_main [''t'', ''/yfs1'', ''/yfs2'']) w0)"
  by (rule lab2_testers_pass [OF yk.posix_kernel_axioms w0_rel starts0(1)])

text \<open>
  C7 (liveness). \<^verbatim>\<open>test-lab-3-a\<close>, which runs the sequential and then the concurrent tests, inevitably ends with
  exit code 0 and reports that all tests passed.
\<close>

theorem lab3_a_passes:
  assumes "posix_kernel K E Rel" and "Rel w a" and "starts E p m1 m2 [''d''] 78 a"
  shows "inevitably (kstep K) (passed Rel p (out_sequential @ out_concurrent @ ''test-lab-5-a: Passed all tests.\<newline>''))
    (alone p (lab3_a_main [argv0, m1, m2]) w)"
  unfolding lab3_a_main_def Let_def
  by (rule posix_kernel.one_directory_passes [OF assms(1,3,2)], rule posix_kernel.lab3_a_run [OF assms(1)], assumption) (auto simp: st_def)

theorem lab3_a_passes_witness:
  "inevitably (kstep (yfs_kernel V0)) (passed yrel 1 (out_sequential @ out_concurrent @ ''test-lab-5-a: Passed all tests.\<newline>''))
    (alone 1 (lab3_a_main [''t'', ''/yfs1'', ''/yfs2'']) w0)"
  by (rule lab3_a_passes [OF yk.posix_kernel_axioms w0_rel starts0(1)])

text \<open>
  C10 (liveness). \<^verbatim>\<open>test-lab2-part2-b\<close> and \<^verbatim>\<open>test-lab-3-b\<close>, in which parent and child create and remove many
  files in a directory each, inevitably end with exit code 0 under every interleaving.
\<close>

theorem separate_directories_pass:
  assumes "posix_kernel K E Rel" and "Rel w a" and "starts E p m1 m2 [''da'', ''db''] 202 a"
  shows "inevitably (kstep K) (passed Rel p ''Create/delete in separate directories: tests completed OK\<newline>'')
      (alone p (part2_b_main [argv0, m1, m2]) w) \<and>
    inevitably (kstep K) (passed Rel p ''Create/delete in separate directories: tests completed OK\<newline>'')
      (alone p (lab3_b_main [argv0, m1, m2]) w)"
proof -
  have s: "starts E p m1 m2 [''da'', ''db''] (2 * Suc 99 + 2) a" "starts E p m1 m2 [''da'', ''db''] (2 * Suc 9 + 2) a"
    using assms(3) by (simp_all add: starts_def)
  show ?thesis
    using posix_kernel.two_directories_passes [OF assms(1) s(2) _ assms(2)] posix_kernel.two_directories_passes [OF assms(1) s(1) _ assms(2)]
    by (simp add: part2_b_main_def lab3_b_main_def Let_def)
qed

theorem separate_directories_pass_witness:
  "inevitably (kstep (yfs_kernel V0)) (passed yrel 1 ''Create/delete in separate directories: tests completed OK\<newline>'')
      (alone 1 (part2_b_main [''t'', ''/yfs1'', ''/yfs2'']) w0) \<and>
    inevitably (kstep (yfs_kernel V0)) (passed yrel 1 ''Create/delete in separate directories: tests completed OK\<newline>'')
      (alone 1 (lab3_b_main [''t'', ''/yfs1'', ''/yfs2'']) w0)"
  by (rule separate_directories_pass [OF yk.posix_kernel_axioms w0_rel starts0(2)])

end
