(* ===== verification/Lock_Server_Cache.thy ===== *)
theory Lock_Server_Cache
  imports Prelude "HOL-Library.List_Lexorder" "HOL-Library.Char_ord"
begin

text \<open>
  The caching lock server of \<^verbatim>\<open>lock_server_cache.cc\<close>. Each handler runs under one mutex and makes at
  most one call to a client, after it has released the mutex; the handler's function returns that
  call beside its reply. The set of waiting clients is a \<^verbatim>\<open>std::set<std::string>\<close>, whose first
  element is its minimum in the order of strings.
\<close>

section \<open>Data\<close>

datatype server_states = SNone | SLocked | SRevoking | SRetrying

record server_lock =
  server_state :: server_states
  client_holding :: string
  client_retrying :: string
  clients_queue :: "string set"

record lock_server_cache =
  nacq :: int
  lock_manager :: "u64 \<rightharpoonup> server_lock option"

text \<open>\<^verbatim>\<open>lock_protocol::xxstatus\<close>\<close>

definition lp_OK :: int where lp_OK_def [simp]: "lp_OK = 0"
definition lp_RETRY :: int where lp_RETRY_def [simp]: "lp_RETRY = 1"
definition lp_RPCERR :: int where lp_RPCERR_def [simp]: "lp_RPCERR = 2"
definition lp_NOENT :: int where lp_NOENT_def [simp]: "lp_NOENT = 3"
definition lp_IOERR :: int where lp_IOERR_def [simp]: "lp_IOERR = 4"

text \<open>
  The calls to clients. \<open>RevokeHolder\<close> reads \<^verbatim>\<open>lock->client_holding\<close> only when the call is made,
  without the mutex.
\<close>

datatype outcall = RevokeHolder u64 | RevokeClient string u64 | RetryClient string u64

section \<open>Handlers\<close>

text \<open>The constructor leaves \<^verbatim>\<open>nacquire\<close> uninitialised.\<close>

definition lock_server_cache_init :: "int \<Rightarrow> lock_server_cache" where
  "lock_server_cache_init raw = \<lparr>nacq = raw, lock_manager = Map.empty\<rparr>"

definition new_server_lock :: server_lock where
  "new_server_lock = \<lparr>server_state = SNone, client_holding = '''', client_retrying = '''', clients_queue = {}\<rparr>"

definition lsc_acquire_lock :: "u64 \<Rightarrow> string \<Rightarrow> server_lock \<Rightarrow> int \<times> server_lock \<times> outcall option" where
  "lsc_acquire_lock lid cid lock =
     (case server_state lock of
        SNone \<Rightarrow> (lp_OK, lock\<lparr>client_holding := cid, server_state := SLocked\<rparr>, None)
      | SLocked \<Rightarrow>
          (lp_RETRY, lock\<lparr>server_state := SRevoking, clients_queue := insert cid (clients_queue lock)\<rparr>,
           Some (RevokeHolder lid))
      | SRevoking \<Rightarrow> (lp_RETRY, lock\<lparr>clients_queue := insert cid (clients_queue lock)\<rparr>, None)
      | SRetrying \<Rightarrow>
          if cid = client_retrying lock then
            let lock = lock\<lparr>client_holding := cid, client_retrying := '''', server_state := SLocked\<rparr> in
            if clients_queue lock \<noteq> {}
            then (lp_OK, lock\<lparr>server_state := SRevoking\<rparr>, Some (RevokeClient cid lid))
            else (lp_OK, lock, None)
          else (lp_RETRY, lock\<lparr>clients_queue := insert cid (clients_queue lock)\<rparr>, None))"

definition lsc_acquire ::
    "u64 \<Rightarrow> string \<Rightarrow> lock_server_cache \<Rightarrow> int \<times> lock_server_cache \<times> outcall option" where
  "lsc_acquire lid cid st =
     (let lock = (case map_get (lock_manager st) lid None of None \<Rightarrow> new_server_lock | Some l \<Rightarrow> l);
          (ret, lock, out) = lsc_acquire_lock lid cid lock
      in (ret, st\<lparr>lock_manager := (lock_manager st)(lid \<mapsto> Some lock)\<rparr>, out))"

definition lsc_release_lock :: "u64 \<Rightarrow> server_lock \<Rightarrow> server_lock \<times> outcall option" where
  "lsc_release_lock lid lock =
     (let lock = lock\<lparr>client_holding := ''''\<rparr> in
      if clients_queue lock \<noteq> {} then
        let next_client = Min (clients_queue lock) in
        (lock\<lparr>clients_queue := clients_queue lock - {next_client}, client_retrying := next_client,
              server_state := SRetrying\<rparr>, Some (RetryClient next_client lid))
      else (lock\<lparr>server_state := SNone\<rparr>, None))"

text \<open>\<^verbatim>\<open>release\<close> dereferences the entry without a check and does not look at the caller.\<close>

definition lsc_release ::
    "u64 \<Rightarrow> string \<Rightarrow> lock_server_cache \<Rightarrow> (int \<times> lock_server_cache \<times> outcall option) res" where
  "lsc_release lid cid st =
     (case map_get (lock_manager st) lid None of
        None \<Rightarrow> Inl Undefined
      | Some lock \<Rightarrow>
          let (lock, out) = lsc_release_lock lid lock
          in Inr (lp_OK, st\<lparr>lock_manager := (lock_manager st)(lid \<mapsto> Some lock)\<rparr>, out))"

definition lsc_stat :: "u64 \<Rightarrow> lock_server_cache \<Rightarrow> int \<times> int" where
  "lsc_stat lid st = (lp_OK, nacq st)"

text \<open>The client an outgoing call goes to, given the state when it is made.\<close>

definition out_target :: "lock_server_cache \<Rightarrow> outcall \<Rightarrow> string res" where
  "out_target st out =
     (case out of
        RevokeHolder lid \<Rightarrow> (case map_get (lock_manager st) lid None of
            None \<Rightarrow> Inl Undefined | Some lock \<Rightarrow> Inr (client_holding lock))
      | RevokeClient cid lid \<Rightarrow> Inr cid
      | RetryClient cid lid \<Rightarrow> Inr cid)"

section \<open>The abstract lock\<close>

text \<open>The holder of a lock and the clients that have been told to wait for it.\<close>

definition holder :: "server_lock \<Rightarrow> string option" where
  "holder lock = (if server_state lock \<in> {SLocked, SRevoking} then Some (client_holding lock) else None)"

definition waiting :: "server_lock \<Rightarrow> string set" where
  "waiting lock = clients_queue lock \<union> (if server_state lock = SRetrying then {client_retrying lock} else {})"

text \<open>
  The queue is finite, it is empty while the lock is free or held without contention, not empty
  while the holder is being revoked, and does not contain the client that is being told to retry.
\<close>

definition lock_wf :: "server_lock \<Rightarrow> bool" where
  "lock_wf lock \<longleftrightarrow> finite (clients_queue lock) \<and>
     (server_state lock \<in> {SNone, SLocked} \<longrightarrow> clients_queue lock = {}) \<and>
     (server_state lock = SRevoking \<longrightarrow> clients_queue lock \<noteq> {}) \<and>
     (server_state lock = SRetrying \<longrightarrow> client_retrying lock \<notin> clients_queue lock)"

definition lock_of :: "lock_server_cache \<Rightarrow> u64 \<Rightarrow> server_lock" where
  "lock_of st lid = (case map_get (lock_manager st) lid None of None \<Rightarrow> new_server_lock | Some l \<Rightarrow> l)"

definition lsc_wf :: "lock_server_cache \<Rightarrow> bool" where
  "lsc_wf st \<longleftrightarrow> (\<forall>lid. lock_wf (lock_of st lid))"

lemma new_server_lock_simps [simp]: "lock_wf new_server_lock" "holder new_server_lock = None" "waiting new_server_lock = {}"
  by (simp_all add: lock_wf_def new_server_lock_def holder_def waiting_def)

lemma lock_of_upd [simp]:
  "lock_of (st\<lparr>lock_manager := (lock_manager st)(lid \<mapsto> Some l)\<rparr>) k = (if k = lid then l else lock_of st k)"
  by (simp add: lock_of_def)

lemma lsc_acquire_alt:
  "lsc_acquire lid cid st =
     (let (ret, lock, out) = lsc_acquire_lock lid cid (lock_of st lid)
      in (ret, st\<lparr>lock_manager := (lock_manager st)(lid \<mapsto> Some lock)\<rparr>, out))"
  by (simp add: lsc_acquire_def lock_of_def)

lemma acquire_lock_spec:
  assumes wf: "lock_wf l" and run: "lsc_acquire_lock lid cid l = (ret, l', out)"
  shows "lock_wf l'"
    and "ret = lp_OK \<and> holder l = None \<and> holder l' = Some cid \<and> waiting l' = waiting l - {cid} \<or>
         ret = lp_RETRY \<and> holder l' = holder l \<and> waiting l' = insert cid (waiting l)"
proof -
  show "lock_wf l'" using assms
    by (cases "server_state l") (auto simp: lsc_acquire_lock_def lock_wf_def Let_def split: if_splits)
  show "ret = lp_OK \<and> holder l = None \<and> holder l' = Some cid \<and> waiting l' = waiting l - {cid} \<or>
         ret = lp_RETRY \<and> holder l' = holder l \<and> waiting l' = insert cid (waiting l)"
    using assms by (cases "server_state l")
      (auto simp: lsc_acquire_lock_def lock_wf_def holder_def waiting_def Let_def split: if_splits)
qed

lemma release_lock_spec:
  assumes wf: "lock_wf l" and run: "lsc_release_lock lid l = (l', out)"
    and held: "holder l \<noteq> None"
  shows "lock_wf l'" and "holder l' = None" and "waiting l' = waiting l"
    and "waiting l \<noteq> {} \<Longrightarrow> out = Some (RetryClient (Min (waiting l)) lid) \<and> client_retrying l' = Min (waiting l) \<and>
      server_state l' = SRetrying"
    and "waiting l = {} \<Longrightarrow> out = None \<and> server_state l' = SNone"
proof -
  have st: "server_state l \<noteq> SRetrying" using held by (auto simp: holder_def)
  then have w: "waiting l = clients_queue l" by (simp add: waiting_def)
  have fin: "finite (clients_queue l)" using wf by (simp add: lock_wf_def)
  show "lock_wf l'" "holder l' = None"
    using run fin by (auto simp: lsc_release_lock_def lock_wf_def holder_def Let_def split: if_splits)
  show "waiting l' = waiting l"
    using run Min_in [OF fin] unfolding w by (cases "clients_queue l = {}") (auto simp: lsc_release_lock_def waiting_def Let_def split: if_splits)
  show "waiting l \<noteq> {} \<Longrightarrow> out = Some (RetryClient (Min (waiting l)) lid) \<and> client_retrying l' = Min (waiting l) \<and>
      server_state l' = SRetrying" "waiting l = {} \<Longrightarrow> out = None \<and> server_state l' = SNone"
    using run unfolding w by (auto simp: lsc_release_lock_def Let_def split: if_splits)
qed

text \<open>Whenever a client waits for a held lock, the holder is being revoked.\<close>

lemma waiting_revoking:
  "lock_wf l \<Longrightarrow> holder l = Some h \<Longrightarrow> waiting l \<noteq> {} \<longleftrightarrow> server_state l = SRevoking"
  by (cases "server_state l") (auto simp: lock_wf_def holder_def waiting_def)

lemma lsc_wf_init: "lsc_wf (lock_server_cache_init raw)"
  by (simp add: lsc_wf_def lock_of_def lock_server_cache_init_def)

section \<open>Histories\<close>

text \<open>
  The handlers as transitions of the server, with the reply and the outgoing call in the label.
  A client releases a lock only while it is the holder.
\<close>

datatype lsc_event = AcqReply u64 string int "outcall option" | RelReply u64 string "outcall option"

inductive lsc_step :: "lsc_event \<Rightarrow> lock_server_cache \<Rightarrow> lock_server_cache \<Rightarrow> bool" where
  acq: "lsc_acquire lid cid st = (ret, st', out) \<Longrightarrow> lsc_step (AcqReply lid cid ret out) st st'"
| rel: "holder (lock_of st lid) = Some cid \<Longrightarrow> lsc_release lid cid st = Inr (ret, st', out) \<Longrightarrow>
    lsc_step (RelReply lid cid out) st st'"

inductive lsc_run :: "lock_server_cache \<Rightarrow> lsc_event list \<Rightarrow> lock_server_cache \<Rightarrow> bool" where
  lsc_nil: "lsc_run st [] st"
| lsc_snoc: "lsc_run st evs st' \<Longrightarrow> lsc_step ev st' st'' \<Longrightarrow> lsc_run st (evs @ [ev]) st''"

text \<open>
  The specification: the sequence of granted and returned locks. \<open>held evs lid\<close> is the client that
  was last granted the lock and has not returned it, \<open>asked evs lid\<close> the clients whose request was
  refused and not granted since.
\<close>

fun held_by :: "lsc_event \<Rightarrow> (u64 \<rightharpoonup> string) \<Rightarrow> (u64 \<rightharpoonup> string)" where
  "held_by (AcqReply lid cid ret out) m = (if ret = lp_OK then m(lid \<mapsto> cid) else m)"
| "held_by (RelReply lid cid out) m = m(lid := None)"

fun asked_by :: "lsc_event \<Rightarrow> (u64 \<Rightarrow> string set) \<Rightarrow> (u64 \<Rightarrow> string set)" where
  "asked_by (AcqReply lid cid ret out) m = m(lid := (if ret = lp_OK then m lid - {cid} else insert cid (m lid)))"
| "asked_by (RelReply lid cid out) m = m"

definition held :: "lsc_event list \<Rightarrow> u64 \<rightharpoonup> string" where
  "held evs = fold held_by evs Map.empty"

definition asked :: "lsc_event list \<Rightarrow> u64 \<Rightarrow> string set" where
  "asked evs = fold asked_by evs (\<lambda>_. {})"

lemma held_simps [simp]: "held [] = Map.empty" "held (evs @ [ev]) = held_by ev (held evs)"
  and asked_simps [simp]: "asked [] = (\<lambda>_. {})" "asked (evs @ [ev]) = asked_by ev (asked evs)"
  by (simp_all add: held_def asked_def)

lemma lsc_release_Inr:
  assumes "lsc_release lid cid st = Inr (ret, st', out)"
  obtains l' where "lsc_release_lock lid (lock_of st lid) = (l', out)"
    "st' = st\<lparr>lock_manager := (lock_manager st)(lid \<mapsto> Some l')\<rparr>"
  using assms by (auto simp: lsc_release_def lock_of_def split: option.splits prod.splits)

text \<open>The server state represents the history.\<close>

definition represents :: "lsc_event list \<Rightarrow> lock_server_cache \<Rightarrow> bool" where
  "represents evs st \<longleftrightarrow> lsc_wf st \<and> (\<lambda>lid. holder (lock_of st lid)) = held evs \<and>
     (\<lambda>lid. waiting (lock_of st lid)) = asked evs"

lemma represents_step:
  assumes rep: "represents evs st" and "lsc_step ev st st'"
  shows "represents (evs @ [ev]) st'"
proof -
  have wf: "lock_wf (lock_of st lid)" for lid using rep by (simp add: represents_def lsc_wf_def)
  have h: "holder (lock_of st lid) = held evs lid" "waiting (lock_of st lid) = asked evs lid" for lid
    using rep unfolding represents_def by metis+
  from assms(2) show ?thesis
  proof cases
    case (acq lid cid ret out)
    then obtain l' where l': "lsc_acquire_lock lid cid (lock_of st lid) = (ret, l', out)"
      "st' = st\<lparr>lock_manager := (lock_manager st)(lid \<mapsto> Some l')\<rparr>"
      by (auto simp: lsc_acquire_alt split: prod.splits)
    from acquire_lock_spec [OF wf l'(1)] wf h show ?thesis
      by (auto simp: represents_def lsc_wf_def acq(1) l'(2) fun_eq_iff)
  next
    case (rel lid cid ret out)
    then obtain l' where l': "lsc_release_lock lid (lock_of st lid) = (l', out)"
      "st' = st\<lparr>lock_manager := (lock_manager st)(lid \<mapsto> Some l')\<rparr>"
      by (auto elim: lsc_release_Inr)
    have "holder (lock_of st lid) \<noteq> None" using rel by simp
    from release_lock_spec [OF wf l'(1) this] wf h show ?thesis
      by (auto simp: represents_def lsc_wf_def rel(1) l'(2) fun_eq_iff)
  qed
qed

lemma represents_run:
  assumes "lsc_run (lock_server_cache_init raw) evs st"
  shows "represents evs st"
  using assms
proof (induction "lock_server_cache_init raw" evs st rule: lsc_run.induct)
  case lsc_nil
  then show ?case
    by (simp add: represents_def lsc_wf_init) (simp add: lock_of_def lock_server_cache_init_def)
qed (rule represents_step)

section \<open>Properties\<close>

text \<open>
  C14 (refinement). The caching lock server implements a lock service. After every history of
  acquire and release handlers, an acquire is granted only if no client was granted the lock without
  having returned it, a refused client is remembered, and the state names exactly the current
  holder and the clients still waiting.
\<close>

theorem lsc_history:
  assumes "lsc_run (lock_server_cache_init raw) evs st" and "lsc_acquire lid cid st = (ret, st', out)"
  shows "holder (lock_of st lid) = held evs lid \<and> waiting (lock_of st lid) = asked evs lid \<and>
    (ret = lp_OK \<and> held evs lid = None \<or> ret = lp_RETRY \<and> cid \<in> waiting (lock_of st' lid))"
proof -
  note rep = represents_run [OF assms(1)]
  from assms(2) obtain l' where l': "lsc_acquire_lock lid cid (lock_of st lid) = (ret, l', out)"
      "st' = st\<lparr>lock_manager := (lock_manager st)(lid \<mapsto> Some l')\<rparr>"
    by (auto simp: lsc_acquire_alt split: prod.splits)
  have h: "holder (lock_of st lid) = held evs lid" "waiting (lock_of st lid) = asked evs lid"
    using rep unfolding represents_def by metis+
  have "lock_wf (lock_of st lid)" using rep by (simp add: represents_def lsc_wf_def)
  from acquire_lock_spec(2) [OF this l'(1)] h show ?thesis by (auto simp: l'(2))
qed

definition lsc1 :: lock_server_cache where
  "lsc1 = fst (snd (lsc_acquire 7 ''a'' (lock_server_cache_init 0)))"

lemma lsc1_run: "lsc_run (lock_server_cache_init 0) ([] @ [AcqReply 7 ''a'' 0 None]) lsc1"
  by (rule lsc_snoc [OF lsc_nil], rule acq)
    (simp add: lsc1_def lsc_acquire_def lsc_acquire_lock_def lock_server_cache_init_def new_server_lock_def)

theorem lsc_history_witness:
  "case lsc_acquire 7 ''b'' lsc1 of (ret, st', out) \<Rightarrow>
     holder (lock_of lsc1 7) = Some ''a'' \<and> ret = lp_RETRY \<and> ''b'' \<in> waiting (lock_of st' 7)"
proof -
  obtain ret st' out where r: "lsc_acquire 7 ''b'' lsc1 = (ret, st', out)" by (cases "lsc_acquire 7 ''b'' lsc1") auto
  from lsc_history [OF lsc1_run r] r show ?thesis by (auto simp: held_def)
qed

text \<open>
  Releasing a lock that clients wait for hands it to the least of them: that client
  is called back to retry and no other acquire is granted before it retries; the retry is granted,
  and the new holder is revoked at once if others still wait.
\<close>

lemma lsc_release_hands_over:
  assumes "lock_wf l" and "holder l \<noteq> None" and "waiting l \<noteq> {}" and "lsc_release_lock lid l = (l', out)"
  shows "out = Some (RetryClient (Min (waiting l)) lid) \<and>
    (\<forall>cid. fst (lsc_acquire_lock lid cid l') = (if cid = Min (waiting l) then lp_OK else lp_RETRY)) \<and>
    (\<exists>l''. lsc_acquire_lock lid (Min (waiting l)) l' =
       (lp_OK, l'', if waiting l = {Min (waiting l)} then None else Some (RevokeClient (Min (waiting l)) lid)))"
proof -
  let ?m = "Min (waiting l)"
  note r = release_lock_spec [OF assms(1,4,2)]
  have q: "server_state l' = SRetrying" "client_retrying l' = ?m" "out = Some (RetryClient ?m lid)"
    using r(4) [OF assms(3)] by simp_all
  have "?m \<notin> clients_queue l'" using r(1) q by (simp add: lock_wf_def)
  moreover have "waiting l = insert ?m (clients_queue l')" using r(3) q by (auto simp: waiting_def)
  moreover have "Q = {} \<longleftrightarrow> W = {m}" if "m \<notin> Q" "W = insert m Q" for m :: string and Q W
    using that by auto
  ultimately have "clients_queue l' = {} \<longleftrightarrow> waiting l = {?m}" by blast
  with q show ?thesis by (auto simp: lsc_acquire_lock_def Let_def)
qed

end
