(* ===== verification/Lock_Client_Cache.thy ===== *)
theory Lock_Client_Cache
  imports Prelude
begin

text \<open>
  The caching lock client of \<^verbatim>\<open>lock_client_cache.cc\<close>. One mutex protects all cached locks; a handler
  gives it up while it waits on a condition variable or makes an RPC. Every stretch of code that
  runs under the mutex is one function on the cached lock, and its result says what the thread does
  next: go on waiting, make a call, or return. Threads are identified with the condition variables
  they push on the queue.
\<close>

section \<open>Data\<close>

datatype client_states = CNone | CFree | CLocked | CAcquiring | CReleasing

datatype server_response_t = REmpty | RRevoke | RRetry | RRETRY

record 't client_cached_lock =
  threads_queue :: "'t list"
  client_state :: client_states
  server_response :: server_response_t

text \<open>\<^verbatim>\<open>new client_cached_lock()\<close> value-initialises the enumerations to their zeroes.\<close>

definition new_client_lock :: "'t client_cached_lock" where
  "new_client_lock = \<lparr>threads_queue = [], client_state = CNone, server_response = REmpty\<rparr>"

text \<open>What a thread does after a stretch under the mutex.\<close>

datatype next_action =
    Return_OK              \<comment> \<open>unlocks the mutex and returns \<^verbatim>\<open>OK\<close>: the caller holds the lock\<close>
  | Return_NOENT_locked    \<comment> \<open>returns \<^verbatim>\<open>NOENT\<close> without unlocking the mutex\<close>
  | Rpc_Acquire            \<comment> \<open>unlocks the mutex and calls \<^verbatim>\<open>lock_protocol::acquire\<close>\<close>
  | Wait_Retry             \<comment> \<open>\<^verbatim>\<open>pthread_cond_wait\<close> in \<^verbatim>\<open>rpc_acquire\<close>\<close>
  | Wait_Turn              \<comment> \<open>\<^verbatim>\<open>pthread_cond_wait\<close> behind other threads\<close>
  | Wait_Releasing         \<comment> \<open>\<^verbatim>\<open>pthread_cond_wait\<close> while the lock is going back to the server\<close>

section \<open>acquire\<close>

text \<open>\<^verbatim>\<open>rpc_acquire\<close>: its entry, and its loop test.\<close>

definition rpc_acquire_enter :: "'t client_cached_lock \<Rightarrow> next_action \<times> 't client_cached_lock" where
  "rpc_acquire_enter lock = (Rpc_Acquire, lock\<lparr>client_state := CAcquiring\<rparr>)"

definition rpc_acquire_loop :: "'t client_cached_lock \<Rightarrow> next_action \<times> 't client_cached_lock" where
  "rpc_acquire_loop lock =
     (if client_state lock = CAcquiring then (Rpc_Acquire, lock) else (Return_NOENT_locked, lock))"

text \<open>The RPC has returned \<open>ret\<close> and the mutex is taken again.\<close>

definition rpc_acquire_reply :: "int \<Rightarrow> 't client_cached_lock \<Rightarrow> next_action \<times> 't client_cached_lock" where
  "rpc_acquire_reply ret lock =
     (if ret = 0 then (Return_OK, lock\<lparr>client_state := CLocked\<rparr>)
      else if server_response lock \<noteq> RRetry then (Wait_Retry, lock)
      else rpc_acquire_loop (lock\<lparr>server_response := REmpty\<rparr>))"

text \<open>The wait in \<^verbatim>\<open>rpc_acquire\<close> is over.\<close>

definition rpc_acquire_woken :: "'t client_cached_lock \<Rightarrow> next_action \<times> 't client_cached_lock" where
  "rpc_acquire_woken lock = rpc_acquire_loop (lock\<lparr>server_response := REmpty\<rparr>)"

definition lcc_acquire :: "'t \<Rightarrow> 't client_cached_lock \<Rightarrow> next_action \<times> 't client_cached_lock" where
  "lcc_acquire t lock =
     (if threads_queue lock = [] then
        let lock = lock\<lparr>threads_queue := [t]\<rparr> in
        (case client_state lock of
           CNone \<Rightarrow> rpc_acquire_enter lock
         | CFree \<Rightarrow> (Return_OK, lock\<lparr>client_state := CLocked\<rparr>)
         | CReleasing \<Rightarrow> (Wait_Releasing, lock)
         | _ \<Rightarrow> (Return_NOENT_locked, lock))
      else (Wait_Turn, lock\<lparr>threads_queue := threads_queue lock @ [t]\<rparr>))"

text \<open>The waits in \<^verbatim>\<open>acquire\<close> are over.\<close>

definition lcc_acquire_turn :: "'t client_cached_lock \<Rightarrow> next_action \<times> 't client_cached_lock" where
  "lcc_acquire_turn lock =
     (case client_state lock of
        CNone \<Rightarrow> rpc_acquire_enter lock
      | CFree \<Rightarrow> (Return_OK, lock\<lparr>client_state := CLocked\<rparr>)
      | CLocked \<Rightarrow> (Return_OK, lock\<lparr>client_state := CLocked\<rparr>)
      | _ \<Rightarrow> (Return_NOENT_locked, lock))"

definition lcc_acquire_released :: "'t client_cached_lock \<Rightarrow> next_action \<times> 't client_cached_lock" where
  "lcc_acquire_released lock = rpc_acquire_enter lock"

section \<open>release and the handlers of the server's calls\<close>

text \<open>
  \<^verbatim>\<open>release\<close> up to the RPC: \<open>True\<close> means that the lock goes back to the server, after
  \<^verbatim>\<open>ec_handle->sync\<close>.
\<close>

definition lcc_release :: "'t client_cached_lock \<Rightarrow> bool \<times> 't client_cached_lock" where
  "lcc_release lock =
     (if server_response lock = RRevoke \<and> length (threads_queue lock) \<le> 1
      then (True, lock\<lparr>client_state := CReleasing\<rparr>)
      else (False, lock\<lparr>client_state := CFree\<rparr>))"

text \<open>After the RPC.\<close>

definition lcc_release_done :: "'t client_cached_lock \<Rightarrow> 't client_cached_lock" where
  "lcc_release_done lock = lock\<lparr>client_state := CNone, server_response := REmpty\<rparr>"

text \<open>Pop the queue and signal the next thread.\<close>

definition lcc_release_pop :: "bool \<Rightarrow> 't client_cached_lock \<Rightarrow> ('t option \<times> 't client_cached_lock) res" where
  "lcc_release_pop still_cached lock =
     (case threads_queue lock of
        [] \<Rightarrow> Inl Undefined
      | t # ts \<Rightarrow>
          let lock = lock\<lparr>threads_queue := ts\<rparr> in
          (case ts of
             [] \<Rightarrow> Inr (None, lock)
           | u # _ \<Rightarrow> Inr (Some u, if still_cached then lock\<lparr>client_state := CLocked\<rparr> else lock)))"

definition revoke_handler :: "'t client_cached_lock \<Rightarrow> bool \<times> 't client_cached_lock" where
  "revoke_handler lock =
     (if client_state lock = CFree \<and> length (threads_queue lock) \<le> 1
      then (True, lock\<lparr>client_state := CReleasing\<rparr>)
      else (False, lock\<lparr>server_response := RRevoke\<rparr>))"

definition front :: "'t list \<Rightarrow> 't option" where
  "front q = (case q of [] \<Rightarrow> None | t # _ \<Rightarrow> Some t)"

definition revoke_handler_done :: "'t client_cached_lock \<Rightarrow> 't option \<times> 't client_cached_lock" where
  "revoke_handler_done lock = (front (threads_queue lock), lock\<lparr>client_state := CNone\<rparr>)"

definition retry_handler :: "'t client_cached_lock \<Rightarrow> 't option \<times> 't client_cached_lock" where
  "retry_handler lock = (front (threads_queue lock), lock\<lparr>server_response := RRetry\<rparr>)"

section \<open>The cache of locks\<close>

text \<open>
  All operations look the lock up with \<^verbatim>\<open>lock_cache[lid]\<close>; \<^verbatim>\<open>acquire\<close> allocates a missing one, the
  others dereference the null pointer.
\<close>

type_synonym 't lock_cache = "u64 \<rightharpoonup> 't client_cached_lock option"

definition lcc_lookup :: "u64 \<Rightarrow> 't lock_cache \<Rightarrow> 't client_cached_lock \<times> 't lock_cache" where
  "lcc_lookup lid cache =
     (case map_get cache lid None of
        None \<Rightarrow> (new_client_lock, cache(lid \<mapsto> Some new_client_lock))
      | Some lock \<Rightarrow> (lock, cache))"

definition lcc_deref :: "u64 \<Rightarrow> 't lock_cache \<Rightarrow> 't client_cached_lock res" where
  "lcc_deref lid cache = (case map_get cache lid None of None \<Rightarrow> Inl Undefined | Some lock \<Rightarrow> Inr lock)"

definition cache_acquire :: "'t \<Rightarrow> u64 \<Rightarrow> 't lock_cache \<Rightarrow> next_action \<times> 't lock_cache" where
  "cache_acquire t lid cache =
     (let (lock, cache) = lcc_lookup lid cache; (a, lock) = lcc_acquire t lock
      in (a, cache(lid \<mapsto> Some lock)))"

definition cache_release :: "u64 \<Rightarrow> 't lock_cache \<Rightarrow> (bool \<times> 't lock_cache) res" where
  "cache_release lid cache =
     bindR (lcc_deref lid cache) (\<lambda>lock. let (b, lock) = lcc_release lock in Inr (b, cache(lid \<mapsto> Some lock)))"

definition cache_revoke :: "u64 \<Rightarrow> 't lock_cache \<Rightarrow> (bool \<times> 't lock_cache) res" where
  "cache_revoke lid cache =
     bindR (lcc_deref lid cache) (\<lambda>lock. let (b, lock) = revoke_handler lock in Inr (b, cache(lid \<mapsto> Some lock)))"

definition cache_retry :: "u64 \<Rightarrow> 't lock_cache \<Rightarrow> ('t option \<times> 't lock_cache) res" where
  "cache_retry lid cache =
     bindR (lcc_deref lid cache) (\<lambda>lock. let (u, lock) = retry_handler lock in Inr (u, cache(lid \<mapsto> Some lock)))"

section \<open>The threads of one client\<close>

text \<open>
  Where a thread is with respect to one lock. The \<open>Woke\<close> positions are those of a signalled thread
  that has not got the mutex yet.
\<close>

datatype pc =
    Idle | Holding | In_Rpc | At_Retry | At_Turn | At_Releasing
  | Woke_Retry | Woke_Turn | Woke_Releasing | In_Release | Stuck

fun pc_of :: "next_action \<Rightarrow> pc" where
  "pc_of Return_OK = Holding"
| "pc_of Return_NOENT_locked = Stuck"
| "pc_of Rpc_Acquire = In_Rpc"
| "pc_of Wait_Retry = At_Retry"
| "pc_of Wait_Turn = At_Turn"
| "pc_of Wait_Releasing = At_Releasing"

text \<open>\<^verbatim>\<open>pthread_cond_signal\<close> has no effect on a thread that does not wait.\<close>

fun wake :: "pc \<Rightarrow> pc" where
  "wake At_Retry = Woke_Retry"
| "wake At_Turn = Woke_Turn"
| "wake At_Releasing = Woke_Releasing"
| "wake p = p"

definition signal :: "'t option \<Rightarrow> ('t \<Rightarrow> pc) \<Rightarrow> 't \<Rightarrow> pc" where
  "signal u pcs = (case u of None \<Rightarrow> pcs | Some t \<Rightarrow> pcs(t := wake (pcs t)))"

record 't lcc_sys =
  lock :: "'t client_cached_lock"
  pcs :: "'t \<Rightarrow> pc"
  revoking :: bool

definition goto :: "'t \<Rightarrow> next_action \<times> 't client_cached_lock \<Rightarrow> 't lcc_sys \<Rightarrow> 't lcc_sys" where
  "goto t r s = s\<lparr>lock := snd r, pcs := (pcs s)(t := pc_of (fst r))\<rparr>"

text \<open>
  The steps of the threads and of the two handlers. The server calls \<^verbatim>\<open>retry\<close> only on a client whose
  acquire it has refused, and such a client is acquiring. Here a wait returns only when it is signalled;
  \<open>lcc_step_waits\<close> below adds the other returns that POSIX allows.
\<close>

inductive lcc_step :: "'t lcc_sys \<Rightarrow> 't lcc_sys \<Rightarrow> bool" where
  enter: "pcs s t = Idle \<Longrightarrow> lcc_step s (goto t (lcc_acquire t (lock s)) s)"
| turn: "pcs s t = Woke_Turn \<Longrightarrow> lcc_step s (goto t (lcc_acquire_turn (lock s)) s)"
| released: "pcs s t = Woke_Releasing \<Longrightarrow> lcc_step s (goto t (lcc_acquire_released (lock s)) s)"
| reply: "pcs s t = In_Rpc \<Longrightarrow> lcc_step s (goto t (rpc_acquire_reply ret (lock s)) s)"
| retried: "pcs s t = Woke_Retry \<Longrightarrow> lcc_step s (goto t (rpc_acquire_woken (lock s)) s)"
| release_rpc: "pcs s t = Holding \<Longrightarrow> lcc_release (lock s) = (True, l) \<Longrightarrow>
    lcc_step s (s\<lparr>lock := l, pcs := (pcs s)(t := In_Release)\<rparr>)"
| release_cached: "pcs s t = Holding \<Longrightarrow> lcc_release (lock s) = (False, l) \<Longrightarrow>
    lcc_release_pop True l = Inr (u, l') \<Longrightarrow> lcc_step s (s\<lparr>lock := l', pcs := signal u ((pcs s)(t := Idle))\<rparr>)"
| release_done: "pcs s t = In_Release \<Longrightarrow> lcc_release_pop False (lcc_release_done (lock s)) = Inr (u, l') \<Longrightarrow>
    lcc_step s (s\<lparr>lock := l', pcs := signal u ((pcs s)(t := Idle))\<rparr>)"
| revoke: "\<not> revoking s \<Longrightarrow> revoke_handler (lock s) = (b, l) \<Longrightarrow> lcc_step s (s\<lparr>lock := l, revoking := b\<rparr>)"
| revoke_done: "revoking s \<Longrightarrow> revoke_handler_done (lock s) = (u, l) \<Longrightarrow>
    lcc_step s (s\<lparr>lock := l, pcs := signal u (pcs s), revoking := False\<rparr>)"
| retry: "client_state (lock s) = CAcquiring \<Longrightarrow> retry_handler (lock s) = (u, l) \<Longrightarrow>
    lcc_step s (s\<lparr>lock := l, pcs := signal u (pcs s)\<rparr>)"

text \<open>POSIX also allows a wait to return without a signal; here the waits at the positions in \<open>W\<close> may.\<close>

inductive lcc_step_waits :: "pc set \<Rightarrow> 't lcc_sys \<Rightarrow> 't lcc_sys \<Rightarrow> bool" for W where
  signalled: "lcc_step s s' \<Longrightarrow> lcc_step_waits W s s'"
| unsignalled: "pcs s t \<in> W \<Longrightarrow> lcc_step_waits W s (s\<lparr>pcs := (pcs s)(t := wake (pcs s t))\<rparr>)"

abbreviation lcc_step_spurious :: "'t lcc_sys \<Rightarrow> 't lcc_sys \<Rightarrow> bool" where
  "lcc_step_spurious \<equiv> lcc_step_waits UNIV"

definition lcc_start :: "'t lcc_sys \<Rightarrow> bool" where
  "lcc_start s \<longleftrightarrow> lock s = new_client_lock \<and> pcs s = (\<lambda>_. Idle) \<and> \<not> revoking s"

section \<open>Invariant\<close>

text \<open>Where the thread at the front of the queue may be, by the state of the lock.\<close>

fun front_ok :: "client_states \<Rightarrow> bool \<Rightarrow> pc \<Rightarrow> bool" where
  "front_ok CNone r p \<longleftrightarrow> \<not> r \<and> p \<in> {Woke_Turn, Woke_Releasing}"
| "front_ok CFree r p \<longleftrightarrow> False"
| "front_ok CLocked r p \<longleftrightarrow> \<not> r \<and> p \<in> {Holding, Woke_Turn}"
| "front_ok CAcquiring r p \<longleftrightarrow> \<not> r \<and> p \<in> {In_Rpc, At_Retry, Woke_Retry}"
| "front_ok CReleasing r p \<longleftrightarrow> p = (if r then At_Releasing else In_Release)"

fun empty_ok :: "client_states \<Rightarrow> bool \<Rightarrow> bool" where
  "empty_ok CNone r \<longleftrightarrow> \<not> r"
| "empty_ok CFree r \<longleftrightarrow> \<not> r"
| "empty_ok CReleasing r \<longleftrightarrow> r"
| "empty_ok _ r \<longleftrightarrow> False"

definition lcc_inv :: "'t lcc_sys \<Rightarrow> bool" where
  "lcc_inv s \<longleftrightarrow> distinct (threads_queue (lock s)) \<and>
     (\<forall>t. t \<notin> set (threads_queue (lock s)) \<longrightarrow> pcs s t = Idle) \<and>
     (\<forall>t \<in> set (tl (threads_queue (lock s))). pcs s t = At_Turn) \<and>
     (case threads_queue (lock s) of
        [] \<Rightarrow> empty_ok (client_state (lock s)) (revoking s)
      | h # _ \<Rightarrow> front_ok (client_state (lock s)) (revoking s) (pcs s h))"

text \<open>A thread that is neither idle nor waiting for its turn is at the front.\<close>

lemma at_front:
  assumes "lcc_inv s" and "pcs s t \<noteq> Idle" and "pcs s t \<noteq> At_Turn"
  obtains ts where "threads_queue (lock s) = t # ts" "t \<notin> set ts" "distinct ts"
    "\<forall>u \<in> set ts. pcs s u = At_Turn" "\<forall>u. u \<notin> set (t # ts) \<longrightarrow> pcs s u = Idle"
    "front_ok (client_state (lock s)) (revoking s) (pcs s t)"
proof (cases "threads_queue (lock s)")
  case Nil
  then show ?thesis using assms(1,2) by (simp add: lcc_inv_def)
next
  case (Cons h ts)
  have "t \<in> set (h # ts)" using assms(1,2) Cons by (auto simp: lcc_inv_def)
  moreover have "t \<notin> set ts" using assms(1,3) Cons by (auto simp: lcc_inv_def)
  ultimately have "h = t" by simp
  then show ?thesis using that [of ts] assms(1) Cons by (auto simp: lcc_inv_def)
qed

lemma inv_ConsI:
  assumes "threads_queue (lock s') = t # ts" and "t \<notin> set ts" and "distinct ts"
    and "\<forall>u \<in> set ts. pcs s' u = At_Turn" and "\<forall>u. u \<notin> set (t # ts) \<longrightarrow> pcs s' u = Idle"
    and "front_ok (client_state (lock s')) (revoking s') (pcs s' t)"
  shows "lcc_inv s'"
  using assms by (simp add: lcc_inv_def)

text \<open>A step of the thread at the front that leaves the queue alone.\<close>

lemma front_step:
  assumes inv: "lcc_inv s" and t: "pcs s t \<noteq> Idle" "pcs s t \<noteq> At_Turn"
    and q: "threads_queue (snd r) = threads_queue (lock s)"
    and ok: "front_ok (client_state (lock s)) (revoking s) (pcs s t) \<Longrightarrow>
      front_ok (client_state (snd r)) (revoking s) (pc_of (fst r))"
  shows "lcc_inv (goto t r s)"
proof -
  obtain ts where ts: "threads_queue (lock s) = t # ts" "t \<notin> set ts" "distinct ts"
    "\<forall>u \<in> set ts. pcs s u = At_Turn" "\<forall>u. u \<notin> set (t # ts) \<longrightarrow> pcs s u = Idle"
    "front_ok (client_state (lock s)) (revoking s) (pcs s t)"
    using at_front [OF inv t] by blast
  show ?thesis
    by (rule inv_ConsI [where t = t and ts = ts]) (use ts q ok in \<open>auto simp: goto_def\<close>)
qed

lemma enter_inv:
  assumes inv: "lcc_inv s" and t: "pcs s t = Idle"
  shows "lcc_inv (goto t (lcc_acquire t (lock s)) s)"
proof (cases "threads_queue (lock s)")
  case Nil
  then have "empty_ok (client_state (lock s)) (revoking s)" "\<forall>u. pcs s u = Idle"
    using inv by (auto simp: lcc_inv_def)
  then show ?thesis using Nil
    by (cases "client_state (lock s)") (auto simp: lcc_inv_def goto_def lcc_acquire_def rpc_acquire_enter_def)
next
  case (Cons h ts)
  have "front_ok (client_state (lock s)) (revoking s) (pcs s h)" using inv Cons by (simp add: lcc_inv_def)
  then have "pcs s h \<noteq> Idle" by (cases "client_state (lock s)") (auto split: if_splits)
  then have "t \<noteq> h" using t by auto
  moreover have "t \<notin> set ts" using inv Cons t by (auto simp: lcc_inv_def)
  ultimately show ?thesis using inv Cons t
    by (auto simp: lcc_inv_def goto_def lcc_acquire_def)
qed

text \<open>The queue after the front thread has left it and its successor has been signalled.\<close>

lemma pop_inv:
  assumes inv: "lcc_inv s" and t: "pcs s t \<noteq> Idle" "pcs s t \<noteq> At_Turn"
    and pop: "lcc_release_pop b l = Inr (u, l')" and l: "threads_queue l = threads_queue (lock s)"
    and st: "client_state l = (if b then CFree else CNone)" and nr: "\<not> revoking s"
  shows "lcc_inv (s\<lparr>lock := l', pcs := signal u ((pcs s)(t := Idle))\<rparr>)"
proof -
  obtain ts where ts: "threads_queue (lock s) = t # ts" "t \<notin> set ts" "distinct ts"
    "\<forall>u \<in> set ts. pcs s u = At_Turn" "\<forall>u. u \<notin> set (t # ts) \<longrightarrow> pcs s u = Idle"
    using at_front [OF inv t] by metis
  show ?thesis
  proof (cases ts)
    case Nil
    then have "u = None" "l' = l\<lparr>threads_queue := []\<rparr>"
      using pop l ts(1) by (auto simp: lcc_release_pop_def)
    then show ?thesis using ts(5) Nil st nr by (auto simp: lcc_inv_def signal_def)
  next
    case (Cons w us)
    then have *: "u = Some w" "l' = l\<lparr>threads_queue := w # us, client_state := if b then CLocked else CNone\<rparr>"
      using pop l ts(1) st by (auto simp: lcc_release_pop_def split: if_splits)
    show ?thesis
      by (rule inv_ConsI [where t = w and ts = us]) (use ts Cons * nr in \<open>auto simp: signal_def\<close>)
  qed
qed

lemma lcc_step_inv:
  assumes inv: "lcc_inv s" and "lcc_step s s'"
  shows "lcc_inv s'"
  using assms(2)
proof cases
  case (enter t)
  then show ?thesis using enter_inv [OF inv] by simp
next
  case (turn t)
  show ?thesis unfolding turn(1)
    by (rule front_step [OF inv]; cases "client_state (lock s)")
      (auto simp: turn(2) lcc_acquire_turn_def rpc_acquire_enter_def split: if_splits)
next
  case (released t)
  show ?thesis unfolding released(1)
    by (rule front_step [OF inv]; cases "client_state (lock s)")
      (auto simp: released(2) lcc_acquire_released_def rpc_acquire_enter_def split: if_splits)
next
  case (reply t ret)
  show ?thesis unfolding reply(1)
    by (rule front_step [OF inv]; cases "client_state (lock s)")
      (auto simp: reply(2) rpc_acquire_reply_def rpc_acquire_loop_def split: if_splits)
next
  case (retried t)
  show ?thesis unfolding retried(1)
    by (rule front_step [OF inv]; cases "client_state (lock s)")
      (auto simp: retried(2) rpc_acquire_woken_def rpc_acquire_loop_def split: if_splits)
next
  case (release_rpc t l)
  have t: "pcs s t \<noteq> Idle" "pcs s t \<noteq> At_Turn" using release_rpc(2) by simp_all
  obtain ts where ts: "threads_queue (lock s) = t # ts" "t \<notin> set ts" "distinct ts"
    "\<forall>u \<in> set ts. pcs s u = At_Turn" "\<forall>u. u \<notin> set (t # ts) \<longrightarrow> pcs s u = Idle"
    "front_ok (client_state (lock s)) (revoking s) (pcs s t)"
    using at_front [OF inv t] by blast
  have "\<not> revoking s" using ts(6) release_rpc(2) by (cases "client_state (lock s)") (auto split: if_splits)
  moreover have "l = (lock s)\<lparr>client_state := CReleasing\<rparr>"
    using release_rpc(3) by (auto simp: lcc_release_def split: if_splits)
  ultimately show ?thesis unfolding release_rpc(1)
    by (intro inv_ConsI [where t = t and ts = ts]) (use ts in auto)
next
  case (release_cached t l u l')
  have t: "pcs s t \<noteq> Idle" "pcs s t \<noteq> At_Turn" using release_cached(2) by simp_all
  have "front_ok (client_state (lock s)) (revoking s) (pcs s t)" using at_front [OF inv t] by metis
  then have "\<not> revoking s" using release_cached(2) by (cases "client_state (lock s)") (auto split: if_splits)
  then show ?thesis unfolding release_cached(1) using release_cached(3)
    by (intro pop_inv [OF inv t release_cached(4)]) (auto simp: lcc_release_def split: if_splits)
next
  case (release_done t u l')
  have t: "pcs s t \<noteq> Idle" "pcs s t \<noteq> At_Turn" using release_done(2) by simp_all
  have "front_ok (client_state (lock s)) (revoking s) (pcs s t)" using at_front [OF inv t] by metis
  then have "\<not> revoking s" using release_done(2) by (cases "client_state (lock s)") (auto split: if_splits)
  then show ?thesis unfolding release_done(1)
    by (intro pop_inv [OF inv t release_done(3)]) (auto simp: lcc_release_done_def)
next
  case (revoke b l)
  then show ?thesis using inv
    by (cases "threads_queue (lock s)"; cases "client_state (lock s)")
      (auto simp: lcc_inv_def revoke_handler_def split: if_splits)
next
  case (revoke_done u l)
  then show ?thesis using inv
    by (cases "threads_queue (lock s)"; cases "client_state (lock s)")
      (auto simp: lcc_inv_def revoke_handler_done_def front_def signal_def split: if_splits)
next
  case (retry u l)
  then show ?thesis using inv
    by (cases "threads_queue (lock s)") (auto simp: lcc_inv_def retry_handler_def front_def signal_def)
qed

interpretation lcc: invariant_system lcc_start lcc_step lcc_inv
proof
  show "lcc_inv s" if "lcc_start s" for s :: "'a lcc_sys"
    using that by (simp add: lcc_start_def new_client_lock_def lcc_inv_def)
qed (rule lcc_step_inv)

text \<open>An unsignalled return from the wait for a retry does no harm: the thread asks the server again.\<close>

lemma retry_wait_inv:
  assumes inv: "lcc_inv s" and t: "pcs s t = At_Retry"
  shows "lcc_inv (s\<lparr>pcs := (pcs s)(t := wake (pcs s t))\<rparr>)"
proof (rule at_front [OF inv, of t])
  fix ts
  assume ts: "threads_queue (lock s) = t # ts" "t \<notin> set ts" "distinct ts" "\<forall>u \<in> set ts. pcs s u = At_Turn"
    "\<forall>u. u \<notin> set (t # ts) \<longrightarrow> pcs s u = Idle" "front_ok (client_state (lock s)) (revoking s) (pcs s t)"
  have "front_ok (client_state (lock s)) (revoking s) Woke_Retry"
    using ts(6) t by (cases "client_state (lock s)") (auto split: if_splits)
  then show ?thesis by (intro inv_ConsI [where t = t and ts = ts]) (use ts t in auto)
qed (simp_all add: t)

interpretation lccw: invariant_system lcc_start "lcc_step_waits {At_Retry}" lcc_inv
proof
  show "lcc_inv s'" if inv: "lcc_inv s" and st: "lcc_step_waits {At_Retry} s s'" for s s' :: "'a lcc_sys"
    using st
  proof cases
    case signalled
    then show ?thesis by (rule lcc_step_inv [OF inv])
  next
    case (unsignalled t)
    then show ?thesis using retry_wait_inv [OF inv, of t] by simp
  qed
qed (rule lcc.invar_start)

lemma front_pc:
  assumes "lcc_inv s" and "pcs s t \<noteq> Idle" and "pcs s t \<noteq> At_Turn"
  shows "front (threads_queue (lock s)) = Some t" "front_ok (client_state (lock s)) (revoking s) (pcs s t)"
  by (rule at_front [OF assms]; simp add: front_def)+

lemma holding_front:
  assumes "lcc_inv s" and "pcs s t = Holding"
  shows "client_state (lock s) = CLocked" "pcs s u = Holding \<Longrightarrow> u = t"
proof -
  show "client_state (lock s) = CLocked"
    using front_pc(2) [OF assms(1), of t] assms(2) by (cases "client_state (lock s)") (auto split: if_splits)
  show "u = t" if "pcs s u = Holding"
    using front_pc(1) [OF assms(1), of u] front_pc(1) [OF assms(1), of t] that assms(2) by simp
qed

lemma never_stuck: "lcc_inv s \<Longrightarrow> pcs s t \<noteq> Stuck"
  using front_pc(2) [of s t] by (cases "client_state (lock s)") (auto split: if_splits)

section \<open>Properties\<close>


definition lcc0 :: "nat lcc_sys" where
  "lcc0 = \<lparr>lock = new_client_lock, pcs = \<lambda>_. Idle, revoking = False\<rparr>"

definition lcc1 :: "nat lcc_sys" where
  "lcc1 = \<lparr>lock = \<lparr>threads_queue = [1], client_state = CLocked, server_response = REmpty\<rparr>,
           pcs = (\<lambda>_. Idle)(1 := Holding), revoking = False\<rparr>"

lemma lcc1_reach: "reach lcc_start lcc_step lcc1"
proof -
  have "reach lcc_start lcc_step lcc0" by (rule reach_start) (simp add: lcc_start_def lcc0_def)
  moreover have "lcc_step lcc0 (goto 1 (lcc_acquire 1 (lock lcc0)) lcc0)" (is "lcc_step _ ?s")
    by (rule enter) (simp add: lcc0_def)
  ultimately have r: "reach lcc_start lcc_step ?s" by (rule reach_step)
  have "lcc_step ?s (goto 1 (rpc_acquire_reply 0 (lock ?s)) ?s)" (is "lcc_step _ ?s'")
    by (rule reply) (simp add: goto_def lcc0_def lcc_acquire_def new_client_lock_def rpc_acquire_enter_def)
  moreover have "?s' = lcc1"
    by (simp add: goto_def lcc0_def lcc1_def lcc_acquire_def new_client_lock_def rpc_acquire_enter_def
        rpc_acquire_reply_def fun_eq_iff)
  ultimately show ?thesis using reach_step [OF r] by simp
qed

lemma reach_waits: "reach lcc_start lcc_step s \<Longrightarrow> reach lcc_start (lcc_step_waits W) s"
  by (induction rule: reach.induct) (blast intro: reach.intros lcc_step_waits.intros)+


text \<open>
  C30 (safety, a defect). \<^verbatim>\<open>acquire\<close> does not re-check its condition after \<^verbatim>\<open>pthread_cond_wait\<close>: if a
  wait returns without a signal, as POSIX permits, two threads hold the lock at the same time.
\<close>

theorem spurious_wakeup_breaks_exclusion:
  "\<exists>s :: nat lcc_sys. reach lcc_start lcc_step_spurious s \<and> pcs s 1 = Holding \<and> pcs s 2 = Holding"
proof -
  let ?l = "\<lparr>threads_queue = [1, 2], client_state = CLocked, server_response = REmpty\<rparr> :: nat client_cached_lock"
  let ?s = "\<lambda>p. \<lparr>lock = ?l, pcs = (\<lambda>_. Idle)(1 := Holding, 2 := p), revoking = False\<rparr>"
  have "goto 2 (lcc_acquire 2 (lock lcc1)) lcc1 = ?s At_Turn"
    by (simp add: goto_def lcc1_def lcc_acquire_def)
  moreover have "lcc_step lcc1 (goto 2 (lcc_acquire 2 (lock lcc1)) lcc1)" by (rule enter) (simp add: lcc1_def)
  ultimately have "reach lcc_start lcc_step (?s At_Turn)" using reach_step [OF lcc1_reach] by simp
  note r2 = reach_waits [OF this, of UNIV]
  have "lcc_step_spurious (?s At_Turn) (?s Woke_Turn)"
    using unsignalled [of "?s At_Turn" 2] by simp
  note r3 = reach_step [OF r2 this]
  have "lcc_step (?s Woke_Turn) (?s Holding)"
    using turn [of "?s Woke_Turn" 2] by (simp add: goto_def lcc_acquire_turn_def)
  from reach_step [OF r3 signalled [OF this]] show ?thesis by (rule exI [of _ "?s Holding", OF conjI]) simp
qed

end
