(* ===== verification/Lock_Protocol.thy ===== *)
theory Lock_Protocol
  imports Lock_Server_Cache Lock_Client_Cache
begin

text \<open>
  The caching lock protocol: the server of \<open>Lock_Server_Cache\<close> and any number of clients of
  \<open>Lock_Client_Cache\<close>, with their RPCs as messages that are delivered once, in any order. The state is
  that of one lock. A handler of the server that calls a client back replies to its own caller only when
  that call has returned, and a revoke that gives the lock back returns only when the release has. A wait returns
  only when it is signalled.
\<close>

section \<open>The system\<close>

text \<open>Where the call that a client has at the server is; a client has at most one for each lock.\<close>

datatype rpc_call =
    No_Call
  | Acq_Sent                   \<comment> \<open>an acquire on its way\<close>
  | Acq_Calls outcall int      \<comment> \<open>its handler is about to call a client back, and then returns the status\<close>
  | Acq_Revokes string int     \<comment> \<open>its handler waits for the revoke at that client\<close>
  | Acq_Replied int
  | Rel_Sync                   \<comment> \<open>the client is in \<^verbatim>\<open>ec_handle->sync\<close> before it calls release\<close>
  | Rel_Sent
  | Rel_Calls outcall
  | Rel_Replied

record 't lockp =
  sl :: server_lock
  cl :: "string \<Rightarrow> 't lcc_sys"
  call :: "string \<Rightarrow> rpc_call"

text \<open>A thread of client \<open>c\<close> runs up to its next wait, call or return.\<close>

definition advance_thread :: "string \<Rightarrow> 't \<Rightarrow> next_action \<times> 't client_cached_lock \<Rightarrow> rpc_call \<Rightarrow> 't lockp \<Rightarrow> 't lockp" where
  "advance_thread c t r k s =
     s\<lparr>cl := (cl s)(c := goto t r (cl s c)), call := (call s)(c := if fst r = Rpc_Acquire then Acq_Sent else k)\<rparr>"

definition set_peer :: "string \<Rightarrow> 't lcc_sys \<Rightarrow> rpc_call \<Rightarrow> 't lockp \<Rightarrow> 't lockp" where
  "set_peer c x k s = s\<lparr>cl := (cl s)(c := x), call := (call s)(c := k)\<rparr>"

inductive p_step :: "u64 \<Rightarrow> 't lockp \<Rightarrow> 't lockp \<Rightarrow> bool" for lid where
  p_enter: "pcs (cl s c) t = Idle \<Longrightarrow> p_step lid s (advance_thread c t (lcc_acquire t (lock (cl s c))) (call s c) s)"
| p_turn: "pcs (cl s c) t = Woke_Turn \<Longrightarrow>
    p_step lid s (advance_thread c t (lcc_acquire_turn (lock (cl s c))) (call s c) s)"
| p_released: "pcs (cl s c) t = Woke_Releasing \<Longrightarrow>
    p_step lid s (advance_thread c t (lcc_acquire_released (lock (cl s c))) (call s c) s)"
| p_retried: "pcs (cl s c) t = Woke_Retry \<Longrightarrow>
    p_step lid s (advance_thread c t (rpc_acquire_woken (lock (cl s c))) (call s c) s)"
| p_reply: "pcs (cl s c) t = In_Rpc \<Longrightarrow> call s c = Acq_Replied ret \<Longrightarrow>
    p_step lid s (advance_thread c t (rpc_acquire_reply ret (lock (cl s c))) No_Call s)"
| p_release_rpc: "pcs (cl s c) t = Holding \<Longrightarrow> lcc_release (lock (cl s c)) = (True, l) \<Longrightarrow>
    p_step lid s (set_peer c ((cl s c)\<lparr>lock := l, pcs := (pcs (cl s c))(t := In_Release)\<rparr>) Rel_Sync s)"
| p_release_cached: "pcs (cl s c) t = Holding \<Longrightarrow> lcc_release (lock (cl s c)) = (False, l) \<Longrightarrow>
    lcc_release_pop True l = Inr (u, l') \<Longrightarrow>
    p_step lid s (set_peer c ((cl s c)\<lparr>lock := l', pcs := signal u ((pcs (cl s c))(t := Idle))\<rparr>) (call s c) s)"
| p_synced: "call s c = Rel_Sync \<Longrightarrow> p_step lid s (set_peer c (cl s c) Rel_Sent s)"
| p_release_done: "pcs (cl s c) t = In_Release \<Longrightarrow> call s c = Rel_Replied \<Longrightarrow>
    lcc_release_pop False (lcc_release_done (lock (cl s c))) = Inr (u, l') \<Longrightarrow>
    p_step lid s (set_peer c ((cl s c)\<lparr>lock := l', pcs := signal u ((pcs (cl s c))(t := Idle))\<rparr>) No_Call s)"
| p_revoke_done: "revoking (cl s c) \<Longrightarrow> call s c = Rel_Replied \<Longrightarrow> revoke_handler_done (lock (cl s c)) = (u, l) \<Longrightarrow>
    p_step lid s (set_peer c ((cl s c)\<lparr>lock := l, pcs := signal u (pcs (cl s c)), revoking := False\<rparr>) No_Call
      (s\<lparr>call := \<lambda>b. case call s b of Acq_Revokes d ret \<Rightarrow> if d = c then Acq_Replied ret else call s b | k \<Rightarrow> k\<rparr>))"
| p_serve_acquire: "call s c = Acq_Sent \<Longrightarrow> lsc_acquire_lock lid c (sl s) = (ret, l, out) \<Longrightarrow>
    p_step lid s (s\<lparr>sl := l, call := (call s)(c := case out of None \<Rightarrow> Acq_Replied ret | Some oc \<Rightarrow> Acq_Calls oc ret)\<rparr>)"
| p_serve_release: "call s c = Rel_Sent \<Longrightarrow> lsc_release_lock lid (sl s) = (l, out) \<Longrightarrow>
    p_step lid s (s\<lparr>sl := l, call := (call s)(c := case out of None \<Rightarrow> Rel_Replied | Some oc \<Rightarrow> Rel_Calls oc)\<rparr>)"
| p_revoke: "call s b = Acq_Calls out ret \<Longrightarrow> out = RevokeHolder lid \<and> c = client_holding (sl s) \<or> out = RevokeClient c lid \<Longrightarrow>
    revoke_handler (lock (cl s c)) = (gives, l) \<Longrightarrow>
    p_step lid s (s\<lparr>cl := (cl s)(c := (cl s c)\<lparr>lock := l, revoking := gives \<or> revoking (cl s c)\<rparr>),
      call := (if gives then (call s)(b := Acq_Revokes c ret, c := Rel_Sync) else (call s)(b := Acq_Replied ret))\<rparr>)"
| p_retry: "call s a = Rel_Calls (RetryClient c lid) \<Longrightarrow> retry_handler (lock (cl s c)) = (u, l) \<Longrightarrow>
    p_step lid s (s\<lparr>cl := (cl s)(c := (cl s c)\<lparr>lock := l, pcs := signal u (pcs (cl s c))\<rparr>), call := (call s)(a := Rel_Replied)\<rparr>)"

definition p_start :: "'t lockp \<Rightarrow> bool" where
  "p_start s \<longleftrightarrow> sl s = new_server_lock \<and> (\<forall>c. lcc_start (cl s c) \<and> call s c = No_Call)"

section \<open>Invariant\<close>

text \<open>What the server thinks of a client: it holds the lock and has not been asked for it, or it has; it was refused, or was then told to retry.\<close>

datatype role = Unrevoked | Revoked | Refused | Retried | Outside

definition fpc :: "'t lcc_sys \<Rightarrow> pc" where
  "fpc x = (case threads_queue (lock x) of [] \<Rightarrow> Idle | t # _ \<Rightarrow> pcs x t)"

definition asking :: "'t lcc_sys \<Rightarrow> bool" where
  "asking x \<longleftrightarrow> client_state (lock x) = CAcquiring \<and> fpc x = In_Rpc"

definition giving_back :: "'t lcc_sys \<Rightarrow> bool" where
  "giving_back x \<longleftrightarrow> client_state (lock x) = CReleasing \<and> (revoking x \<longrightarrow> server_response (lock x) = REmpty)"

fun fits :: "role \<Rightarrow> 't lcc_sys \<Rightarrow> rpc_call \<Rightarrow> bool" where
  "fits Unrevoked x k \<longleftrightarrow> server_response (lock x) = REmpty \<and>
     (k = No_Call \<and> client_state (lock x) \<in> {CFree, CLocked} \<or> asking x \<and> (k = Acq_Replied lp_OK \<or> (\<exists>oc. k = Acq_Calls oc lp_OK)))"
| "fits Revoked x k \<longleftrightarrow>
     server_response (lock x) = RRevoke \<and> (k = No_Call \<and> client_state (lock x) = CLocked \<or> asking x \<and> k = Acq_Replied lp_OK) \<or>
     giving_back x \<and> k \<in> {Rel_Sync, Rel_Sent}"
| "fits Refused x k \<longleftrightarrow> server_response (lock x) = REmpty \<and>
     (asking x \<and> ((\<exists>oc. k = Acq_Calls oc lp_RETRY) \<or> (\<exists>d. k = Acq_Revokes d lp_RETRY) \<or> k = Acq_Replied lp_RETRY) \<or>
      client_state (lock x) = CAcquiring \<and> fpc x = At_Retry \<and> k = No_Call)"
| "fits Retried x k \<longleftrightarrow>
     server_response (lock x) = REmpty \<and> asking x \<and> k = Acq_Sent \<or>
     server_response (lock x) = RRetry \<and>
       (asking x \<and> ((\<exists>d. k = Acq_Revokes d lp_RETRY) \<or> k = Acq_Replied lp_RETRY) \<or>
        client_state (lock x) = CAcquiring \<and> fpc x = Woke_Retry \<and> k = No_Call)"
| "fits Outside x k \<longleftrightarrow>
     server_response (lock x) = REmpty \<and> (client_state (lock x) = CNone \<and> k = No_Call \<or> asking x \<and> k = Acq_Sent) \<or>
     giving_back x \<and> ((\<exists>oc. k = Rel_Calls oc) \<or> k = Rel_Replied)"

definition revoke_pending :: "(string \<Rightarrow> rpc_call) \<Rightarrow> bool" where
  "revoke_pending k \<longleftrightarrow> (\<exists>b out ret. k b = Acq_Calls out ret)"

definition retry_pending :: "(string \<Rightarrow> rpc_call) \<Rightarrow> bool" where
  "retry_pending k \<longleftrightarrow> (\<exists>a out. k a = Rel_Calls out)"

definition role_of :: "server_lock \<Rightarrow> (string \<Rightarrow> rpc_call) \<Rightarrow> string \<Rightarrow> role" where
  "role_of l k c =
     (if holder l = Some c then (if server_state l = SLocked \<or> revoke_pending k then Unrevoked else Revoked)
      else if c \<in> clients_queue l then Refused
      else if server_state l = SRetrying \<and> client_retrying l = c then (if retry_pending k then Refused else Retried)
      else Outside)"

text \<open>The calls that the handlers of the server are about to make: at most one revoke or one retry.\<close>

definition outcalls_ok :: "u64 \<Rightarrow> server_lock \<Rightarrow> (string \<Rightarrow> rpc_call) \<Rightarrow> bool" where
  "outcalls_ok lid l k \<longleftrightarrow>
     (\<forall>b out ret. k b = Acq_Calls out ret \<longrightarrow> server_state l = SRevoking \<and>
        (out = RevokeHolder lid \<and> ret = lp_RETRY \<or> out = RevokeClient b lid \<and> ret = lp_OK \<and> client_holding l = b)) \<and>
     (\<forall>a out. k a = Rel_Calls out \<longrightarrow> server_state l = SRetrying \<and> out = RetryClient (client_retrying l) lid) \<and>
     (\<forall>b out ret b' out' ret'. k b = Acq_Calls out ret \<and> k b' = Acq_Calls out' ret' \<longrightarrow> b = b') \<and>
     (\<forall>a out a' out'. k a = Rel_Calls out \<and> k a' = Rel_Calls out' \<longrightarrow> a = a')"

definition p_inv :: "u64 \<Rightarrow> 't lockp \<Rightarrow> bool" where
  "p_inv lid s \<longleftrightarrow> lock_wf (sl s) \<and> outcalls_ok lid (sl s) (call s) \<and>
     (\<forall>c. lcc_inv (cl s c) \<and> fits (role_of (sl s) (call s) c) (cl s c) (call s c)) \<and>
     (\<forall>b c ret. call s b = Acq_Revokes c ret \<longrightarrow> revoking (cl s c)) \<and>
     (\<forall>c. holder (sl s) = Some c \<longrightarrow> c \<notin> clients_queue (sl s))"

lemma p_invD:
  assumes "p_inv lid s"
  shows "lock_wf (sl s)" "outcalls_ok lid (sl s) (call s)" "lcc_inv (cl s c)"
    "fits (role_of (sl s) (call s) c) (cl s c) (call s c)" "call s b = Acq_Revokes c ret \<Longrightarrow> revoking (cl s c)"
    "holder (sl s) = Some c \<Longrightarrow> c \<notin> clients_queue (sl s)"
  using assms by (auto simp: p_inv_def)

fun plain :: "rpc_call \<Rightarrow> bool" where
  "plain (Acq_Calls _ _) = False"
| "plain (Acq_Revokes _ _) = False"
| "plain (Rel_Calls _) = False"
| "plain _ = True"

lemma pending_cong:
  assumes "\<And>b out ret. k' b = Acq_Calls out ret \<longleftrightarrow> k b = Acq_Calls out ret" "\<And>a out. k' a = Rel_Calls out \<longleftrightarrow> k a = Rel_Calls out"
  shows "role_of l k' = role_of l k" "outcalls_ok lid l k' = outcalls_ok lid l k"
proof -
  have "revoke_pending k' = revoke_pending k" "retry_pending k' = retry_pending k"
    by (simp_all add: revoke_pending_def retry_pending_def assms)
  then show "role_of l k' = role_of l k" by (simp add: role_of_def fun_eq_iff)
  show "outcalls_ok lid l k' = outcalls_ok lid l k" by (simp add: outcalls_ok_def assms)
qed

lemma pending_plain:
  assumes "k c = k' \<or> plain (k c) \<and> plain k'"
  shows "role_of l (k(c := k')) = role_of l k" "outcalls_ok lid l (k(c := k')) = outcalls_ok lid l k"
  by (rule pending_cong; use assms in auto)+

text \<open>A step of one client that the server does not see.\<close>

lemma local_inv:
  assumes inv: "p_inv lid s" and x: "lcc_inv x" "revoking x = revoking (cl s c)"
    and k: "call s c = k \<or> plain (call s c) \<and> plain k"
    and f: "\<And>r. fits r (cl s c) (call s c) \<Longrightarrow> fits r x k"
  shows "p_inv lid (set_peer c x k s)"
proof -
  have "revoking (if d = c then x else cl s d)" if "((call s)(c := k)) b = Acq_Revokes d ret" for b d ret
    using that k p_invD(5) [OF inv, of b d ret] x(2) by (auto split: if_splits)
  then show ?thesis using p_invD [OF inv] x(1) f
    by (auto simp: p_inv_def set_peer_def pending_plain [of "call s", OF k])
qed

lemma advance_set_peer:
  "advance_thread c t r k s = set_peer c (goto t r (cl s c)) (if fst r = Rpc_Acquire then Acq_Sent else k) s"
  by (simp add: advance_thread_def set_peer_def)

lemma front_fpc:
  assumes "lcc_inv x" and "pcs x t \<noteq> Idle" and "pcs x t \<noteq> At_Turn"
  shows "fpc x = pcs x t" "front_ok (client_state (lock x)) (revoking x) (pcs x t)" "\<exists>ts. threads_queue (lock x) = t # ts"
  using at_front [OF assms] by (metis fpc_def list.simps(5))+

lemma fpc_goto:
  assumes "lcc_inv x" and "pcs x t \<noteq> Idle" and "pcs x t \<noteq> At_Turn" and "threads_queue (snd r) = threads_queue (lock x)"
  shows "fpc (goto t r x) = pc_of (fst r)"
  using front_fpc(3) [OF assms(1-3)] assms(4) by (auto simp: fpc_def goto_def)

lemma goto_simps [simp]: "lock (goto t r x) = snd r" "revoking (goto t r x) = revoking x"
  by (simp_all add: goto_def)

text \<open>The steps of a thread at the front of its queue.\<close>

lemma front_thread_inv:
  assumes inv: "p_inv lid s" and t: "pcs (cl s c) t \<noteq> Idle" "pcs (cl s c) t \<noteq> At_Turn"
    and r: "threads_queue (snd r) = threads_queue (lock (cl s c))" "lcc_step (cl s c) (goto t r (cl s c))"
    and k: "plain (call s c)" "plain k"
    and f: "\<And>q. fits q (cl s c) (call s c) \<Longrightarrow> fpc (goto t r (cl s c)) = pc_of (fst r) \<Longrightarrow>
      fits q (goto t r (cl s c)) (if fst r = Rpc_Acquire then Acq_Sent else k)"
  shows "p_inv lid (advance_thread c t r k s)"
  unfolding advance_set_peer
proof (rule local_inv [OF inv])
  show "lcc_inv (goto t r (cl s c))" using lcc_step_inv [OF p_invD(3) [OF inv] r(2)] .
qed (use f fpc_goto [OF p_invD(3) [OF inv] t r(1)] k in auto)

text \<open>What the position of the front thread says about the call of its client.\<close>

lemma fits_calls:
  assumes "fits r x k"
  shows "client_state (lock x) \<in> {CNone, CFree, CLocked} \<Longrightarrow> k = No_Call"
    and "fpc x = Woke_Retry \<Longrightarrow> client_state (lock x) = CAcquiring \<Longrightarrow> k = No_Call \<and> r = Retried"
    and "client_state (lock x) = CReleasing \<Longrightarrow> k \<in> {Rel_Sync, Rel_Sent, Rel_Replied} \<or> (\<exists>oc. k = Rel_Calls oc)"
  using assms by (cases r; auto simp: asking_def giving_back_def)+

lemma enter_p_inv:
  assumes inv: "p_inv lid s" and t: "pcs (cl s c) t = Idle"
  shows "p_inv lid (advance_thread c t (lcc_acquire t (lock (cl s c))) (call s c) s)"
proof -
  let ?x = "cl s c" and ?r = "lcc_acquire t (lock (cl s c))"
  have inv': "lcc_inv (goto t ?r ?x)" using lcc_step_inv [OF p_invD(3) [OF inv] enter [of ?x, OF t]] .
  have lcc: "lcc_inv ?x" using p_invD(3) [OF inv] .
  show ?thesis
  proof (cases "threads_queue (lock ?x)")
    case (Cons h ts)
    have "t \<noteq> h" using lcc t front_fpc(2) [OF lcc, of h] Cons
      by (cases "client_state (lock ?x)") (auto simp: lcc_inv_def split: if_splits)
    then have "fpc (goto t ?r ?x) = fpc ?x" "fst ?r = Wait_Turn" "snd ?r = (lock ?x)\<lparr>threads_queue := threads_queue (lock ?x) @ [t]\<rparr>"
      using Cons by (simp_all add: fpc_def goto_def lcc_acquire_def)
    then have "fits q (goto t ?r ?x) (call s c)" if "fits q ?x (call s c)" for q
      using that by (cases q) (auto simp: asking_def giving_back_def)
    then show ?thesis unfolding advance_set_peer
      by (intro local_inv [OF inv inv']) (simp_all add: \<open>fst ?r = Wait_Turn\<close>)
  next
    case Nil
    have e: "empty_ok (client_state (lock ?x)) (revoking ?x)" using lcc Nil by (simp add: lcc_inv_def)
    have f: "fits (role_of (sl s) (call s) c) ?x (call s c)" by (rule p_invD(4) [OF inv])
    have "fits q (goto t ?r ?x) (if fst ?r = Rpc_Acquire then Acq_Sent else call s c)" if "fits q ?x (call s c)" for q
      using that e Nil
      by (cases q; cases "client_state (lock ?x)")
        (auto simp: asking_def giving_back_def lcc_acquire_def rpc_acquire_enter_def fpc_def goto_def)
    moreover have "call s c = (if fst ?r = Rpc_Acquire then Acq_Sent else call s c) \<or>
        plain (call s c) \<and> plain (if fst ?r = Rpc_Acquire then Acq_Sent else call s c)"
      using fits_calls(1) [OF f] e Nil
      by (cases "client_state (lock ?x)") (auto simp: lcc_acquire_def rpc_acquire_enter_def)
    ultimately show ?thesis unfolding advance_set_peer by (intro local_inv [OF inv inv']) simp_all
  qed
qed

lemma turn_p_inv:
  assumes inv: "p_inv lid s" and t: "pcs (cl s c) t = Woke_Turn"
  shows "p_inv lid (advance_thread c t (lcc_acquire_turn (lock (cl s c))) (call s c) s)"
proof -
  have lcc: "lcc_inv (cl s c)" by (rule p_invD(3) [OF inv])
  have st: "client_state (lock (cl s c)) \<in> {CNone, CLocked}"
    using front_fpc(2) [OF lcc, of t] t by (cases "client_state (lock (cl s c))") (auto split: if_splits)
  then have k: "call s c = No_Call" using fits_calls(1) [OF p_invD(4) [OF inv]] by blast
  show ?thesis
  proof (rule front_thread_inv [OF inv])
    show "fits q (goto t (lcc_acquire_turn (lock (cl s c))) (cl s c)) (if fst (lcc_acquire_turn (lock (cl s c))) = Rpc_Acquire then Acq_Sent else call s c)"
      if "fits q (cl s c) (call s c)" "fpc (goto t (lcc_acquire_turn (lock (cl s c))) (cl s c)) = pc_of (fst (lcc_acquire_turn (lock (cl s c))))" for q
      using that st k by (cases q) (auto simp: lcc_acquire_turn_def rpc_acquire_enter_def asking_def giving_back_def)
    show "lcc_step (cl s c) (goto t (lcc_acquire_turn (lock (cl s c))) (cl s c))" by (rule turn [of "cl s c", OF t])
  qed (use t k st in \<open>auto simp: lcc_acquire_turn_def rpc_acquire_enter_def\<close>)
qed

lemma released_p_inv:
  assumes inv: "p_inv lid s" and t: "pcs (cl s c) t = Woke_Releasing"
  shows "p_inv lid (advance_thread c t (lcc_acquire_released (lock (cl s c))) (call s c) s)"
proof -
  have lcc: "lcc_inv (cl s c)" by (rule p_invD(3) [OF inv])
  have st: "client_state (lock (cl s c)) = CNone"
    using front_fpc(2) [OF lcc, of t] t by (cases "client_state (lock (cl s c))") (auto split: if_splits)
  then have k: "call s c = No_Call" using fits_calls(1) [OF p_invD(4) [OF inv]] by blast
  show ?thesis
  proof (rule front_thread_inv [OF inv])
    show "fits q (goto t (lcc_acquire_released (lock (cl s c))) (cl s c)) (if fst (lcc_acquire_released (lock (cl s c))) = Rpc_Acquire then Acq_Sent else call s c)"
      if "fits q (cl s c) (call s c)" "fpc (goto t (lcc_acquire_released (lock (cl s c))) (cl s c)) = pc_of (fst (lcc_acquire_released (lock (cl s c))))" for q
      using that st k by (cases q) (auto simp: lcc_acquire_released_def rpc_acquire_enter_def asking_def giving_back_def)
    show "lcc_step (cl s c) (goto t (lcc_acquire_released (lock (cl s c))) (cl s c))" by (rule released [of "cl s c", OF t])
  qed (use t k in \<open>auto simp: lcc_acquire_released_def rpc_acquire_enter_def\<close>)
qed

lemma retried_p_inv:
  assumes inv: "p_inv lid s" and t: "pcs (cl s c) t = Woke_Retry"
  shows "p_inv lid (advance_thread c t (rpc_acquire_woken (lock (cl s c))) (call s c) s)"
proof -
  have lcc: "lcc_inv (cl s c)" by (rule p_invD(3) [OF inv])
  have st: "client_state (lock (cl s c)) = CAcquiring" "fpc (cl s c) = Woke_Retry"
    using front_fpc [OF lcc, of t] t by (cases "client_state (lock (cl s c))"; auto split: if_splits)+
  have k: "call s c = No_Call" using fits_calls(2) [OF p_invD(4) [OF inv] st(2,1)] by blast
  show ?thesis
  proof (rule front_thread_inv [OF inv])
    show "fits q (goto t (rpc_acquire_woken (lock (cl s c))) (cl s c)) (if fst (rpc_acquire_woken (lock (cl s c))) = Rpc_Acquire then Acq_Sent else call s c)"
      if "fits q (cl s c) (call s c)" "fpc (goto t (rpc_acquire_woken (lock (cl s c))) (cl s c)) = pc_of (fst (rpc_acquire_woken (lock (cl s c))))" for q
      using that st k by (cases q) (auto simp: rpc_acquire_woken_def rpc_acquire_loop_def asking_def giving_back_def)
    show "lcc_step (cl s c) (goto t (rpc_acquire_woken (lock (cl s c))) (cl s c))" by (rule retried [of "cl s c", OF t])
  qed (use t k st in \<open>auto simp: rpc_acquire_woken_def rpc_acquire_loop_def\<close>)
qed

lemma fits_replied: "fits r x (Acq_Replied ret) \<Longrightarrow> ret = lp_OK \<or> ret = lp_RETRY"
  by (cases r) auto

lemma reply_p_inv:
  assumes inv: "p_inv lid s" and t: "pcs (cl s c) t = In_Rpc" and k: "call s c = Acq_Replied ret"
  shows "p_inv lid (advance_thread c t (rpc_acquire_reply ret (lock (cl s c))) No_Call s)"
proof -
  let ?r = "rpc_acquire_reply ret (lock (cl s c))"
  have lcc: "lcc_inv (cl s c)" by (rule p_invD(3) [OF inv])
  have st: "client_state (lock (cl s c)) = CAcquiring" "fpc (cl s c) = In_Rpc"
    using front_fpc [OF lcc, of t] t by (cases "client_state (lock (cl s c))"; auto split: if_splits)+
  show ?thesis
  proof (rule front_thread_inv [OF inv])
    show "fits q (goto t ?r (cl s c)) (if fst ?r = Rpc_Acquire then Acq_Sent else No_Call)"
      if "fits q (cl s c) (call s c)" "fpc (goto t ?r (cl s c)) = pc_of (fst ?r)" for q
      using that st k by (cases q) (auto simp: rpc_acquire_reply_def rpc_acquire_loop_def asking_def giving_back_def)
    show "lcc_step (cl s c) (goto t ?r (cl s c))" by (rule reply [of "cl s c", OF t])
  qed (use t k st in \<open>auto simp: rpc_acquire_reply_def rpc_acquire_loop_def\<close>)
qed

lemma holding_p_inv:
  assumes "p_inv lid s" and "pcs (cl s c) t = Holding"
  shows "client_state (lock (cl s c)) = CLocked" "call s c = No_Call" "\<exists>ts. threads_queue (lock (cl s c)) = t # ts"
    "\<not> revoking (cl s c)"
proof -
  have lcc: "lcc_inv (cl s c)" by (rule p_invD(3) [OF assms(1)])
  show "client_state (lock (cl s c)) = CLocked" by (rule holding_front(1) [OF lcc assms(2)])
  then show "call s c = No_Call" using fits_calls(1) [OF p_invD(4) [OF assms(1)]] by blast
  show "\<exists>ts. threads_queue (lock (cl s c)) = t # ts" "\<not> revoking (cl s c)"
    using front_fpc [OF lcc, of t] assms(2) \<open>client_state (lock (cl s c)) = CLocked\<close> by auto
qed

lemma release_rpc_p_inv:
  assumes inv: "p_inv lid s" and t: "pcs (cl s c) t = Holding" and r: "lcc_release (lock (cl s c)) = (True, l)"
  shows "p_inv lid (set_peer c ((cl s c)\<lparr>lock := l, pcs := (pcs (cl s c))(t := In_Release)\<rparr>) Rel_Sync s)"
proof (rule local_inv [OF inv])
  note h = holding_p_inv [OF inv t]
  show "lcc_inv ((cl s c)\<lparr>lock := l, pcs := (pcs (cl s c))(t := In_Release)\<rparr>)"
    using lcc_step_inv [OF p_invD(3) [OF inv] release_rpc [of "cl s c", OF t r]] .
  show "call s c = Rel_Sync \<or> plain (call s c) \<and> plain Rel_Sync" using h by simp
  show "fits q ((cl s c)\<lparr>lock := l, pcs := (pcs (cl s c))(t := In_Release)\<rparr>) Rel_Sync" if "fits q (cl s c) (call s c)" for q
    using that h r by (cases q) (auto simp: lcc_release_def asking_def giving_back_def split: if_splits)
qed simp

lemma release_cached_p_inv:
  assumes inv: "p_inv lid s" and t: "pcs (cl s c) t = Holding" and r: "lcc_release (lock (cl s c)) = (False, l)"
    and pop: "lcc_release_pop True l = Inr (u, l')"
  shows "p_inv lid (set_peer c ((cl s c)\<lparr>lock := l', pcs := signal u ((pcs (cl s c))(t := Idle))\<rparr>) (call s c) s)"
proof (rule local_inv [OF inv])
  note h = holding_p_inv [OF inv t]
  show "lcc_inv ((cl s c)\<lparr>lock := l', pcs := signal u ((pcs (cl s c))(t := Idle))\<rparr>)"
    using lcc_step_inv [OF p_invD(3) [OF inv] release_cached [of "cl s c", OF t r pop]] .
  show "fits q ((cl s c)\<lparr>lock := l', pcs := signal u ((pcs (cl s c))(t := Idle))\<rparr>) (call s c)" if "fits q (cl s c) (call s c)" for q
    using that h r pop
    by (cases q) (auto simp: lcc_release_def lcc_release_pop_def Let_def asking_def giving_back_def split: if_splits list.splits)
qed simp_all

lemma synced_p_inv:
  assumes inv: "p_inv lid s" and k: "call s c = Rel_Sync"
  shows "p_inv lid (set_peer c (cl s c) Rel_Sent s)"
proof (rule local_inv [OF inv p_invD(3) [OF inv]])
  show "fits q (cl s c) Rel_Sent" if "fits q (cl s c) (call s c)" for q using that k by (cases q) auto
qed (simp_all add: k)

lemma release_done_p_inv:
  assumes inv: "p_inv lid s" and t: "pcs (cl s c) t = In_Release" and k: "call s c = Rel_Replied"
    and pop: "lcc_release_pop False (lcc_release_done (lock (cl s c))) = Inr (u, l')"
  shows "p_inv lid (set_peer c ((cl s c)\<lparr>lock := l', pcs := signal u ((pcs (cl s c))(t := Idle))\<rparr>) No_Call s)"
proof (rule local_inv [OF inv])
  show "lcc_inv ((cl s c)\<lparr>lock := l', pcs := signal u ((pcs (cl s c))(t := Idle))\<rparr>)"
    using lcc_step_inv [OF p_invD(3) [OF inv] release_done [of "cl s c", OF t pop]] .
  show "fits q ((cl s c)\<lparr>lock := l', pcs := signal u ((pcs (cl s c))(t := Idle))\<rparr>) No_Call" if "fits q (cl s c) (call s c)" for q
    using that k pop
    by (cases q) (auto simp: lcc_release_done_def lcc_release_pop_def Let_def asking_def giving_back_def split: if_splits list.splits)
qed (simp_all add: k)

lemma fits_revoke_returned: "fits r x (Acq_Revokes d ret) \<Longrightarrow> fits r x (Acq_Replied ret)"
  by (cases r) auto

lemma revoke_done_p_inv:
  assumes inv: "p_inv lid s" and rv: "revoking (cl s c)" and k: "call s c = Rel_Replied"
    and r: "revoke_handler_done (lock (cl s c)) = (u, l)"
  shows "p_inv lid (set_peer c ((cl s c)\<lparr>lock := l, pcs := signal u (pcs (cl s c)), revoking := False\<rparr>) No_Call
      (s\<lparr>call := \<lambda>b. case call s b of Acq_Revokes d ret \<Rightarrow> if d = c then Acq_Replied ret else call s b | k \<Rightarrow> k\<rparr>))"
    (is "p_inv lid (set_peer c ?x No_Call (s\<lparr>call := ?k\<rparr>))")
proof -
  have x: "lcc_inv ?x" using lcc_step_inv [OF p_invD(3) [OF inv] revoke_done [of "cl s c", OF rv r]] .
  have calls: "(?k(c := No_Call)) b = Acq_Calls out ret \<longleftrightarrow> call s b = Acq_Calls out ret"
    "(?k(c := No_Call)) b = Rel_Calls out \<longleftrightarrow> call s b = Rel_Calls out" for b out ret
    using k by (auto split: rpc_call.splits)
  have f: "fits (role_of (sl s) (call s) d) (if d = c then ?x else cl s d) ((?k(c := No_Call)) d)" for d
  proof (cases "d = c")
    case True
    have "fits (role_of (sl s) (call s) c) (cl s c) Rel_Replied" using p_invD(4) [OF inv, of c] k by simp
    then show ?thesis using True rv r
      by (cases "role_of (sl s) (call s) c") (auto simp: revoke_handler_done_def asking_def giving_back_def)
  next
    case False
    then show ?thesis using p_invD(4) [OF inv, of d] fits_revoke_returned
      by (auto split: rpc_call.splits)
  qed
  have "revoking (if d = c then ?x else cl s d)" if "(?k(c := No_Call)) b = Acq_Revokes d ret" for b d ret
    using that p_invD(5) [OF inv, of b d ret] by (auto split: if_splits rpc_call.splits)
  then show ?thesis using p_invD(1-3,6) [OF inv] x f
    by (simp add: p_inv_def set_peer_def pending_cong [of "?k(c := No_Call)", OF calls])
qed

text \<open>A step of the server in the call of client \<open>c\<close>.\<close>

lemma serve_inv:
  assumes inv: "p_inv lid s" and "lock_wf l" and "outcalls_ok lid l ((call s)(c := k))"
    and "\<And>d. d \<noteq> c \<Longrightarrow> role_of l ((call s)(c := k)) d = role_of (sl s) (call s) d"
    and "fits (role_of l ((call s)(c := k)) c) (cl s c) k" and "\<And>d ret. k \<noteq> Acq_Revokes d ret"
    and "\<And>d. holder l = Some d \<Longrightarrow> d \<notin> clients_queue l"
  shows "p_inv lid (s\<lparr>sl := l, call := (call s)(c := k)\<rparr>)"
proof -
  have "fits (role_of l ((call s)(c := k)) d) (cl s d) (((call s)(c := k)) d)" for d
    using assms(4) [of d] assms(5) p_invD(4) [OF inv, of d] by (cases "d = c") auto
  then show ?thesis using p_invD [OF inv] assms(2,3,6,7) by (auto simp: p_inv_def)
qed

lemma outcalls_none:
  assumes "outcalls_ok lid l k"
  shows "server_state l \<noteq> SRevoking \<Longrightarrow> \<not> revoke_pending k" "server_state l \<noteq> SRetrying \<Longrightarrow> \<not> retry_pending k"
    "server_state l \<noteq> SRevoking \<Longrightarrow> k b \<noteq> Acq_Calls out ret" "server_state l \<noteq> SRetrying \<Longrightarrow> k b \<noteq> Rel_Calls out"
  using assms by (auto simp: outcalls_ok_def revoke_pending_def retry_pending_def)

lemma pending_new [simp]:
  "revoke_pending (k(c := Acq_Calls out ret))" "retry_pending (k(c := Rel_Calls out'))"
  by (auto simp: revoke_pending_def retry_pending_def)

lemma outcalls_quiet:
  assumes "\<not> revoke_pending k" "\<not> retry_pending k"
  shows "outcalls_ok lid l k"
    and "server_state l = SRevoking \<Longrightarrow> out = RevokeHolder lid \<and> ret = lp_RETRY \<or> out = RevokeClient c lid \<and> ret = lp_OK \<and> client_holding l = c \<Longrightarrow>
      outcalls_ok lid l (k(c := Acq_Calls out ret))"
    and "server_state l = SRetrying \<Longrightarrow> out = RetryClient (client_retrying l) lid \<Longrightarrow> outcalls_ok lid l (k(c := Rel_Calls out))"
proof -
  have k: "k b \<noteq> Acq_Calls out ret" "k b \<noteq> Rel_Calls out" for b out ret
    using assms by (auto simp: revoke_pending_def retry_pending_def)
  then show "outcalls_ok lid l k" by (simp add: outcalls_ok_def)
  show "outcalls_ok lid l (k(c := Acq_Calls out ret))"
    if "server_state l = SRevoking" "out = RevokeHolder lid \<and> ret = lp_RETRY \<or> out = RevokeClient c lid \<and> ret = lp_OK \<and> client_holding l = c"
    using that(2) k that(1) by (elim disjE) (simp_all add: outcalls_ok_def)
  show "outcalls_ok lid l (k(c := Rel_Calls out))" if "server_state l = SRetrying" "out = RetryClient (client_retrying l) lid"
    using k that by (simp add: outcalls_ok_def)
qed

lemma acq_sentD:
  assumes "p_inv lid s" and "call s c = Acq_Sent"
  shows "role_of (sl s) (call s) c \<in> {Outside, Retried}" "asking (cl s c)" "server_response (lock (cl s c)) = REmpty"
proof -
  have "fits (role_of (sl s) (call s) c) (cl s c) Acq_Sent" using p_invD(4) [OF assms(1), of c] assms(2) by simp
  then show "role_of (sl s) (call s) c \<in> {Outside, Retried}" "asking (cl s c)" "server_response (lock (cl s c)) = REmpty"
    by (cases "role_of (sl s) (call s) c"; auto)+
qed

lemma serve_acquire_p_inv:
  assumes inv: "p_inv lid s" and k: "call s c = Acq_Sent" and r: "lsc_acquire_lock lid c (sl s) = (ret, l, out)"
  shows "p_inv lid (s\<lparr>sl := l, call := (call s)(c := case out of None \<Rightarrow> Acq_Replied ret | Some oc \<Rightarrow> Acq_Calls oc ret)\<rparr>)"
    (is "p_inv lid (s\<lparr>sl := l, call := (call s)(c := ?k)\<rparr>)")
proof -
  note role = acq_sentD(1) [OF inv k] and asking = acq_sentD(2,3) [OF inv k]
  note oc = p_invD(2) [OF inv] and none = outcalls_none [OF p_invD(2) [OF inv]]
  have wf: "lock_wf (sl s)" "lock_wf l" using p_invD(1) [OF inv] acquire_lock_spec(1) [OF _ r] by blast+
  note hq = p_invD(6) [OF inv]
  have plain: "role_of m ((call s)(c := Acq_Replied x)) = role_of m (call s)"
    "outcalls_ok lid m ((call s)(c := Acq_Replied x)) = outcalls_ok lid m (call s)" for m x
    by (rule pending_plain; simp add: k)+
  have new: "retry_pending ((call s)(c := Acq_Calls o' x)) = retry_pending (call s)" for o' x
  proof -
    have "((call s)(c := Acq_Calls o' x)) a = Rel_Calls out \<longleftrightarrow> call s a = Rel_Calls out" for a out using k by auto
    then show ?thesis by (simp only: retry_pending_def)
  qed
  show ?thesis
  proof (cases "server_state (sl s)")
    case SNone
    then have l: "l = (sl s)\<lparr>client_holding := c, server_state := SLocked\<rparr>" "?k = Acq_Replied lp_OK"
      using r by (auto simp: lsc_acquire_lock_def)
    show ?thesis unfolding l(2)
      by (rule serve_inv [OF inv wf(2)]; use SNone asking wf none l(1) in \<open>auto simp: plain outcalls_quiet(1) role_of_def holder_def lock_wf_def\<close>)
  next
    case SLocked
    then have l: "l = (sl s)\<lparr>server_state := SRevoking, clients_queue := {c}\<rparr>" "?k = Acq_Calls (RevokeHolder lid) lp_RETRY"
      using r wf(1) by (auto simp: lsc_acquire_lock_def lock_wf_def)
    have "client_holding (sl s) \<noteq> c" using role SLocked by (auto simp: role_of_def holder_def)
    then show ?thesis unfolding l(2)
      by (intro serve_inv [OF inv wf(2)]; use SLocked asking wf none l(1) in \<open>auto simp: outcalls_quiet(2) new role_of_def holder_def lock_wf_def\<close>)
  next
    case SRevoking
    then have l: "l = (sl s)\<lparr>clients_queue := insert c (clients_queue (sl s))\<rparr>" "?k = Acq_Replied lp_RETRY"
      using r by (auto simp: lsc_acquire_lock_def)
    show ?thesis unfolding l(2)
    proof (rule serve_inv [OF inv wf(2)])
      show "outcalls_ok lid l ((call s)(c := Acq_Replied lp_RETRY))" using oc unfolding plain by (simp add: l(1) outcalls_ok_def)
    qed (use SRevoking asking role hq l(1) in \<open>auto simp: plain role_of_def holder_def split: if_splits\<close>)
  next
    case SRetrying
    show ?thesis
    proof (cases "c = client_retrying (sl s)")
      case False
      then have l: "l = (sl s)\<lparr>clients_queue := insert c (clients_queue (sl s))\<rparr>" "?k = Acq_Replied lp_RETRY"
        using r SRetrying by (auto simp: lsc_acquire_lock_def)
      show ?thesis unfolding l(2)
      proof (rule serve_inv [OF inv wf(2)])
        show "outcalls_ok lid l ((call s)(c := Acq_Replied lp_RETRY))" using oc unfolding plain by (simp add: l(1) outcalls_ok_def)
      qed (use SRetrying False asking role l(1) in \<open>auto simp: plain role_of_def holder_def split: if_splits\<close>)
    next
      case True
      then have q: "\<not> retry_pending (call s)" "c \<notin> clients_queue (sl s)"
        using role SRetrying by (auto simp: role_of_def holder_def split: if_splits)
      show ?thesis
      proof (cases "clients_queue (sl s) = {}")
        case True
        then have l: "l = (sl s)\<lparr>client_holding := c, client_retrying := [], server_state := SLocked\<rparr>" "?k = Acq_Replied lp_OK"
          using r SRetrying \<open>c = client_retrying (sl s)\<close> by (auto simp: lsc_acquire_lock_def)
        show ?thesis unfolding l(2)
        proof (rule serve_inv [OF inv wf(2)])
          show "outcalls_ok lid l ((call s)(c := Acq_Replied lp_OK))"
            unfolding plain using none SRetrying q(1) by (intro outcalls_quiet(1)) auto
        qed (use SRetrying True asking none l(1) \<open>c = client_retrying (sl s)\<close> in \<open>auto simp: plain role_of_def holder_def\<close>)
      next
        case False
        then have l: "l = (sl s)\<lparr>client_holding := c, client_retrying := [], server_state := SRevoking\<rparr>" "?k = Acq_Calls (RevokeClient c lid) lp_OK"
          using r SRetrying \<open>c = client_retrying (sl s)\<close> by (auto simp: lsc_acquire_lock_def)
        show ?thesis unfolding l(2)
          by (rule serve_inv [OF inv wf(2)]; use SRetrying False q asking none l(1) \<open>c = client_retrying (sl s)\<close> in \<open>auto simp: new outcalls_quiet(2) role_of_def holder_def\<close>)
      qed
    qed
  qed
qed

lemma rel_sentD:
  assumes inv: "p_inv lid s" and k: "call s c \<in> {Rel_Sync, Rel_Sent}"
  shows "holder (sl s) = Some c" "server_state (sl s) = SRevoking" "\<not> revoke_pending (call s)" "\<not> retry_pending (call s)"
    "giving_back (cl s c)"
proof -
  have f: "fits (role_of (sl s) (call s) c) (cl s c) (call s c)" by (rule p_invD(4) [OF inv])
  then have "role_of (sl s) (call s) c = Revoked" using k by (cases "role_of (sl s) (call s) c") auto
  then show h: "holder (sl s) = Some c" "\<not> revoke_pending (call s)" and st: "server_state (sl s) = SRevoking" "giving_back (cl s c)"
    using f k by (auto simp: role_of_def holder_def split: if_splits)
  show "\<not> retry_pending (call s)" using outcalls_none(2) [OF p_invD(2) [OF inv]] st by simp
qed

lemma serve_release_p_inv:
  assumes inv: "p_inv lid s" and k: "call s c = Rel_Sent" and r: "lsc_release_lock lid (sl s) = (l, out)"
  shows "p_inv lid (s\<lparr>sl := l, call := (call s)(c := case out of None \<Rightarrow> Rel_Replied | Some oc \<Rightarrow> Rel_Calls oc)\<rparr>)"
    (is "p_inv lid (s\<lparr>sl := l, call := (call s)(c := ?k)\<rparr>)")
proof -
  note c = rel_sentD [OF inv, of c, simplified k, simplified]
  have wf: "lock_wf (sl s)" by (rule p_invD(1) [OF inv])
  have q: "clients_queue (sl s) \<noteq> {}" "finite (clients_queue (sl s))" "c \<notin> clients_queue (sl s)"
    using wf c(2) p_invD(6) [OF inv c(1)] by (auto simp: lock_wf_def)
  define m where "m = Min (clients_queue (sl s))"
  have m: "m \<in> clients_queue (sl s)" using q unfolding m_def by simp
  have l: "l = (sl s)\<lparr>client_holding := [], clients_queue := clients_queue (sl s) - {m}, client_retrying := m, server_state := SRetrying\<rparr>"
      "?k = Rel_Calls (RetryClient m lid)"
    using r q(1) by (auto simp: lsc_release_lock_def m_def Let_def)
  have wf': "lock_wf l" using q(2) by (simp add: l(1) lock_wf_def)
  show ?thesis unfolding l(2)
  proof (rule serve_inv [OF inv wf'])
    show "outcalls_ok lid l ((call s)(c := Rel_Calls (RetryClient m lid)))" by (rule outcalls_quiet(3)) (simp_all add: c l(1))
  qed (use c q m in \<open>auto simp: l(1) role_of_def holder_def\<close>)
qed

text \<open>A call of the server back to the client \<open>c\<close>, made in the call of \<open>b\<close>.\<close>

lemma callback_inv:
  assumes inv: "p_inv lid s" and x: "lcc_inv x"
    and oc: "outcalls_ok lid (sl s) k"
    and other: "\<And>d. d \<noteq> c \<Longrightarrow> fits (role_of (sl s) k d) (cl s d) (k d)"
    and c: "fits (role_of (sl s) k c) x (k c)"
    and rv: "\<And>d e ret. k d = Acq_Revokes e ret \<Longrightarrow> revoking (if e = c then x else cl s e)"
  shows "p_inv lid (s\<lparr>cl := (cl s)(c := x), call := k\<rparr>)"
proof -
  have "fits (role_of (sl s) k d) (if d = c then x else cl s d) (k d)" for d using other c by auto
  then show ?thesis using p_invD(1,3,6) [OF inv] x oc rv by (simp add: p_inv_def)
qed

lemma retry_p_inv:
  assumes inv: "p_inv lid s" and k: "call s a = Rel_Calls (RetryClient c lid)" and r: "retry_handler (lock (cl s c)) = (u, l)"
  shows "p_inv lid (s\<lparr>cl := (cl s)(c := (cl s c)\<lparr>lock := l, pcs := signal u (pcs (cl s c))\<rparr>), call := (call s)(a := Rel_Replied)\<rparr>)"
    (is "p_inv lid (s\<lparr>cl := (cl s)(c := ?x), call := ?k\<rparr>)")
proof -
  note oc = p_invD(2) [OF inv]
  have st: "server_state (sl s) = SRetrying" "client_retrying (sl s) = c"
    using oc k by (auto simp: outcalls_ok_def)
  have one: "a' = a" if "call s a' = Rel_Calls oc" for a' oc using oc k that unfolding outcalls_ok_def by blast
  have p: "retry_pending (call s)" "\<not> revoke_pending (call s)" "\<not> retry_pending ?k" "\<not> revoke_pending ?k"
  proof -
    show "retry_pending (call s)" using k by (auto simp: retry_pending_def)
    show n: "\<not> revoke_pending (call s)" using outcalls_none(1) [OF oc] st by simp
    show "\<not> retry_pending ?k" using one by (auto simp: retry_pending_def)
    show "\<not> revoke_pending ?k" using n by (auto simp: revoke_pending_def)
  qed
  have role: "role_of (sl s) (call s) c = Refused" "role_of (sl s) ?k c = Retried"
    using st p p_invD(1) [OF inv] by (auto simp: role_of_def holder_def lock_wf_def)
  have f: "fits Refused (cl s c) (call s c)" using p_invD(4) [OF inv, of c] role by simp
  then have acq: "client_state (lock (cl s c)) = CAcquiring" "c \<noteq> a" using k by (auto simp: asking_def)
  have x: "lcc_inv ?x" using lcc_step_inv [OF p_invD(3) [OF inv] retry [of "cl s c", OF acq(1) r]] .
  have "fpc ?x = wake (fpc (cl s c))" using r by (auto simp: retry_handler_def front_def fpc_def signal_def split: list.splits)
  then have c: "fits Retried ?x (call s c)" using f r p(2)
    by (auto simp: retry_handler_def asking_def revoke_pending_def)
  show ?thesis
  proof (rule callback_inv [OF inv x])
    show "outcalls_ok lid (sl s) ?k" by (rule outcalls_quiet(1) [OF p(4,3)])
    show "fits (role_of (sl s) ?k d) (cl s d) (?k d)" if "d \<noteq> c" for d
    proof -
      have "role_of (sl s) ?k d = role_of (sl s) (call s) d" using st that p by (auto simp: role_of_def holder_def)
      moreover have "fits q (cl s a) Rel_Replied" if "fits q (cl s a) (call s a)" for q using that k by (cases q) auto
      ultimately show ?thesis using p_invD(4) [OF inv, of d] by auto
    qed
    show "fits (role_of (sl s) ?k c) ?x (?k c)" using c role acq(2) by simp
    show "revoking (if e = c then ?x else cl s e)" if "?k d = Acq_Revokes e ret" for d e ret
      using that p_invD(5) [OF inv, of d e ret] by (auto split: if_splits)
  qed
qed

lemma revoking_releasing: "lcc_inv x \<Longrightarrow> revoking x \<Longrightarrow> client_state (lock x) = CReleasing"
  by (cases "client_state (lock x)") (auto simp: lcc_inv_def split: list.splits)

lemma free_empty: "lcc_inv x \<Longrightarrow> client_state (lock x) = CFree \<Longrightarrow> threads_queue (lock x) = []"
  by (auto simp: lcc_inv_def split: list.splits)

lemma acq_callsD:
  assumes inv: "p_inv lid s" and k: "call s b = Acq_Calls out ret"
    and out: "out = RevokeHolder lid \<and> c = client_holding (sl s) \<or> out = RevokeClient c lid"
  shows "holder (sl s) = Some c" "server_state (sl s) = SRevoking" "fits Unrevoked (cl s c) (call s c)"
    "call s b' = Acq_Calls out' ret' \<Longrightarrow> b' = b" "\<not> revoking (cl s c)"
    "ret = lp_RETRY \<and> b \<noteq> c \<or> ret = lp_OK \<and> b = c"
proof -
  note oc = p_invD(2) [OF inv]
  show st: "server_state (sl s) = SRevoking" using oc k by (auto simp: outcalls_ok_def)
  have ch: "client_holding (sl s) = c" "out = RevokeHolder lid \<and> ret = lp_RETRY \<or> ret = lp_OK \<and> b = c"
    using oc k out by (fastforce simp: outcalls_ok_def)+
  show h: "holder (sl s) = Some c" using st ch by (simp add: holder_def)
  have "revoke_pending (call s)" using k by (auto simp: revoke_pending_def)
  then have "role_of (sl s) (call s) c = Unrevoked" using h by (simp add: role_of_def)
  then show f: "fits Unrevoked (cl s c) (call s c)" using p_invD(4) [OF inv, of c] by simp
  show "b' = b" if "call s b' = Acq_Calls out' ret'" using oc k that unfolding outcalls_ok_def by blast
  show "\<not> revoking (cl s c)" using revoking_releasing [OF p_invD(3) [OF inv, of c]] f by (auto simp: asking_def)
  have "b \<noteq> c" if "ret = lp_RETRY" using that f k by auto
  then show "ret = lp_RETRY \<and> b \<noteq> c \<or> ret = lp_OK \<and> b = c" using ch(2) by blast
qed

lemma revoke_p_inv:
  assumes inv: "p_inv lid s" and k: "call s b = Acq_Calls out ret"
    and out: "out = RevokeHolder lid \<and> c = client_holding (sl s) \<or> out = RevokeClient c lid"
    and r: "revoke_handler (lock (cl s c)) = (gives, l)"
  shows "p_inv lid (s\<lparr>cl := (cl s)(c := (cl s c)\<lparr>lock := l, revoking := gives \<or> revoking (cl s c)\<rparr>),
      call := (if gives then (call s)(b := Acq_Revokes c ret, c := Rel_Sync) else (call s)(b := Acq_Replied ret))\<rparr>)"
    (is "p_inv lid (s\<lparr>cl := (cl s)(c := ?x), call := ?k\<rparr>)")
proof -
  note c = acq_callsD [OF inv k out]
  have x: "lcc_inv ?x" using lcc_step_inv [OF p_invD(3) [OF inv] revoke [of "cl s c", OF c(5) r]] c(5) by simp
  have gives: "b \<noteq> c" "ret = lp_RETRY" "client_state (lock (cl s c)) = CFree" if gives
    using that c(3,6) r k by (auto simp: revoke_handler_def asking_def split: if_splits)
  have "\<not> retry_pending (call s)" using outcalls_none(2) [OF p_invD(2) [OF inv]] c(2) by simp
  then have p: "\<not> revoke_pending ?k" "\<not> retry_pending ?k"
    using c(4) by (auto simp: revoke_pending_def retry_pending_def split: if_splits)
  have fb: "fits q (cl s b) (Acq_Revokes c lp_RETRY)" "fits q (cl s b) (Acq_Replied ret)"
    if "fits q (cl s b) (call s b)" "ret = lp_RETRY" for q
    using that k by (cases q; auto)+
  show ?thesis
  proof (rule callback_inv [OF inv x])
    show "outcalls_ok lid (sl s) ?k" by (rule outcalls_quiet(1) [OF p])
    show "fits (role_of (sl s) ?k d) (cl s d) (?k d)" if "d \<noteq> c" for d
    proof -
      have "role_of (sl s) ?k d = role_of (sl s) (call s) d" using c(1,2) that by (auto simp: role_of_def)
      then show ?thesis using p_invD(4) [OF inv, of d] that c(6) fb gives by auto
    qed
    have "role_of (sl s) ?k c = Revoked" using c(1,2) p by (simp add: role_of_def)
    moreover have "fits Revoked ?x (?k c)"
    proof (cases gives)
      case True
      then show ?thesis using gives(1) c(3) r by (auto simp: revoke_handler_def giving_back_def asking_def split: if_splits)
    next
      case False
      then have l: "l = (lock (cl s c))\<lparr>server_response := RRevoke\<rparr>" "client_state (lock (cl s c)) \<noteq> CFree"
        using r free_empty [OF p_invD(3) [OF inv, of c]] by (auto simp: revoke_handler_def split: if_splits)
      have "call s c = No_Call \<or> asking (cl s c) \<and> ?k c = Acq_Replied lp_OK"
        using c(3) c(4) [of c] c(6) False k by (cases "b = c") auto
      moreover have "fpc ?x = fpc (cl s c)" by (simp add: fpc_def l(1) split: list.splits)
      ultimately show ?thesis using c(3,6) l False k by (auto simp: asking_def)
    qed
    ultimately show "fits (role_of (sl s) ?k c) ?x (?k c)" by simp
    show "revoking (if e = c then ?x else cl s e)" if "?k d = Acq_Revokes e ret'" for d e ret'
      using that p_invD(5) [OF inv, of d e ret'] by (auto split: if_splits)
  qed
qed

lemma holding_holder:
  assumes inv: "p_inv lid s" and t: "pcs (cl s c) t = Holding"
  shows "holder (sl s) = Some c"
proof -
  have "role_of (sl s) (call s) c \<in> {Unrevoked, Revoked}"
    using p_invD(4) [OF inv, of c] holding_p_inv [OF inv t]
    by (cases "role_of (sl s) (call s) c") (auto simp: asking_def giving_back_def)
  then show ?thesis by (auto simp: role_of_def split: if_splits)
qed

lemma p_step_inv:
  assumes "p_inv lid s" and "p_step lid s s'"
  shows "p_inv lid s'"
  using assms(2,1)
  by cases (simp_all add: enter_p_inv turn_p_inv released_p_inv retried_p_inv reply_p_inv release_rpc_p_inv release_cached_p_inv
      synced_p_inv release_done_p_inv revoke_done_p_inv serve_acquire_p_inv serve_release_p_inv revoke_p_inv retry_p_inv)

lemma p_start_inv: "p_start s \<Longrightarrow> p_inv lid s"
proof -
  assume s: "p_start s"
  then have "\<not> revoke_pending (call s)" "\<not> retry_pending (call s)" by (auto simp: p_start_def revoke_pending_def retry_pending_def)
  note q = outcalls_quiet(1) [OF this]
  have "lcc_inv (cl s c)" for c by (rule lcc.invar_start) (use s in \<open>simp add: p_start_def\<close>)
  then show ?thesis using s q by (auto simp: p_start_def p_inv_def role_of_def lcc_start_def new_client_lock_def new_server_lock_def holder_def lock_wf_def)
qed

interpretation lp: invariant_system p_start "p_step lid" "p_inv lid" for lid
  by unfold_locales (auto intro: p_start_inv p_step_inv)

text \<open>A run: a thread of client \<open>a\<close> gets the lock.\<close>

definition lp0 :: "nat lockp" where
  "lp0 = \<lparr>sl = new_server_lock, cl = \<lambda>_. lcc0, call = \<lambda>_. No_Call\<rparr>"

definition lp1 :: "nat lockp" where
  "lp1 = \<lparr>sl = new_server_lock\<lparr>client_holding := ''a'', server_state := SLocked\<rparr>, cl = (\<lambda>_. lcc0)(''a'' := lcc1), call = \<lambda>_. No_Call\<rparr>"

lemma lp0_start: "p_start lp0"
  by (simp add: p_start_def lp0_def lcc_start_def lcc0_def)

lemma lp1_steps:
  "\<exists>s1 s2. p_step lid lp0 s1 \<and> p_step lid s1 s2 \<and> p_step lid s2 lp1 \<and>
     (\<forall>c. call lp0 c \<noteq> Rel_Sync \<and> call s1 c \<noteq> Rel_Sync \<and> call s2 c \<noteq> Rel_Sync) \<and>
     (\<forall>c t. pcs (cl s1 c) t = (if c = ''a'' \<and> t = 1 then In_Rpc else Idle)) \<and> cl s2 = cl s1"
proof -
  let ?s1 = "advance_thread ''a'' 1 (lcc_acquire 1 (lock (cl lp0 ''a''))) (call lp0 ''a'') lp0"
  let ?l = "new_server_lock\<lparr>client_holding := ''a'', server_state := SLocked\<rparr>"
  let ?s2 = "?s1\<lparr>sl := ?l, call := (call ?s1)(''a'' := case None of None \<Rightarrow> Acq_Replied 0 | Some oc \<Rightarrow> Acq_Calls oc 0)\<rparr>"
  let ?s3 = "advance_thread ''a'' 1 (rpc_acquire_reply 0 (lock (cl ?s2 ''a''))) No_Call ?s2"
  note defs = advance_thread_def goto_def lp0_def lcc0_def lcc_acquire_def new_client_lock_def rpc_acquire_enter_def rpc_acquire_reply_def
  have "p_step lid lp0 ?s1" by (rule p_enter) (simp add: lp0_def lcc0_def)
  moreover have "p_step lid ?s1 ?s2"
    by (rule p_serve_acquire) (simp_all add: defs lsc_acquire_lock_def new_server_lock_def)
  moreover have "p_step lid ?s2 ?s3" by (rule p_reply) (simp_all add: defs)
  moreover have "?s3 = lp1" by (auto simp: defs lp1_def lcc1_def)
  moreover have "\<forall>c. call lp0 c \<noteq> Rel_Sync \<and> call ?s1 c \<noteq> Rel_Sync \<and> call ?s2 c \<noteq> Rel_Sync" by (simp add: defs)
  moreover have "\<forall>c t. pcs (cl ?s1 c) t = (if c = ''a'' \<and> t = 1 then In_Rpc else Idle)" "cl ?s2 = cl ?s1" by (simp_all add: defs)
  ultimately show ?thesis by metis
qed

end
