(* ===== verification/Dist_Coherence.thy ===== *)
theory Dist_Coherence
  imports Extent_Client Lock_Protocol
begin

text \<open>
  The whole distributed system below \<^verbatim>\<open>yfs_client\<close>: the extent server, the extent caches of the clients, and
  one instance of the lock protocol per extent. A thread operates on an extent only while it holds
  its lock, and a client calls \<^verbatim>\<open>extent_client::sync\<close> before it sends the lock back. The system refines
  the ownership discipline of \<open>Extent_Client\<close>.
\<close>

section \<open>The system\<close>

record 't dist =
  locks :: "u64 \<Rightarrow> 't lockp"
  ecs :: "string \<Rightarrow> ec_cache"
  disk_server :: block_manager

definition dist_start :: "block_manager \<Rightarrow> 't dist \<Rightarrow> bool" where
  "dist_start im w \<longleftrightarrow> (\<forall>e. p_start (locks w e)) \<and> ecs w = (\<lambda>_. Map.empty) \<and> disk_server w = im"

definition put_client :: "string \<Rightarrow> ec_cache \<Rightarrow> block_manager \<Rightarrow> 't dist \<Rightarrow> 't dist" where
  "put_client c cache srv w = w\<lparr>ecs := (ecs w)(c := cache), disk_server := srv\<rparr>"

text \<open>
  The steps, with the event on the data, if any. As in \<open>dfs_step\<close>, the extents are 31-bit ones that name
  a file, and a write replaces a content that its client has looked at. A request to the extent server is one
  step: the server itself has no mutex, so this assumes that its handlers do not run at the same time. A wait
  of the lock client returns only when it is signalled.
\<close>

inductive dist_step :: "string event option \<Rightarrow> 't dist \<Rightarrow> 't dist \<Rightarrow> bool" where
  d_lock: "p_step e (locks w e) s \<Longrightarrow> unat e < 2 ^ 31 \<Longrightarrow> file_at (disk_server w) (es_id e) \<noteq> None \<Longrightarrow>
    (\<And>c. call (locks w e) c = Rel_Sync \<Longrightarrow> call s c = Rel_Sync) \<Longrightarrow>
    dist_step None w (w\<lparr>locks := (locks w)(e := s)\<rparr>)"
| d_sync: "call (locks w e) c = Rel_Sync \<Longrightarrow>
    ec_sync (es_rpc ts) e (ecs w c, disk_server w) = Inr (ret, cache, srv) \<Longrightarrow>
    dist_step None w ((put_client c cache srv w)\<lparr>locks := (locks w)(e := set_peer c (cl (locks w e) c) Rel_Sent (locks w e))\<rparr>)"
| d_read: "pcs (cl (locks w e) c) t = Holding \<Longrightarrow>
    ec_get (es_rpc ts) env e (ecs w c, disk_server w) = Inr (ret, buf, cache, srv) \<Longrightarrow>
    dist_step (Some (ReadFile c e buf)) w (put_client c cache srv w)"
| d_getattr: "pcs (cl (locks w e) c) t = Holding \<Longrightarrow>
    ec_getattr (es_rpc ts) env e (ecs w c, disk_server w) = Inr (ret, a, cache, srv) \<Longrightarrow>
    dist_step (Some (ReadAttr c e a)) w (put_client c cache srv w)"
| d_write: "pcs (cl (locks w e) c) t = Holding \<Longrightarrow> attr_hit (entry (ecs w c) e) \<Longrightarrow> blk_count (length buf) \<le> NDIRECT \<Longrightarrow>
    ec_put env e buf (ecs w c) = (ret, cache) \<Longrightarrow>
    dist_step (Some (WriteFile c e buf)) w (put_client c cache (disk_server w) w)"

inductive dist_run :: "'t dist \<Rightarrow> string event list \<Rightarrow> 't dist \<Rightarrow> bool" where
  dist_nil: "dist_run w [] w"
| dist_lock: "dist_run w evs w' \<Longrightarrow> dist_step None w' w'' \<Longrightarrow> dist_run w evs w''"
| dist_data: "dist_run w evs w' \<Longrightarrow> dist_step (Some ev) w' w'' \<Longrightarrow> dist_run w (evs @ [ev]) w''"

section \<open>Refinement of the ownership discipline\<close>

text \<open>A client owns an extent while the server has it as the holder, up to the end of the \<^verbatim>\<open>sync\<close>.\<close>

definition lock_owner :: "'t lockp \<Rightarrow> string option" where
  "lock_owner s = (case holder (sl s) of None \<Rightarrow> None | Some c \<Rightarrow> if call s c = Rel_Sent then None else Some c)"

definition dfs_of :: "'t dist \<Rightarrow> string dfs" where
  "dfs_of w = \<lparr>caches = ecs w, server = disk_server w, owner = \<lambda>e. lock_owner (locks w e)\<rparr>"

lemma dfs_of_simps [simp]:
  "caches (dfs_of w) = ecs w" "server (dfs_of w) = disk_server w" "owner (dfs_of w) e = lock_owner (locks w e)"
  by (simp_all add: dfs_of_def)

lemma dfs_of_put_client [simp]: "dfs_of (put_client c cache srv w) = set_client c cache srv (dfs_of w)"
  by (simp add: dfs_of_def put_client_def set_client_def)

lemma locks_put_client [simp]: "locks (put_client c cache srv w) = locks w"
  by (simp add: put_client_def)

lemma holding_owner: "p_inv lid s \<Longrightarrow> pcs (cl s c) t = Holding \<Longrightarrow> lock_owner s = Some c"
  using holding_holder [of lid s c t] holding_p_inv(2) [of lid s c t] by (simp add: lock_owner_def)

text \<open>A step of the lock protocol other than the end of a \<^verbatim>\<open>sync\<close> only ever gives a free extent to a client.\<close>

lemma lock_owner_cong:
  "sl s' = sl s \<Longrightarrow> (\<And>c. call s' c = Rel_Sent \<longleftrightarrow> call s c = Rel_Sent) \<Longrightarrow> lock_owner s' = lock_owner s"
  by (simp add: lock_owner_def split: option.splits)

lemma releasing_front:
  assumes "p_inv lid s" and "call s c = Rel_Sent"
  shows "client_state (lock (cl s c)) = CReleasing"
    "pcs (cl s c) t \<notin> {Woke_Turn, Woke_Releasing, Woke_Retry, In_Rpc, Holding}"
proof -
  show st: "client_state (lock (cl s c)) = CReleasing" using rel_sentD(5) [OF assms(1), of c] assms(2) by (simp add: giving_back_def)
  show "pcs (cl s c) t \<notin> {Woke_Turn, Woke_Releasing, Woke_Retry, In_Rpc, Holding}"
    using front_fpc(2) [OF p_invD(3) [OF assms(1)], of c t] st by (cases "pcs (cl s c) t") (auto split: if_splits)
qed

lemma advance_owner:
  assumes "call s c = Rel_Sent \<Longrightarrow> k = Rel_Sent \<and> fst r \<noteq> Rpc_Acquire" and "k = Rel_Sent \<Longrightarrow> call s c = Rel_Sent"
  shows "lock_owner (advance_thread c t r k s) = lock_owner s"
  by (rule lock_owner_cong) (use assms in \<open>auto simp: advance_thread_def\<close>)

lemma p_step_owner:
  assumes inv: "p_inv lid s" and step: "p_step lid s s'"
    and sync: "\<And>c. call s c = Rel_Sync \<Longrightarrow> call s' c = Rel_Sync"
  shows "lock_owner s' = lock_owner s \<or> lock_owner s = None \<and> lock_owner s' \<noteq> None"
  using step
proof cases
  case (p_enter c t)
  have "lock_owner s' = lock_owner s" unfolding p_enter(1)
    by (rule advance_owner) (use releasing_front(1) [OF inv, of c] in \<open>auto simp: lcc_acquire_def Let_def split: if_splits\<close>)
  then show ?thesis ..
next
  case (p_turn c t)
  have "lock_owner s' = lock_owner s" unfolding p_turn(1)
    by (rule advance_owner) (use releasing_front(2) [OF inv, of c t] p_turn in auto)
  then show ?thesis ..
next
  case (p_released c t)
  have "lock_owner s' = lock_owner s" unfolding p_released(1)
    by (rule advance_owner) (use releasing_front(2) [OF inv, of c t] p_released in auto)
  then show ?thesis ..
next
  case (p_retried c t)
  have "lock_owner s' = lock_owner s" unfolding p_retried(1)
    by (rule advance_owner) (use releasing_front(2) [OF inv, of c t] p_retried in auto)
  then show ?thesis ..
next
  case (p_reply c t ret)
  have "lock_owner s' = lock_owner s" unfolding p_reply(1) by (rule advance_owner) (use p_reply in auto)
  then show ?thesis ..
next
  case (p_release_rpc c t l)
  then show ?thesis using releasing_front(2) [OF inv, of c t]
    by (intro disjI1 lock_owner_cong) (auto simp: set_peer_def)
next
  case (p_synced c)
  then show ?thesis using sync [of c] by (simp add: set_peer_def)
next
  case (p_revoke_done c u l)
  then show ?thesis by (intro disjI1 lock_owner_cong) (auto simp: set_peer_def split: rpc_call.splits)
next
  case (p_serve_acquire c ret l out)
  have wf: "lock_wf (sl s)" by (rule p_invD(1) [OF inv])
  show ?thesis
  proof (cases "holder l = holder (sl s)")
    case True
    then show ?thesis using p_serve_acquire by (auto simp: lock_owner_def split: option.splits)
  next
    case False
    then have "holder (sl s) = None" "holder l = Some c" using acquire_lock_spec(2) [OF wf p_serve_acquire(3)] by auto
    then show ?thesis using p_serve_acquire(1) by (auto simp: lock_owner_def split: option.splits)
  qed
next
  case (p_serve_release c l out)
  note c = rel_sentD [OF inv, of c, simplified p_serve_release(2), simplified]
  have "holder l = None" using release_lock_spec(2) [OF p_invD(1) [OF inv] p_serve_release(3)] c(1) by simp
  then show ?thesis using p_serve_release(1,2) c(1) by (simp add: lock_owner_def)
next
  case (p_revoke b out ret c gives l)
  have "call s c \<noteq> Rel_Sent" using acq_callsD(3) [OF inv p_revoke(2,3)] by auto
  then show ?thesis using p_revoke by (intro disjI1 lock_owner_cong) auto
qed (auto intro!: disjI1 lock_owner_cong simp: set_peer_def split: if_splits)

text \<open>The system keeps the protocol's invariant on every lock, and coherence of the data.\<close>

definition dist_inv :: "(u64 \<Rightarrow> byte list) \<Rightarrow> 't dist \<Rightarrow> bool" where
  "dist_inv cur w \<longleftrightarrow> (\<forall>e. p_inv e (locks w e)) \<and> coherent cur (dfs_of w)"

lemma dist_invD:
  assumes "dist_inv cur w"
  shows "p_inv e (locks w e)" "coherent cur (dfs_of w)"
  using assms by (auto simp: dist_inv_def)

lemma lock_step_dist_inv:
  assumes inv: "dist_inv cur w" and step: "p_step e (locks w e) s" and e: "unat e < 2 ^ 31" "file_at (disk_server w) (es_id e) \<noteq> None"
    and sync: "\<And>c. call (locks w e) c = Rel_Sync \<Longrightarrow> call s c = Rel_Sync"
  shows "dist_inv cur (w\<lparr>locks := (locks w)(e := s)\<rparr>)"
proof -
  have p: "p_inv e s" by (rule p_step_inv [OF dist_invD(1) [OF inv] step])
  have own: "dfs_of (w\<lparr>locks := (locks w)(e := s)\<rparr>) = (dfs_of w)\<lparr>owner := (owner (dfs_of w))(e := lock_owner s)\<rparr>"
    by (simp add: dfs_of_def fun_eq_iff)
  from p_step_owner [OF dist_invD(1) [OF inv] step sync]
  have "coherent cur (dfs_of (w\<lparr>locks := (locks w)(e := s)\<rparr>))"
  proof
    assume "lock_owner s = lock_owner (locks w e)"
    then have "(owner (dfs_of w))(e := lock_owner s) = owner (dfs_of w)" by (simp add: fun_eq_iff)
    then show ?thesis using dist_invD(2) [OF inv] unfolding own by simp
  next
    assume "lock_owner (locks w e) = None \<and> lock_owner s \<noteq> None"
    then obtain c where "lock_owner (locks w e) = None" "lock_owner s = Some c" by blast
    then show ?thesis using acquire_free_coherent [OF dist_invD(2) [OF inv], of e c] e unfolding own by simp
  qed
  then show ?thesis using p dist_invD(1) [OF inv] by (simp add: dist_inv_def)
qed

lemma sync_dist_inv:
  assumes inv: "dist_inv cur w" and k: "call (locks w e) c = Rel_Sync"
    and run: "ec_sync (es_rpc ts) e (ecs w c, disk_server w) = Inr (ret, cache, srv)"
  shows "dist_inv cur ((put_client c cache srv w)\<lparr>locks := (locks w)(e := set_peer c (cl (locks w e) c) Rel_Sent (locks w e))\<rparr>)"
    (is "dist_inv cur ?w")
proof -
  note p = dist_invD(1) [OF inv, of e]
  have h: "holder (sl (locks w e)) = Some c" using rel_sentD(1) [OF p, of c] k by simp
  then have "lock_owner (locks w e) = Some c" "lock_owner (set_peer c (cl (locks w e) c) Rel_Sent (locks w e)) = None"
    using k by (simp_all add: lock_owner_def set_peer_def)
  then have "dfs_of ?w = (set_client c cache srv (dfs_of w))\<lparr>owner := (owner (dfs_of w))(e := None)\<rparr>"
    and own: "owner (dfs_of w) e = Some c"
    by (auto simp: dfs_of_def put_client_def set_client_def fun_eq_iff)
  moreover have "coherent cur ((set_client c cache srv (dfs_of w))\<lparr>owner := (owner (dfs_of w))(e := None)\<rparr>)"
    by (rule sync_coherent [OF dist_invD(2) [OF inv] own]) (use run in simp)
  ultimately show ?thesis using dist_invD(1) [OF inv] synced_p_inv [OF p k] by (simp add: dist_inv_def put_client_def)
qed

definition apply_label :: "string event option \<Rightarrow> (u64 \<Rightarrow> byte list) \<Rightarrow> u64 \<Rightarrow> byte list" where
  "apply_label ev cur = (case ev of None \<Rightarrow> cur | Some ev \<Rightarrow> apply_event ev cur)"

lemma data_dist_inv:
  assumes inv: "dist_inv cur w" and step: "dfs_step ev (dfs_of w) (set_client c cache srv (dfs_of w))"
  shows "dist_inv (apply_event ev cur) (put_client c cache srv w)"
  using dfs_step_coherent [OF step dist_invD(2) [OF inv]] dist_invD(1) [OF inv] by (simp add: dist_inv_def)

lemma dist_step_inv:
  assumes "dist_step ev w w'" and inv: "dist_inv cur w"
  shows "dist_inv (apply_label ev cur) w'"
  using assms(1)
proof cases
  case (d_lock e s)
  then show ?thesis using lock_step_dist_inv [OF inv] by (simp add: apply_label_def)
next
  case (d_sync e c ts ret cache srv)
  then show ?thesis using sync_dist_inv [OF inv] by (simp add: apply_label_def)
next
  case (d_read e c t ts env ret buf cache srv)
  have "owner (dfs_of w) e = Some c" using holding_owner [OF dist_invD(1) [OF inv] d_read(3)] by simp
  from readfile [OF this, of ts env ret buf cache srv] d_read show ?thesis
    by (auto simp: apply_label_def intro!: data_dist_inv [OF inv])
next
  case (d_getattr e c t ts env ret a cache srv)
  have "owner (dfs_of w) e = Some c" using holding_owner [OF dist_invD(1) [OF inv] d_getattr(3)] by simp
  from readattr [OF this, of ts env ret a cache srv] d_getattr show ?thesis
    by (auto simp: apply_label_def intro!: data_dist_inv [OF inv])
next
  case (d_write e c t buf env ret cache)
  have "owner (dfs_of w) e = Some c" using holding_owner [OF dist_invD(1) [OF inv] d_write(3)] by simp
  from writefile [OF this, of buf env ret cache] d_write show ?thesis
    by (auto simp: apply_label_def intro!: data_dist_inv [OF inv])
qed

lemma dist_run_inv:
  assumes "dist_run w evs w'" and "dist_inv cur w"
  shows "dist_inv (written cur evs) w'"
  using assms by (induction rule: dist_run.induct) (auto dest!: dist_step_inv simp: apply_label_def)

lemma dist_start_inv:
  assumes "dist_start im w" and "im_inv im"
  shows "dist_inv (disk_content im) w"
proof -
  have "holder (sl (locks w e)) = None" for e using assms(1) by (simp add: dist_start_def p_start_def)
  then have "dfs_of w = dfs_start im" using assms(1) by (simp add: dfs_of_def dfs_start_def dist_start_def lock_owner_def)
  then show ?thesis using coherent_start [OF assms(2)] p_start_inv assms(1) by (auto simp: dist_inv_def dist_start_def)
qed

section \<open>Coherence of the distributed file store\<close>

text \<open>
  C2 (refinement). The distributed store behaves like one store: after any interleaving of threads of any
  number of clients, of lock messages, callbacks, write-backs, reads and writes, a thread that has acquired the
  lock of an extent reads exactly the content that was last written to it, by whatever client, or the
  initial content; the read succeeds whether it hits the client's cache or goes to the server.
\<close>

theorem dist_read_sees_last_write:
  assumes "dist_start im w0" and "im_inv im" and "dist_run w0 evs w" and "pcs (cl (locks w e) c) t = Holding"
  shows "\<exists>cache srv. ec_get (es_rpc ts) env e (ecs w c, disk_server w) =
    Inr (0, written (disk_content im) evs e, cache, srv)"
proof -
  have inv: "dist_inv (written (disk_content im) evs) w" by (rule dist_run_inv [OF assms(3) dist_start_inv [OF assms(1,2)]])
  have "owner (dfs_of w) e = Some c" using holding_owner [OF dist_invD(1) [OF inv] assms(4)] by simp
  from get_coherent [OF dist_invD(2) [OF inv] this, of ts env] show ?thesis by auto
qed

text \<open>Client \<open>a\<close> acquires the lock of the root, reads it and writes it.\<close>

definition dist0 :: "nat dist" where
  "dist0 = \<lparr>locks = \<lambda>_. lp0, ecs = \<lambda>_. Map.empty, disk_server = fs0\<rparr>"

lemma dist_lock_run:
  assumes "dist_run w0 evs w" and "p_step 1 (locks w 1) s" and "\<forall>c. call (locks w 1) c \<noteq> Rel_Sync" and "disk_server w = fs0"
  shows "dist_run w0 evs (w\<lparr>locks := (locks w)(1 := s)\<rparr>)"
proof (rule dist_lock [OF assms(1)], rule d_lock [OF assms(2)])
  show "file_at (disk_server w) (es_id 1) \<noteq> None" by (simp add: assms(4) word_unat_eq_iff unat_es_id fs0_inv)
qed (use assms(3) in auto)

lemma dist_root_run:
  "\<exists>w. dist_run dist0 [ReadFile ''a'' 1 [], WriteFile ''a'' 1 [5, 6]] w \<and> pcs (cl (locks w 1) ''a'') 1 = Holding"
proof -
  obtain s1 s2 where s: "p_step 1 lp0 s1" "p_step 1 s1 s2" "p_step 1 s2 lp1"
    "\<forall>c. call lp0 c \<noteq> Rel_Sync \<and> call s1 c \<noteq> Rel_Sync \<and> call s2 c \<noteq> Rel_Sync" using lp1_steps [of 1] by blast
  have r1: "dist_run dist0 [] (dist0\<lparr>locks := (\<lambda>_. lp0)(1 := s1)\<rparr>)"
    using dist_lock_run [OF dist_nil, of dist0 s1] s(1,4) by (simp add: dist0_def)
  have r2: "dist_run dist0 [] (dist0\<lparr>locks := (\<lambda>_. lp0)(1 := s2)\<rparr>)"
    using dist_lock_run [OF r1, of s2] s(2,4) by (simp add: dist0_def)
  define w1 where "w1 = dist0\<lparr>locks := (\<lambda>_. lp0)(1 := lp1)\<rparr>"
  have r3: "dist_run dist0 [] w1"
    using dist_lock_run [OF r2, of lp1] s(3,4) by (simp add: dist0_def w1_def)
  have h: "pcs (cl (locks w1 1) ''a'') 1 = Holding" by (simp add: w1_def lp1_def lcc1_def)
  have c1: "ecs w1 ''a'' = Map.empty" "disk_server w1 = fs0" by (simp_all add: w1_def dist0_def)
  obtain cf where g: "ec_get (es_rpc (1, 2, 3)) env0 1 (ecs w1 ''a'', disk_server w1) = Inr (0, [], [1 \<mapsto> Some cf], fs0)"
    and cf: "attr_valid cf" using root_get unfolding c1 by metis
  define w2 where "w2 = put_client ''a'' [1 \<mapsto> Some cf] fs0 w1"
  have r4: "dist_run dist0 ([] @ [ReadFile ''a'' 1 []]) w2" unfolding w2_def by (rule dist_data [OF r3 d_read [OF h g]])
  have w2: "pcs (cl (locks w2 1) ''a'') 1 = Holding" "attr_hit (entry (ecs w2 ''a'') 1)"
    using h cf by (simp_all add: w2_def put_client_def entry_def map_get_def)
  obtain ret cache where p: "ec_put env0 1 [5, 6] (ecs w2 ''a'') = (ret, cache)" by fastforce
  have "dist_run dist0 ([ReadFile ''a'' 1 []] @ [WriteFile ''a'' 1 [5, 6]]) (put_client ''a'' cache (disk_server w2) w2)"
    by (rule dist_data [OF _ d_write [OF w2 _ p]]) (use r4 in \<open>simp_all add: blk_count_alt\<close>)
  then show ?thesis using w2(1) by (intro exI [of _ "put_client ''a'' cache (disk_server w2) w2"]) simp
qed

theorem dist_read_sees_last_write_witness:
  "\<exists>w cache srv. dist_run dist0 [ReadFile ''a'' 1 [], WriteFile ''a'' 1 [5, 6]] w \<and>
     ec_get (es_rpc (1, 2, 3)) env0 1 (ecs w ''a'', disk_server w) = Inr (0, [5, 6], cache, srv)"
proof -
  obtain w where w: "dist_run dist0 [ReadFile ''a'' 1 [], WriteFile ''a'' 1 [5, 6]] w" "pcs (cl (locks w 1) ''a'') 1 = Holding"
    using dist_root_run by blast
  have "dist_start fs0 dist0" by (simp add: dist_start_def dist0_def lp0_start)
  from dist_read_sees_last_write [OF this fs0_inv(1) w, of "(1, 2, 3)" env0] w(1) show ?thesis
    by (auto simp: written_def)
qed

end
