(* ===== verification/Dist_Files.thy ===== *)
theory Dist_Files
  imports Dist_Coherence Yfs_Client
begin

text \<open>
  The operations of \<^verbatim>\<open>yfs_client\<close> on the content of one file, \<^verbatim>\<open>read\<close>, \<^verbatim>\<open>write\<close>, \<^verbatim>\<open>setattr\<close> and \<^verbatim>\<open>readlink\<close>, as the
  threads of many clients run them over the distributed system of \<open>Dist_Coherence\<close>. Each is cut into the
  calls it makes: it acquires the file's lock, gets the content, may put a new one and releases the lock,
  and any steps of other threads come in between. The operations are atomic all the same.
\<close>

section \<open>The operations in pieces\<close>

datatype file_op =
    FRead u64 u64
  | FWrite u64 u64 "byte list"
  | FSetattr u64
  | FReadlink

datatype file_reply =
    Got_Data int "byte list"
  | Wrote int u64
  | Status int

text \<open>
  What an operation does with the status and the content that \<^verbatim>\<open>get\<close> returns: the content it puts, if any, and
  what it answers, given the status of the \<^verbatim>\<open>put\<close>. The reply of \<^verbatim>\<open>read\<close> is computed after the release.
\<close>

fun file_section :: "file_op \<Rightarrow> int \<Rightarrow> byte list \<Rightarrow> (byte list option \<times> (int \<Rightarrow> file_reply res)) res" where
  "file_section (FRead sz off) ret content = Inr (None, \<lambda>_.
     if unat (ucast off :: u32) \<ge> length content then Inr (Got_Data y_OK [])
     else bindR (str_substr content (unat off) (unat sz)) (\<lambda>data. Inr (Got_Data y_OK data)))"
| "file_section (FWrite sz off data) ret content =
     bindR (write_content content sz off data) (\<lambda>(new, n). Inr (Some new, \<lambda>_. Inr (Wrote y_OK n)))"
| "file_section (FSetattr sz) ret content =
     Inr (if ret \<noteq> y_OK then (None, \<lambda>_. Inr (Status ret)) else (Some (resize (unat sz) 0 content), \<lambda>r. Inr (Status r)))"
| "file_section FReadlink ret content = Inr (None, \<lambda>_. Inr (Got_Data ret content))"

text \<open>The method of \<^verbatim>\<open>yfs_client\<close> for an operation, and that it consists of these pieces.\<close>

fun yfs_file :: "'s yfs_io \<Rightarrow> file_op \<Rightarrow> u64 \<Rightarrow> 's yfs \<Rightarrow> (file_reply \<times> 's yfs) res" where
  "yfs_file io (FRead sz off) ino st = bindR (yfs_read io ino sz off st) (\<lambda>(r, data, st). Inr (Got_Data r data, st))"
| "yfs_file io (FWrite sz off data) ino st = bindR (yfs_write io ino sz off data st) (\<lambda>(r, n, st). Inr (Wrote r n, st))"
| "yfs_file io (FSetattr sz) ino st = bindR (yfs_setattr io ino sz st) (\<lambda>(r, st). Inr (Status r, st))"
| "yfs_file io FReadlink ino st = bindR (yfs_readlink io ino st) (\<lambda>(r, data, st). Inr (Got_Data r data, st))"

definition maybe_put :: "'s yfs_io \<Rightarrow> u64 \<Rightarrow> byte list option \<Rightarrow> 's yfs \<Rightarrow> int \<times> 's yfs" where
  "maybe_put io ino new st = (case new of None \<Rightarrow> (0, st) | Some buf \<Rightarrow> y_put io ino buf st)"

lemma yfs_file_pieces:
  "yfs_file io op ino st =
     bindR (y_acquire io ino st) (\<lambda>st.
     bindR (y_get io ino st) (\<lambda>(ret, content, st).
     bindR (file_section op ret content) (\<lambda>(new, reply).
     let (r, st) = maybe_put io ino new st in
     bindR (y_release io ino st) (\<lambda>st.
     bindR (reply r) (\<lambda>v. Inr (v, st))))))"
proof (cases op)
  case (FRead sz off)
  then show ?thesis
    by (auto simp: yfs_read_def maybe_put_def bindR_assoc case_prod_unfold intro!: bindR_cong)
next
  case (FWrite sz off data)
  then show ?thesis
    by (auto simp: yfs_write_def maybe_put_def bindR_assoc case_prod_unfold Let_def intro!: bindR_cong)
next
  case (FSetattr sz)
  then show ?thesis
    by (auto simp: yfs_setattr_def maybe_put_def bindR_assoc case_prod_unfold Let_def intro!: bindR_cong)
next
  case FReadlink
  then show ?thesis
    by (auto simp: yfs_readlink_def maybe_put_def bindR_assoc case_prod_unfold intro!: bindR_cong)
qed

section \<open>The system\<close>

text \<open>Where a thread is in its operation.\<close>

datatype fpos =
    Outside_Op
  | Called u64 file_op
  | Has_Content u64 file_op int "byte list"
  | Leaving u64

text \<open>The positions of all threads, and the operations that have had their effect, with their replies.\<close>

record 't files =
  fdist :: "'t dist"
  fposn :: "string \<Rightarrow> 't \<Rightarrow> fpos"
  fhist :: "(string \<times> 't \<times> u64 \<times> file_op \<times> file_reply res) list"

text \<open>
  The steps of the lock protocol obey the program of each thread: it asks for a lock only in an operation
  on that file, and gives it up only when the operation has done its last call.
\<close>

definition in_order :: "(string \<Rightarrow> 't \<Rightarrow> fpos) \<Rightarrow> 't dist \<Rightarrow> 't dist \<Rightarrow> bool" where
  "in_order ps w w' \<longleftrightarrow> (\<forall>e c t.
     (pcs (cl (locks w e) c) t = Idle \<and> pcs (cl (locks w' e) c) t \<noteq> Idle \<longrightarrow> (\<exists>op. ps c t = Called e op)) \<and>
     (pcs (cl (locks w e) c) t = Holding \<and> pcs (cl (locks w' e) c) t \<noteq> Holding \<longrightarrow> ps c t = Leaving e))"

definition move :: "string \<Rightarrow> 't \<Rightarrow> fpos \<Rightarrow> 't dist \<Rightarrow> 't files \<Rightarrow> 't files" where
  "move c t p w f = f\<lparr>fdist := w, fposn := (fposn f)(c := (fposn f c)(t := p))\<rparr>"

definition note_op :: "string \<Rightarrow> 't \<Rightarrow> u64 \<Rightarrow> file_op \<Rightarrow> file_reply res \<Rightarrow> 't files \<Rightarrow> 't files" where
  "note_op c t e op v f = f\<lparr>fhist := fhist f @ [(c, t, e, op, v)]\<rparr>"

inductive file_step :: "'t files \<Rightarrow> 't files \<Rightarrow> bool" where
  f_call: "fposn f c t = Outside_Op \<Longrightarrow> file_step f (move c t (Called e op) (fdist f) f)"
| f_lock: "dist_step None (fdist f) w \<Longrightarrow> in_order (fposn f) (fdist f) w \<Longrightarrow> file_step f (f\<lparr>fdist := w\<rparr>)"
| f_get: "fposn f c t = Called e op \<Longrightarrow> pcs (cl (locks (fdist f) e) c) t = Holding \<Longrightarrow>
    ec_get (es_rpc ts) env e (ecs (fdist f) c, disk_server (fdist f)) = Inr (ret, content, cache, srv) \<Longrightarrow>
    file_step f (move c t (Has_Content e op ret content) (put_client c cache srv (fdist f)) f)"
| f_put: "fposn f c t = Has_Content e op ret content \<Longrightarrow> file_section op ret content = Inr (Some new, reply) \<Longrightarrow>
    blk_count (length new) \<le> NDIRECT \<Longrightarrow> ec_put env e new (ecs (fdist f) c) = (r, cache) \<Longrightarrow>
    file_step f (note_op c t e op (reply r) (move c t (Leaving e) (put_client c cache (disk_server (fdist f)) (fdist f)) f))"
| f_keep: "fposn f c t = Has_Content e op ret content \<Longrightarrow> file_section op ret content = Inr (None, reply) \<Longrightarrow>
    file_step f (note_op c t e op (reply 0) (move c t (Leaving e) (fdist f) f))"
| f_return: "fposn f c t = Leaving e \<Longrightarrow> pcs (cl (locks (fdist f) e) c) t = Idle \<Longrightarrow>
    file_step f (move c t Outside_Op (fdist f) f)"

definition file_start :: "block_manager \<Rightarrow> 't files \<Rightarrow> bool" where
  "file_start im f \<longleftrightarrow> dist_start im (fdist f) \<and> im_inv im \<and> (\<forall>c t. fposn f c t = Outside_Op) \<and> fhist f = []"

section \<open>One operation after the other\<close>

text \<open>The effect and reply of an operation that runs alone, and a history of such operations on the contents of all files.\<close>

definition atomic_op :: "file_op \<Rightarrow> byte list \<Rightarrow> (byte list \<times> file_reply res) res" where
  "atomic_op op content =
     bindR (file_section op 0 content) (\<lambda>(new, reply). Inr (case new of None \<Rightarrow> content | Some buf \<Rightarrow> buf, reply 0))"

fun replay :: "(u64 \<Rightarrow> byte list) \<Rightarrow> (string \<times> 't \<times> u64 \<times> file_op \<times> file_reply res) list \<Rightarrow> (u64 \<Rightarrow> byte list) option" where
  "replay cur [] = Some cur"
| "replay cur ((c, t, e, op, v) # h) =
     (case atomic_op op (cur e) of
        Inl _ \<Rightarrow> None
      | Inr (content, v') \<Rightarrow> if v' = v then replay (cur(e := content)) h else None)"

lemma replay_append: "replay cur (h @ h') = Option.bind (replay cur h) (\<lambda>cur'. replay cur' h')"
  by (induction h arbitrary: cur) (auto split: sum.splits prod.splits)

section \<open>Invariant\<close>

text \<open>
  The history replays to the current contents, and a thread that has got the content of its file holds the
  file's lock, has the current content, and its client has the file in its cache.
\<close>

definition file_inv :: "(u64 \<Rightarrow> byte list) \<Rightarrow> 't files \<Rightarrow> bool" where
  "file_inv init f \<longleftrightarrow> (\<exists>cur. replay init (fhist f) = Some cur \<and> dist_inv cur (fdist f) \<and>
     (\<forall>c t e op ret content. fposn f c t = Has_Content e op ret content \<longrightarrow>
        pcs (cl (locks (fdist f) e) c) t = Holding \<and> ret = 0 \<and> content = cur e \<and> attr_hit (entry (ecs (fdist f) c) e)))"

lemma file_invI:
  assumes "replay init (fhist f) = Some cur" and "dist_inv cur (fdist f)"
    and "\<And>c t e op ret content. fposn f c t = Has_Content e op ret content \<Longrightarrow>
      pcs (cl (locks (fdist f) e) c) t = Holding \<and> ret = 0 \<and> content = cur e \<and> attr_hit (entry (ecs (fdist f) c) e)"
  shows "file_inv init f"
  using assms unfolding file_inv_def by blast

lemma file_invE:
  assumes "file_inv init f"
  obtains cur where "replay init (fhist f) = Some cur" "dist_inv cur (fdist f)"
    "\<And>c t e op ret content. fposn f c t = Has_Content e op ret content \<Longrightarrow>
      pcs (cl (locks (fdist f) e) c) t = Holding \<and> ret = 0 \<and> content = cur e \<and> attr_hit (entry (ecs (fdist f) c) e)"
  using assms unfolding file_inv_def by blast

text \<open>Each call of the extent client leaves the entries of other extents alone.\<close>

lemma get_entry:
  assumes "ec_get rpc env e (cache, s) = Inr (ret, buf, cache', s')"
  shows "d \<noteq> e \<Longrightarrow> entry cache' d = entry cache d" "buf_hit (entry cache' e)"
  using assms by (auto simp: ec_get_def map_index_entry Let_def bindR_eq_Inr split: option.splits if_splits)

lemma put_entry:
  assumes "ec_put env e buf cache = (r, cache')"
  shows "r = 0" "d \<noteq> e \<Longrightarrow> entry cache' d = entry cache d"
  using assms by (auto simp: ec_put_def map_index_entry Let_def split: prod.splits)

lemma sync_entry:
  assumes "ec_sync rpc e (cache, s) = Inr (ret, cache', s')" and "d \<noteq> e"
  shows "entry cache' d = entry cache d"
  using assms by (auto simp: ec_sync_def map_index_entry Let_def bindR_eq_Inr split: option.splits if_splits)

text \<open>At most one thread holds the lock of a file, and while it does its client's cache is not emptied.\<close>

lemma one_holder:
  assumes inv: "dist_inv cur w" and h: "pcs (cl (locks w e) c) t = Holding" "pcs (cl (locks w e) c') t' = Holding"
  shows "c' = c \<and> t' = t"
proof -
  note p = dist_invD(1) [OF inv, of e]
  have "c' = c" using holding_holder [OF p h(1)] holding_holder [OF p h(2)] by simp
  with holding_p_inv(3) [OF p h(1)] holding_p_inv(3) [OF p h(2)] show ?thesis by auto
qed

lemma lock_keeps_entry:
  assumes step: "dist_step None w w'" and inv: "dist_inv cur w" and h: "pcs (cl (locks w e) c) t = Holding"
  shows "entry (ecs w' c) e = entry (ecs w c) e"
  using step
proof cases
  case (d_sync e' c' ts ret cache srv)
  have "call (locks w e) c = No_Call" using holding_p_inv(2) [OF dist_invD(1) [OF inv] h] .
  then have "c' = c \<Longrightarrow> e' \<noteq> e" using d_sync(2) by auto
  then show ?thesis using d_sync(1) sync_entry [OF d_sync(3), of e] by (auto simp: put_client_def)
qed simp

lemma dist_lock_step: "dist_step None w w' \<Longrightarrow> dist_inv cur w \<Longrightarrow> dist_inv cur w'"
  using dist_step_inv [of None w w' cur] by (simp add: apply_label_def)

section \<open>Every step keeps the invariant\<close>

lemma move_simps [simp]:
  "fdist (move c t p w f) = w" "fhist (move c t p w f) = fhist f"
  "fposn (move c t p w f) d u = (if d = c \<and> u = t then p else fposn f d u)"
  by (simp_all add: move_def)

lemma note_op_simps [simp]:
  "fdist (note_op c t e op v f) = fdist f" "fposn (note_op c t e op v f) = fposn f"
  "fhist (note_op c t e op v f) = fhist f @ [(c, t, e, op, v)]"
  by (simp_all add: note_op_def)

lemma ecs_put_client [simp]: "ecs (put_client c cache srv w) d = (if d = c then cache else ecs w d)"
  by (simp add: put_client_def)

lemma lock_file_inv:
  assumes inv: "file_inv init f" and step: "dist_step None (fdist f) w" and ord: "in_order (fposn f) (fdist f) w"
  shows "file_inv init (f\<lparr>fdist := w\<rparr>)"
  using inv
proof (rule file_invE)
  fix cur
  assume r: "replay init (fhist f) = Some cur" and d: "dist_inv cur (fdist f)"
    and b: "\<And>c t e op ret content. fposn f c t = Has_Content e op ret content \<Longrightarrow>
      pcs (cl (locks (fdist f) e) c) t = Holding \<and> ret = 0 \<and> content = cur e \<and> attr_hit (entry (ecs (fdist f) c) e)"
  show ?thesis
  proof (rule file_invI)
    show "replay init (fhist (f\<lparr>fdist := w\<rparr>)) = Some cur" "dist_inv cur (fdist (f\<lparr>fdist := w\<rparr>))"
      using r dist_lock_step [OF step d] by simp_all
    fix c t e op ret content
    assume "fposn (f\<lparr>fdist := w\<rparr>) c t = Has_Content e op ret content"
    then have p: "fposn f c t = Has_Content e op ret content" by simp
    then have "pcs (cl (locks w e) c) t = Holding" using b [OF p] ord unfolding in_order_def by fastforce
    then show "pcs (cl (locks (fdist (f\<lparr>fdist := w\<rparr>)) e) c) t = Holding \<and> ret = 0 \<and> content = cur e \<and> attr_hit (entry (ecs (fdist (f\<lparr>fdist := w\<rparr>)) c) e)"
      using b [OF p] lock_keeps_entry [OF step d, of e c t] by simp
  qed
qed

lemma get_file_inv:
  assumes inv: "file_inv init f" and p: "fposn f c t = Called e op" and h: "pcs (cl (locks (fdist f) e) c) t = Holding"
    and run: "ec_get (es_rpc ts) env e (ecs (fdist f) c, disk_server (fdist f)) = Inr (ret, content, cache, srv)"
  shows "file_inv init (move c t (Has_Content e op ret content) (put_client c cache srv (fdist f)) f)"
  using inv
proof (rule file_invE)
  fix cur
  assume r: "replay init (fhist f) = Some cur" and d: "dist_inv cur (fdist f)"
    and b: "\<And>c t e op ret content. fposn f c t = Has_Content e op ret content \<Longrightarrow>
      pcs (cl (locks (fdist f) e) c) t = Holding \<and> ret = 0 \<and> content = cur e \<and> attr_hit (entry (ecs (fdist f) c) e)"
  have own: "owner (dfs_of (fdist f)) e = Some c" using holding_owner [OF dist_invD(1) [OF d] h] by simp
  have run': "ret = 0" "content = cur e"
    using get_coherent [OF dist_invD(2) [OF d] own, of ts env] run by auto
  have d': "dist_inv cur (put_client c cache srv (fdist f))"
    using dist_step_inv [OF d_read [OF h run] d] by (simp add: apply_label_def apply_event_def)
  have "owner (dfs_of (put_client c cache srv (fdist f))) e = Some c" using own by (simp add: set_client_def)
  then have "entry_ok (entry cache e) (cur e) (disk_content srv e)" using coherent_owned(4) [OF dist_invD(2) [OF d'], of e c]
    by (simp add: set_client_def)
  then have hit: "attr_hit (entry cache e)" using get_entry(2) [OF run] by (simp add: entry_ok_def)
  show ?thesis
  proof (rule file_invI, unfold move_simps)
    show "replay init (fhist f) = Some cur" "dist_inv cur (put_client c cache srv (fdist f))" by fact+
    fix c' t' e' op' ret' content'
    assume p': "(if c' = c \<and> t' = t then Has_Content e op ret content else fposn f c' t') = Has_Content e' op' ret' content'"
    show "pcs (cl (locks (put_client c cache srv (fdist f)) e') c') t' = Holding \<and> ret' = 0 \<and> content' = cur e' \<and>
        attr_hit (entry (ecs (put_client c cache srv (fdist f)) c') e')"
    proof (cases "c' = c \<and> t' = t")
      case True
      then show ?thesis using p' h run' hit by auto
    next
      case False
      then have q: "fposn f c' t' = Has_Content e' op' ret' content'" using p' by (simp split: if_splits)
      have "c' = c \<Longrightarrow> e' \<noteq> e" using one_holder [OF d h, of c' t'] b [OF q] False by auto
      then show ?thesis using b [OF q] get_entry(1) [OF run, of e'] by auto
    qed
  qed
qed

text \<open>The effect of an operation comes at once, when it puts the new content or decides not to.\<close>

lemma effect_file_inv:
  assumes inv: "file_inv init f" and p: "fposn f c t = Has_Content e op ret content"
    and sec: "file_section op ret content = Inr (new, reply)"
    and w: "\<And>cur. dist_inv cur (fdist f) \<Longrightarrow> dist_inv (cur(e := case new of None \<Rightarrow> cur e | Some buf \<Rightarrow> buf)) w"
      "locks w = locks (fdist f)" "\<And>c' e'. c' = c \<Longrightarrow> e' \<noteq> e \<Longrightarrow> entry (ecs w c') e' = entry (ecs (fdist f) c') e'"
      "\<And>c'. c' \<noteq> c \<Longrightarrow> ecs w c' = ecs (fdist f) c'"
  shows "file_inv init (note_op c t e op (reply 0) (move c t (Leaving e) w f))"
  using inv
proof (rule file_invE)
  fix cur
  assume r: "replay init (fhist f) = Some cur" and d: "dist_inv cur (fdist f)"
    and b: "\<And>c t e op ret content. fposn f c t = Has_Content e op ret content \<Longrightarrow>
      pcs (cl (locks (fdist f) e) c) t = Holding \<and> ret = 0 \<and> content = cur e \<and> attr_hit (entry (ecs (fdist f) c) e)"
  let ?cur = "cur(e := case new of None \<Rightarrow> cur e | Some buf \<Rightarrow> buf)"
  have "atomic_op op (cur e) = Inr (?cur e, reply 0)" using b [OF p] sec by (simp add: atomic_op_def)
  then have r': "replay init (fhist f @ [(c, t, e, op, reply 0)]) = Some ?cur" using r by (simp add: replay_append)
  show ?thesis
  proof (rule file_invI, unfold note_op_simps move_simps)
    show "replay init (fhist f @ [(c, t, e, op, reply 0)]) = Some ?cur" "dist_inv ?cur w" by (fact r', rule w(1) [OF d])
    fix c' t' e' op' ret' content'
    assume p': "(if c' = c \<and> t' = t then Leaving e else fposn f c' t') = Has_Content e' op' ret' content'"
    then have q: "fposn f c' t' = Has_Content e' op' ret' content'" and ne: "\<not> (c' = c \<and> t' = t)" by (auto split: if_splits)
    have "e' \<noteq> e" using one_holder [OF d, of e c t c' t'] b [OF p] b [OF q] ne by auto
    then show "pcs (cl (locks w e') c') t' = Holding \<and> ret' = 0 \<and> content' = ?cur e' \<and> attr_hit (entry (ecs w c') e')"
      using b [OF q] w(2,4) w(3) [of c' e'] by (cases "c' = c") auto
  qed
qed

lemma put_file_inv:
  assumes inv: "file_inv init f" and p: "fposn f c t = Has_Content e op ret content"
    and sec: "file_section op ret content = Inr (Some new, reply)" and len: "blk_count (length new) \<le> NDIRECT"
    and run: "ec_put env e new (ecs (fdist f) c) = (r, cache)"
  shows "file_inv init (note_op c t e op (reply r) (move c t (Leaving e) (put_client c cache (disk_server (fdist f)) (fdist f)) f))"
proof -
  have "dist_inv (cur(e := new)) (put_client c cache (disk_server (fdist f)) (fdist f))" if d: "dist_inv cur (fdist f)" for cur
  proof -
    have "pcs (cl (locks (fdist f) e) c) t = Holding" "attr_hit (entry (ecs (fdist f) c) e)" using inv p unfolding file_inv_def by blast+
    from dist_step_inv [OF d_write [OF this len run] d] show ?thesis by (simp add: apply_label_def apply_event_def)
  qed
  then show ?thesis unfolding put_entry(1) [OF run]
    by (intro effect_file_inv [OF inv p sec]) (use put_entry(2) [OF run] in auto)
qed

lemma keep_file_inv:
  assumes "file_inv init f" and "fposn f c t = Has_Content e op ret content" and "file_section op ret content = Inr (None, reply)"
  shows "file_inv init (note_op c t e op (reply 0) (move c t (Leaving e) (fdist f) f))"
  by (rule effect_file_inv [OF assms]) simp_all

text \<open>A step that only moves a thread that is not in the middle of an operation.\<close>

lemma move_file_inv:
  assumes "file_inv init f" and "\<And>e op ret content. p \<noteq> Has_Content e op ret content"
  shows "file_inv init (move c t p (fdist f) f)"
  using assms(1) by (rule file_invE) (rule file_invI, use assms(2) in \<open>auto split: if_splits\<close>)

interpretation files: invariant_system "file_start im" file_step "file_inv (disk_content im)" for im
proof
  show "file_inv (disk_content im) f" if "file_start im f" for f :: "'t files"
    using that dist_start_inv [of im "fdist f"] by (auto simp: file_start_def file_inv_def)
  show "file_inv (disk_content im) f'" if "file_inv (disk_content im) f" "file_step f f'" for f f' :: "'t files"
    using that(2,1) by cases (simp_all add: move_file_inv lock_file_inv get_file_inv put_file_inv keep_file_inv)
qed

section \<open>Property\<close>

text \<open>
  C1 (refinement). Reads, writes, truncations and reads of links by any threads of any number of clients are
  linearizable: at every moment of every interleaving there is one order of the operations that have had
  their effect, each between its call and its return, in which running the operations one after the other
  on the initial contents gives every reply that was given; a thread that is in the middle of an operation has the
  content that this order leaves, so no update is lost, and a thread that holds the lock of a file gets that content.
\<close>

theorem file_operations_linearize:
  assumes "reach (file_start im) file_step f"
  shows "\<exists>cur. replay (disk_content im) (fhist f) = Some cur \<and>
    (\<forall>c t e op ret content. fposn f c t = Has_Content e op ret content \<longrightarrow> ret = 0 \<and> content = cur e) \<and>
    (\<forall>c t e. pcs (cl (locks (fdist f) e) c) t = Holding \<longrightarrow>
      (\<exists>cache srv. ec_get (es_rpc ts) env e (ecs (fdist f) c, disk_server (fdist f)) = Inr (0, cur e, cache, srv)))"
  using files.reach_invar [OF assms]
proof (rule file_invE)
  fix cur
  assume r: "replay (disk_content im) (fhist f) = Some cur" and d: "dist_inv cur (fdist f)"
    and b: "\<And>c t e op ret content. fposn f c t = Has_Content e op ret content \<Longrightarrow>
      pcs (cl (locks (fdist f) e) c) t = Holding \<and> ret = 0 \<and> content = cur e \<and> attr_hit (entry (ecs (fdist f) c) e)"
  have "\<exists>cache srv. ec_get (es_rpc ts) env e (ecs (fdist f) c, disk_server (fdist f)) = Inr (0, cur e, cache, srv)"
    if h: "pcs (cl (locks (fdist f) e) c) t = Holding" for c t e
  proof -
    have "owner (dfs_of (fdist f)) e = Some c" using holding_owner [OF dist_invD(1) [OF d] h] by simp
    from get_coherent [OF dist_invD(2) [OF d] this, of ts env] show ?thesis by auto
  qed
  with r b show ?thesis by (intro exI [of _ cur]) blast
qed

text \<open>A thread of client \<open>a\<close> writes two bytes to the root extent.\<close>

definition files0 :: "nat files" where
  "files0 = \<lparr>fdist = dist0, fposn = \<lambda>_ _. Outside_Op, fhist = []\<rparr>"

definition with_lock :: "nat lockp \<Rightarrow> nat dist" where
  "with_lock s = dist0\<lparr>locks := (\<lambda>_. lp0)(1 := s)\<rparr>"

lemma with_lock_simps [simp]: "locks (with_lock s) 1 = s" "disk_server (with_lock s) = fs0" "ecs (with_lock s) = (\<lambda>_. Map.empty)"
  "with_lock lp0 = dist0"
  by (simp_all add: with_lock_def dist0_def fun_eq_iff)

lemma files_lock_step:
  assumes r: "reach (file_start fs0) file_step f" and f: "fdist f = with_lock s" "fposn f ''a'' 1 = Called 1 op"
    and step: "p_step 1 s s'" and k: "\<forall>c. call s c \<noteq> Rel_Sync" "\<forall>c t. pcs (cl s c) t \<noteq> Holding"
    and other: "\<forall>c t. pcs (cl s' c) t \<noteq> Idle \<longrightarrow> c = ''a'' \<and> t = 1"
  shows "reach (file_start fs0) file_step (f\<lparr>fdist := with_lock s'\<rparr>)"
proof (rule reach_step [OF r], rule f_lock)
  have eq: "with_lock s' = (with_lock s)\<lparr>locks := (locks (with_lock s))(1 := s')\<rparr>" by (simp add: with_lock_def)
  have "file_at fs0 (es_id 1) \<noteq> None" by (simp add: word_unat_eq_iff unat_es_id fs0_inv)
  then show "dist_step None (fdist f) (with_lock s')" unfolding f(1) eq by (intro d_lock) (use step k in auto)
  show "in_order (fposn f) (fdist f) (with_lock s')" using f k(2) other by (auto simp: in_order_def with_lock_def)
qed

lemma files_run:
  "\<exists>f :: nat files. reach (file_start fs0) file_step f \<and> fhist f = [(''a'', 1, 1, FWrite 2 0 [5, 6], Inr (Wrote 0 2))] \<and>
     pcs (cl (locks (fdist f) 1) ''a'') 1 = Holding"
proof -
  let ?op = "FWrite 2 0 [5, 6]" and ?R = "reach (file_start fs0) file_step"
  obtain s1 s2 where s: "p_step 1 lp0 s1" "p_step 1 s1 s2" "p_step 1 s2 lp1"
    "\<forall>c. call lp0 c \<noteq> Rel_Sync \<and> call s1 c \<noteq> Rel_Sync \<and> call s2 c \<noteq> Rel_Sync"
    "\<forall>c t. pcs (cl s1 c) t = (if c = ''a'' \<and> t = 1 then In_Rpc else Idle)" "cl s2 = cl s1" using lp1_steps [of 1] by blast
  have pc0: "pcs (cl lp0 c) t = Idle" and pc1: "pcs (cl lp1 c) t = (if c = ''a'' \<and> t = 1 then Holding else Idle)" for c t
    by (simp_all add: lp0_def lcc0_def lp1_def lcc1_def)
  define f1 where "f1 = move ''a'' 1 (Called 1 ?op) dist0 files0"
  have "?R files0" by (rule reach_start) (simp add: file_start_def files0_def dist_start_def dist0_def lp0_start fs0_inv)
  moreover have "file_step files0 f1" unfolding f1_def using f_call [of files0 "''a''" 1 1 ?op] by (simp add: files0_def)
  ultimately have r1: "?R f1" by (rule reach_step)
  have p1: "fposn f1 ''a'' 1 = Called 1 ?op" by (simp add: f1_def)
  have r2: "?R (f1\<lparr>fdist := with_lock s1\<rparr>)" by (rule files_lock_step [OF r1 _ p1 s(1)]) (use s pc0 in \<open>auto simp: f1_def split: if_splits\<close>)
  have "?R (f1\<lparr>fdist := with_lock s1, fdist := with_lock s2\<rparr>)"
    by (rule files_lock_step [OF r2 _ _ s(2)]) (use s p1 in \<open>auto split: if_splits\<close>)
  then have r3: "?R (f1\<lparr>fdist := with_lock s2\<rparr>)" by simp
  have "?R (f1\<lparr>fdist := with_lock s2, fdist := with_lock lp1\<rparr>)"
    by (rule files_lock_step [OF r3 _ _ s(3)]) (use s p1 pc1 in \<open>auto split: if_splits\<close>)
  then have r4: "?R (f1\<lparr>fdist := with_lock lp1\<rparr>)" by simp
  obtain cf where g: "ec_get (es_rpc (1, 2, 3)) env0 1 (Map.empty, fs0) = Inr (0, [], [1 \<mapsto> Some cf], fs0)" using root_get by metis
  define w where "w = put_client ''a'' [1 \<mapsto> Some cf] fs0 (with_lock lp1)"
  define f2 where "f2 = move ''a'' 1 (Has_Content 1 ?op 0 []) w (f1\<lparr>fdist := with_lock lp1\<rparr>)"
  have "file_step (f1\<lparr>fdist := with_lock lp1\<rparr>) f2" unfolding f2_def w_def
    using f_get [of "f1\<lparr>fdist := with_lock lp1\<rparr>" "''a''" 1 1 ?op "(1, 2, 3)" env0 0 "[]"] p1 pc1 g by simp
  with r4 have r5: "?R f2" by (rule reach_step)
  have wc: "write_content [] 2 0 [5, 6] = Inr ([5, 6], 2)" by code_simp
  have sec: "file_section ?op 0 [] = Inr (Some [5, 6], \<lambda>_. Inr (Wrote 0 2))" by (simp add: wc)
  obtain r cache where p: "ec_put env0 1 [5, 6] (ecs w ''a'') = (r, cache)" by fastforce
  define f3 where "f3 = note_op ''a'' 1 1 ?op (Inr (Wrote 0 2)) (move ''a'' 1 (Leaving 1) (put_client ''a'' cache (disk_server w) w) f2)"
  have "file_step f2 f3" unfolding f3_def
    using f_put [of f2 "''a''" 1 1 ?op 0 "[]" "[5, 6]" "\<lambda>_. Inr (Wrote 0 2)" env0 r cache] sec p by (simp add: f2_def blk_count_alt)
  with r5 have "?R f3" by (rule reach_step)
  then show ?thesis using pc1 by (intro exI [of _ f3]) (simp add: f3_def f2_def f1_def files0_def w_def)
qed

theorem file_operations_linearize_witness:
  "\<exists>(f :: nat files) cache srv. reach (file_start fs0) file_step f \<and> fhist f = [(''a'', 1, 1, FWrite 2 0 [5, 6], Inr (Wrote 0 2))] \<and>
     ec_get (es_rpc (1, 2, 3)) env0 1 (ecs (fdist f) ''a'', disk_server (fdist f)) = Inr (0, [5, 6], cache, srv)"
proof -
  obtain f :: "nat files" where f: "reach (file_start fs0) file_step f" "fhist f = [(''a'', 1, 1, FWrite 2 0 [5, 6], Inr (Wrote 0 2))]"
    "pcs (cl (locks (fdist f) 1) ''a'') 1 = Holding" using files_run by blast
  have "disk_content fs0 1 = []" by (simp add: disk_content_def word_unat_eq_iff unat_es_id fs0_inv)
  moreover have "atomic_op (FWrite 2 0 [5, 6]) [] = Inr ([5, 6], Inr (Wrote 0 2))" by code_simp
  ultimately have "replay (disk_content fs0) (fhist f) = Some ((disk_content fs0)(1 := [5, 6]))" by (simp add: f(2))
  with file_operations_linearize [OF f(1), of "(1, 2, 3)" env0] f(3) have
    "\<exists>cache srv. ec_get (es_rpc (1, 2, 3)) env0 1 (ecs (fdist f) ''a'', disk_server (fdist f)) = Inr (0, [5, 6], cache, srv)" by fastforce
  with f(1,2) show ?thesis by blast
qed

end
