(* ===== verification/Lock_Liveness.thy ===== *)
theory Lock_Liveness
  imports Lock_Protocol
begin

text \<open>
  Mutual exclusion and liveness of the lock protocol. Each step that does not bring a new thread lowers
  the weight of a client and raises none, so such runs end; and while a thread is not idle there is such
  a step, so they end with every thread served.
\<close>

section \<open>Termination\<close>

text \<open>The steps that do not bring a new thread.\<close>

definition p_work :: "u64 \<Rightarrow> 't lockp \<Rightarrow> 't lockp \<Rightarrow> bool" where
  "p_work lid s s' \<longleftrightarrow> p_step lid s s' \<and> (\<forall>c t. pcs (cl s c) t = Idle \<longrightarrow> pcs (cl s' c) t = Idle)"

text \<open>How far a client is from having served its threads and given the lock back.\<close>

fun call_weight :: "role \<Rightarrow> pc \<Rightarrow> rpc_call \<Rightarrow> nat" where
  "call_weight r p No_Call = (if p = At_Retry then 16 else 15)"
| "call_weight r p Acq_Sent = (if r = Retried then 14 else 20)"
| "call_weight r p (Acq_Calls _ ret) = (if ret = lp_OK then 13 else 19)"
| "call_weight r p (Acq_Revokes _ ret) = 18"
| "call_weight r p (Acq_Replied ret) = (if ret = lp_OK then 12 else 17)"
| "call_weight r p Rel_Sync = 8"
| "call_weight r p Rel_Sent = 7"
| "call_weight r p (Rel_Calls _) = 6"
| "call_weight r p Rel_Replied = 5"

definition weight :: "role \<Rightarrow> 't lcc_sys \<Rightarrow> rpc_call \<Rightarrow> nat" where
  "weight r x k = 22 * length (tl (threads_queue (lock x))) +
     (case client_state (lock x) of
        CNone \<Rightarrow> if threads_queue (lock x) = [] then 0 else 21
      | CFree \<Rightarrow> 9
      | CLocked \<Rightarrow> if fpc x = Holding then 10 else 11
      | CAcquiring \<Rightarrow> call_weight r (fpc x) k
      | CReleasing \<Rightarrow> call_weight r (fpc x) k + (if revoking x \<and> threads_queue (lock x) \<noteq> [] then 22 else 0))"

definition p_weight :: "'t lockp \<Rightarrow> string \<Rightarrow> nat" where
  "p_weight s c = weight (role_of (sl s) (call s) c) (cl s c) (call s c)"

definition p_measure :: "'t lockp \<Rightarrow> nat" where
  "p_measure s = (\<Sum>c | p_weight s c \<noteq> 0. p_weight s c)"

lemma sum_support_less:
  fixes f g :: "'a \<Rightarrow> nat"
  assumes "finite {c. f c \<noteq> 0}" and le: "\<And>c. g c \<le> f c" and less: "g d < f d"
  shows "finite {c. g c \<noteq> 0}" "(\<Sum>c | g c \<noteq> 0. g c) < (\<Sum>c | f c \<noteq> 0. f c)"
proof -
  have sub: "{c. g c \<noteq> 0} \<subseteq> {c. f c \<noteq> 0}" using le by (metis (mono_tags) Collect_mono le_zero_eq)
  then show "finite {c. g c \<noteq> 0}" using assms(1) finite_subset by blast
  have "(\<Sum>c | g c \<noteq> 0. g c) = (\<Sum>c | f c \<noteq> 0. g c)" by (rule sum.mono_neutral_left [OF assms(1) sub]) simp
  also have "\<dots> < (\<Sum>c | f c \<noteq> 0. f c)" by (rule sum_strict_mono_ex1 [OF assms(1)]) (use le less in \<open>auto intro!: exI [of _ d]\<close>)
  finally show "(\<Sum>c | g c \<noteq> 0. g c) < (\<Sum>c | f c \<noteq> 0. f c)" .
qed

definition lighter :: "'t lockp \<Rightarrow> 't lockp \<Rightarrow> bool" where
  "lighter s s' \<longleftrightarrow> (\<forall>c. p_weight s' c \<le> p_weight s c) \<and> (\<exists>c. p_weight s' c < p_weight s c)"

lemma lighterI: "p_weight s' c < p_weight s c \<Longrightarrow> (\<And>d. d \<noteq> c \<Longrightarrow> p_weight s' d \<le> p_weight s d) \<Longrightarrow> lighter s s'"
  unfolding lighter_def by (metis order.strict_implies_order)

lemma local_lighter:
  assumes "call s c = k \<or> plain (call s c) \<and> plain k"
    and "weight (role_of (sl s) (call s) c) x k < weight (role_of (sl s) (call s) c) (cl s c) (call s c)"
  shows "lighter s (set_peer c x k s)"
  by (rule lighterI [of _ c]) (use assms(2) in \<open>simp_all add: p_weight_def set_peer_def pending_plain [of "call s", OF assms(1)]\<close>)

text \<open>A thread at the front of the queue.\<close>

lemma front_lighter:
  assumes inv: "p_inv lid s" and t: "pcs (cl s c) t \<noteq> Idle" "pcs (cl s c) t \<noteq> At_Turn"
    and r: "threads_queue (snd r) = threads_queue (lock (cl s c))" and k: "plain (call s c)" "plain k"
    and w: "\<And>q n ts. fits q (cl s c) (call s c) \<Longrightarrow> front_ok (client_state (lock (cl s c))) (revoking (cl s c)) (pcs (cl s c) t) \<Longrightarrow>
      fpc (goto t r (cl s c)) = pc_of (fst r) \<Longrightarrow> fpc (cl s c) = pcs (cl s c) t \<Longrightarrow> threads_queue (lock (cl s c)) = t # ts \<Longrightarrow>
      weight q (goto t r (cl s c)) (if fst r = Rpc_Acquire then Acq_Sent else k) < weight q (cl s c) (call s c)"
  shows "lighter s (advance_thread c t r k s)"
proof -
  have lcc: "lcc_inv (cl s c)" by (rule p_invD(3) [OF inv])
  obtain ts where "threads_queue (lock (cl s c)) = t # ts" using front_fpc(3) [OF lcc t] by blast
  from w [OF p_invD(4) [OF inv] front_fpc(2) [OF lcc t] fpc_goto [OF lcc t r] front_fpc(1) [OF lcc t] this]
  show ?thesis unfolding advance_set_peer by (intro local_lighter) (use k in auto)
qed

lemma thread_lighter:
  assumes inv: "p_inv lid s"
  shows "pcs (cl s c) t = Woke_Turn \<Longrightarrow> lighter s (advance_thread c t (lcc_acquire_turn (lock (cl s c))) (call s c) s)"
    and "pcs (cl s c) t = Woke_Releasing \<Longrightarrow> lighter s (advance_thread c t (lcc_acquire_released (lock (cl s c))) (call s c) s)"
    and "pcs (cl s c) t = Woke_Retry \<Longrightarrow> lighter s (advance_thread c t (rpc_acquire_woken (lock (cl s c))) (call s c) s)"
    and "pcs (cl s c) t = In_Rpc \<Longrightarrow> call s c = Acq_Replied ret \<Longrightarrow>
      lighter s (advance_thread c t (rpc_acquire_reply ret (lock (cl s c))) No_Call s)"
proof -
  let ?x = "cl s c"
  have lcc: "lcc_inv ?x" and f: "fits (role_of (sl s) (call s) c) ?x (call s c)" by (rule p_invD(3,4) [OF inv])+
  note front = front_fpc(1,2) [OF lcc, of t]
  show "lighter s (advance_thread c t (lcc_acquire_turn (lock ?x)) (call s c) s)" if "pcs ?x t = Woke_Turn"
  proof -
    have st: "client_state (lock ?x) \<in> {CNone, CLocked}"
      using front that by (cases "client_state (lock ?x)") (auto split: if_splits)
    then have "call s c = No_Call" using fits_calls(1) [OF f] by blast
    then show ?thesis
      by (intro front_lighter [OF inv]) (use that st in \<open>auto simp: lcc_acquire_turn_def rpc_acquire_enter_def weight_def asking_def\<close>)
  qed
  show "lighter s (advance_thread c t (lcc_acquire_released (lock ?x)) (call s c) s)" if "pcs ?x t = Woke_Releasing"
  proof -
    have st: "client_state (lock ?x) = CNone"
      using front that by (cases "client_state (lock ?x)") (auto split: if_splits)
    then have "call s c = No_Call" using fits_calls(1) [OF f] by blast
    then show ?thesis
      by (intro front_lighter [OF inv]) (use that st in \<open>auto simp: lcc_acquire_released_def rpc_acquire_enter_def weight_def asking_def\<close>)
  qed
  show "lighter s (advance_thread c t (rpc_acquire_woken (lock ?x)) (call s c) s)" if "pcs ?x t = Woke_Retry"
  proof -
    have st: "client_state (lock ?x) = CAcquiring" "fpc ?x = Woke_Retry"
      using front that by (cases "client_state (lock ?x)"; auto split: if_splits)+
    then have k: "call s c = No_Call" "role_of (sl s) (call s) c = Retried" using fits_calls(2) [OF f] by blast+
    have "fits q ?x No_Call \<Longrightarrow> q = Retried" for q using st by (cases q) (auto simp: asking_def)
    then show ?thesis
      by (intro front_lighter [OF inv]) (use that st k in \<open>auto simp: rpc_acquire_woken_def rpc_acquire_loop_def weight_def\<close>)
  qed
  show "lighter s (advance_thread c t (rpc_acquire_reply ret (lock ?x)) No_Call s)"
    if "pcs ?x t = In_Rpc" "call s c = Acq_Replied ret"
  proof -
    have st: "client_state (lock ?x) = CAcquiring" "fpc ?x = In_Rpc"
      using front that by (cases "client_state (lock ?x)"; auto split: if_splits)+
    have "fits q ?x (Acq_Replied ret) \<Longrightarrow> server_response (lock ?x) = RRetry \<Longrightarrow> q = Retried" for q by (cases q) (auto simp: giving_back_def)
    then show ?thesis
      by (intro front_lighter [OF inv])
        (use that st fits_replied in \<open>auto simp: rpc_acquire_reply_def rpc_acquire_loop_def weight_def split: if_splits\<close>)
  qed
qed

text \<open>Releasing.\<close>

lemma release_lighter:
  assumes inv: "p_inv lid s"
  shows "pcs (cl s c) t = Holding \<Longrightarrow> lcc_release (lock (cl s c)) = (True, l) \<Longrightarrow>
      lighter s (set_peer c ((cl s c)\<lparr>lock := l, pcs := (pcs (cl s c))(t := In_Release)\<rparr>) Rel_Sync s)"
    and "pcs (cl s c) t = Holding \<Longrightarrow> lcc_release (lock (cl s c)) = (False, l) \<Longrightarrow> lcc_release_pop True l = Inr (u, l') \<Longrightarrow>
      lighter s (set_peer c ((cl s c)\<lparr>lock := l', pcs := signal u ((pcs (cl s c))(t := Idle))\<rparr>) (call s c) s)"
    and "call s c = Rel_Sync \<Longrightarrow> lighter s (set_peer c (cl s c) Rel_Sent s)"
    and "pcs (cl s c) t = In_Release \<Longrightarrow> call s c = Rel_Replied \<Longrightarrow>
      lcc_release_pop False (lcc_release_done (lock (cl s c))) = Inr (u, l') \<Longrightarrow>
      lighter s (set_peer c ((cl s c)\<lparr>lock := l', pcs := signal u ((pcs (cl s c))(t := Idle))\<rparr>) No_Call s)"
proof -
  let ?x = "cl s c"
  have lcc: "lcc_inv ?x" and f: "fits (role_of (sl s) (call s) c) ?x (call s c)" by (rule p_invD(3,4) [OF inv])+
  show "lighter s (set_peer c (?x\<lparr>lock := l, pcs := (pcs ?x)(t := In_Release)\<rparr>) Rel_Sync s)"
    if "pcs ?x t = Holding" "lcc_release (lock ?x) = (True, l)"
    using that holding_p_inv [OF inv that(1)]
    by (intro local_lighter) (auto simp: lcc_release_def weight_def split: if_splits)
  show "lighter s (set_peer c (?x\<lparr>lock := l', pcs := signal u ((pcs ?x)(t := Idle))\<rparr>) (call s c) s)"
    if "pcs ?x t = Holding" "lcc_release (lock ?x) = (False, l)" "lcc_release_pop True l = Inr (u, l')"
    using that holding_p_inv [OF inv that(1)] front_fpc(1) [OF lcc, of t]
    by (intro local_lighter) (auto simp: lcc_release_def lcc_release_pop_def weight_def Let_def split: if_splits list.splits)
  show "lighter s (set_peer c ?x Rel_Sent s)" if "call s c = Rel_Sync"
    using that rel_sentD(5) [OF inv, of c] by (intro local_lighter) (auto simp: giving_back_def weight_def)
  show "lighter s (set_peer c (?x\<lparr>lock := l', pcs := signal u ((pcs ?x)(t := Idle))\<rparr>) No_Call s)"
    if "pcs ?x t = In_Release" "call s c = Rel_Replied" "lcc_release_pop False (lcc_release_done (lock ?x)) = Inr (u, l')"
  proof -
    have t: "pcs ?x t \<noteq> Idle" "pcs ?x t \<noteq> At_Turn" using that(1) by simp_all
    have "client_state (lock ?x) = CReleasing"
      using front_fpc(2) [OF lcc t] that(1) by (cases "client_state (lock ?x)") (auto split: if_splits)
    then show ?thesis using that front_fpc(3) [OF lcc t]
      by (intro local_lighter) (auto simp: lcc_release_done_def lcc_release_pop_def weight_def Let_def split: if_splits list.splits)
  qed
qed

lemma revoke_done_lighter:
  assumes inv: "p_inv lid s" and rv: "revoking (cl s c)" and k: "call s c = Rel_Replied"
    and r: "revoke_handler_done (lock (cl s c)) = (u, l)"
  shows "lighter s (set_peer c ((cl s c)\<lparr>lock := l, pcs := signal u (pcs (cl s c)), revoking := False\<rparr>) No_Call
      (s\<lparr>call := \<lambda>b. case call s b of Acq_Revokes d ret \<Rightarrow> if d = c then Acq_Replied ret else call s b | k \<Rightarrow> k\<rparr>))"
    (is "lighter s (set_peer c ?x No_Call (s\<lparr>call := ?k\<rparr>))")
proof -
  have calls: "(?k(c := No_Call)) b = Acq_Calls out ret \<longleftrightarrow> call s b = Acq_Calls out ret"
    "(?k(c := No_Call)) b = Rel_Calls out \<longleftrightarrow> call s b = Rel_Calls out" for b out ret
    using k by (auto split: rpc_call.splits)
  have role: "role_of (sl s) (?k(c := No_Call)) = role_of (sl s) (call s)" by (rule pending_cong(1)) (rule calls)+
  have st: "client_state (lock (cl s c)) = CReleasing" by (rule revoking_releasing [OF p_invD(3) [OF inv] rv])
  show ?thesis
  proof (rule lighterI [of _ c])
    show "p_weight (set_peer c ?x No_Call (s\<lparr>call := ?k\<rparr>)) c < p_weight s c"
      using st r rv k by (auto simp: p_weight_def set_peer_def role weight_def revoke_handler_done_def)
    show "p_weight (set_peer c ?x No_Call (s\<lparr>call := ?k\<rparr>)) d \<le> p_weight s d" if "d \<noteq> c" for d
      using that by (auto simp: p_weight_def set_peer_def role weight_def split: rpc_call.splits client_states.splits)
  qed
qed

text \<open>The server.\<close>

lemma weight_frame:
  assumes "k = Acq_Sent \<Longrightarrow> r = Retried \<Longrightarrow> r' = Retried"
  shows "weight r' x k \<le> weight r x k"
  using assms by (cases k) (auto simp: weight_def split: client_states.splits)

lemma role_Retried:
  "role_of l k c = Retried \<longleftrightarrow> server_state l = SRetrying \<and> client_retrying l = c \<and> c \<notin> clients_queue l \<and> \<not> retry_pending k"
  by (auto simp: role_of_def holder_def)

lemma serve_acquire_lighter:
  assumes inv: "p_inv lid s" and k: "call s c = Acq_Sent" and r: "lsc_acquire_lock lid c (sl s) = (ret, l, out)"
  shows "lighter s (s\<lparr>sl := l, call := (call s)(c := case out of None \<Rightarrow> Acq_Replied ret | Some oc \<Rightarrow> Acq_Calls oc ret)\<rparr>)"
    (is "lighter s (s\<lparr>sl := l, call := (call s)(c := ?k)\<rparr>)")
proof (rule lighterI [of _ c])
  note a = acq_sentD [OF inv k]
  have st: "client_state (lock (cl s c)) = CAcquiring" using a(2) by (simp add: asking_def)
  have "call_weight q (fpc (cl s c)) ?k < call_weight (role_of (sl s) (call s) c) (fpc (cl s c)) (call s c)" for q
    using r k a(1) by (cases "server_state (sl s)") (auto simp: lsc_acquire_lock_def role_of_def Let_def split: if_splits)
  then show "p_weight (s\<lparr>sl := l, call := (call s)(c := ?k)\<rparr>) c < p_weight s c"
    using st by (simp add: p_weight_def weight_def)
  show "p_weight (s\<lparr>sl := l, call := (call s)(c := ?k)\<rparr>) d \<le> p_weight s d" if "d \<noteq> c" for d
  proof -
    have "role_of l ((call s)(c := ?k)) d = Retried" if "role_of (sl s) (call s) d = Retried"
    proof -
      have "client_retrying (sl s) \<noteq> c" "server_state (sl s) = SRetrying" using that \<open>d \<noteq> c\<close> by (auto simp: role_Retried)
      then have "?k = Acq_Replied lp_RETRY" "l = (sl s)\<lparr>clients_queue := insert c (clients_queue (sl s))\<rparr>"
        using r by (auto simp: lsc_acquire_lock_def)
      then show ?thesis using that \<open>d \<noteq> c\<close> by (auto simp: role_Retried retry_pending_def)
    qed
    then show ?thesis using that by (simp add: p_weight_def weight_frame)
  qed
qed

lemma serve_release_lighter:
  assumes inv: "p_inv lid s" and k: "call s c = Rel_Sent" and r: "lsc_release_lock lid (sl s) = (l, out)"
  shows "lighter s (s\<lparr>sl := l, call := (call s)(c := case out of None \<Rightarrow> Rel_Replied | Some oc \<Rightarrow> Rel_Calls oc)\<rparr>)"
proof (rule lighterI [of _ c])
  note c = rel_sentD [OF inv, of c, simplified k, simplified]
  show "p_weight (s\<lparr>sl := l, call := (call s)(c := case out of None \<Rightarrow> Rel_Replied | Some oc \<Rightarrow> Rel_Calls oc)\<rparr>) c < p_weight s c"
    using c(5) k by (auto simp: p_weight_def weight_def giving_back_def split: option.splits)
  show "p_weight (s\<lparr>sl := l, call := (call s)(c := case out of None \<Rightarrow> Rel_Replied | Some oc \<Rightarrow> Rel_Calls oc)\<rparr>) d \<le> p_weight s d" if "d \<noteq> c" for d
    using that c(2) by (auto simp: p_weight_def role_Retried intro!: weight_frame)
qed

lemma revoke_lighter:
  assumes inv: "p_inv lid s" and k: "call s b = Acq_Calls out ret"
    and out: "out = RevokeHolder lid \<and> c = client_holding (sl s) \<or> out = RevokeClient c lid"
    and r: "revoke_handler (lock (cl s c)) = (gives, l)"
  shows "lighter s (s\<lparr>cl := (cl s)(c := (cl s c)\<lparr>lock := l, revoking := gives \<or> revoking (cl s c)\<rparr>),
      call := (if gives then (call s)(b := Acq_Revokes c ret, c := Rel_Sync) else (call s)(b := Acq_Replied ret))\<rparr>)"
    (is "lighter s ?s")
proof -
  note c = acq_callsD [OF inv k out]
  have b: "client_state (lock (cl s b)) = CAcquiring"
    using p_invD(4) [OF inv, of b] k by (cases "role_of (sl s) (call s) b") (auto simp: asking_def)
  have ret: "ret = lp_RETRY" if "b \<noteq> c" using c(6) that by blast
  have gives: "client_state (lock (cl s c)) = CFree" if gives using that r by (auto simp: revoke_handler_def split: if_splits)
  have fpc: "fpc ((cl s c)\<lparr>lock := l, revoking := gives \<or> revoking (cl s c)\<rparr>) = fpc (cl s c)"
    using r by (auto simp: fpc_def revoke_handler_def split: list.splits if_splits)
  have same: "d \<noteq> b \<Longrightarrow> d \<noteq> c \<Longrightarrow> p_weight ?s d \<le> p_weight s d" for d
    using c(2) by (auto simp: p_weight_def role_Retried intro!: weight_frame)
  have wb: "p_weight ?s b < p_weight s b"
  proof (cases "b = c")
    case True
    then have "\<not> gives" using gives b by auto
    then show ?thesis using True b c(6) k r fpc by (auto simp: p_weight_def weight_def revoke_handler_def split: if_splits)
  next
    case False
    then show ?thesis using ret b k by (auto simp: p_weight_def weight_def)
  qed
  have wc: "p_weight ?s c \<le> p_weight s c" if "b \<noteq> c"
  proof (cases gives)
    case True
    then show ?thesis using that gives r free_empty [OF p_invD(3) [OF inv], of c]
      by (auto simp: p_weight_def weight_def revoke_handler_def split: if_splits)
  next
    case False
    then have "l = (lock (cl s c))\<lparr>server_response := RRevoke\<rparr>" using r by (auto simp: revoke_handler_def split: if_splits)
    moreover have "call s c \<noteq> Acq_Sent" using c(3) by auto
    ultimately show ?thesis using that False fpc
      by (cases "call s c") (auto simp: p_weight_def weight_def split: client_states.splits)
  qed
  show ?thesis by (rule lighterI [OF wb]) (use same wc in blast)
qed

lemma retry_lighter:
  assumes inv: "p_inv lid s" and k: "call s a = Rel_Calls (RetryClient c lid)" and r: "retry_handler (lock (cl s c)) = (u, l)"
  shows "lighter s (s\<lparr>cl := (cl s)(c := (cl s c)\<lparr>lock := l, pcs := signal u (pcs (cl s c))\<rparr>), call := (call s)(a := Rel_Replied)\<rparr>)"
    (is "lighter s ?s")
proof -
  have pend: "retry_pending (call s)" using k by (auto simp: retry_pending_def)
  have a: "client_state (lock (cl s a)) = CReleasing"
    using p_invD(4) [OF inv, of a] k by (cases "role_of (sl s) (call s) a") (auto simp: giving_back_def)
  have st: "server_state (sl s) = SRetrying" "client_retrying (sl s) = c" using p_invD(2) [OF inv] k by (auto simp: outcalls_ok_def)
  have "role_of (sl s) (call s) c = Refused" using st pend p_invD(1) [OF inv] by (auto simp: role_of_def holder_def)
  then have c: "fits Refused (cl s c) (call s c)" using p_invD(4) [OF inv, of c] by simp
  then have ac: "a \<noteq> c" "client_state (lock (cl s c)) = CAcquiring" using k by (auto simp: asking_def)
  have "fpc ((cl s c)\<lparr>lock := l, pcs := signal u (pcs (cl s c))\<rparr>) = wake (fpc (cl s c))"
    using r by (auto simp: retry_handler_def front_def fpc_def signal_def split: list.splits)
  then have "p_weight ?s c \<le> p_weight s c"
    using ac c r by (auto simp: p_weight_def weight_def retry_handler_def)
  moreover have "p_weight ?s d \<le> p_weight s d" if "d \<noteq> a" "d \<noteq> c" for d
    using that pend by (auto simp: p_weight_def role_Retried intro!: weight_frame)
  moreover have "p_weight ?s a < p_weight s a" using a ac k by (simp add: p_weight_def weight_def)
  ultimately show ?thesis by (intro lighterI [of _ a]) auto
qed

lemma pc_of_not_Idle [simp]: "pc_of a \<noteq> Idle"
  by (cases a) simp_all

lemma wake_Idle [simp]: "wake p = Idle \<longleftrightarrow> p = Idle"
  by (cases p) simp_all

lemma signal_Idle [simp]: "ps t = Idle \<Longrightarrow> signal u ps t = Idle"
  by (auto simp: signal_def split: option.splits)

lemma work_lighter:
  assumes inv: "p_inv lid s" and "p_work lid s s'"
  shows "lighter s s'"
proof -
  from assms(2) have step: "p_step lid s s'" and idle: "\<And>c t. pcs (cl s c) t = Idle \<Longrightarrow> pcs (cl s' c) t = Idle"
    by (auto simp: p_work_def)
  from step show ?thesis
  proof cases
    case (p_enter c t)
    then show ?thesis using idle [of c t] by (simp add: advance_thread_def goto_def)
  qed (simp_all add: thread_lighter [OF inv] release_lighter [OF inv] revoke_done_lighter [OF inv]
      serve_acquire_lighter [OF inv] serve_release_lighter [OF inv] revoke_lighter [OF inv] retry_lighter [OF inv])
qed

lemma enter_weight:
  assumes inv: "p_inv lid s" and t: "pcs (cl s c) t = Idle" and "d \<noteq> c"
  shows "p_weight (advance_thread c t (lcc_acquire t (lock (cl s c))) (call s c) s) d = p_weight s d"
proof -
  let ?r = "lcc_acquire t (lock (cl s c))"
  have "call s c = No_Call" if "fst ?r = Rpc_Acquire"
    using that fits_calls(1) [OF p_invD(4) [OF inv, of c]]
    by (cases "client_state (lock (cl s c))") (auto simp: lcc_acquire_def rpc_acquire_enter_def split: if_splits)
  then have "call s c = (if fst ?r = Rpc_Acquire then Acq_Sent else call s c) \<or>
      plain (call s c) \<and> plain (if fst ?r = Rpc_Acquire then Acq_Sent else call s c)" by auto
  from pending_plain(1) [of "call s", OF this] show ?thesis using assms(3)
    by (simp add: p_weight_def advance_thread_def)
qed

text \<open>Only finitely many clients have anything left to do.\<close>

definition p_finite :: "u64 \<Rightarrow> 't lockp \<Rightarrow> bool" where
  "p_finite lid s \<longleftrightarrow> p_inv lid s \<and> finite {c. p_weight s c \<noteq> 0}"

lemma p_finite_work:
  assumes "p_finite lid s" and "p_work lid s s'"
  shows "p_finite lid s'" "p_measure s' < p_measure s"
proof -
  have inv: "p_inv lid s" and fin: "finite {c. p_weight s c \<noteq> 0}" using assms(1) by (auto simp: p_finite_def)
  obtain d where l: "\<And>c. p_weight s' c \<le> p_weight s c" "p_weight s' d < p_weight s d"
    using work_lighter [OF inv assms(2)] by (auto simp: lighter_def)
  show "p_finite lid s'" using sum_support_less(1) [of "p_weight s" "p_weight s'" d, OF fin l] p_step_inv [OF inv] assms(2)
    by (auto simp: p_finite_def p_work_def)
  show "p_measure s' < p_measure s"
    using sum_support_less(2) [of "p_weight s" "p_weight s'" d, OF fin l] by (simp add: p_measure_def)
qed

lemma p_finite_step:
  assumes fin: "p_finite lid s" and step: "p_step lid s s'"
  shows "p_finite lid s'"
proof (cases "p_work lid s s'")
  case True
  then show ?thesis using p_finite_work(1) [OF fin] by blast
next
  case False
  have inv: "p_inv lid s" using fin by (simp add: p_finite_def)
  from step have "p_work lid s s' \<or> (\<exists>c. \<forall>d. d \<noteq> c \<longrightarrow> p_weight s' d = p_weight s d)"
  proof cases
    case (p_enter c t)
    then show ?thesis using enter_weight [OF inv] by blast
  qed (use step in \<open>auto simp: p_work_def advance_thread_def goto_def set_peer_def signal_def split: option.splits\<close>)
  then obtain c where "\<And>d. d \<noteq> c \<Longrightarrow> p_weight s' d = p_weight s d" using False by blast
  then have "{d. p_weight s' d \<noteq> 0} \<subseteq> insert c {d. p_weight s d \<noteq> 0}" by auto
  then show ?thesis using fin p_step_inv [OF inv step] finite_subset by (auto simp: p_finite_def)
qed

interpretation lf: invariant_system p_start "p_step lid" "p_finite lid" for lid
proof
  show "p_finite lid s" if s: "p_start s" for s
  proof -
    have "p_weight s c = 0" for c using s by (simp add: p_start_def p_weight_def weight_def lcc_start_def new_client_lock_def)
    then show ?thesis using p_start_inv [OF s] by (simp add: p_finite_def)
  qed
qed (rule p_finite_step)

section \<open>Progress\<close>

lemma p_workI:
  assumes "p_step lid s s'" and "\<And>c t. pcs (cl s c) t = Idle \<Longrightarrow> pcs (cl s' c) t = Idle"
  shows "\<exists>s'. p_work lid s s'"
  using assms by (auto simp: p_work_def)

lemma front_thread:
  assumes "lcc_inv x" and "fpc x \<noteq> Idle"
  obtains t ts where "threads_queue (lock x) = t # ts" "pcs x t = fpc x"
  using assms by (auto simp: fpc_def split: list.splits)

lemma release_call_progress:
  assumes inv: "p_inv lid s" and st: "client_state (lock (cl s c)) = CReleasing"
  shows "\<exists>s'. p_work lid s s'"
proof -
  note lcc = p_invD(3) [OF inv, of c]
  consider "call s c = Rel_Sync" | "call s c = Rel_Sent" | "call s c = Rel_Replied" | oc where "call s c = Rel_Calls oc"
    using fits_calls(3) [OF p_invD(4) [OF inv] st] by blast
  then show ?thesis
  proof cases
    case 1
    then show ?thesis by (intro p_workI [OF p_synced]) (auto simp: set_peer_def)
  next
    case 2
    obtain l out where "lsc_release_lock lid (sl s) = (l, out)" by fastforce
    then show ?thesis by (intro p_workI [OF p_serve_release [OF 2]]) auto
  next
    case 3
    show ?thesis
    proof (cases "revoking (cl s c)")
      case True
      obtain u l where "revoke_handler_done (lock (cl s c)) = (u, l)" by fastforce
      from p_revoke_done [of s c, OF True 3 this] show ?thesis by (rule p_workI) (auto simp: set_peer_def)
    next
      case False
      then obtain t ts where t: "threads_queue (lock (cl s c)) = t # ts" "pcs (cl s c) t = In_Release"
        using lcc st by (cases "threads_queue (lock (cl s c))") (auto simp: lcc_inv_def)
      obtain u l' where "lcc_release_pop False (lcc_release_done (lock (cl s c))) = Inr (u, l')"
        using t(1) by (cases ts) (auto simp: lcc_release_pop_def lcc_release_done_def)
      from p_release_done [of s c t, OF t(2) 3 this] show ?thesis by (rule p_workI) (auto simp: set_peer_def)
    qed
  next
    case 4
    then obtain d where d: "call s c = Rel_Calls (RetryClient d lid)" using p_invD(2) [OF inv] unfolding outcalls_ok_def by blast
    obtain u l where "retry_handler (lock (cl s d)) = (u, l)" by fastforce
    from p_retry [of s c d, OF d this] show ?thesis by (rule p_workI) auto
  qed
qed

lemma call_progress:
  assumes inv: "p_inv lid s" and k: "call s c \<noteq> No_Call"
  shows "\<exists>s'. p_work lid s s'"
proof -
  note f = p_invD(4) [OF inv, of c]
  show ?thesis
  proof (cases "call s c")
    case Acq_Sent
    obtain ret l out where "lsc_acquire_lock lid c (sl s) = (ret, l, out)" by (metis surj_pair)
    from p_serve_acquire [of s c, OF Acq_Sent this] show ?thesis by (rule p_workI) auto
  next
    case (Acq_Calls out ret)
    then have "out = RevokeHolder lid \<and> client_holding (sl s) = client_holding (sl s) \<or> out = RevokeClient (client_holding (sl s)) lid"
      using p_invD(2) [OF inv] by (auto simp: outcalls_ok_def)
    moreover obtain g l where "revoke_handler (lock (cl s (client_holding (sl s)))) = (g, l)" by fastforce
    ultimately show ?thesis by (intro p_workI [OF p_revoke [OF Acq_Calls]]) auto
  next
    case (Acq_Revokes d ret)
    then have "client_state (lock (cl s d)) = CReleasing" using p_invD(3,5) [OF inv] revoking_releasing by blast
    then show ?thesis by (rule release_call_progress [OF inv])
  next
    case (Acq_Replied ret)
    then have "asking (cl s c)" using f by (cases "role_of (sl s) (call s) c") (auto simp: giving_back_def)
    then obtain t where "pcs (cl s c) t = In_Rpc"
      using front_thread [OF p_invD(3) [OF inv, of c]] by (auto simp: asking_def)
    from p_reply [of s c t, OF this Acq_Replied] show ?thesis by (rule p_workI) (auto simp: advance_thread_def goto_def \<open>pcs (cl s c) t = In_Rpc\<close>)
  qed (use f k in \<open>cases "role_of (sl s) (call s) c"; auto simp: giving_back_def intro: release_call_progress [OF inv]\<close>)+
qed

text \<open>A woken thread, or one that holds the lock, can go on.\<close>

lemma thread_progress:
  assumes inv: "p_inv lid s" and t: "pcs (cl s c) t \<in> {Woke_Turn, Woke_Releasing, Woke_Retry, Holding}"
  shows "\<exists>s'. p_work lid s s'"
proof -
  consider "pcs (cl s c) t = Woke_Turn" | "pcs (cl s c) t = Woke_Releasing" | "pcs (cl s c) t = Woke_Retry" | "pcs (cl s c) t = Holding"
    using t by blast
  then show ?thesis
  proof cases
    case 1
    show ?thesis by (rule p_workI [OF p_turn [of s c, OF 1]]) (auto simp: advance_thread_def goto_def 1)
  next
    case 2
    show ?thesis by (rule p_workI [OF p_released [of s c, OF 2]]) (auto simp: advance_thread_def goto_def 2)
  next
    case 3
    show ?thesis by (rule p_workI [OF p_retried [of s c, OF 3]]) (auto simp: advance_thread_def goto_def 3)
  next
    case 4
    obtain b l where r: "lcc_release (lock (cl s c)) = (b, l)" by fastforce
    show ?thesis
    proof (cases b)
      case True
      with r show ?thesis by (intro p_workI [OF p_release_rpc [of s c t l, OF 4]]) (auto simp: set_peer_def 4)
    next
      case False
      obtain ts where "threads_queue l = t # ts" using holding_p_inv(3) [OF inv 4] r by (auto simp: lcc_release_def split: if_splits)
      then obtain u l' where "lcc_release_pop True l = Inr (u, l')" by (cases ts) (auto simp: lcc_release_pop_def Let_def)
      with r False show ?thesis by (intro p_workI [OF p_release_cached [of s c t l, OF 4]]) (auto simp: set_peer_def)
    qed
  qed
qed

lemma front_progress:
  assumes inv: "p_inv lid s" and k: "call s c = No_Call" and q: "threads_queue (lock (cl s c)) \<noteq> []"
    and st: "client_state (lock (cl s c)) = CAcquiring \<Longrightarrow> fpc (cl s c) \<noteq> At_Retry"
  shows "\<exists>s'. p_work lid s s'"
proof -
  obtain t ts where t: "threads_queue (lock (cl s c)) = t # ts" using q by (cases "threads_queue (lock (cl s c))") auto
  then have f: "front_ok (client_state (lock (cl s c))) (revoking (cl s c)) (pcs (cl s c) t)" "fpc (cl s c) = pcs (cl s c) t"
    using p_invD(3) [OF inv, of c] by (auto simp: lcc_inv_def fpc_def)
  have "pcs (cl s c) t \<in> {Woke_Turn, Woke_Releasing, Woke_Retry, Holding}"
    using f st k p_invD(4) [OF inv, of c]
    by (cases "client_state (lock (cl s c))"; cases "role_of (sl s) (call s) c") (auto simp: asking_def giving_back_def split: if_splits)
  then show ?thesis by (rule thread_progress [OF inv])
qed

lemma p_progress:
  assumes inv: "p_inv lid s" and t: "pcs (cl s c) t \<noteq> Idle"
  shows "\<exists>s'. p_work lid s s'"
proof (cases "\<exists>d. call s d \<noteq> No_Call")
  case True
  then show ?thesis using call_progress [OF inv] by blast
next
  case False
  then have k: "call s d = No_Call" for d by simp
  then have p: "\<not> revoke_pending (call s)" "\<not> retry_pending (call s)" by (simp_all add: revoke_pending_def retry_pending_def)
  have q: "threads_queue (lock (cl s c)) \<noteq> []" using p_invD(3) [OF inv, of c] t by (auto simp: lcc_inv_def)
  show ?thesis
  proof (cases "client_state (lock (cl s c)) = CAcquiring \<and> fpc (cl s c) = At_Retry")
    case False
    then show ?thesis using front_progress [OF inv k q] by blast
  next
    case True
    then have "role_of (sl s) (call s) c = Refused"
      using p_invD(4) [OF inv, of c] k by (cases "role_of (sl s) (call s) c") (auto simp: asking_def giving_back_def)
    then have cq: "c \<in> clients_queue (sl s)" using p by (auto simp: role_of_def split: if_splits)
    then have "server_state (sl s) \<in> {SRevoking, SRetrying}"
      using p_invD(1) [OF inv] by (cases "server_state (sl s)") (auto simp: lock_wf_def)
    then obtain d where d: "role_of (sl s) (call s) d \<in> {Revoked, Retried}"
    proof (cases "server_state (sl s)")
      case SRevoking
      then show ?thesis using p that [of "client_holding (sl s)"] by (simp add: role_of_def holder_def)
    next
      case SRetrying
      then show ?thesis using p p_invD(1) [OF inv] that [of "client_retrying (sl s)"]
        by (simp add: role_of_def holder_def lock_wf_def)
    qed auto
    then have f: "client_state (lock (cl s d)) = CLocked \<or> fpc (cl s d) = Woke_Retry"
      using p_invD(4) [OF inv, of d] k by auto
    then have "threads_queue (lock (cl s d)) \<noteq> []"
      using p_invD(3) [OF inv, of d] by (auto simp: lcc_inv_def fpc_def split: list.splits)
    with f show ?thesis using front_progress [OF inv k, of d] by auto
  qed
qed

section \<open>Properties\<close>

text \<open>
  Where the callbacks go: a revoke to the holder, which has the lock in its cache or whose grant is on its
  way; a retry, when nobody holds the lock, to a client whose acquire was refused.
\<close>

lemma revoke_target:
  assumes inv: "p_inv lid s" and k: "call s c = Acq_Calls out ret"
  shows "\<exists>h. holder (sl s) = Some h \<and> (out = RevokeHolder lid \<and> client_holding (sl s) = h \<or> out = RevokeClient h lid) \<and>
    (client_state (lock (cl s h)) \<in> {CFree, CLocked} \<or> call s h = Acq_Replied lp_OK \<or> (\<exists>oc. call s h = Acq_Calls oc lp_OK))"
proof -
  have out: "out = RevokeHolder lid \<and> client_holding (sl s) = client_holding (sl s) \<or> out = RevokeClient (client_holding (sl s)) lid"
    using p_invD(2) [OF inv] k unfolding outcalls_ok_def by blast
  note d = acq_callsD [OF inv k out]
  from d(3) have "client_state (lock (cl s (client_holding (sl s)))) \<in> {CFree, CLocked} \<or> call s (client_holding (sl s)) = Acq_Replied lp_OK \<or>
      (\<exists>oc. call s (client_holding (sl s)) = Acq_Calls oc lp_OK)" by auto
  with d(1) out show ?thesis by blast
qed

lemma retry_target:
  assumes inv: "p_inv lid s" and k: "call s c = Rel_Calls out"
  shows "\<exists>d. out = RetryClient d lid \<and> holder (sl s) = None \<and> client_state (lock (cl s d)) = CAcquiring \<and>
    ((\<exists>t. pcs (cl s d) t = At_Retry) \<or> (\<exists>oc. call s d = Acq_Calls oc lp_RETRY) \<or> (\<exists>e. call s d = Acq_Revokes e lp_RETRY) \<or>
     call s d = Acq_Replied lp_RETRY)"
proof -
  let ?d = "client_retrying (sl s)"
  have st: "server_state (sl s) = SRetrying" "out = RetryClient ?d lid"
    using p_invD(2) [OF inv] k unfolding outcalls_ok_def by blast+
  have "retry_pending (call s)" using k by (auto simp: retry_pending_def)
  then have "role_of (sl s) (call s) ?d = Refused" using st by (simp add: role_of_def holder_def)
  then have "fits Refused (cl s ?d) (call s ?d)" using p_invD(4) [OF inv, of ?d] by simp
  then have "client_state (lock (cl s ?d)) = CAcquiring \<and> ((\<exists>t. pcs (cl s ?d) t = At_Retry) \<or> (\<exists>oc. call s ?d = Acq_Calls oc lp_RETRY) \<or>
      (\<exists>e. call s ?d = Acq_Revokes e lp_RETRY) \<or> call s ?d = Acq_Replied lp_RETRY)"
    by (auto simp: asking_def fpc_def split: list.splits)
  with st show ?thesis by (simp add: holder_def)
qed

text \<open>
  C4 (safety). The lock protocol as a whole gives mutual exclusion: in every interleaving of the threads
  of all clients, of the handlers and of the messages between clients and server in which a wait returns
  only when it is signalled, at most one thread of one client has returned from \<^verbatim>\<open>acquire\<close> without having
  called \<^verbatim>\<open>release\<close>, and the server has that client as the holder; only the holder sends a release; a
  revoke, of either kind, is sent only to the holder, which has the lock in its cache or whose grant is on its way;
  a retry is sent only when nobody holds the lock and only to a client whose acquire was refused; and no
  thread returns with the mutex held.
\<close>

theorem lock_protocol_exclusion:
  assumes "reach p_start (p_step lid) s"
  shows "(pcs (cl s c) t = Holding \<and> pcs (cl s d) u = Holding \<longrightarrow> c = d \<and> t = u) \<and>
    (pcs (cl s c) t = Holding \<longrightarrow> holder (sl s) = Some c) \<and>
    (call s c = Rel_Sent \<longrightarrow> holder (sl s) = Some c) \<and>
    (call s c = Acq_Calls out ret \<longrightarrow>
       (\<exists>h. holder (sl s) = Some h \<and> (out = RevokeHolder lid \<and> client_holding (sl s) = h \<or> out = RevokeClient h lid) \<and>
          (client_state (lock (cl s h)) \<in> {CFree, CLocked} \<or> call s h = Acq_Replied lp_OK \<or> (\<exists>oc. call s h = Acq_Calls oc lp_OK)))) \<and>
    (call s c = Rel_Calls out \<longrightarrow>
       (\<exists>d. out = RetryClient d lid \<and> holder (sl s) = None \<and> client_state (lock (cl s d)) = CAcquiring \<and>
          ((\<exists>t. pcs (cl s d) t = At_Retry) \<or> (\<exists>oc. call s d = Acq_Calls oc lp_RETRY) \<or>
           (\<exists>e. call s d = Acq_Revokes e lp_RETRY) \<or> call s d = Acq_Replied lp_RETRY))) \<and>
    pcs (cl s c) t \<noteq> Stuck"
proof -
  have inv: "p_inv lid s" using assms by (rule lp.reach_invar)
  note holder = holding_holder [OF inv]
  have same: "c = d \<and> t = u" if "pcs (cl s c) t = Holding" "pcs (cl s d) u = Holding"
  proof -
    have "c = d" using holder [OF that(1)] holder [OF that(2)] by simp
    then show ?thesis using holding_front(2) [OF p_invD(3) [OF inv], of c u t] that by simp
  qed
  show ?thesis
    by (intro conjI impI; (rule revoke_target [OF inv] retry_target [OF inv], assumption)?)
       (use same holder never_stuck [OF p_invD(3) [OF inv]] rel_sentD(1) [OF inv, of c] in auto)
qed

text \<open>
  C5 (termination). Every thread that asks for the lock gets it: from every reachable state, a run in
  which no new thread calls \<^verbatim>\<open>acquire\<close> is finite, and where it cannot go on every thread is idle, that
  is, has had the lock and has released it. So no wake-up, revoke or retry is ever lost, whatever
  the order in which messages arrive.
\<close>

theorem lock_protocol_terminates:
  assumes "reach p_start (p_step lid) s"
  shows "(\<nexists>f. f (0 :: nat) = s \<and> (\<forall>i. p_work lid (f i) (f (Suc i)))) \<and>
    (\<forall>s'. (p_work lid)\<^sup>*\<^sup>* s s' \<and> (\<nexists>s''. p_work lid s' s'') \<longrightarrow> (\<forall>c t. pcs (cl s' c) t = Idle))"
proof
  have fin: "p_finite lid s" using assms by (rule lf.reach_invar)
  show "\<nexists>f. f (0 :: nat) = s \<and> (\<forall>i. p_work lid (f i) (f (Suc i)))"
  proof
    assume "\<exists>f. f (0 :: nat) = s \<and> (\<forall>i. p_work lid (f i) (f (Suc i)))"
    then obtain f where f: "f (0 :: nat) = s" "\<And>i. p_work lid (f i) (f (Suc i))" by blast
    have "p_finite lid (f i)" for i by (induction i) (use f fin p_finite_work(1) in auto)
    then have "p_measure (f (Suc i)) < p_measure (f i)" for i using f(2) p_finite_work(2) by blast
    then have "(f (Suc i), f i) \<in> measure p_measure" for i by simp
    then show False using wf_measure [of p_measure] unfolding wf_iff_no_infinite_down_chain by blast
  qed
  have "p_finite lid s'" if "(p_work lid)\<^sup>*\<^sup>* s s'" for s'
    using that by (induction rule: rtranclp_induct) (use fin p_finite_work(1) in blast)+
  then have "pcs (cl s' c) t = Idle" if "(p_work lid)\<^sup>*\<^sup>* s s'" "\<nexists>s''. p_work lid s' s''" for s' c t
    using that p_progress [of lid s' c t] by (auto simp: p_finite_def)
  then show "\<forall>s'. (p_work lid)\<^sup>*\<^sup>* s s' \<and> (\<nexists>s''. p_work lid s' s'') \<longrightarrow> (\<forall>c t. pcs (cl s' c) t = Idle)" by blast
qed

lemma lp1_reach: "reach p_start (p_step 7) lp1"
proof -
  have "reach p_start (p_step 7) lp0" by (rule reach_start) (rule lp0_start)
  then show ?thesis using lp1_steps [of 7] by (meson reach_step)
qed

theorem lock_protocol_exclusion_witness:
  "holder (sl lp1) = Some ''a'' \<and> pcs (cl lp1 ''a'') 1 = Holding \<and> pcs (cl lp1 ''b'') 2 \<noteq> Holding"
proof -
  have a: "pcs (cl lp1 ''a'') 1 = Holding" by (simp add: lp1_def lcc1_def)
  moreover have "holder (sl lp1) = Some ''a''" using lock_protocol_exclusion [OF lp1_reach, of "''a''" 1] a by blast
  moreover have "pcs (cl lp1 ''b'') 2 \<noteq> Holding" using lock_protocol_exclusion [OF lp1_reach, of "''a''" 1 "''b''" 2] a by auto
  ultimately show ?thesis by blast
qed

theorem lock_protocol_terminates_witness:
  "pcs (cl lp1 ''a'') 1 \<noteq> Idle \<and> (\<nexists>f. f (0 :: nat) = lp1 \<and> (\<forall>i. p_work 7 (f i) (f (Suc i))))"
  using lock_protocol_terminates [OF lp1_reach] by (simp add: lp1_def lcc1_def)

end
