(* ===== verification/Lock_Tester.thy ===== *)
theory Lock_Tester
  imports Lock_Protocol
begin

text \<open>
  The lock tester \<^verbatim>\<open>lock_tester.cc\<close>, a client of the lock protocol: several threads acquire and release
  locks through several lock clients and count the grants. The tests are lists of actions, which the
  threads of a test run concurrently; a lock action is a run of the protocol.
\<close>

section \<open>The tests\<close>

definition nt :: nat where "nt = 6"

definition lock_a :: u64 where "lock_a = 1"
definition lock_b :: u64 where "lock_b = 2"

definition check_grant :: "u64 \<Rightarrow> (nat \<Rightarrow> int) \<Rightarrow> (nat \<Rightarrow> int) res" where
  "check_grant lid ct =
     (let x = unat (and lid 0xff) in
      if ct x \<noteq> 0 then Inl Exit else Inr (ct(x := ct x + 1)))"

definition check_release :: "u64 \<Rightarrow> (nat \<Rightarrow> int) \<Rightarrow> (nat \<Rightarrow> int) res" where
  "check_release lid ct =
     (let x = unat (and lid 0xff) in
      if ct x \<noteq> 1 then Inl Exit else Inr (ct(x := ct x - 1)))"

text \<open>\<open>Acq i lid\<close> is \<^verbatim>\<open>lc[i]->acquire(lid)\<close>.\<close>

datatype act = Acq nat u64 | Rel nat u64 | Grant u64 | Ungrant u64

definition test1 :: "act list" where
  "test1 =
     [Acq 0 lock_a, Grant lock_a, Rel 0 lock_a, Ungrant lock_a,
      Acq 0 lock_a, Grant lock_a, Rel 0 lock_a, Ungrant lock_a,
      Acq 0 lock_a, Grant lock_a, Acq 0 lock_b, Grant lock_b,
      Rel 0 lock_b, Ungrant lock_b, Rel 0 lock_a, Ungrant lock_a]"

definition test2 :: "nat \<Rightarrow> act list" where
  "test2 i = [Acq i lock_a, Grant lock_a, Ungrant lock_a, Rel i lock_a]"

definition test3 :: "nat \<Rightarrow> act list" where
  "test3 i = concat (map (\<lambda>j. [Acq i lock_a, Grant lock_a, Ungrant lock_a, Rel i lock_a]) [0..<10])"

definition test4 :: "nat \<Rightarrow> act list" where
  "test4 i = concat (map (\<lambda>j. [Acq 0 lock_a, Grant lock_a, Ungrant lock_a, Rel 0 lock_a]) [0..<10])"

definition test5 :: "nat \<Rightarrow> act list" where
  "test5 i = concat (map (\<lambda>j.
     [if i < 5 then Acq 0 lock_a else Acq 1 lock_a, Grant lock_a, Ungrant lock_a,
      if i < 5 then Rel 0 lock_a else Rel 1 lock_a]) [0..<10])"

text \<open>
  The tests that \<^verbatim>\<open>main\<close> runs one after the other, each with the threads it starts and joins; \<open>arg\<close> is
  \<^verbatim>\<open>atoi(argv[2])\<close>. Thread creation succeeds. The lock clients that \<^verbatim>\<open>main\<close> makes have no \<^verbatim>\<open>ec_handle\<close>: see \<open>t_undefined\<close>.
\<close>

definition tester_main :: "nat \<Rightarrow> int \<Rightarrow> act list list list res" where
  "tester_main argc arg =
     (if argc < 2 then Inl Exit
      else if argc > 2 \<and> (arg < 1 \<or> arg > 5) then Inl Exit
      else
        let test = (if argc > 2 then arg else 0) in
        Inr ((if test = 0 \<or> test = 1 then [[test1]] else []) @
             (if test = 0 \<or> test = 2 then [map test2 [0..<nt]] else []) @
             (if test = 0 \<or> test = 3 then [map test3 [0..<nt]] else []) @
             (if test = 0 \<or> test = 4 then [map test4 [0..<2]] else []) @
             (if test = 0 \<or> test = 5 then [map test5 [0..<nt]] else [])))"

section \<open>Running the tests\<close>

text \<open>
  \<open>ec_set\<close> says whether the lock clients' \<^verbatim>\<open>ec_handle\<close> has been assigned. Only \<^verbatim>\<open>yfs_client\<close> does that: the tester's
  \<^verbatim>\<open>main\<close> makes its clients with \<^verbatim>\<open>new lock_client_cache(dst)\<close>, whose constructor leaves the pointer uninitialised.
\<close>

record tester =
  ec_set :: bool
  tlocks :: "u64 \<Rightarrow> nat lockp"
  counts :: "nat \<Rightarrow> int"
  todo :: "nat \<Rightarrow> act list"
  phases :: "act list list list"

definition pc_at :: "(nat \<Rightarrow> string) \<Rightarrow> tester \<Rightarrow> u64 \<Rightarrow> nat \<Rightarrow> nat \<Rightarrow> pc" where
  "pc_at cid s l i j = pcs (cl (tlocks s l) (cid i)) j"

text \<open>A step of the protocol in which every thread outside the calls stays where it is.\<close>

definition p_background :: "u64 \<Rightarrow> nat lockp \<Rightarrow> nat lockp \<Rightarrow> bool" where
  "p_background lid s s' \<longleftrightarrow> p_step lid s s' \<and>
     (\<forall>c t. (pcs (cl s c) t = Idle \<longrightarrow> pcs (cl s' c) t = Idle) \<and> (pcs (cl s c) t = Holding \<longrightarrow> pcs (cl s' c) t = Holding))"

text \<open>A step of the protocol in which thread \<open>j\<close> of client \<open>c\<close> may begin a call; the other threads outside the calls stay.\<close>

definition p_begins :: "u64 \<Rightarrow> string \<Rightarrow> nat \<Rightarrow> nat lockp \<Rightarrow> nat lockp \<Rightarrow> bool" where
  "p_begins lid c j s s' \<longleftrightarrow> p_step lid s s' \<and>
     (\<forall>d t. (d, t) \<noteq> (c, j) \<longrightarrow>
        (pcs (cl s d) t = Idle \<longrightarrow> pcs (cl s' d) t = Idle) \<and> (pcs (cl s d) t = Holding \<longrightarrow> pcs (cl s' d) t = Holding))"

text \<open>\<open>cid i\<close> is the identity that the lock client \<^verbatim>\<open>lc[i]\<close> has at the server.\<close>

inductive t_step :: "(nat \<Rightarrow> string) \<Rightarrow> tester \<Rightarrow> tester \<Rightarrow> bool" for cid where
  t_background: "p_background l (tlocks s l) p \<Longrightarrow> t_step cid s (s\<lparr>tlocks := (tlocks s)(l := p)\<rparr>)"
| t_acquire: "todo s j = Acq i l # acts \<Longrightarrow> pc_at cid s l i j = Idle \<Longrightarrow> p_begins l (cid i) j (tlocks s l) p \<Longrightarrow>
    t_step cid s (s\<lparr>tlocks := (tlocks s)(l := p)\<rparr>)"
| t_acquired: "todo s j = Acq i l # acts \<Longrightarrow> pc_at cid s l i j = Holding \<Longrightarrow>
    t_step cid s (s\<lparr>todo := (todo s)(j := acts)\<rparr>)"
| t_release: "todo s j = Rel i l # acts \<Longrightarrow> pc_at cid s l i j = Holding \<Longrightarrow> p_begins l (cid i) j (tlocks s l) p \<Longrightarrow>
    t_step cid s (s\<lparr>tlocks := (tlocks s)(l := p)\<rparr>)"
| t_released: "todo s j = Rel i l # acts \<Longrightarrow> pc_at cid s l i j = Idle \<Longrightarrow>
    t_step cid s (s\<lparr>todo := (todo s)(j := acts)\<rparr>)"
| t_grant: "todo s j = Grant l # acts \<Longrightarrow> check_grant l (counts s) = Inr ct \<Longrightarrow>
    t_step cid s (s\<lparr>counts := ct, todo := (todo s)(j := acts)\<rparr>)"
| t_ungrant: "todo s j = Ungrant l # acts \<Longrightarrow> check_release l (counts s) = Inr ct \<Longrightarrow>
    t_step cid s (s\<lparr>counts := ct, todo := (todo s)(j := acts)\<rparr>)"
| t_phase: "\<forall>j. todo s j = [] \<Longrightarrow> phases s = ps # rest \<Longrightarrow>
    t_step cid s (s\<lparr>todo := \<lambda>j. if j < length ps then ps ! j else [], phases := rest\<rparr>)"

text \<open>
  A client that gives a lock back calls \<^verbatim>\<open>ec_handle->sync\<close> first, in \<^verbatim>\<open>release\<close> and in the revoke handler. Through an
  uninitialised pointer this is undefined, and the run of the tester ends there.
\<close>

definition t_undefined :: "tester \<Rightarrow> bool" where
  "t_undefined s \<longleftrightarrow> \<not> ec_set s \<and> (\<exists>l c. call (tlocks s l) c = Rel_Sync)"

definition t_run :: "(nat \<Rightarrow> string) \<Rightarrow> tester \<Rightarrow> tester \<Rightarrow> bool" where
  "t_run cid s s' \<longleftrightarrow> \<not> t_undefined s \<and> t_step cid s s'"

lemma t_run_step: "reach I (t_run cid) s \<Longrightarrow> \<not> t_undefined s \<Longrightarrow> t_step cid s s' \<Longrightarrow> reach I (t_run cid) s'"
  by (auto simp: t_run_def intro: reach_step)

definition t_start :: "bool \<Rightarrow> act list list list \<Rightarrow> tester \<Rightarrow> bool" where
  "t_start ec ps s \<longleftrightarrow> ec_set s = ec \<and> (\<forall>l. p_start (tlocks s l)) \<and> counts s = (\<lambda>_. 0) \<and> todo s = (\<lambda>_. []) \<and> phases s = ps"

section \<open>Invariant\<close>

text \<open>The test with one thread: its checks succeed in the order of the program, and leave no grant.\<close>

fun solo :: "(nat \<Rightarrow> int) \<Rightarrow> act list \<Rightarrow> bool" where
  "solo ct [] \<longleftrightarrow> (\<forall>x. ct x = 0)"
| "solo ct (Grant l # acts) \<longleftrightarrow> (case check_grant l ct of Inl _ \<Rightarrow> False | Inr ct \<Rightarrow> solo ct acts)"
| "solo ct (Ungrant l # acts) \<longleftrightarrow> (case check_release l ct of Inl _ \<Rightarrow> False | Inr ct \<Rightarrow> solo ct acts)"
| "solo ct (_ # acts) \<longleftrightarrow> solo ct acts"

text \<open>The tests with several threads: each thread checks only while it holds the lock.\<close>

datatype stage = Before | Held | Inside | Leaving

fun wrapped :: "nat \<Rightarrow> stage \<Rightarrow> act list \<Rightarrow> bool" where
  "wrapped i Before [] \<longleftrightarrow> True"
| "wrapped i Before (x # acts) \<longleftrightarrow> x = Acq i lock_a \<and> wrapped i Held acts"
| "wrapped i Held (x # acts) \<longleftrightarrow> x = Grant lock_a \<and> wrapped i Inside acts"
| "wrapped i Inside (x # acts) \<longleftrightarrow> x = Ungrant lock_a \<and> wrapped i Leaving acts"
| "wrapped i Leaving (x # acts) \<longleftrightarrow> x = Rel i lock_a \<and> wrapped i Before acts"
| "wrapped i g [] \<longleftrightarrow> False"

definition team :: "(nat \<Rightarrow> string) \<Rightarrow> tester \<Rightarrow> (nat \<Rightarrow> nat) \<Rightarrow> (nat \<Rightarrow> stage) \<Rightarrow> bool" where
  "team cid s who at \<longleftrightarrow>
     (\<forall>j. wrapped (who j) (at j) (todo s j) \<and> (at j \<in> {Held, Inside} \<longrightarrow> pc_at cid s lock_a (who j) j = Holding)) \<and>
     counts s = (\<lambda>x. if x = 1 \<and> (\<exists>j. at j = Inside) then 1 else 0)"

definition phase_ok :: "act list list \<Rightarrow> bool" where
  "phase_ok ps \<longleftrightarrow> (\<exists>acts. ps = [acts] \<and> solo (\<lambda>_. 0) acts) \<or> (\<forall>j < length ps. \<exists>i. wrapped i Before (ps ! j))"

definition t_inv :: "(nat \<Rightarrow> string) \<Rightarrow> tester \<Rightarrow> bool" where
  "t_inv cid s \<longleftrightarrow> (\<forall>l. p_inv l (tlocks s l)) \<and> (\<forall>ps \<in> set (phases s). phase_ok ps) \<and>
     ((\<forall>j. j \<noteq> 0 \<longrightarrow> todo s j = []) \<and> solo (counts s) (todo s 0) \<or> (\<exists>who at. team cid s who at))"

lemma lock_index: "unat (and lock_a 0xff) = 1" "unat (and lock_b 0xff) = 2"
  by (simp_all add: lock_a_def lock_b_def)

lemma wrapped_Grant: "wrapped i g (Grant l # acts) \<longleftrightarrow> g = Held \<and> l = lock_a \<and> wrapped i Inside acts"
  and wrapped_Ungrant: "wrapped i g (Ungrant l # acts) \<longleftrightarrow> g = Inside \<and> l = lock_a \<and> wrapped i Leaving acts"
  and wrapped_Acq: "wrapped i g (Acq i' l # acts) \<longleftrightarrow> g = Before \<and> i' = i \<and> l = lock_a \<and> wrapped i Held acts"
  and wrapped_Rel: "wrapped i g (Rel i' l # acts) \<longleftrightarrow> g = Leaving \<and> i' = i \<and> l = lock_a \<and> wrapped i Before acts"
  and wrapped_Nil: "wrapped i g [] \<longleftrightarrow> g = Before"
  by (cases g; auto)+

lemmas wrapped_acts = wrapped_Grant wrapped_Ungrant wrapped_Acq wrapped_Rel wrapped_Nil

text \<open>Two threads that hold the lock are one.\<close>

lemma one_holds:
  assumes inv: "p_inv l (tlocks s l)"
    and "pc_at cid s l i j = Holding" and "pc_at cid s l i' j' = Holding"
  shows "j' = j"
proof -
  have "cid i = cid i'" using holding_holder [OF inv, of "cid i" j] holding_holder [OF inv, of "cid i'" j'] assms(2,3)
    by (simp add: pc_at_def)
  then show ?thesis using holding_front(2) [OF p_invD(3) [OF inv], of "cid i" j j'] assms(2,3) by (simp add: pc_at_def)
qed

lemma team_checks:
  assumes inv: "p_inv lock_a (tlocks s lock_a)" and team: "team cid s who at"
  shows "todo s j = Grant l # acts \<Longrightarrow> \<exists>ct. check_grant l (counts s) = Inr ct \<and>
      team cid (s\<lparr>counts := ct, todo := (todo s)(j := acts)\<rparr>) who (at(j := Inside))"
    and "todo s j = Ungrant l # acts \<Longrightarrow> \<exists>ct. check_release l (counts s) = Inr ct \<and>
      team cid (s\<lparr>counts := ct, todo := (todo s)(j := acts)\<rparr>) who (at(j := Leaving))"
proof -
  have w: "wrapped (who k) (at k) (todo s k)" "at k \<in> {Held, Inside} \<Longrightarrow> pc_at cid s lock_a (who k) k = Holding" for k
    using team by (auto simp: team_def)
  have ct: "counts s = (\<lambda>x. if x = 1 \<and> (\<exists>j. at j = Inside) then 1 else 0)" using team by (simp add: team_def)
  have one: "k = j" if "at j \<in> {Held, Inside}" "at k \<in> {Held, Inside}" for j k
    using one_holds [OF inv w(2) [OF that(1)] w(2) [OF that(2)]] .
  show "\<exists>ct. check_grant l (counts s) = Inr ct \<and> team cid (s\<lparr>counts := ct, todo := (todo s)(j := acts)\<rparr>) who (at(j := Inside))"
    if "todo s j = Grant l # acts"
  proof -
    have j: "at j = Held" "l = lock_a" "wrapped (who j) Inside acts" using w(1) [of j] that by (simp_all add: wrapped_acts)
    have "at k \<noteq> Inside" for k using one [of j k] j(1) by auto
    then have "check_grant l (counts s) = Inr ((counts s)(1 := 1))" by (simp add: check_grant_def j(2) lock_index ct)
    moreover have "team cid (s\<lparr>counts := (counts s)(1 := 1), todo := (todo s)(j := acts)\<rparr>) who (at(j := Inside))"
      using w j \<open>\<And>k. at k \<noteq> Inside\<close> by (auto simp: team_def pc_at_def ct)
    ultimately show ?thesis by blast
  qed
  show "\<exists>ct. check_release l (counts s) = Inr ct \<and> team cid (s\<lparr>counts := ct, todo := (todo s)(j := acts)\<rparr>) who (at(j := Leaving))"
    if "todo s j = Ungrant l # acts"
  proof -
    have j: "at j = Inside" "l = lock_a" "wrapped (who j) Leaving acts" using w(1) [of j] that by (simp_all add: wrapped_acts)
    have n: "at k \<noteq> Inside" if "k \<noteq> j" for k using one [of j k] j(1) that by auto
    have "check_release l (counts s) = Inr ((counts s)(1 := 0))" using j(1) by (auto simp: check_release_def j(2) lock_index ct)
    moreover have "team cid (s\<lparr>counts := (counts s)(1 := 0), todo := (todo s)(j := acts)\<rparr>) who (at(j := Leaving))"
      using w j n by (auto simp: team_def pc_at_def ct)
    ultimately show ?thesis by blast
  qed
qed

text \<open>The other steps of a team.\<close>

lemma team_other:
  assumes team: "team cid s who at"
  shows "todo s j = Acq i l # acts \<Longrightarrow> pc_at cid s l i j = Holding \<Longrightarrow> team cid (s\<lparr>todo := (todo s)(j := acts)\<rparr>) who (at(j := Held))"
    and "todo s j = Rel i l # acts \<Longrightarrow> team cid (s\<lparr>todo := (todo s)(j := acts)\<rparr>) who (at(j := Before))"
    and "(\<And>k. at k \<in> {Held, Inside} \<Longrightarrow> pcs (cl (tlocks s l) (cid (who k))) k = Holding \<Longrightarrow> pcs (cl p (cid (who k))) k = Holding) \<Longrightarrow>
      team cid (s\<lparr>tlocks := (tlocks s)(l := p)\<rparr>) who at"
proof -
  have w: "wrapped (who k) (at k) (todo s k)" "at k \<in> {Held, Inside} \<Longrightarrow> pc_at cid s lock_a (who k) k = Holding" for k
    using team by (auto simp: team_def)
  have ct: "counts s = (\<lambda>x. if x = 1 \<and> (\<exists>j. at j = Inside) then 1 else 0)" using team by (simp add: team_def)
  show "team cid (s\<lparr>todo := (todo s)(j := acts)\<rparr>) who (at(j := Held))" if "todo s j = Acq i l # acts" "pc_at cid s l i j = Holding"
  proof -
    have j: "at j = Before" "i = who j" "l = lock_a" "wrapped (who j) Held acts" using w(1) [of j] that by (simp_all add: wrapped_acts)
    then have "(\<exists>k. (at(j := Held)) k = Inside) \<longleftrightarrow> (\<exists>k. at k = Inside)" by (metis fun_upd_apply stage.distinct)
    then show ?thesis using w j that by (auto simp: team_def pc_at_def ct)
  qed
  show "team cid (s\<lparr>todo := (todo s)(j := acts)\<rparr>) who (at(j := Before))" if "todo s j = Rel i l # acts"
  proof -
    have j: "at j = Leaving" "wrapped (who j) Before acts" using w(1) [of j] that by (simp_all add: wrapped_acts)
    then have "(\<exists>k. (at(j := Before)) k = Inside) \<longleftrightarrow> (\<exists>k. at k = Inside)" by (metis fun_upd_apply stage.distinct)
    then show ?thesis using w j by (auto simp: team_def pc_at_def ct)
  qed
  show "team cid (s\<lparr>tlocks := (tlocks s)(l := p)\<rparr>) who at"
    if "\<And>k. at k \<in> {Held, Inside} \<Longrightarrow> pcs (cl (tlocks s l) (cid (who k))) k = Holding \<Longrightarrow> pcs (cl p (cid (who k))) k = Holding"
    using that w ct by (auto simp: team_def pc_at_def)
qed

lemma team_starts:
  assumes "\<forall>j < length ps. \<exists>i. wrapped i Before (ps ! j)" and "\<forall>x. counts s x = 0"
  shows "\<exists>who at. team cid (s\<lparr>todo := \<lambda>j. if j < length ps then ps ! j else [], phases := rest\<rparr>) who at"
proof -
  obtain who where "\<forall>j < length ps. wrapped (who j) Before (ps ! j)" using assms(1) by metis
  then have "team cid (s\<lparr>todo := \<lambda>j. if j < length ps then ps ! j else [], phases := rest\<rparr>) who (\<lambda>_. Before)"
    using assms(2) by (auto simp: team_def)
  then show ?thesis by blast
qed

lemma lock_step_t_inv:
  assumes inv: "t_inv cid s" and p: "p_step l (tlocks s l) p"
    and keep: "\<And>who at k. team cid s who at \<Longrightarrow> at k \<in> {Held, Inside} \<Longrightarrow>
      pcs (cl (tlocks s l) (cid (who k))) k = Holding \<Longrightarrow> pcs (cl p (cid (who k))) k = Holding"
  shows "t_inv cid (s\<lparr>tlocks := (tlocks s)(l := p)\<rparr>)"
proof -
  have "p_inv l p" using p_step_inv [OF _ p] inv by (simp add: t_inv_def)
  moreover have "\<exists>who at. team cid (s\<lparr>tlocks := (tlocks s)(l := p)\<rparr>) who at" if "team cid s who at" for who at
    using team_other(3) [OF that, of l p] keep [OF that] by blast
  ultimately show ?thesis using inv unfolding t_inv_def by auto
qed

lemma begins_keeps:
  assumes "p_begins l (cid i) j (tlocks s l) p" and "team cid s who at" and "todo s j = Acq i l # acts \<or> todo s j = Rel i l # acts"
    and "at k \<in> {Held, Inside}" and "pcs (cl (tlocks s l) (cid (who k))) k = Holding"
  shows "pcs (cl p (cid (who k))) k = Holding"
proof -
  have "wrapped (who j) (at j) (todo s j)" using assms(2) by (simp add: team_def)
  then have "at j \<in> {Before, Leaving}" using assms(3) by (auto simp: wrapped_acts)
  then have "k \<noteq> j" using assms(4) by auto
  then show ?thesis using assms(1,5) by (simp add: p_begins_def)
qed

lemma t_inv_data:
  assumes inv: "t_inv cid s"
    and "(\<forall>j. j \<noteq> 0 \<longrightarrow> todo s j = []) \<Longrightarrow> solo (counts s) (todo s 0) \<Longrightarrow> (\<forall>j. j \<noteq> 0 \<longrightarrow> t j = []) \<and> solo ct (t 0)"
    and "\<And>who at. team cid s who at \<Longrightarrow> \<exists>at. team cid (s\<lparr>counts := ct, todo := t\<rparr>) who at"
  shows "t_inv cid (s\<lparr>counts := ct, todo := t\<rparr>)"
proof -
  have "(\<forall>j. j \<noteq> 0 \<longrightarrow> todo s j = []) \<and> solo (counts s) (todo s 0) \<or> (\<exists>who at. team cid s who at)"
    using inv by (simp add: t_inv_def)
  then have "(\<forall>j. j \<noteq> 0 \<longrightarrow> t j = []) \<and> solo ct (t 0) \<or> (\<exists>who at. team cid (s\<lparr>counts := ct, todo := t\<rparr>) who at)"
    using assms(2,3) by blast
  then show ?thesis using inv by (simp add: t_inv_def)
qed

lemma t_step_inv:
  assumes inv: "t_inv cid s" and "t_step cid s s'"
  shows "t_inv cid s'"
proof -
  have p: "p_inv l (tlocks s l)" for l using inv by (simp add: t_inv_def)
  have same: "s\<lparr>todo := t\<rparr> = s\<lparr>counts := counts s, todo := t\<rparr>" for t by simp
  have solo: "j = 0" if "\<forall>j. j \<noteq> 0 \<longrightarrow> todo s j = []" "todo s j = x # acts" for j x acts using that by (cases "j = 0") auto
  from assms(2) show ?thesis
  proof cases
    case (t_background l p)
    then show ?thesis unfolding t_background(1) by (intro lock_step_t_inv [OF inv]) (auto simp: p_background_def)
  next
    case (t_acquire j i l acts p)
    then show ?thesis unfolding t_acquire(1)
      by (intro lock_step_t_inv [OF inv]) (auto simp: p_begins_def intro: begins_keeps [of l cid i j s])
  next
    case (t_release j i l acts p)
    then show ?thesis unfolding t_release(1)
      by (intro lock_step_t_inv [OF inv]) (auto simp: p_begins_def intro: begins_keeps [of l cid i j s])
  next
    case (t_acquired j i l acts)
    show ?thesis unfolding t_acquired(1) same
      by (rule t_inv_data [OF inv]) (use t_acquired solo team_other(1) [of cid s _ _ j i l acts] in \<open>force+\<close>)
  next
    case (t_released j i l acts)
    show ?thesis unfolding t_released(1) same
      by (rule t_inv_data [OF inv]) (use t_released solo team_other(2) [of cid s _ _ j i l acts] in \<open>force+\<close>)
  next
    case (t_grant j l acts ct)
    show ?thesis unfolding t_grant(1)
      by (rule t_inv_data [OF inv]) (use t_grant solo team_checks(1) [OF p, of cid _ _ j l acts] in \<open>force+\<close>)
  next
    case (t_ungrant j l acts ct)
    show ?thesis unfolding t_ungrant(1)
      by (rule t_inv_data [OF inv]) (use t_ungrant solo team_checks(2) [OF p, of cid _ _ j l acts] in \<open>force+\<close>)
  next
    case (t_phase ps rest)
    have "\<forall>x. counts s x = 0" using inv t_phase(2) by (auto simp: t_inv_def team_def wrapped_acts)
    then have ct: "counts s = (\<lambda>_. 0)" by (simp add: fun_eq_iff)
    have "phase_ok ps" and rest: "\<forall>qs \<in> set rest. phase_ok qs" using inv t_phase(3) by (simp_all add: t_inv_def)
    then consider acts where "ps = [acts]" "solo (\<lambda>_. 0) acts" | "\<forall>j < length ps. \<exists>i. wrapped i Before (ps ! j)"
      unfolding phase_ok_def by blast
    then show ?thesis
    proof cases
      case 1
      then show ?thesis unfolding t_phase(1) using p rest by (simp add: t_inv_def ct)
    next
      case 2
      from team_starts [OF this, of s cid rest] show ?thesis unfolding t_phase(1) using p rest by (simp add: t_inv_def ct)
    qed
  qed
qed

lemma wrapped_repeat: "wrapped i Before (concat (map (\<lambda>j. [Acq i lock_a, Grant lock_a, Ungrant lock_a, Rel i lock_a]) js))"
  by (induction js) simp_all

lemma tests_ok:
  "phase_ok [test1]" "phase_ok (map test2 js)" "phase_ok (map test3 js)" "phase_ok (map test4 js)" "phase_ok (map test5 js)"
proof -
  show "phase_ok [test1]"
    by (simp add: phase_ok_def test1_def check_grant_def check_release_def lock_index)
  show "phase_ok (map test2 js)" by (auto simp: phase_ok_def test2_def)
  show "phase_ok (map test3 js)" "phase_ok (map test4 js)" using wrapped_repeat by (auto simp: phase_ok_def test3_def test4_def)
  have "wrapped (if i < 5 then 0 else 1) Before (test5 i)" for i
    using wrapped_repeat [of "if i < 5 then 0 else 1" "[0..<10]"] by (simp add: test5_def split: if_splits)
  then show "phase_ok (map test5 js)" by (auto simp: phase_ok_def)
qed

lemma tester_main_ok: "tester_main argc arg = Inr ps \<Longrightarrow> \<forall>q \<in> set ps. phase_ok q"
  by (auto simp: tester_main_def Let_def tests_ok split: if_splits)

lemma t_start_inv:
  assumes "t_start ec ps s" and "\<forall>q \<in> set ps. phase_ok q"
  shows "t_inv cid s"
  using assms p_start_inv by (auto simp: t_start_def t_inv_def)

lemma reach_t_inv:
  assumes "tester_main argc arg = Inr ps" and "reach (t_start ec ps) (t_run cid) s"
  shows "t_inv cid s"
  using assms(2)
  by (induction rule: reach.induct) (use t_start_inv tester_main_ok [OF assms(1)] t_step_inv in \<open>auto simp: t_run_def\<close>)

section \<open>Tests with one client\<close>

text \<open>When only one client calls, the server never revokes, so that client never gives the lock back.\<close>

definition alone :: "string \<Rightarrow> nat lockp \<Rightarrow> bool" where
  "alone c0 s \<longleftrightarrow> server_state (sl s) \<in> {SNone, SLocked} \<and>
     (\<forall>d. d \<noteq> c0 \<longrightarrow> call s d = No_Call \<and> client_state (lock (cl s d)) = CNone \<and> (\<forall>t. pcs (cl s d) t = Idle))"

lemma aloneD:
  assumes "alone c0 s"
  shows "server_state (sl s) \<noteq> SRevoking" "server_state (sl s) \<noteq> SRetrying" "call s c \<noteq> No_Call \<Longrightarrow> c = c0"
    "pcs (cl s c) t \<noteq> Idle \<Longrightarrow> c = c0" "client_state (lock (cl s c)) \<noteq> CNone \<Longrightarrow> c = c0"
  using assms unfolding alone_def by auto

lemma alone_not_syncing:
  assumes "p_inv lid s" and "alone c0 s"
  shows "call s c \<noteq> Rel_Sync" "call s c \<noteq> Rel_Sent" "call s c \<noteq> Acq_Calls out ret" "call s c \<noteq> Rel_Calls out"
  using rel_sentD(2) [OF assms(1), of c] aloneD(1,2) [OF assms(2)] outcalls_none(3,4) [OF p_invD(2) [OF assms(1)]] by auto

lemma alone_grant:
  assumes inv: "p_inv lid s" and al: "alone c0 s" and k: "call s c = Acq_Sent"
  shows "server_state (sl s) = SNone"
proof (rule ccontr)
  assume "server_state (sl s) \<noteq> SNone"
  then have st: "server_state (sl s) = SLocked" using al by (simp add: alone_def)
  let ?h = "client_holding (sl s)"
  have h: "role_of (sl s) (call s) ?h = Unrevoked" using st by (simp add: role_of_def holder_def)
  have f: "fits Unrevoked (cl s ?h) (call s ?h)" using p_invD(4) [OF inv, of ?h] h by simp
  then have "?h = c0" using aloneD(3,5) [OF al, of ?h] by auto
  moreover have "c = c0" using aloneD(3) [OF al, of c] k by simp
  ultimately show False using acq_sentD(1) [OF inv k] h by simp
qed

lemma alone_step:
  assumes inv: "p_inv lid s" and al: "alone c0 s" and st: "p_step lid s s'"
    and idle: "\<And>d t. d \<noteq> c0 \<Longrightarrow> pcs (cl s' d) t = Idle"
  shows "alone c0 s'"
proof -
  note defs = advance_thread_def set_peer_def goto_def
  have server: "server_state (sl s) \<in> {SNone, SLocked}"
    and other: "\<And>d. d \<noteq> c0 \<Longrightarrow> call s d = No_Call \<and> client_state (lock (cl s d)) = CNone" using al by (auto simp: alone_def)
  note no = alone_not_syncing [OF inv al] and is0 = aloneD(3,4) [OF al]
  have one: "alone c0 s'" if "sl s' = sl s" "\<And>d. d \<noteq> c0 \<Longrightarrow> cl s' d = cl s d \<and> call s' d = call s d"
    using that server other idle unfolding alone_def by simp
  from st show ?thesis
  proof cases
    case (p_enter c t)
    have "pc_of a \<noteq> Idle" for a by (cases a) simp_all
    moreover have "pcs (cl s' c) t = pc_of (fst (lcc_acquire t (lock (cl s c))))" by (simp add: p_enter(1) defs)
    ultimately have "c = c0" using idle [of c t] by metis
    then show ?thesis by (intro one) (simp_all add: p_enter(1) defs)
  next
    case (p_turn c t)
    then show ?thesis using is0(2) [of c t] by (intro one) (simp_all add: defs)
  next
    case (p_released c t)
    then show ?thesis using is0(2) [of c t] by (intro one) (simp_all add: defs)
  next
    case (p_retried c t)
    then show ?thesis using is0(2) [of c t] by (intro one) (simp_all add: defs)
  next
    case (p_reply c t ret)
    then show ?thesis using is0(2) [of c t] by (intro one) (simp_all add: defs)
  next
    case (p_release_rpc c t l)
    then show ?thesis using is0(2) [of c t] by (intro one) (simp_all add: defs)
  next
    case (p_release_cached c t l u l')
    then show ?thesis using is0(2) [of c t] by (intro one) (simp_all add: defs)
  next
    case (p_release_done c t u l')
    then show ?thesis using is0(2) [of c t] by (intro one) (simp_all add: defs)
  next
    case (p_revoke_done c u l)
    then show ?thesis using is0(1) [of c] other by (intro one) (simp_all add: defs)
  next
    case (p_serve_acquire c ret l out)
    have "server_state l = SLocked"
      using p_serve_acquire(3) alone_grant [OF inv al p_serve_acquire(2)] by (auto simp: lsc_acquire_lock_def)
    then show ?thesis using is0(1) [of c] p_serve_acquire(2) other idle unfolding alone_def by (simp add: p_serve_acquire(1))
  qed (use no in blast)+
qed

definition uses0 :: "act \<Rightarrow> bool" where
  "uses0 a \<longleftrightarrow> (case a of Acq i l \<Rightarrow> i = 0 | Rel i l \<Rightarrow> i = 0 | _ \<Rightarrow> True)"

definition solitary :: "(nat \<Rightarrow> string) \<Rightarrow> tester \<Rightarrow> bool" where
  "solitary cid s \<longleftrightarrow> (\<forall>l. alone (cid 0) (tlocks s l)) \<and> (\<forall>j. list_all uses0 (todo s j)) \<and>
     (\<forall>ps \<in> set (phases s). \<forall>acts \<in> set ps. list_all uses0 acts)"

lemma solitary_lock:
  assumes inv: "t_inv cid s" and s: "solitary cid s" and p: "p_step l (tlocks s l) p"
    and idle: "\<And>d t. d \<noteq> cid 0 \<Longrightarrow> pcs (cl (tlocks s l) d) t = Idle \<Longrightarrow> pcs (cl p d) t = Idle"
  shows "solitary cid (s\<lparr>tlocks := (tlocks s)(l := p)\<rparr>)"
proof -
  have a: "alone (cid 0) (tlocks s l)" and "p_inv l (tlocks s l)" using s inv by (simp_all add: solitary_def t_inv_def)
  then have "alone (cid 0) p" using idle by (intro alone_step [OF _ a p]) (auto simp: alone_def)
  then show ?thesis using s by (simp add: solitary_def)
qed

lemma solitary_step:
  assumes inv: "t_inv cid s" and s: "solitary cid s" and st: "t_step cid s s'"
  shows "solitary cid s'"
proof -
  have acts: "list_all uses0 (todo s j)" for j using s by (simp add: solitary_def)
  from st show ?thesis
  proof cases
    case (t_background l p)
    then show ?thesis unfolding t_background(1) by (intro solitary_lock [OF inv s]) (auto simp: p_background_def)
  next
    case (t_acquire j i l as p)
    then have "i = 0" using acts [of j] by (simp add: uses0_def)
    then show ?thesis using t_acquire(4) unfolding t_acquire(1) by (intro solitary_lock [OF inv s]) (auto simp: p_begins_def)
  next
    case (t_release j i l as p)
    then have "i = 0" using acts [of j] by (simp add: uses0_def)
    then show ?thesis using t_release(4) unfolding t_release(1) by (intro solitary_lock [OF inv s]) (auto simp: p_begins_def)
  next
    case (t_acquired j i l as)
    then show ?thesis using s acts [of j] by (simp add: solitary_def)
  next
    case (t_released j i l as)
    then show ?thesis using s acts [of j] by (simp add: solitary_def)
  next
    case (t_grant j l as ct)
    then show ?thesis using s acts [of j] by (simp add: solitary_def)
  next
    case (t_ungrant j l as ct)
    then show ?thesis using s acts [of j] by (simp add: solitary_def)
  next
    case (t_phase ps rest)
    then show ?thesis using s by (auto simp: solitary_def)
  qed
qed

lemma solitary_start:
  assumes m: "tester_main argc arg = Inr ps" and a: "2 < argc" "arg \<in> {1, 4}" and st: "t_start ec ps s"
  shows "solitary cid s"
proof -
  have "ps = [[test1]] \<or> ps = [map test4 [0..<2]]" using m a by (auto simp: tester_main_def)
  moreover have "list_all uses0 test1" by (simp add: test1_def uses0_def)
  moreover have "list_all uses0 (test4 i)" for i by (simp add: test4_def uses0_def list_all_iff)
  moreover have "alone (cid 0) (tlocks s l)" for l using st by (simp add: t_start_def p_start_def alone_def lcc_start_def new_client_lock_def new_server_lock_def)
  ultimately show ?thesis using st by (auto simp: solitary_def t_start_def)
qed

lemma reach_solitary:
  assumes m: "tester_main argc arg = Inr ps" and a: "2 < argc" "arg \<in> {1, 4}"
  shows "reach (t_start ec ps) (t_run cid) s \<Longrightarrow> solitary cid s"
proof (induction rule: reach.induct)
  case (reach_start s)
  then show ?case by (rule solitary_start [OF m a])
next
  case (reach_step s s')
  have "t_step cid s s'" using reach_step.hyps(2) by (simp add: t_run_def)
  then show ?case by (rule solitary_step [OF reach_t_inv [OF m reach_step.hyps(1)] reach_step.IH])
qed

section \<open>The tester never reports an error\<close>

text \<open>
  C8 (safety). In every interleaving of the tester's threads with the lock protocol (in which waits return only when
  signalled), for every choice of the tests, whenever a thread is about to check a grant or a release the check
  succeeds: the tester never finds a lock granted twice or released by a client that does not hold it. This holds up
  to the first use of \<^verbatim>\<open>ec_handle\<close>, which \<^verbatim>\<open>main\<close> leaves uninitialised (\<open>ec\<close> false), and for the whole run where it is set
  (\<open>ec\<close> true). In tests 1 and 4, in which one client makes all calls, the pointer is never used.
\<close>

theorem lock_tester_never_fails:
  assumes "tester_main argc arg = Inr ps" and "reach (t_start ec ps) (t_run cid) s"
  shows "(todo s j = Grant l # acts \<longrightarrow> (\<exists>ct. check_grant l (counts s) = Inr ct)) \<and>
    (todo s j = Ungrant l # acts \<longrightarrow> (\<exists>ct. check_release l (counts s) = Inr ct)) \<and>
    (2 < argc \<and> arg \<in> {1, 4} \<longrightarrow> \<not> t_undefined s)"
proof -
  have inv: "t_inv cid s" by (rule reach_t_inv [OF assms])
  then have p: "p_inv lock_a (tlocks s lock_a)" by (simp add: t_inv_def)
  have "\<not> t_undefined s" if "2 < argc" "arg \<in> {1, 4}"
    using reach_solitary [OF assms(1) that assms(2)] alone_not_syncing(1) inv
    unfolding t_undefined_def solitary_def t_inv_def by blast
  moreover from inv consider "\<forall>j. j \<noteq> 0 \<longrightarrow> todo s j = []" "solo (counts s) (todo s 0)" | who at where "team cid s who at"
    unfolding t_inv_def by blast
  then have "(todo s j = Grant l # acts \<longrightarrow> (\<exists>ct. check_grant l (counts s) = Inr ct)) \<and>
      (todo s j = Ungrant l # acts \<longrightarrow> (\<exists>ct. check_release l (counts s) = Inr ct))"
  proof cases
    case 1
    then show ?thesis by (cases "j = 0") (auto split: sum.splits)
  next
    case 2
    show ?thesis using team_checks [OF p 2, of j l acts] by blast
  qed
  ultimately show ?thesis by blast
qed

text \<open>The second test up to the point where a thread has its lock.\<close>

definition cid0 :: "nat \<Rightarrow> string" where
  "cid0 i = (if i = 1 then ''a'' else replicate i CHR ''b'')"

definition at_grant :: tester where
  "at_grant = \<lparr>ec_set = False, tlocks = (\<lambda>_. lp0)(lock_a := lp1), counts = \<lambda>_. 0,
     todo = (\<lambda>j. if j < nt then test2 j else [])(1 := [Grant lock_a, Ungrant lock_a, Rel 1 lock_a]), phases = []\<rparr>"

lemma lp_pcs:
  "pcs (cl lp0 c) t = Idle" "pcs (cl lp1 c) t = (if c = ''a'' \<and> t = 1 then Holding else Idle)" "call lp0 c = No_Call" "call lp1 c = No_Call"
  by (simp_all add: lp0_def lp1_def lcc0_def lcc1_def)

lemma tester_run: "reach (t_start False [map test2 [0..<nt]]) (t_run cid0) at_grant"
proof -
  let ?ps = "map test2 [0..<nt]"
  let ?s0 = "\<lparr>ec_set = False, tlocks = \<lambda>_. lp0, counts = \<lambda>_. 0, todo = \<lambda>_. [], phases = [?ps]\<rparr>"
  let ?s1 = "?s0\<lparr>todo := \<lambda>j. if j < length ?ps then ?ps ! j else [], phases := []\<rparr>"
  obtain p1 p2 where p: "p_step lock_a lp0 p1" "p_step lock_a p1 p2" "p_step lock_a p2 lp1"
    and no: "\<And>c. call p1 c \<noteq> Rel_Sync" "\<And>c. call p2 c \<noteq> Rel_Sync"
    and pc: "\<forall>c t. pcs (cl p1 c) t = (if c = ''a'' \<and> t = 1 then In_Rpc else Idle)" "cl p2 = cl p1"
    using lp1_steps [of lock_a] by blast
  let ?s2 = "?s1\<lparr>tlocks := (tlocks ?s1)(lock_a := p1)\<rparr>"
  let ?s3 = "?s2\<lparr>tlocks := (tlocks ?s2)(lock_a := p2)\<rparr>"
  let ?s4 = "?s3\<lparr>tlocks := (tlocks ?s3)(lock_a := lp1)\<rparr>"
  let ?s5 = "?s4\<lparr>todo := (todo ?s4)(1 := [Grant lock_a, Ungrant lock_a, Rel 1 lock_a])\<rparr>"
  have todo: "todo ?s1 1 = Acq 1 lock_a # [Grant lock_a, Ungrant lock_a, Rel 1 lock_a]" by (simp add: nt_def test2_def)
  have t1: "t_step cid0 ?s0 ?s1" by (rule t_phase) simp_all
  have t2: "t_step cid0 ?s1 ?s2"
    by (rule t_acquire [OF todo]) (use p(1) pc lp_pcs in \<open>auto simp: p_begins_def pc_at_def cid0_def\<close>)
  have t3: "t_step cid0 ?s2 ?s3" by (rule t_background) (use p(2) pc in \<open>simp add: p_background_def\<close>)
  have t4: "t_step cid0 ?s3 ?s4" by (rule t_background) (use p(3) pc lp_pcs in \<open>auto simp: p_background_def\<close>)
  have t5: "t_step cid0 ?s4 ?s5" by (rule t_acquired [of _ 1 1 lock_a]) (use todo lp_pcs in \<open>simp_all add: pc_at_def cid0_def\<close>)
  have u: "\<not> t_undefined ?s0" "\<not> t_undefined ?s1" "\<not> t_undefined ?s2" "\<not> t_undefined ?s3" "\<not> t_undefined ?s4"
    using no lp_pcs by (auto simp: t_undefined_def)
  have "reach (t_start False [?ps]) (t_run cid0) ?s0" by (rule reach_start) (simp add: t_start_def lp0_start)
  from t_run_step [OF t_run_step [OF t_run_step [OF t_run_step [OF t_run_step [OF this u(1) t1] u(2) t2] u(3) t3] u(4) t4] u(5) t5]
  have "reach (t_start False [?ps]) (t_run cid0) ?s5" .
  moreover have "?s5 = at_grant" by (auto simp: at_grant_def)
  ultimately show ?thesis by simp
qed

theorem lock_tester_never_fails_witness:
  "\<exists>ct. reach (t_start False [map test2 [0..<nt]]) (t_run cid0) at_grant \<and> check_grant lock_a (counts at_grant) = Inr ct"
proof -
  have "tester_main 3 2 = Inr [map test2 [0..<nt]]" by (simp add: tester_main_def)
  from lock_tester_never_fails [OF this tester_run, of 1 lock_a "[Ungrant lock_a, Rel 1 lock_a]"] tester_run show ?thesis
    by (auto simp: at_grant_def)
qed

section \<open>The second test uses the uninitialised pointer\<close>

text \<open>
  The client that has the lock in its cache, unused, is told to give it back when another client asks for it; it is
  then in the call of \<^verbatim>\<open>ec_handle->sync\<close>.
\<close>

lemma lp1_gives_back:
  obtains q1 q2 q3 q4 where "p_step lid lp1 q1" "p_step lid q1 q2" "p_step lid q2 q3" "p_step lid q3 q4"
    "\<And>c. call q1 c \<noteq> Rel_Sync" "\<And>c. call q2 c \<noteq> Rel_Sync" "\<And>c. call q3 c \<noteq> Rel_Sync" "call q4 ''a'' = Rel_Sync"
    "\<And>c t. pcs (cl q1 c) t = Idle" "\<And>c t. (c, t) \<noteq> (''bb'', 2) \<Longrightarrow> pcs (cl q2 c) t = Idle" "pcs (cl q2 ''bb'') 2 = In_Rpc"
    "\<And>c. pcs (cl q3 c) = pcs (cl q2 c)" "\<And>c. pcs (cl q4 c) = pcs (cl q2 c)"
proof -
  let ?l = "\<lparr>threads_queue = [], client_state = CFree, server_response = REmpty\<rparr> :: nat client_cached_lock"
  let ?q1 = "set_peer ''a'' ((cl lp1 ''a'')\<lparr>lock := ?l, pcs := signal None ((pcs (cl lp1 ''a''))(1 := Idle))\<rparr>) (call lp1 ''a'') lp1"
  let ?q2 = "advance_thread ''bb'' 2 (lcc_acquire 2 (lock (cl ?q1 ''bb''))) (call ?q1 ''bb'') ?q1"
  let ?sl = "(sl ?q2)\<lparr>server_state := SRevoking, clients_queue := {''bb''}\<rparr>"
  let ?q3 = "?q2\<lparr>sl := ?sl, call := (call ?q2)(''bb'' := case Some (RevokeHolder lid) of None \<Rightarrow> Acq_Replied 1 | Some oc \<Rightarrow> Acq_Calls oc 1)\<rparr>"
  let ?q4 = "?q3\<lparr>cl := (cl ?q3)(''a'' := (cl ?q3 ''a'')\<lparr>lock := ?l\<lparr>client_state := CReleasing\<rparr>, revoking := True \<or> revoking (cl ?q3 ''a'')\<rparr>),
      call := (if True then (call ?q3)(''bb'' := Acq_Revokes ''a'' 1, ''a'' := Rel_Sync) else (call ?q3)(''bb'' := Acq_Replied 1))\<rparr>"
  note defs = set_peer_def advance_thread_def goto_def signal_def lp1_def lcc0_def lcc1_def lcc_acquire_def new_client_lock_def rpc_acquire_enter_def
  have p1: "p_step lid lp1 ?q1"
    by (rule p_release_cached [where t = 1 and l = "?l\<lparr>threads_queue := [1]\<rparr>"]) (simp_all add: defs lcc_release_def lcc_release_pop_def)
  have p2: "p_step lid ?q1 ?q2" by (rule p_enter) (simp add: defs)
  have p3: "p_step lid ?q2 ?q3"
    by (rule p_serve_acquire) (simp_all add: defs lsc_acquire_lock_def new_server_lock_def)
  have p4: "p_step lid ?q3 ?q4"
    by (rule p_revoke [where out = "RevokeHolder lid"]) (simp_all add: defs revoke_handler_def new_server_lock_def)
  show thesis
    by (rule that [OF p1 p2 p3 p4]) (simp_all add: defs fun_eq_iff)
qed

text \<open>
  A defect: with the clients as \<^verbatim>\<open>main\<close> makes them, a run of the second test reaches a call of \<^verbatim>\<open>sync\<close> through the
  uninitialised pointer.
\<close>

lemma lock_tester_undefined:
  "\<exists>s. reach (t_start False [map test2 [0..<nt]]) (t_run cid0) s \<and> t_undefined s"
proof (rule lp1_gives_back [of lock_a])
  fix q1 q2 q3 q4
  assume q: "p_step lock_a lp1 q1" "p_step lock_a q1 q2" "p_step lock_a q2 q3" "p_step lock_a q3 q4"
    and no: "\<And>c. call q1 c \<noteq> Rel_Sync" "\<And>c. call q2 c \<noteq> Rel_Sync" "\<And>c. call q3 c \<noteq> Rel_Sync" and sync: "call q4 ''a'' = Rel_Sync"
    and pc: "\<And>c t. pcs (cl q1 c) t = Idle" "\<And>c t. (c, t) \<noteq> (''bb'', 2) \<Longrightarrow> pcs (cl q2 c) t = Idle" "pcs (cl q2 ''bb'') 2 = In_Rpc"
      "\<And>c. pcs (cl q3 c) = pcs (cl q2 c)" "\<And>c. pcs (cl q4 c) = pcs (cl q2 c)"
  let ?s1 = "at_grant\<lparr>counts := (\<lambda>_. 0)(1 := 1), todo := (todo at_grant)(1 := [Ungrant lock_a, Rel 1 lock_a])\<rparr>"
  let ?s2 = "?s1\<lparr>counts := (\<lambda>_. 0)(1 := 0), todo := (todo ?s1)(1 := [Rel 1 lock_a])\<rparr>"
  let ?with = "\<lambda>p s. s\<lparr>tlocks := (tlocks s)(lock_a := p)\<rparr>"
  have t1: "t_step cid0 at_grant ?s1"
    by (rule t_grant [where j = 1 and l = lock_a]) (simp_all add: at_grant_def check_grant_def lock_index)
  have t2: "t_step cid0 ?s1 ?s2"
    by (rule t_ungrant [where j = 1 and l = lock_a]) (simp_all add: at_grant_def check_release_def lock_index)
  have t3: "t_step cid0 ?s2 (?with q1 ?s2)"
    by (rule t_release [where j = 1 and i = 1 and acts = "[]"]) (use q(1) pc lp_pcs in \<open>auto simp: at_grant_def p_begins_def pc_at_def cid0_def\<close>)
  have t4: "t_step cid0 (?with q1 ?s2) (?with q2 (?with q1 ?s2))"
    by (rule t_acquire [where j = 2 and i = 2 and acts = "tl (test2 2)"])
       (use q(2) pc in \<open>auto simp: at_grant_def nt_def test2_def p_begins_def pc_at_def cid0_def numeral_2_eq_2\<close>)
  have t5: "t_step cid0 (?with q2 (?with q1 ?s2)) (?with q3 (?with q2 (?with q1 ?s2)))"
    by (rule t_background) (use q(3) pc in \<open>simp add: p_background_def\<close>)
  have t6: "t_step cid0 (?with q3 (?with q2 (?with q1 ?s2))) (?with q4 (?with q3 (?with q2 (?with q1 ?s2))))"
    by (rule t_background) (use q(4) pc in \<open>simp add: p_background_def\<close>)
  have u: "\<not> t_undefined at_grant" "\<not> t_undefined ?s1" "\<not> t_undefined ?s2" "\<not> t_undefined (?with q1 ?s2)"
    "\<not> t_undefined (?with q2 (?with q1 ?s2))" "\<not> t_undefined (?with q3 (?with q2 (?with q1 ?s2)))"
    using no lp_pcs by (auto simp: t_undefined_def at_grant_def)
  moreover have "t_undefined (?with q4 (?with q3 (?with q2 (?with q1 ?s2))))"
    using sync by (auto simp: t_undefined_def at_grant_def)
  moreover note t_run_step [OF t_run_step [OF t_run_step [OF t_run_step [OF t_run_step [OF t_run_step
    [OF tester_run u(1) t1] u(2) t2] u(3) t3] u(4) t4] u(5) t5] u(6) t6]
  ultimately show ?thesis by blast
qed

end
