(* ===== verification/Marshall.thy ===== *)
theory Marshall
  imports Prelude
begin

text \<open>
  The marshalling of RPC arguments, \<^verbatim>\<open>rpc/marshall.h\<close>: the buffers, the headers and the templates for
  containers. The functions that write and read one basic value are in the binary library \<^verbatim>\<open>librpc\<close>;
  here they are arguments. What is known of them is that a value is written as some bytes at the head
  position and that reading those bytes gives the value back.
\<close>

section \<open>Headers and sizes\<close>

text \<open>C++ \<^verbatim>\<open>int\<close> and \<^verbatim>\<open>unsigned int\<close> fields by their 32 bits.\<close>

record req_header =
  rq_xid :: u32
  rq_proc :: u32
  rq_clt_nonce :: u32
  rq_srv_nonce :: u32
  rq_xid_rep :: u32

record reply_header =
  rp_xid :: u32
  rp_ret :: u32

definition static_max :: "nat \<Rightarrow> nat \<Rightarrow> nat" where
  "static_max A B = (if A > B then A else B)"

definition sizeof_req_header :: nat where
  "sizeof_req_header = 5 * 4"

definition sizeof_reply_header :: nat where
  "sizeof_reply_header = 2 * 4"

definition sizeof_rpc_sz_t :: nat where
  sizeof_rpc_sz_t_def [simp]: "sizeof_rpc_sz_t = 4"

definition DEFAULT_RPC_SZ :: nat where
  DEFAULT_RPC_SZ_def [simp]: "DEFAULT_RPC_SZ = 1024"

text \<open>The build does not define \<^verbatim>\<open>RPC_CHECKSUMMING\<close>.\<close>

definition RPC_HEADER_SZ :: nat where
  "RPC_HEADER_SZ = static_max sizeof_req_header sizeof_reply_header + sizeof_rpc_sz_t"

lemma RPC_HEADER_SZ [simp]: "RPC_HEADER_SZ = 24"
  by (simp add: RPC_HEADER_SZ_def static_max_def sizeof_req_header_def sizeof_reply_header_def)

section \<open>Writing\<close>

text \<open>
  \<open>None\<close> is the null pointer; the list has all bytes of the allocated buffer. The indices and sizes, which are \<^verbatim>\<open>int\<close> in the
  source, are natural numbers: the buffers have fewer than 2^31 bytes.
\<close>

record marshall =
  m_buf :: "byte list option"
  m_capa :: nat
  m_ind :: nat

text \<open>The constructor: \<open>raw\<close> is what \<^verbatim>\<open>malloc\<close> returns.\<close>

definition marshall_init :: "byte list option \<Rightarrow> marshall res" where
  "marshall_init raw =
     bindR (guardR (raw \<noteq> None) Abort) (\<lambda>_.
       Inr \<lparr>m_buf = raw, m_capa = DEFAULT_RPC_SZ, m_ind = RPC_HEADER_SZ\<rparr>)"

text \<open>\<^verbatim>\<open>std::string(_buf+RPC_HEADER_SZ, _ind-RPC_HEADER_SZ)\<close>: a negative length throws.\<close>

definition get_content :: "marshall \<Rightarrow> byte list res" where
  "get_content m =
     (case m_buf m of
        None \<Rightarrow> Inl Undefined
      | Some b \<Rightarrow> if m_ind m < RPC_HEADER_SZ then Inl Abort
                  else read_mem RPC_HEADER_SZ (m_ind m - RPC_HEADER_SZ) b)"

definition pack_req_header :: "(u32 \<Rightarrow> marshall \<Rightarrow> marshall) \<Rightarrow> req_header \<Rightarrow> marshall \<Rightarrow> marshall" where
  "pack_req_header pack h m =
     (let saved_sz = m_ind m;
          m = m\<lparr>m_ind := sizeof_rpc_sz_t\<rparr>;
          m = pack (rq_xid h) m;
          m = pack (rq_proc h) m;
          m = pack (rq_clt_nonce h) m;
          m = pack (rq_srv_nonce h) m;
          m = pack (rq_xid_rep h) m
      in m\<lparr>m_ind := saved_sz\<rparr>)"

definition pack_reply_header :: "(u32 \<Rightarrow> marshall \<Rightarrow> marshall) \<Rightarrow> reply_header \<Rightarrow> marshall \<Rightarrow> marshall" where
  "pack_reply_header pack h m =
     (let saved_sz = m_ind m;
          m = m\<lparr>m_ind := sizeof_rpc_sz_t\<rparr>;
          m = pack (rp_xid h) m;
          m = pack (rp_ret h) m
      in m\<lparr>m_ind := saved_sz\<rparr>)"

definition m_take_buf :: "marshall \<Rightarrow> (byte list option \<times> nat) \<times> marshall" where
  "m_take_buf m = ((m_buf m, m_ind m), m\<lparr>m_buf := None, m_ind := 0\<rparr>)"

section \<open>Reading\<close>

record unmarshall =
  u_buf :: "byte list option"
  u_sz :: nat
  u_ind :: nat
  u_ok :: bool

definition unmarshall_init :: unmarshall where
  "unmarshall_init = \<lparr>u_buf = None, u_sz = 0, u_ind = 0, u_ok = False\<rparr>"

definition unmarshall_of_buf :: "byte list option \<Rightarrow> nat \<Rightarrow> unmarshall" where
  "unmarshall_of_buf b sz = \<lparr>u_buf = b, u_sz = sz, u_ind = 0, u_ok = True\<rparr>"

text \<open>
  \<^verbatim>\<open>realloc\<close> keeps the bytes the buffer had and adds some of \<open>raw\<close>; only the header part of them is
  not overwritten.
\<close>

definition take_content :: "byte list \<Rightarrow> byte list \<Rightarrow> unmarshall \<Rightarrow> unmarshall" where
  "take_content raw s u =
     (let old = (case u_buf u of None \<Rightarrow> [] | Some b \<Rightarrow> b) in
      \<lparr>u_buf = Some (take RPC_HEADER_SZ (old @ raw) @ s), u_sz = length s + RPC_HEADER_SZ,
       u_ind = RPC_HEADER_SZ, u_ok = True\<rparr>)"

definition unmarshall_of_content :: "byte list \<Rightarrow> byte list \<Rightarrow> unmarshall" where
  "unmarshall_of_content raw s = take_content raw s unmarshall_init"

definition u_take_buf :: "unmarshall \<Rightarrow> (byte list option \<times> nat) \<times> unmarshall" where
  "u_take_buf u = ((u_buf u, u_sz u), u\<lparr>u_sz := 0, u_ind := 0, u_buf := None\<rparr>)"

definition unpack_req_header :: "(unmarshall \<Rightarrow> u32 \<times> unmarshall) \<Rightarrow> unmarshall \<Rightarrow> req_header \<times> unmarshall" where
  "unpack_req_header unpack u =
     (let u = u\<lparr>u_ind := sizeof_rpc_sz_t\<rparr>;
          (xid, u) = unpack u;
          (proc, u) = unpack u;
          (clt_nonce, u) = unpack u;
          (srv_nonce, u) = unpack u;
          (xid_rep, u) = unpack u
      in (\<lparr>rq_xid = xid, rq_proc = proc, rq_clt_nonce = clt_nonce, rq_srv_nonce = srv_nonce, rq_xid_rep = xid_rep\<rparr>,
          u\<lparr>u_ind := RPC_HEADER_SZ\<rparr>))"

definition unpack_reply_header :: "(unmarshall \<Rightarrow> u32 \<times> unmarshall) \<Rightarrow> unmarshall \<Rightarrow> reply_header \<times> unmarshall" where
  "unpack_reply_header unpack u =
     (let u = u\<lparr>u_ind := sizeof_rpc_sz_t\<rparr>;
          (xid, u) = unpack u;
          (ret, u) = unpack u
      in (\<lparr>rp_xid = xid, rp_ret = ret\<rparr>, u\<lparr>u_ind := RPC_HEADER_SZ\<rparr>))"

section \<open>Containers\<close>

text \<open>The templates for \<^verbatim>\<open>std::vector\<close>; a vector has fewer than \<open>2 ^ 32\<close> elements.\<close>

definition marshall_vector :: "(u32 \<Rightarrow> marshall \<Rightarrow> marshall) \<Rightarrow> ('c \<Rightarrow> marshall \<Rightarrow> marshall) \<Rightarrow> 'c list \<Rightarrow> marshall \<Rightarrow> marshall" where
  "marshall_vector put_u32 put v m = foldl (\<lambda>m z. put z m) (put_u32 (of_nat (length v)) m) v"

fun unmarshall_items :: "(unmarshall \<Rightarrow> 'c \<times> unmarshall) \<Rightarrow> nat \<Rightarrow> 'c list \<Rightarrow> unmarshall \<Rightarrow> 'c list \<times> unmarshall" where
  "unmarshall_items get 0 v u = (v, u)"
| "unmarshall_items get (Suc n) v u = (let (z, u) = get u in unmarshall_items get n (v @ [z]) u)"

definition unmarshall_vector ::
    "(unmarshall \<Rightarrow> u32 \<times> unmarshall) \<Rightarrow> (unmarshall \<Rightarrow> 'c \<times> unmarshall) \<Rightarrow> 'c list \<Rightarrow> unmarshall \<Rightarrow> 'c list \<times> unmarshall" where
  "unmarshall_vector get_u32 get v u = (let (n, u) = get_u32 u in unmarshall_items get (unat n) v u)"

text \<open>The templates for \<^verbatim>\<open>std::map\<close>; the list has the pairs in the order of the keys.\<close>

definition marshall_map ::
    "(u32 \<Rightarrow> marshall \<Rightarrow> marshall) \<Rightarrow> ('a \<Rightarrow> marshall \<Rightarrow> marshall) \<Rightarrow> ('b \<Rightarrow> marshall \<Rightarrow> marshall) \<Rightarrow>
     ('a \<times> 'b) list \<Rightarrow> marshall \<Rightarrow> marshall" where
  "marshall_map put_u32 put_a put_b d m =
     foldl (\<lambda>m (a, b). put_b b (put_a a m)) (put_u32 (of_nat (length d)) m) d"

fun unmarshall_pairs ::
    "(unmarshall \<Rightarrow> 'a \<times> unmarshall) \<Rightarrow> (unmarshall \<Rightarrow> 'b \<times> unmarshall) \<Rightarrow> nat \<Rightarrow> ('a \<rightharpoonup> 'b) \<Rightarrow> unmarshall \<Rightarrow>
     ('a \<rightharpoonup> 'b) \<times> unmarshall" where
  "unmarshall_pairs get_a get_b 0 d u = (d, u)"
| "unmarshall_pairs get_a get_b (Suc n) d u =
     (let (a, u) = get_a u; (b, u) = get_b u in unmarshall_pairs get_a get_b n (d(a \<mapsto> b)) u)"

definition unmarshall_map ::
    "(unmarshall \<Rightarrow> u32 \<times> unmarshall) \<Rightarrow> (unmarshall \<Rightarrow> 'a \<times> unmarshall) \<Rightarrow> (unmarshall \<Rightarrow> 'b \<times> unmarshall) \<Rightarrow>
     unmarshall \<Rightarrow> ('a \<rightharpoonup> 'b) \<times> unmarshall" where
  "unmarshall_map get_u32 get_a get_b u =
     (let (n, u) = get_u32 u in unmarshall_pairs get_a get_b (unat n) Map.empty u)"

section \<open>What is known of the library\<close>

text \<open>
  \<^verbatim>\<open>pack\<close> writes four bytes at the head position and moves it; the buffer may be extended.
  \<^verbatim>\<open>unpack\<close> reads them back.
\<close>

definition packs :: "(u32 \<Rightarrow> byte list) \<Rightarrow> (u32 \<Rightarrow> marshall \<Rightarrow> marshall) \<Rightarrow> bool" where
  "packs enc pack \<longleftrightarrow> (\<forall>i. length (enc i) = 4) \<and>
     (\<forall>i m b. m_buf m = Some b \<and> m_ind m \<le> length b \<longrightarrow>
        (\<exists>ext capa. m_ind m + 4 \<le> length (b @ ext) \<and>
           pack i m = \<lparr>m_buf = Some (mem_splice (m_ind m) (enc i) (b @ ext)), m_capa = capa, m_ind = m_ind m + 4\<rparr>))"

definition unpacks :: "(u32 \<Rightarrow> byte list) \<Rightarrow> (unmarshall \<Rightarrow> u32 \<times> unmarshall) \<Rightarrow> bool" where
  "unpacks enc unpack \<longleftrightarrow>
     (\<forall>i u b. u_buf u = Some b \<and> u_ind u + 4 \<le> u_sz u \<and> u_sz u \<le> length b \<and> take 4 (drop (u_ind u) b) = enc i \<longrightarrow>
        unpack u = (i, u\<lparr>u_ind := u_ind u + 4\<rparr>))"

lemma packs_step:
  assumes "packs enc pack" and "4 \<le> length ys"
  shows "\<exists>ext capa'. pack i \<lparr>m_buf = Some (xs @ ys), m_capa = capa, m_ind = length xs\<rparr> =
    \<lparr>m_buf = Some ((xs @ enc i) @ drop 4 ys @ ext), m_capa = capa', m_ind = length (xs @ enc i)\<rparr>"
proof -
  let ?m = "\<lparr>m_buf = Some (xs @ ys), m_capa = capa, m_ind = length xs\<rparr>"
  have e: "length (enc i) = 4" using assms(1) by (simp add: packs_def)
  have "m_buf ?m = Some (xs @ ys) \<and> m_ind ?m \<le> length (xs @ ys)" by simp
  with assms(1) obtain ext c where
    "pack i ?m = \<lparr>m_buf = Some (mem_splice (m_ind ?m) (enc i) ((xs @ ys) @ ext)), m_capa = c, m_ind = m_ind ?m + 4\<rparr>"
    unfolding packs_def by metis
  then show ?thesis using e assms(2) by (simp add: mem_splice_def exI [of _ ext])
qed

lemma unpacks_step:
  assumes "unpacks enc unpack" and "length (enc i) = 4" and "sz \<le> length (xs @ enc i @ ys)" and "length xs + 4 \<le> sz"
  shows "unpack \<lparr>u_buf = Some (xs @ enc i @ ys), u_sz = sz, u_ind = length xs, u_ok = k\<rparr> =
    (i, \<lparr>u_buf = Some ((xs @ enc i) @ ys), u_sz = sz, u_ind = length (xs @ enc i), u_ok = k\<rparr>)"
  using assms unfolding unpacks_def by (auto simp: assms(2))

text \<open>Packing and unpacking a row of integers.\<close>

lemma packs_row:
  assumes pk: "packs enc pack"
  shows "4 * length is \<le> length ys \<Longrightarrow> \<exists>ext capa'. fold pack is \<lparr>m_buf = Some (xs @ ys), m_capa = capa, m_ind = length xs\<rparr> =
    \<lparr>m_buf = Some (xs @ concat (map enc is) @ drop (4 * length is) ys @ ext), m_capa = capa', m_ind = length xs + 4 * length is\<rparr>"
proof (induction "is" arbitrary: xs ys capa)
  case (Cons i "is")
  have e: "length (enc i) = 4" using pk by (simp add: packs_def)
  from packs_step [OF pk, of ys i xs capa] Cons.prems obtain ext c where
    st: "pack i \<lparr>m_buf = Some (xs @ ys), m_capa = capa, m_ind = length xs\<rparr> =
      \<lparr>m_buf = Some ((xs @ enc i) @ drop 4 ys @ ext), m_capa = c, m_ind = length (xs @ enc i)\<rparr>" by auto
  have "4 * length is \<le> length (drop 4 ys @ ext)" using Cons.prems by simp
  from Cons.IH [OF this, of "xs @ enc i" c] obtain ext' c' where
    "fold pack is \<lparr>m_buf = Some ((xs @ enc i) @ drop 4 ys @ ext), m_capa = c, m_ind = length (xs @ enc i)\<rparr> =
      \<lparr>m_buf = Some ((xs @ enc i) @ concat (map enc is) @ drop (4 * length is) (drop 4 ys @ ext) @ ext'), m_capa = c',
       m_ind = length (xs @ enc i) + 4 * length is\<rparr>" by blast
  then show ?case using Cons.prems by (simp add: st e algebra_simps exI [of _ "ext @ ext'"])
qed simp

fun unpack_row :: "(unmarshall \<Rightarrow> u32 \<times> unmarshall) \<Rightarrow> nat \<Rightarrow> unmarshall \<Rightarrow> u32 list \<times> unmarshall" where
  "unpack_row unpack 0 u = ([], u)"
| "unpack_row unpack (Suc n) u = (let (i, u) = unpack u; (is, u) = unpack_row unpack n u in (i # is, u))"

lemma unpacks_row:
  assumes up: "unpacks enc unpack" and e: "\<And>i. length (enc i) = 4"
  shows "sz \<le> length (xs @ concat (map enc is) @ ys) \<Longrightarrow> length xs + 4 * length is \<le> sz \<Longrightarrow>
    unpack_row unpack (length is) \<lparr>u_buf = Some (xs @ concat (map enc is) @ ys), u_sz = sz, u_ind = length xs, u_ok = k\<rparr> =
      (is, \<lparr>u_buf = Some (xs @ concat (map enc is) @ ys), u_sz = sz, u_ind = length xs + 4 * length is, u_ok = k\<rparr>)"
proof (induction "is" arbitrary: xs)
  case (Cons i "is")
  from unpacks_step [OF up e, of sz xs i "concat (map enc is) @ ys" k] Cons.prems Cons.IH [of "xs @ enc i"]
  show ?case by (simp add: e)
qed simp

lemma pack_header_row:
  "pack_req_header pack h m = (fold pack [rq_xid h, rq_proc h, rq_clt_nonce h, rq_srv_nonce h, rq_xid_rep h] (m\<lparr>m_ind := 4\<rparr>))\<lparr>m_ind := m_ind m\<rparr>"
  "pack_reply_header pack r m = (fold pack [rp_xid r, rp_ret r] (m\<lparr>m_ind := 4\<rparr>))\<lparr>m_ind := m_ind m\<rparr>"
  by (simp_all add: pack_req_header_def pack_reply_header_def Let_def)

lemma unpack_header_row:
  "unpack_row unpack (length [rq_xid h, rq_proc h, rq_clt_nonce h, rq_srv_nonce h, rq_xid_rep h]) (u\<lparr>u_ind := 4\<rparr>) =
       ([rq_xid h, rq_proc h, rq_clt_nonce h, rq_srv_nonce h, rq_xid_rep h], u') \<Longrightarrow>
     unpack_req_header unpack u = (h, u'\<lparr>u_ind := RPC_HEADER_SZ\<rparr>)"
  "unpack_row unpack (length [rp_xid r, rp_ret r]) (u\<lparr>u_ind := 4\<rparr>) = ([rp_xid r, rp_ret r], u') \<Longrightarrow>
     unpack_reply_header unpack u = (r, u'\<lparr>u_ind := RPC_HEADER_SZ\<rparr>)"
  by (auto simp: unpack_req_header_def unpack_reply_header_def numeral_eq_Suc Let_def split: prod.splits)

text \<open>A row of integers packed behind the size field of a buffer with content, and taken out of the buffer again.\<close>

lemma header_row:
  assumes pk: "packs enc pack" and up: "unpacks enc unpack"
    and m: "m_buf m = Some b" "RPC_HEADER_SZ \<le> m_ind m" "m_ind m \<le> length b" and n: "length is \<le> 5"
  defines "m' \<equiv> (fold pack is (m\<lparr>m_ind := 4\<rparr>))\<lparr>m_ind := m_ind m\<rparr>"
  shows "get_content m' = get_content m" and "m_ind m' = m_ind m"
    and "\<exists>b'. m_buf m' = Some b' \<and> m_ind m \<le> length b' \<and>
      unpack_row unpack (length is) ((unmarshall_of_buf (m_buf m') (m_ind m'))\<lparr>u_ind := 4\<rparr>) =
        (is, (unmarshall_of_buf (m_buf m') (m_ind m'))\<lparr>u_ind := 4 + 4 * length is\<rparr>)"
proof -
  have e: "length (enc i) = 4" for i using pk by (simp add: packs_def)
  have le: "length (concat (map enc is)) = 4 * length is" by (induction "is") (simp_all add: e)
  have l: "length (take 4 b) = 4" "24 \<le> length b" using m by simp_all
  have m0: "m\<lparr>m_ind := 4\<rparr> = \<lparr>m_buf = Some (take 4 b @ drop 4 b), m_capa = m_capa m, m_ind = length (take 4 b)\<rparr>"
    using m l by (cases m) simp
  have room: "4 * length is \<le> length (drop 4 b)" using l n by simp
  from packs_row [OF pk this, of "take 4 b" "m_capa m"] m0 l obtain ext capa where
    m': "m' = \<lparr>m_buf = Some (take 4 b @ concat (map enc is) @ drop (4 + 4 * length is) b @ ext), m_capa = capa, m_ind = m_ind m\<rparr>"
    by (auto simp: m'_def add.commute)
  let ?b = "take 4 b @ concat (map enc is) @ drop (4 + 4 * length is) b @ ext"
  have d: "drop 24 ?b = drop 24 b @ ext" using n l le by (simp add: drop_append)
  have "length ?b = length b + length ext" using n l le by simp
  then have "read_mem 24 (m_ind m - 24) ?b = read_mem 24 (m_ind m - 24) b"
    unfolding read_mem_def d using m by simp
  then show "get_content m' = get_content m" using m by (simp add: get_content_def m')
  show "m_ind m' = m_ind m" by (simp add: m')
  have "m_ind m \<le> length ?b" using \<open>length ?b = _\<close> m(3) by simp
  moreover have "unpack_row unpack (length is) \<lparr>u_buf = Some ?b, u_sz = m_ind m, u_ind = length (take 4 b), u_ok = True\<rparr> =
      (is, \<lparr>u_buf = Some ?b, u_sz = m_ind m, u_ind = length (take 4 b) + 4 * length is, u_ok = True\<rparr>)"
    by (rule unpacks_row [OF up e]) (use \<open>length ?b = _\<close> m n l in simp_all)
  ultimately show "\<exists>b'. m_buf m' = Some b' \<and> m_ind m \<le> length b' \<and>
      unpack_row unpack (length is) ((unmarshall_of_buf (m_buf m') (m_ind m'))\<lparr>u_ind := 4\<rparr>) =
        (is, (unmarshall_of_buf (m_buf m') (m_ind m'))\<lparr>u_ind := 4 + 4 * length is\<rparr>)"
    using l(1) by (simp add: m' unmarshall_of_buf_def)
qed

section \<open>Codecs\<close>

text \<open>
  A pair of operators \<open>put\<close>/\<open>get\<close> for the values that satisfy \<open>P\<close>: \<open>put\<close> appends the bytes \<open>enc a\<close>
  to what is written, and \<open>get\<close> takes them from what is left to read.
\<close>

definition m_wf :: "marshall \<Rightarrow> bool" where
  "m_wf m \<longleftrightarrow> (case m_buf m of None \<Rightarrow> False | Some b \<Rightarrow> m_ind m \<le> length b)"

definition written :: "marshall \<Rightarrow> byte list" where
  "written m = (case m_buf m of None \<Rightarrow> [] | Some b \<Rightarrow> take (m_ind m) b)"

definition u_wf :: "unmarshall \<Rightarrow> bool" where
  "u_wf u \<longleftrightarrow> (case u_buf u of None \<Rightarrow> False | Some b \<Rightarrow> u_ok u \<and> u_ind u \<le> u_sz u \<and> u_sz u \<le> length b)"

definition pending :: "unmarshall \<Rightarrow> byte list" where
  "pending u = (case u_buf u of None \<Rightarrow> [] | Some b \<Rightarrow> drop (u_ind u) (take (u_sz u) b))"

definition codec :: "('a \<Rightarrow> bool) \<Rightarrow> ('a \<Rightarrow> byte list) \<Rightarrow> ('a \<Rightarrow> marshall \<Rightarrow> marshall) \<Rightarrow> (unmarshall \<Rightarrow> 'a \<times> unmarshall) \<Rightarrow> bool" where
  "codec P enc put get \<longleftrightarrow>
     (\<forall>a m. P a \<and> m_wf m \<longrightarrow> m_wf (put a m) \<and> written (put a m) = written m @ enc a) \<and>
     (\<forall>a u rest. P a \<and> u_wf u \<and> pending u = enc a @ rest \<longrightarrow> get u = (a, u\<lparr>u_ind := u_ind u + length (enc a)\<rparr>))"

lemma codec_put:
  assumes "codec P enc put get" and "P a" and "m_wf m"
  shows "m_wf (put a m)" and "written (put a m) = written m @ enc a"
  using assms by (simp_all add: codec_def)

lemma advance:
  assumes "u_wf u" and "pending u = xs @ rest"
  shows "u_wf (u\<lparr>u_ind := u_ind u + length xs\<rparr>)" and "pending (u\<lparr>u_ind := u_ind u + length xs\<rparr>) = rest"
proof -
  obtain b where b: "u_buf u = Some b" "u_ok u" "u_ind u \<le> u_sz u" "u_sz u \<le> length b"
    using assms(1) by (auto simp: u_wf_def split: option.splits)
  have d: "drop (u_ind u) (take (u_sz u) b) = xs @ rest" using assms(2) b(1) by (simp add: pending_def)
  then have "length (xs @ rest) = u_sz u - u_ind u" using b(4) by (metis length_drop length_take min.absorb2)
  then show "u_wf (u\<lparr>u_ind := u_ind u + length xs\<rparr>)" using b by (simp add: u_wf_def)
  have "drop (length xs) (drop (u_ind u) (take (u_sz u) b)) = rest" by (simp add: d)
  then show "pending (u\<lparr>u_ind := u_ind u + length xs\<rparr>) = rest" using b(1) by (simp add: pending_def add.commute)
qed

lemma codec_get:
  assumes "codec P enc put get" and "P a" and "u_wf u" and "pending u = enc a @ rest"
  shows "get u = (a, u\<lparr>u_ind := u_ind u + length (enc a)\<rparr>)"
    and "u_wf (u\<lparr>u_ind := u_ind u + length (enc a)\<rparr>)" and "pending (u\<lparr>u_ind := u_ind u + length (enc a)\<rparr>) = rest"
  using assms advance [OF assms(3,4)] unfolding codec_def by blast+

text \<open>Two values one after the other.\<close>

definition put_pair :: "('a \<Rightarrow> marshall \<Rightarrow> marshall) \<Rightarrow> ('b \<Rightarrow> marshall \<Rightarrow> marshall) \<Rightarrow> 'a \<times> 'b \<Rightarrow> marshall \<Rightarrow> marshall" where
  "put_pair put1 put2 = (\<lambda>(a, b) m. put2 b (put1 a m))"

definition get_pair :: "(unmarshall \<Rightarrow> 'a \<times> unmarshall) \<Rightarrow> (unmarshall \<Rightarrow> 'b \<times> unmarshall) \<Rightarrow> unmarshall \<Rightarrow> ('a \<times> 'b) \<times> unmarshall" where
  "get_pair get1 get2 u = (let (a, u) = get1 u; (b, u) = get2 u in ((a, b), u))"

lemma codec_pair:
  assumes 1: "codec P1 enc1 put1 get1" and 2: "codec P2 enc2 put2 get2"
  shows "codec (\<lambda>(a, b). P1 a \<and> P2 b) (\<lambda>(a, b). enc1 a @ enc2 b) (put_pair put1 put2) (get_pair get1 get2)"
proof -
  have "m_wf (put2 b (put1 a m)) \<and> written (put2 b (put1 a m)) = written m @ enc1 a @ enc2 b"
    if "P1 a" "P2 b" "m_wf m" for a b m
    using codec_put [OF 1 that(1,3)] codec_put [OF 2 that(2)] by simp
  moreover have "get_pair get1 get2 u = ((a, b), u\<lparr>u_ind := u_ind u + length (enc1 a @ enc2 b)\<rparr>)"
    if "P1 a" "P2 b" "u_wf u" "pending u = (enc1 a @ enc2 b) @ rest" for a b u rest
  proof -
    have "pending u = enc1 a @ (enc2 b @ rest)" using that(4) by simp
    note g1 = codec_get [OF 1 that(1,3) this]
    note g2 = codec_get [OF 2 that(2) g1(2,3)]
    show ?thesis by (simp add: get_pair_def g1(1) g2(1) add.assoc)
  qed
  ultimately show ?thesis unfolding codec_def put_pair_def by auto
qed

lemma codec_map:
  assumes c: "codec P enc put get" and f: "\<And>b. g (f b) = b"
  shows "codec (\<lambda>b. P (f b)) (\<lambda>b. enc (f b)) (\<lambda>b. put (f b)) (\<lambda>u. let (a, u) = get u in (g a, u))"
proof -
  have "(let (a, u) = get u in (g a, u)) = (b, u\<lparr>u_ind := u_ind u + length (enc (f b))\<rparr>)"
    if "P (f b)" "u_wf u" "pending u = enc (f b) @ rest" for b u rest
    using codec_get(1) [OF c that] f by simp
  then show ?thesis using codec_put [OF c] by (simp add: codec_def)
qed

text \<open>A row of values, for the containers.\<close>

lemma codec_items:
  assumes c: "codec P enc put get"
  shows "\<forall>a \<in> set v. P a \<Longrightarrow> m_wf m \<Longrightarrow> m_wf (foldl (\<lambda>m z. put z m) m v) \<and>
      written (foldl (\<lambda>m z. put z m) m v) = written m @ concat (map enc v)"
    and "\<forall>a \<in> set v. P a \<Longrightarrow> u_wf u \<Longrightarrow> pending u = concat (map enc v) @ rest \<Longrightarrow>
      unmarshall_items get (length v) w u = (w @ v, u\<lparr>u_ind := u_ind u + length (concat (map enc v))\<rparr>)"
proof (induction v arbitrary: m u w)
  case (Cons a v)
  {
    case 1
    then show ?case using Cons.IH(1) [of "put a m"] codec_put [OF c, of a m] by simp
  next
    case 2
    then have p: "P a" "pending u = enc a @ (concat (map enc v) @ rest)" by simp_all
    note g = codec_get [OF c p(1) 2(2) p(2)]
    from Cons.IH(2) [OF _ g(2,3), of "w @ [a]"] 2(1) show ?case by (simp add: g(1) add.assoc)
  }
qed simp_all


lemma codec_vector:
  assumes c: "codec P enc put get" and n: "codec (\<lambda>_. True) encn put_u32 get_u32"
  shows "codec (\<lambda>v. length v < 2 ^ 32 \<and> (\<forall>a \<in> set v. P a)) (\<lambda>v. encn (of_nat (length v)) @ concat (map enc v))
    (marshall_vector put_u32 put) (unmarshall_vector get_u32 get [])"
proof -
  have "m_wf (marshall_vector put_u32 put v m) \<and>
      written (marshall_vector put_u32 put v m) = written m @ encn (of_nat (length v)) @ concat (map enc v)"
    if "\<forall>a \<in> set v. P a" "m_wf m" for v m
    using codec_put [OF n TrueI that(2)] codec_items(1) [OF c that(1)] by (simp add: marshall_vector_def)
  moreover have "unmarshall_vector get_u32 get [] u =
      (v, u\<lparr>u_ind := u_ind u + length (encn (of_nat (length v)) @ concat (map enc v))\<rparr>)"
    if "length v < 2 ^ 32" "\<forall>a \<in> set v. P a" "u_wf u" "pending u = (encn (of_nat (length v)) @ concat (map enc v)) @ rest" for v u rest
  proof -
    have "pending u = encn (of_nat (length v)) @ (concat (map enc v) @ rest)" using that(4) by simp
    note g = codec_get [OF n TrueI that(3) this]
    have "unat (of_nat (length v) :: u32) = length v" using that(1) by (simp add: unat_of_nat)
    then show ?thesis using codec_items(2) [OF c that(2) g(2,3)]
      by (simp add: unmarshall_vector_def g(1) add.assoc)
  qed
  ultimately show ?thesis unfolding codec_def by blast
qed

lemma codec_pairs:
  assumes ca: "codec Pa enca put_a get_a" and cb: "codec Pb encb put_b get_b"
  shows "\<forall>(a, b) \<in> set v. Pa a \<and> Pb b \<Longrightarrow> u_wf u \<Longrightarrow> pending u = concat (map (\<lambda>(a, b). enca a @ encb b) v) @ rest \<Longrightarrow>
    unmarshall_pairs get_a get_b (length v) d u =
      (d ++ map_of (rev v), u\<lparr>u_ind := u_ind u + length (concat (map (\<lambda>(a, b). enca a @ encb b) v))\<rparr>)"
proof (induction v arbitrary: u d)
  case (Cons ab v)
  obtain a b where ab: "ab = (a, b)" by (cases ab)
  have P: "Pa a" "Pb b" using Cons.prems(1) ab by auto
  have pa: "pending u = enca a @ (encb b @ concat (map (\<lambda>(a, b). enca a @ encb b) v) @ rest)"
    using Cons.prems(3) ab by simp
  note ga = codec_get [OF ca P(1) Cons.prems(2) pa]
  note gb = codec_get [OF cb P(2) ga(2,3)]
  have "\<forall>(a, b) \<in> set v. Pa a \<and> Pb b" using Cons.prems(1) by simp
  note IH = Cons.IH [OF this gb(2,3), of "d(a \<mapsto> b)"]
  have "d(a \<mapsto> b) ++ map_of (rev v) = d ++ map_of (rev (ab # v))" by (simp add: ab)
  then show ?case unfolding ab using IH by (simp add: ga(1) gb(1) add.assoc fun_upd_def del: map_of.simps)
qed simp

lemma codec_map_container:
  assumes ca: "codec Pa enca put_a get_a" and cb: "codec Pb encb put_b get_b" and n: "codec (\<lambda>_. True) encn put_u32 get_u32"
    and d: "\<forall>(a, b) \<in> set d. Pa a \<and> Pb b" "distinct (map fst d)" "length d < 2 ^ 32"
  shows "m_wf m \<Longrightarrow> m_wf (marshall_map put_u32 put_a put_b d m) \<and> written (marshall_map put_u32 put_a put_b d m) =
      written m @ encn (of_nat (length d)) @ concat (map (\<lambda>(a, b). enca a @ encb b) d)"
    and "u_wf u \<Longrightarrow> pending u = (encn (of_nat (length d)) @ concat (map (\<lambda>(a, b). enca a @ encb b) d)) @ rest \<Longrightarrow>
      fst (unmarshall_map get_u32 get_a get_b u) = map_of d \<and> pending (snd (unmarshall_map get_u32 get_a get_b u)) = rest"
proof -
  note pr = codec_pair [OF ca cb]
  have P: "\<forall>ab \<in> set d. (case ab of (a, b) \<Rightarrow> Pa a \<and> Pb b)" using d(1) by auto
  show "m_wf (marshall_map put_u32 put_a put_b d m) \<and> written (marshall_map put_u32 put_a put_b d m) =
      written m @ encn (of_nat (length d)) @ concat (map (\<lambda>(a, b). enca a @ encb b) d)" if m: "m_wf m"
    using codec_put [OF n TrueI m] codec_items(1) [OF pr P] by (simp add: marshall_map_def put_pair_def case_prod_unfold)
  assume u: "u_wf u" and p: "pending u = (encn (of_nat (length d)) @ concat (map (\<lambda>(a, b). enca a @ encb b) d)) @ rest"
  have "pending u = encn (of_nat (length d)) @ (concat (map (\<lambda>(a, b). enca a @ encb b) d) @ rest)" using p by simp
  note g = codec_get [OF n TrueI u this]
  have "unat (of_nat (length d) :: u32) = length d" using d(3) by (simp add: unat_of_nat)
  moreover have "map_of (rev d) = map_of d" by (subst map_of_inject_set) (use d(2) in \<open>simp_all add: rev_map [symmetric]\<close>)
  ultimately show "fst (unmarshall_map get_u32 get_a get_b u) = map_of d \<and> pending (snd (unmarshall_map get_u32 get_a get_b u)) = rest"
    using codec_pairs [OF ca cb d(1) g(2,3), of Map.empty] advance(2) [OF g(2,3)]
    by (simp add: unmarshall_map_def g(1))
qed

section \<open>A concrete library\<close>

text \<open>Operators that have these laws: integers in little-endian order, strings behind their length.\<close>

definition put_bytes :: "byte list \<Rightarrow> marshall \<Rightarrow> marshall" where
  "put_bytes bs m =
     (case m_buf m of
        None \<Rightarrow> m
      | Some b \<Rightarrow> m\<lparr>m_buf := Some (mem_splice (m_ind m) bs (b @ replicate (length bs) 0)), m_ind := m_ind m + length bs\<rparr>)"

definition get_fixed :: "nat \<Rightarrow> (byte list \<Rightarrow> 'a) \<Rightarrow> unmarshall \<Rightarrow> 'a \<times> unmarshall" where
  "get_fixed n dec u = (dec (take n (pending u)), u\<lparr>u_ind := u_ind u + n\<rparr>)"

definition enc_string :: "byte list \<Rightarrow> byte list" where
  "enc_string s = enc32 (of_nat (length s)) @ s"

definition get_string :: "unmarshall \<Rightarrow> byte list \<times> unmarshall" where
  "get_string u = (let n = unat (dec32 (take 4 (pending u))) in (take n (drop 4 (pending u)), u\<lparr>u_ind := u_ind u + (4 + n)\<rparr>))"

lemma put_bytes_spec:
  assumes "m_wf m"
  shows "m_wf (put_bytes bs m)" and "written (put_bytes bs m) = written m @ bs"
proof -
  obtain b where b: "m_buf m = Some b" "m_ind m \<le> length b" using assms by (auto simp: m_wf_def split: option.splits)
  then show "m_wf (put_bytes bs m)" by (simp add: put_bytes_def m_wf_def mem_splice_def)
  show "written (put_bytes bs m) = written m @ bs" using b by (simp add: put_bytes_def written_def mem_splice_def)
qed

lemma codec_fixed:
  assumes "\<And>a. length (enc a) = n" and "\<And>a. dec (enc a) = a"
  shows "codec (\<lambda>_. True) enc (\<lambda>a. put_bytes (enc a)) (get_fixed n dec)"
  using assms put_bytes_spec by (simp add: codec_def get_fixed_def)

lemma codec_string: "codec (\<lambda>s. length s < 2 ^ 32) enc_string (\<lambda>s. put_bytes (enc_string s)) get_string"
  using put_bytes_spec by (auto simp: codec_def get_string_def enc_string_def unat_of_nat)

lemma packs_concrete: "packs enc32 (\<lambda>i. put_bytes (enc32 i))"
proof -
  have "\<exists>ext capa. m_ind m + 4 \<le> length (b @ ext) \<and> put_bytes (enc32 i) m =
      \<lparr>m_buf = Some (mem_splice (m_ind m) (enc32 i) (b @ ext)), m_capa = capa, m_ind = m_ind m + 4\<rparr>"
    if "m_buf m = Some b" "m_ind m \<le> length b" for i m b
    using that by (cases m) (auto simp: put_bytes_def intro!: exI [of _ "replicate 4 0"])
  then show ?thesis by (simp add: packs_def)
qed

lemma unpacks_concrete: "unpacks enc32 (get_fixed 4 dec32)"
proof -
  have "take 4 (pending u) = take 4 (drop (u_ind u) b)" if "u_buf u = Some b" "u_ind u + 4 \<le> u_sz u" for u b
    using that by (simp add: pending_def drop_take min_def)
  then show ?thesis by (simp add: unpacks_def get_fixed_def)
qed

section \<open>Properties\<close>

text \<open>
  Packing the header of a request or of a reply into a buffer leaves the marshalled
  content and the write position as they are, and unpacking the header from the buffer, as it is handed
  to the connection, returns the header with the read position at the content.
\<close>

lemma header_roundtrip:
  assumes "packs enc pack" and "unpacks enc unpack"
    and "m_buf m = Some b" and "RPC_HEADER_SZ \<le> m_ind m" and "m_ind m \<le> length b"
  shows "(let m' = pack_req_header pack h m; ((buf, sz), _) = m_take_buf m'; u = unmarshall_of_buf buf sz in
      get_content m' = get_content m \<and> sz = m_ind m \<and>
      unpack_req_header unpack u = (h, u\<lparr>u_ind := RPC_HEADER_SZ\<rparr>)) \<and>
    (let m' = pack_reply_header pack r m; ((buf, sz), _) = m_take_buf m'; u = unmarshall_of_buf buf sz in
      get_content m' = get_content m \<and> sz = m_ind m \<and>
      unpack_reply_header unpack u = (r, u\<lparr>u_ind := RPC_HEADER_SZ\<rparr>))"
proof -
  have five: "length [rq_xid h, rq_proc h, rq_clt_nonce h, rq_srv_nonce h, rq_xid_rep h] \<le> 5"
    and two: "length [rp_xid r, rp_ret r] \<le> 5" by simp_all
  note rq = header_row [OF assms five, folded pack_header_row]
  note rp = header_row [OF assms two, folded pack_header_row]
  let ?m1 = "pack_req_header pack h m" and ?m2 = "pack_reply_header pack r m"
  let ?u1 = "unmarshall_of_buf (m_buf ?m1) (m_ind ?m1)" and ?u2 = "unmarshall_of_buf (m_buf ?m2) (m_ind ?m2)"
  from rq(3) have "unpack_row unpack (length [rq_xid h, rq_proc h, rq_clt_nonce h, rq_srv_nonce h, rq_xid_rep h]) (?u1\<lparr>u_ind := 4\<rparr>) =
      ([rq_xid h, rq_proc h, rq_clt_nonce h, rq_srv_nonce h, rq_xid_rep h],
       ?u1\<lparr>u_ind := 4 + 4 * length [rq_xid h, rq_proc h, rq_clt_nonce h, rq_srv_nonce h, rq_xid_rep h]\<rparr>)"
    by blast
  from unpack_header_row(1) [OF this] have 1: "unpack_req_header unpack ?u1 = (h, ?u1\<lparr>u_ind := RPC_HEADER_SZ\<rparr>)" by simp
  from rp(3) have "unpack_row unpack (length [rp_xid r, rp_ret r]) (?u2\<lparr>u_ind := 4\<rparr>) =
      ([rp_xid r, rp_ret r], ?u2\<lparr>u_ind := 4 + 4 * length [rp_xid r, rp_ret r]\<rparr>)"
    by blast
  from unpack_header_row(2) [OF this] have 2: "unpack_reply_header unpack ?u2 = (r, ?u2\<lparr>u_ind := RPC_HEADER_SZ\<rparr>)" by simp
  show ?thesis using 1 2 rq(1,2) rp(1,2) by (simp add: m_take_buf_def Let_def)
qed

end
