(* ===== verification/Rpc.thy ===== *)
theory Rpc
  imports Marshall
begin

text \<open>
  The typed layer of the RPC library, \<^verbatim>\<open>rpc/rpc.h\<close>: the client's \<^verbatim>\<open>call\<close> templates, one per number of
  arguments, and the handlers that the server's \<^verbatim>\<open>reg\<close> templates build around a method. The untyped
  \<^verbatim>\<open>call1\<close>, which sends a request and waits for the reply, and \<^verbatim>\<open>okdone\<close> are in the binary library
  and are arguments. The operators \<^verbatim>\<open><<\<close> and \<^verbatim>\<open>>>\<close> of the argument types are arguments too, as they are
  for the templates.
\<close>

text \<open>The two operators of an argument type.\<close>

type_synonym 'a put = "'a \<Rightarrow> marshall \<Rightarrow> marshall"
type_synonym 'a get = "unmarshall \<Rightarrow> 'a \<times> unmarshall"

section \<open>Error codes\<close>

definition rpc_bind :: u32 where "rpc_bind = 1"
definition timeout_failure :: int where timeout_failure_def [simp]: "timeout_failure = - 1"
definition unmarshal_args_failure :: int where unmarshal_args_failure_def [simp]: "unmarshal_args_failure = - 2"
definition unmarshal_reply_failure :: int where unmarshal_reply_failure_def [simp]: "unmarshal_reply_failure = - 3"
definition atmostonce_failure :: int where atmostonce_failure_def [simp]: "atmostonce_failure = - 4"
definition oldsrv_failure :: int where oldsrv_failure_def [simp]: "oldsrv_failure = - 5"
definition bind_failure :: int where bind_failure_def [simp]: "bind_failure = - 6"
definition cancel_failure :: int where cancel_failure_def [simp]: "cancel_failure = - 7"

section \<open>Calls\<close>

text \<open>The library's part of a client, over a state \<open>'s\<close> of the world.\<close>

record 's rpcc_lib =
  call1 :: "u32 \<Rightarrow> marshall \<Rightarrow> unmarshall \<Rightarrow> 's \<Rightarrow> (int \<times> unmarshall \<times> 's) res"
  okdone :: "unmarshall \<Rightarrow> bool"

text \<open>\<^verbatim>\<open>call_m\<close>: the output parameter keeps its value \<open>r\<close> when the call fails; a reply of the wrong shape aborts.\<close>

definition call_m ::
    "'s rpcc_lib \<Rightarrow> 'r get \<Rightarrow> u32 \<Rightarrow> marshall \<Rightarrow> 'r \<Rightarrow> 's \<Rightarrow> (int \<times> 'r \<times> 's) res" where
  "call_m lib get proc req r s =
     bindR (call1 lib proc req unmarshall_init s) (\<lambda>(intret, u, s).
     if intret < 0 then Inr (intret, r, s)
     else
       let (r, u) = get u in
       if \<not> okdone lib u then Inl Abort else Inr (intret, r, s))"

definition call_0 ::
    "'s rpcc_lib \<Rightarrow> 'r get \<Rightarrow> byte list option \<Rightarrow> u32 \<Rightarrow> 'r \<Rightarrow> 's \<Rightarrow> (int \<times> 'r \<times> 's) res" where
  "call_0 lib get raw proc r s = bindR (marshall_init raw) (\<lambda>m. call_m lib get proc m r s)"

definition call_1 ::
    "'s rpcc_lib \<Rightarrow> 'a put \<Rightarrow> 
     'r get \<Rightarrow> byte list option \<Rightarrow> u32 \<Rightarrow> 'a \<Rightarrow> 'r \<Rightarrow> 's \<Rightarrow> (int \<times> 'r \<times> 's) res" where
  "call_1 lib put1 get raw proc a1 r s =
     bindR (marshall_init raw) (\<lambda>m.
     let m = put1 a1 m
     in call_m lib get proc m r s)"

definition call_2 ::
    "'s rpcc_lib \<Rightarrow> 'a put \<Rightarrow> 'b put \<Rightarrow> 
     'r get \<Rightarrow> byte list option \<Rightarrow> u32 \<Rightarrow> 'a \<Rightarrow> 'b \<Rightarrow> 'r \<Rightarrow> 's \<Rightarrow> (int \<times> 'r \<times> 's) res" where
  "call_2 lib put1 put2 get raw proc a1 a2 r s =
     bindR (marshall_init raw) (\<lambda>m.
     let m = put1 a1 m;
         m = put2 a2 m
     in call_m lib get proc m r s)"

definition call_3 ::
    "'s rpcc_lib \<Rightarrow> 'a put \<Rightarrow> 'b put \<Rightarrow> 'c put \<Rightarrow> 
     'r get \<Rightarrow> byte list option \<Rightarrow> u32 \<Rightarrow> 'a \<Rightarrow> 'b \<Rightarrow> 'c \<Rightarrow> 'r \<Rightarrow> 's \<Rightarrow> (int \<times> 'r \<times> 's) res" where
  "call_3 lib put1 put2 put3 get raw proc a1 a2 a3 r s =
     bindR (marshall_init raw) (\<lambda>m.
     let m = put1 a1 m;
         m = put2 a2 m;
         m = put3 a3 m
     in call_m lib get proc m r s)"

definition call_4 ::
    "'s rpcc_lib \<Rightarrow> 'a put \<Rightarrow> 'b put \<Rightarrow> 'c put \<Rightarrow> 'd put \<Rightarrow> 
     'r get \<Rightarrow> byte list option \<Rightarrow> u32 \<Rightarrow> 'a \<Rightarrow> 'b \<Rightarrow> 'c \<Rightarrow> 'd \<Rightarrow> 'r \<Rightarrow> 's \<Rightarrow> (int \<times> 'r \<times> 's) res" where
  "call_4 lib put1 put2 put3 put4 get raw proc a1 a2 a3 a4 r s =
     bindR (marshall_init raw) (\<lambda>m.
     let m = put1 a1 m;
         m = put2 a2 m;
         m = put3 a3 m;
         m = put4 a4 m
     in call_m lib get proc m r s)"

definition call_5 ::
    "'s rpcc_lib \<Rightarrow> 'a put \<Rightarrow> 'b put \<Rightarrow> 'c put \<Rightarrow> 'd put \<Rightarrow> 'e put \<Rightarrow> 
     'r get \<Rightarrow> byte list option \<Rightarrow> u32 \<Rightarrow> 'a \<Rightarrow> 'b \<Rightarrow> 'c \<Rightarrow> 'd \<Rightarrow> 'e \<Rightarrow> 'r \<Rightarrow> 's \<Rightarrow> (int \<times> 'r \<times> 's) res" where
  "call_5 lib put1 put2 put3 put4 put5 get raw proc a1 a2 a3 a4 a5 r s =
     bindR (marshall_init raw) (\<lambda>m.
     let m = put1 a1 m;
         m = put2 a2 m;
         m = put3 a3 m;
         m = put4 a4 m;
         m = put5 a5 m
     in call_m lib get proc m r s)"

definition call_6 ::
    "'s rpcc_lib \<Rightarrow> 'a put \<Rightarrow> 'b put \<Rightarrow> 'c put \<Rightarrow> 'd put \<Rightarrow> 'e put \<Rightarrow> 'f put \<Rightarrow> 
     'r get \<Rightarrow> byte list option \<Rightarrow> u32 \<Rightarrow> 'a \<Rightarrow> 'b \<Rightarrow> 'c \<Rightarrow> 'd \<Rightarrow> 'e \<Rightarrow> 'f \<Rightarrow> 'r \<Rightarrow> 's \<Rightarrow> (int \<times> 'r \<times> 's) res" where
  "call_6 lib put1 put2 put3 put4 put5 put6 get raw proc a1 a2 a3 a4 a5 a6 r s =
     bindR (marshall_init raw) (\<lambda>m.
     let m = put1 a1 m;
         m = put2 a2 m;
         m = put3 a3 m;
         m = put4 a4 m;
         m = put5 a5 m;
         m = put6 a6 m
     in call_m lib get proc m r s)"

definition call_7 ::
    "'s rpcc_lib \<Rightarrow> 'a put \<Rightarrow> 'b put \<Rightarrow> 'c put \<Rightarrow> 'd put \<Rightarrow> 'e put \<Rightarrow> 'f put \<Rightarrow> 'g put \<Rightarrow> 
     'r get \<Rightarrow> byte list option \<Rightarrow> u32 \<Rightarrow> 'a \<Rightarrow> 'b \<Rightarrow> 'c \<Rightarrow> 'd \<Rightarrow> 'e \<Rightarrow> 'f \<Rightarrow> 'g \<Rightarrow> 'r \<Rightarrow> 's \<Rightarrow> (int \<times> 'r \<times> 's) res" where
  "call_7 lib put1 put2 put3 put4 put5 put6 put7 get raw proc a1 a2 a3 a4 a5 a6 a7 r s =
     bindR (marshall_init raw) (\<lambda>m.
     let m = put1 a1 m;
         m = put2 a2 m;
         m = put3 a3 m;
         m = put4 a4 m;
         m = put5 a5 m;
         m = put6 a6 m;
         m = put7 a7 m
     in call_m lib get proc m r s)"

section \<open>Handlers\<close>

text \<open>
  \<^verbatim>\<open>h1::fn\<close> for each number of arguments: \<open>r\<close> is the uninitialised result variable, which the method
  may assign.
\<close>

type_synonym 's handler = "unmarshall \<Rightarrow> marshall \<Rightarrow> 's \<Rightarrow> (int \<times> marshall \<times> 's) res"

definition reg_1 ::
    "(unmarshall \<Rightarrow> bool) \<Rightarrow> 'a get \<Rightarrow> 
     'r put \<Rightarrow> ('a \<Rightarrow> 'r \<Rightarrow> 's \<Rightarrow> (int \<times> 'r \<times> 's) res) \<Rightarrow> 'r \<Rightarrow> 's handler" where
  "reg_1 done get1 put meth r args ret s =
     (let (a1, args) = get1 args
      in if \<not> done args then Inr (unmarshal_args_failure, ret, s)
         else bindR (meth a1 r s) (\<lambda>(b, r, s). Inr (b, put r ret, s)))"

definition reg_2 ::
    "(unmarshall \<Rightarrow> bool) \<Rightarrow> 'a get \<Rightarrow> 'b get \<Rightarrow> 
     'r put \<Rightarrow> ('a \<Rightarrow> 'b \<Rightarrow> 'r \<Rightarrow> 's \<Rightarrow> (int \<times> 'r \<times> 's) res) \<Rightarrow> 'r \<Rightarrow> 's handler" where
  "reg_2 done get1 get2 put meth r args ret s =
     (let (a1, args) = get1 args;
          (a2, args) = get2 args
      in if \<not> done args then Inr (unmarshal_args_failure, ret, s)
         else bindR (meth a1 a2 r s) (\<lambda>(b, r, s). Inr (b, put r ret, s)))"

definition reg_3 ::
    "(unmarshall \<Rightarrow> bool) \<Rightarrow> 'a get \<Rightarrow> 'b get \<Rightarrow> 'c get \<Rightarrow> 
     'r put \<Rightarrow> ('a \<Rightarrow> 'b \<Rightarrow> 'c \<Rightarrow> 'r \<Rightarrow> 's \<Rightarrow> (int \<times> 'r \<times> 's) res) \<Rightarrow> 'r \<Rightarrow> 's handler" where
  "reg_3 done get1 get2 get3 put meth r args ret s =
     (let (a1, args) = get1 args;
          (a2, args) = get2 args;
          (a3, args) = get3 args
      in if \<not> done args then Inr (unmarshal_args_failure, ret, s)
         else bindR (meth a1 a2 a3 r s) (\<lambda>(b, r, s). Inr (b, put r ret, s)))"

definition reg_4 ::
    "(unmarshall \<Rightarrow> bool) \<Rightarrow> 'a get \<Rightarrow> 'b get \<Rightarrow> 'c get \<Rightarrow> 'd get \<Rightarrow> 
     'r put \<Rightarrow> ('a \<Rightarrow> 'b \<Rightarrow> 'c \<Rightarrow> 'd \<Rightarrow> 'r \<Rightarrow> 's \<Rightarrow> (int \<times> 'r \<times> 's) res) \<Rightarrow> 'r \<Rightarrow> 's handler" where
  "reg_4 done get1 get2 get3 get4 put meth r args ret s =
     (let (a1, args) = get1 args;
          (a2, args) = get2 args;
          (a3, args) = get3 args;
          (a4, args) = get4 args
      in if \<not> done args then Inr (unmarshal_args_failure, ret, s)
         else bindR (meth a1 a2 a3 a4 r s) (\<lambda>(b, r, s). Inr (b, put r ret, s)))"

definition reg_5 ::
    "(unmarshall \<Rightarrow> bool) \<Rightarrow> 'a get \<Rightarrow> 'b get \<Rightarrow> 'c get \<Rightarrow> 'd get \<Rightarrow> 'e get \<Rightarrow> 
     'r put \<Rightarrow> ('a \<Rightarrow> 'b \<Rightarrow> 'c \<Rightarrow> 'd \<Rightarrow> 'e \<Rightarrow> 'r \<Rightarrow> 's \<Rightarrow> (int \<times> 'r \<times> 's) res) \<Rightarrow> 'r \<Rightarrow> 's handler" where
  "reg_5 done get1 get2 get3 get4 get5 put meth r args ret s =
     (let (a1, args) = get1 args;
          (a2, args) = get2 args;
          (a3, args) = get3 args;
          (a4, args) = get4 args;
          (a5, args) = get5 args
      in if \<not> done args then Inr (unmarshal_args_failure, ret, s)
         else bindR (meth a1 a2 a3 a4 a5 r s) (\<lambda>(b, r, s). Inr (b, put r ret, s)))"

definition reg_6 ::
    "(unmarshall \<Rightarrow> bool) \<Rightarrow> 'a get \<Rightarrow> 'b get \<Rightarrow> 'c get \<Rightarrow> 'd get \<Rightarrow> 'e get \<Rightarrow> 'f get \<Rightarrow> 
     'r put \<Rightarrow> ('a \<Rightarrow> 'b \<Rightarrow> 'c \<Rightarrow> 'd \<Rightarrow> 'e \<Rightarrow> 'f \<Rightarrow> 'r \<Rightarrow> 's \<Rightarrow> (int \<times> 'r \<times> 's) res) \<Rightarrow> 'r \<Rightarrow> 's handler" where
  "reg_6 done get1 get2 get3 get4 get5 get6 put meth r args ret s =
     (let (a1, args) = get1 args;
          (a2, args) = get2 args;
          (a3, args) = get3 args;
          (a4, args) = get4 args;
          (a5, args) = get5 args;
          (a6, args) = get6 args
      in if \<not> done args then Inr (unmarshal_args_failure, ret, s)
         else bindR (meth a1 a2 a3 a4 a5 a6 r s) (\<lambda>(b, r, s). Inr (b, put r ret, s)))"

definition reg_7 ::
    "(unmarshall \<Rightarrow> bool) \<Rightarrow> 'a get \<Rightarrow> 'b get \<Rightarrow> 'c get \<Rightarrow> 'd get \<Rightarrow> 'e get \<Rightarrow> 'f get \<Rightarrow> 'g get \<Rightarrow> 
     'r put \<Rightarrow> ('a \<Rightarrow> 'b \<Rightarrow> 'c \<Rightarrow> 'd \<Rightarrow> 'e \<Rightarrow> 'f \<Rightarrow> 'g \<Rightarrow> 'r \<Rightarrow> 's \<Rightarrow> (int \<times> 'r \<times> 's) res) \<Rightarrow> 'r \<Rightarrow> 's handler" where
  "reg_7 done get1 get2 get3 get4 get5 get6 get7 put meth r args ret s =
     (let (a1, args) = get1 args;
          (a2, args) = get2 args;
          (a3, args) = get3 args;
          (a4, args) = get4 args;
          (a5, args) = get5 args;
          (a6, args) = get6 args;
          (a7, args) = get7 args
      in if \<not> done args then Inr (unmarshal_args_failure, ret, s)
         else bindR (meth a1 a2 a3 a4 a5 a6 a7 r s) (\<lambda>(b, r, s). Inr (b, put r ret, s)))"

section \<open>The numbers of arguments\<close>

text \<open>
  A call with several arguments is a call with one argument, the tuple of them, and the handler of a
  method with several arguments is the handler of the method on tuples.
\<close>

lemma call_tuple:
  "call_2 lib p1 p2 = (\<lambda>get raw proc a1 a2. call_1 lib (put_pair p1 p2) get raw proc (a1, a2))"
  "call_3 lib p1 p2 p3 = (\<lambda>get raw proc a1 a2 a3. call_2 lib p1 (put_pair p2 p3) get raw proc a1 (a2, a3))"
  "call_4 lib p1 p2 p3 p4 = (\<lambda>get raw proc a1 a2 a3 a4. call_3 lib p1 p2 (put_pair p3 p4) get raw proc a1 a2 (a3, a4))"
  "call_5 lib p1 p2 p3 p4 p5 =
     (\<lambda>get raw proc a1 a2 a3 a4 a5. call_4 lib p1 p2 p3 (put_pair p4 p5) get raw proc a1 a2 a3 (a4, a5))"
  "call_6 lib p1 p2 p3 p4 p5 p6 =
     (\<lambda>get raw proc a1 a2 a3 a4 a5 a6. call_5 lib p1 p2 p3 p4 (put_pair p5 p6) get raw proc a1 a2 a3 a4 (a5, a6))"
  "call_7 lib p1 p2 p3 p4 p5 p6 p7 =
     (\<lambda>get raw proc a1 a2 a3 a4 a5 a6 a7. call_6 lib p1 p2 p3 p4 p5 (put_pair p6 p7) get raw proc a1 a2 a3 a4 a5 (a6, a7))"
  by (simp_all add: fun_eq_iff call_1_def call_2_def call_3_def call_4_def call_5_def call_6_def call_7_def put_pair_def Let_def)

lemma reg_tuple:
  "reg_2 d g1 g2 put meth = reg_1 d (get_pair g1 g2) put (\<lambda>(a1, a2). meth a1 a2)"
  "reg_3 d g1 g2 g3 put meth3 = reg_2 d g1 (get_pair g2 g3) put (\<lambda>a1 (a2, a3). meth3 a1 a2 a3)"
  "reg_4 d g1 g2 g3 g4 put meth4 = reg_3 d g1 g2 (get_pair g3 g4) put (\<lambda>a1 a2 (a3, a4). meth4 a1 a2 a3 a4)"
  "reg_5 d g1 g2 g3 g4 g5 put meth5 = reg_4 d g1 g2 g3 (get_pair g4 g5) put (\<lambda>a1 a2 a3 (a4, a5). meth5 a1 a2 a3 a4 a5)"
  "reg_6 d g1 g2 g3 g4 g5 g6 put meth6 =
     reg_5 d g1 g2 g3 g4 (get_pair g5 g6) put (\<lambda>a1 a2 a3 a4 (a5, a6). meth6 a1 a2 a3 a4 a5 a6)"
  "reg_7 d g1 g2 g3 g4 g5 g6 g7 put meth7 =
     reg_6 d g1 g2 g3 g4 g5 (get_pair g6 g7) put (\<lambda>a1 a2 a3 a4 a5 (a6, a7). meth7 a1 a2 a3 a4 a5 a6 a7)"
  by (simp_all add: fun_eq_iff reg_1_def reg_2_def reg_3_def reg_4_def reg_5_def reg_6_def reg_7_def get_pair_def
      Let_def split: prod.splits)

section \<open>A call reaches its method\<close>

text \<open>
  A network that delivers: the content of the request is unmarshalled by the handler registered for
  the procedure, and the content of its reply by the caller. As in the library's \<^verbatim>\<open>rpcs::dispatch\<close>, the
  server asserts that the procedure is registered and that the handler's status is not negative, so
  a request that the handler cannot read ends the server. The other arguments are the bytes of
  uninitialised buffers.
\<close>

definition loopback ::
    "(u32 \<rightharpoonup> 's handler) \<Rightarrow> byte list option \<Rightarrow> byte list \<Rightarrow> u32 \<Rightarrow> marshall \<Rightarrow> unmarshall \<Rightarrow> 's \<Rightarrow> (int \<times> unmarshall \<times> 's) res" where
  "loopback procs raw hdr proc req u s =
     (case procs proc of
        None \<Rightarrow> Inl Abort
      | Some h \<Rightarrow>
          bindR (get_content req) (\<lambda>c.
          bindR (marshall_init raw) (\<lambda>rep.
          bindR (h (unmarshall_of_content hdr c) rep s) (\<lambda>(b, rep, s).
          bindR (guardR (0 \<le> b) Abort) (\<lambda>_.
          bindR (get_content rep) (\<lambda>c. Inr (b, unmarshall_of_content hdr c, s)))))))"

text \<open>What the caller sees of a method that the server runs.\<close>

definition served :: "(int \<times> 'r \<times> 's) res \<Rightarrow> (int \<times> 'r \<times> 's) res" where
  "served x = bindR x (\<lambda>(b, r, s). if b < 0 then Inl Abort else Inr (b, r, s))"

definition all_read :: "unmarshall \<Rightarrow> bool" where
  "all_read u \<longleftrightarrow> u_ok u \<and> u_ind u = u_sz u"

lemma fresh_marshall:
  assumes "length b = DEFAULT_RPC_SZ"
  shows "\<exists>m. marshall_init (Some b) = Inr m \<and> m_wf m \<and> written m = take RPC_HEADER_SZ b"
  using assms by (simp add: marshall_init_def m_wf_def written_def)

lemma content_written:
  assumes "m_wf m" and "written m = take RPC_HEADER_SZ b @ c" and "length b = DEFAULT_RPC_SZ"
  shows "get_content m = Inr c"
proof -
  obtain b' where b': "m_buf m = Some b'" "m_ind m \<le> length b'" using assms(1) by (auto simp: m_wf_def split: option.splits)
  then have t: "take (m_ind m) b' = take 24 b @ c" using assms(2) by (simp add: written_def)
  from arg_cong [OF t, of length] have l: "m_ind m = 24 + length c" using b'(2) assms(3) by simp
  have "take (m_ind m - 24) (drop 24 b') = drop 24 (take (m_ind m) b')" by (simp add: drop_take)
  also have "\<dots> = c" unfolding t using assms(3) by simp
  finally show ?thesis using b' l by (simp add: get_content_def read_mem_def)
qed

lemma content_pending:
  assumes "RPC_HEADER_SZ \<le> length hdr"
  shows "u_wf (unmarshall_of_content hdr c)" and "pending (unmarshall_of_content hdr c) = c"
  using assms by (simp_all add: unmarshall_of_content_def take_content_def unmarshall_init_def u_wf_def pending_def)

lemma all_read_codec:
  assumes "codec P enc put get" and "P a" and "RPC_HEADER_SZ \<le> length hdr"
  shows "\<exists>u. get (unmarshall_of_content hdr (enc a)) = (a, u) \<and> all_read u"
proof -
  note c = content_pending [OF assms(3), of "enc a"]
  have p: "pending (unmarshall_of_content hdr (enc a)) = enc a @ []" using c(2) by simp
  note g = codec_get [OF assms(1,2) c(1) p]
  have "all_read (unmarshall_of_content hdr (enc a)\<lparr>u_ind := u_ind (unmarshall_of_content hdr (enc a)) + length (enc a)\<rparr>)"
    by (simp add: all_read_def unmarshall_of_content_def take_content_def Let_def)
  then show ?thesis using g(1) by simp
qed

text \<open>
  A typed call over such a network is the call of the method: a fault of the method is a fault of the
  call, and a negative status of the method ends the server.
\<close>

lemma call_1_reaches:
  assumes lib: "call1 lib = loopback procs raw hdr" "okdone lib = all_read"
    and proc: "procs proc = Some (reg_1 (okdone lib) get put_r meth r0)"
    and ca: "codec P enc put get" "P a" and cr: "codec Q encr put_r get_r"
    and Q: "\<And>b r' s'. meth a r0 s = Inr (b, r', s') \<Longrightarrow> Q r'"
    and mem: "raw = Some b1" "length b1 = DEFAULT_RPC_SZ" "raw' = Some b2" "length b2 = DEFAULT_RPC_SZ" "RPC_HEADER_SZ \<le> length hdr"
  shows "call_1 lib put get_r raw' proc a r s = served (meth a r0 s)"
proof -
  obtain m where m: "marshall_init raw' = Inr m" "m_wf m" "written m = take RPC_HEADER_SZ b2"
    using fresh_marshall [OF mem(4)] mem(3) by auto
  have "get_content (put a m) = Inr (enc a)"
    using codec_put [OF ca m(2)] m(3) mem(4) by (intro content_written) simp_all
  moreover obtain u where u: "get (unmarshall_of_content hdr (enc a)) = (a, u)" "all_read u"
    using all_read_codec [OF ca mem(5)] by blast
  moreover obtain rep where rep: "marshall_init raw = Inr rep" "m_wf rep" "written rep = take RPC_HEADER_SZ b1"
    using fresh_marshall [OF mem(2)] mem(1) by auto
  ultimately have run: "call1 lib proc (put a m) unmarshall_init s =
      bindR (meth a r0 s) (\<lambda>(b, r', s'). bindR (guardR (0 \<le> b) Abort) (\<lambda>_.
        bindR (get_content (put_r r' rep)) (\<lambda>c. Inr (b, unmarshall_of_content hdr c, s'))))"
    using proc lib by (cases "meth a r0 s") (auto simp: loopback_def reg_1_def)
  show ?thesis
  proof (cases "meth a r0 s")
    case (Inl flt)
    then show ?thesis using run m(1) by (simp add: call_1_def call_m_def served_def)
  next
    case (Inr t)
    obtain b r' s' where t: "t = (b, r', s')" by (cases t)
    have q: "Q r'" using Q Inr t by simp
    have "get_content (put_r r' rep) = Inr (encr r')"
      using codec_put [OF cr q rep(2)] rep(3) mem(2) by (intro content_written) simp_all
    moreover obtain u' where "get_r (unmarshall_of_content hdr (encr r')) = (r', u')" "all_read u'"
      using all_read_codec [OF cr q mem(5)] by blast
    ultimately show ?thesis using run m(1) Inr t lib by (auto simp: call_1_def call_m_def served_def guardR_def)
  qed
qed

text \<open>A handler that reads less than the caller has written refuses the call.\<close>

lemma short_read_refused:
  assumes c: "codec P enc put get" "P a" and b: "bs = enc a @ rest" "rest \<noteq> []" and hdr: "RPC_HEADER_SZ \<le> length hdr"
  shows "reg_1 all_read get put_r meth r (unmarshall_of_content hdr bs) ret s = Inr (unmarshal_args_failure, ret, s)"
proof -
  note p = content_pending [OF hdr, of bs]
  note g = codec_get [OF c p(1), of rest]
  have "\<not> all_read (unmarshall_of_content hdr bs\<lparr>u_ind := u_ind (unmarshall_of_content hdr bs) + length (enc a)\<rparr>)"
    using b by (simp add: all_read_def unmarshall_of_content_def take_content_def Let_def)
  then show ?thesis using g p(2) b(1) by (simp add: reg_1_def)
qed

section \<open>The operators of the basic types\<close>

text \<open>The library's operators for the basic types; an \<^verbatim>\<open>int\<close> by its 32 bits.\<close>

record wire_ops =
  put_u32 :: "u32 put"
  get_u32 :: "u32 get"
  put_int :: "u32 put"
  get_int :: "u32 get"
  put_u64 :: "u64 put"
  get_u64 :: "u64 get"
  put_str :: "byte list put"
  get_str :: "byte list get"

text \<open>The operators of the basic types work for every number and for the strings in \<open>S\<close>.\<close>

definition wire_ok :: "(byte list \<Rightarrow> bool) \<Rightarrow> wire_ops \<Rightarrow> bool" where
  "wire_ok S w \<longleftrightarrow> (\<exists>enc. codec (\<lambda>_. True) enc (put_u32 w) (get_u32 w)) \<and> (\<exists>enc. codec (\<lambda>_. True) enc (put_int w) (get_int w)) \<and>
     (\<exists>enc. codec (\<lambda>_. True) enc (put_u64 w) (get_u64 w)) \<and> (\<exists>enc. codec S enc (put_str w) (get_str w))"

definition wire0 :: wire_ops where
  "wire0 = \<lparr>put_u32 = \<lambda>i. put_bytes (enc32 i), get_u32 = get_fixed 4 dec32, put_int = \<lambda>i. put_bytes (enc32 i), get_int = get_fixed 4 dec32,
     put_u64 = \<lambda>i. put_bytes (enc64 i), get_u64 = get_fixed 8 dec64, put_str = \<lambda>s. put_bytes (enc_string s), get_str = get_string\<rparr>"

lemma wire0_ok: "wire_ok (\<lambda>s. length s < 2 ^ 32) wire0"
proof -
  have "codec (\<lambda>_. True) enc32 (\<lambda>i. put_bytes (enc32 i)) (get_fixed 4 dec32)"
    "codec (\<lambda>_. True) enc64 (\<lambda>i. put_bytes (enc64 i)) (get_fixed 8 dec64)" by (rule codec_fixed; simp)+
  with codec_string show ?thesis unfolding wire_ok_def wire0_def by auto
qed

lemma codec_cong: "codec P enc put get \<Longrightarrow> P = P' \<Longrightarrow> enc = enc' \<Longrightarrow> put = put' \<Longrightarrow> get = get' \<Longrightarrow> codec P' enc' put' get'"
  by simp

lemma wire_mem0:
  "length (replicate 1024 (0 :: byte)) = DEFAULT_RPC_SZ" "length (replicate 1024 (9 :: byte)) = DEFAULT_RPC_SZ"
  "RPC_HEADER_SZ \<le> length (replicate 24 (0 :: byte))"
  by simp_all

text \<open>A call with any number of arguments reaches the method that is registered with as many.\<close>

lemma call_reaches:
  assumes lib: "call1 lib = loopback procs (Some b1) hdr" "okdone lib = all_read"
    and c1: "codec P1 enc1 p1 g1" "P1 a1" and c2: "codec P2 enc2 p2 g2" "P2 a2" and c3: "codec P3 enc3 p3 g3" "P3 a3"
    and c4: "codec P4 enc4 p4 g4" "P4 a4" and c5: "codec P5 enc5 p5 g5" "P5 a5" and c6: "codec P6 enc6 p6 g6" "P6 a6"
    and c7: "codec P7 enc7 p7 g7" "P7 a7" and cr: "codec (\<lambda>_. True) encr put_r get_r"
    and mem: "length b1 = DEFAULT_RPC_SZ" "length b2 = DEFAULT_RPC_SZ" "RPC_HEADER_SZ \<le> length hdr"
  shows "procs proc = Some (reg_1 (okdone lib) g1 put_r meth1 r0) \<Longrightarrow>
      call_1 lib p1 get_r (Some b2) proc a1 r s = served (meth1 a1 r0 s)"
    and "procs proc = Some (reg_2 (okdone lib) g1 g2 put_r meth2 r0) \<Longrightarrow>
      call_2 lib p1 p2 get_r (Some b2) proc a1 a2 r s = served (meth2 a1 a2 r0 s)"
    and "procs proc = Some (reg_3 (okdone lib) g1 g2 g3 put_r meth3 r0) \<Longrightarrow>
      call_3 lib p1 p2 p3 get_r (Some b2) proc a1 a2 a3 r s = served (meth3 a1 a2 a3 r0 s)"
    and "procs proc = Some (reg_4 (okdone lib) g1 g2 g3 g4 put_r meth4 r0) \<Longrightarrow>
      call_4 lib p1 p2 p3 p4 get_r (Some b2) proc a1 a2 a3 a4 r s = served (meth4 a1 a2 a3 a4 r0 s)"
    and "procs proc = Some (reg_5 (okdone lib) g1 g2 g3 g4 g5 put_r meth5 r0) \<Longrightarrow>
      call_5 lib p1 p2 p3 p4 p5 get_r (Some b2) proc a1 a2 a3 a4 a5 r s = served (meth5 a1 a2 a3 a4 a5 r0 s)"
    and "procs proc = Some (reg_6 (okdone lib) g1 g2 g3 g4 g5 g6 put_r meth6 r0) \<Longrightarrow>
      call_6 lib p1 p2 p3 p4 p5 p6 get_r (Some b2) proc a1 a2 a3 a4 a5 a6 r s = served (meth6 a1 a2 a3 a4 a5 a6 r0 s)"
    and "procs proc = Some (reg_7 (okdone lib) g1 g2 g3 g4 g5 g6 g7 put_r meth7 r0) \<Longrightarrow>
      call_7 lib p1 p2 p3 p4 p5 p6 p7 get_r (Some b2) proc a1 a2 a3 a4 a5 a6 a7 r s = served (meth7 a1 a2 a3 a4 a5 a6 a7 r0 s)"
proof -
  note reach = call_1_reaches [OF lib _ _ _ cr TrueI refl mem(1) refl mem(2,3), where proc = proc and s = s and r = r]
  note k1 = c1(1)
  note k2 = codec_pair [OF c1(1) c2(1)]
  note k3 = codec_pair [OF c1(1) codec_pair [OF c2(1) c3(1)]]
  note k4 = codec_pair [OF c1(1) codec_pair [OF c2(1) codec_pair [OF c3(1) c4(1)]]]
  note k5 = codec_pair [OF c1(1) codec_pair [OF c2(1) codec_pair [OF c3(1) codec_pair [OF c4(1) c5(1)]]]]
  note k6 = codec_pair [OF c1(1) codec_pair [OF c2(1) codec_pair [OF c3(1) codec_pair [OF c4(1) codec_pair [OF c5(1) c6(1)]]]]]
  note k7 = codec_pair [OF c1(1) codec_pair [OF c2(1) codec_pair [OF c3(1) codec_pair [OF c4(1) codec_pair [OF c5(1) codec_pair [OF c6(1) c7(1)]]]]]]
  show "call_1 lib p1 get_r (Some b2) proc a1 r s = served (meth1 a1 r0 s)"
    if "procs proc = Some (reg_1 (okdone lib) g1 put_r meth1 r0)"
    using reach [OF _ k1, where a = "a1"] that c1(2) c2(2) c3(2) c4(2) c5(2) c6(2) c7(2) by (simp add: call_tuple reg_tuple case_prod_unfold)
  show "call_2 lib p1 p2 get_r (Some b2) proc a1 a2 r s = served (meth2 a1 a2 r0 s)"
    if "procs proc = Some (reg_2 (okdone lib) g1 g2 put_r meth2 r0)"
    using reach [OF _ k2, where a = "(a1, a2)"] that c1(2) c2(2) c3(2) c4(2) c5(2) c6(2) c7(2) by (simp add: call_tuple reg_tuple case_prod_unfold)
  show "call_3 lib p1 p2 p3 get_r (Some b2) proc a1 a2 a3 r s = served (meth3 a1 a2 a3 r0 s)"
    if "procs proc = Some (reg_3 (okdone lib) g1 g2 g3 put_r meth3 r0)"
    using reach [OF _ k3, where a = "(a1, a2, a3)"] that c1(2) c2(2) c3(2) c4(2) c5(2) c6(2) c7(2) by (simp add: call_tuple reg_tuple case_prod_unfold)
  show "call_4 lib p1 p2 p3 p4 get_r (Some b2) proc a1 a2 a3 a4 r s = served (meth4 a1 a2 a3 a4 r0 s)"
    if "procs proc = Some (reg_4 (okdone lib) g1 g2 g3 g4 put_r meth4 r0)"
    using reach [OF _ k4, where a = "(a1, a2, a3, a4)"] that c1(2) c2(2) c3(2) c4(2) c5(2) c6(2) c7(2) by (simp add: call_tuple reg_tuple case_prod_unfold)
  show "call_5 lib p1 p2 p3 p4 p5 get_r (Some b2) proc a1 a2 a3 a4 a5 r s = served (meth5 a1 a2 a3 a4 a5 r0 s)"
    if "procs proc = Some (reg_5 (okdone lib) g1 g2 g3 g4 g5 put_r meth5 r0)"
    using reach [OF _ k5, where a = "(a1, a2, a3, a4, a5)"] that c1(2) c2(2) c3(2) c4(2) c5(2) c6(2) c7(2) by (simp add: call_tuple reg_tuple case_prod_unfold)
  show "call_6 lib p1 p2 p3 p4 p5 p6 get_r (Some b2) proc a1 a2 a3 a4 a5 a6 r s = served (meth6 a1 a2 a3 a4 a5 a6 r0 s)"
    if "procs proc = Some (reg_6 (okdone lib) g1 g2 g3 g4 g5 g6 put_r meth6 r0)"
    using reach [OF _ k6, where a = "(a1, a2, a3, a4, a5, a6)"] that c1(2) c2(2) c3(2) c4(2) c5(2) c6(2) c7(2) by (simp add: call_tuple reg_tuple case_prod_unfold)
  show "call_7 lib p1 p2 p3 p4 p5 p6 p7 get_r (Some b2) proc a1 a2 a3 a4 a5 a6 a7 r s = served (meth7 a1 a2 a3 a4 a5 a6 a7 r0 s)"
    if "procs proc = Some (reg_7 (okdone lib) g1 g2 g3 g4 g5 g6 g7 put_r meth7 r0)"
    using reach [OF _ k7, where a = "(a1, a2, a3, a4, a5, a6, a7)"] that c1(2) c2(2) c3(2) c4(2) c5(2) c6(2) c7(2) by (simp add: call_tuple reg_tuple case_prod_unfold)
qed

text \<open>A handler of any number of arguments refuses a request with bytes left over.\<close>

lemma reg_refuses:
  assumes c1: "codec P1 enc1 p1 g1" "P1 a1" and c2: "codec P2 enc2 p2 g2" "P2 a2" and c3: "codec P3 enc3 p3 g3" "P3 a3"
    and c4: "codec P4 enc4 p4 g4" "P4 a4" and c5: "codec P5 enc5 p5 g5" "P5 a5" and c6: "codec P6 enc6 p6 g6" "P6 a6"
    and c7: "codec P7 enc7 p7 g7" "P7 a7"
    and hdr: "RPC_HEADER_SZ \<le> length hdr" and rest: "rest \<noteq> []"
  shows "reg_1 all_read g1 put_r meth1 r0 (unmarshall_of_content hdr (enc1 a1 @ rest)) ret s =
      Inr (unmarshal_args_failure, ret, s)"
    and "reg_2 all_read g1 g2 put_r meth2 r0 (unmarshall_of_content hdr (enc1 a1 @ enc2 a2 @ rest)) ret s =
      Inr (unmarshal_args_failure, ret, s)"
    and "reg_3 all_read g1 g2 g3 put_r meth3 r0 (unmarshall_of_content hdr (enc1 a1 @ enc2 a2 @ enc3 a3 @ rest)) ret s =
      Inr (unmarshal_args_failure, ret, s)"
    and "reg_4 all_read g1 g2 g3 g4 put_r meth4 r0 (unmarshall_of_content hdr (enc1 a1 @ enc2 a2 @ enc3 a3 @ enc4 a4 @ rest)) ret s =
      Inr (unmarshal_args_failure, ret, s)"
    and "reg_5 all_read g1 g2 g3 g4 g5 put_r meth5 r0 (unmarshall_of_content hdr (enc1 a1 @ enc2 a2 @ enc3 a3 @ enc4 a4 @ enc5 a5 @ rest)) ret s =
      Inr (unmarshal_args_failure, ret, s)"
    and "reg_6 all_read g1 g2 g3 g4 g5 g6 put_r meth6 r0 (unmarshall_of_content hdr (enc1 a1 @ enc2 a2 @ enc3 a3 @ enc4 a4 @ enc5 a5 @ enc6 a6 @ rest)) ret s =
      Inr (unmarshal_args_failure, ret, s)"
    and "reg_7 all_read g1 g2 g3 g4 g5 g6 g7 put_r meth7 r0 (unmarshall_of_content hdr (enc1 a1 @ enc2 a2 @ enc3 a3 @ enc4 a4 @ enc5 a5 @ enc6 a6 @ enc7 a7 @ rest)) ret s =
      Inr (unmarshal_args_failure, ret, s)"
proof -
  note refused = short_read_refused [OF _ _ refl rest hdr]
  note k1 = c1(1)
  note k2 = codec_pair [OF c1(1) c2(1)]
  note k3 = codec_pair [OF c1(1) codec_pair [OF c2(1) c3(1)]]
  note k4 = codec_pair [OF c1(1) codec_pair [OF c2(1) codec_pair [OF c3(1) c4(1)]]]
  note k5 = codec_pair [OF c1(1) codec_pair [OF c2(1) codec_pair [OF c3(1) codec_pair [OF c4(1) c5(1)]]]]
  note k6 = codec_pair [OF c1(1) codec_pair [OF c2(1) codec_pair [OF c3(1) codec_pair [OF c4(1) codec_pair [OF c5(1) c6(1)]]]]]
  note k7 = codec_pair [OF c1(1) codec_pair [OF c2(1) codec_pair [OF c3(1) codec_pair [OF c4(1) codec_pair [OF c5(1) codec_pair [OF c6(1) c7(1)]]]]]]
  show "reg_1 all_read g1 put_r meth1 r0 (unmarshall_of_content hdr (enc1 a1 @ rest)) ret s =
      Inr (unmarshal_args_failure, ret, s)"
    using refused [OF k1, where a = "a1"] c1(2) c2(2) c3(2) c4(2) c5(2) c6(2) c7(2) by (simp add: reg_tuple case_prod_unfold)
  show "reg_2 all_read g1 g2 put_r meth2 r0 (unmarshall_of_content hdr (enc1 a1 @ enc2 a2 @ rest)) ret s =
      Inr (unmarshal_args_failure, ret, s)"
    using refused [OF k2, where a = "(a1, a2)"] c1(2) c2(2) c3(2) c4(2) c5(2) c6(2) c7(2) by (simp add: reg_tuple case_prod_unfold)
  show "reg_3 all_read g1 g2 g3 put_r meth3 r0 (unmarshall_of_content hdr (enc1 a1 @ enc2 a2 @ enc3 a3 @ rest)) ret s =
      Inr (unmarshal_args_failure, ret, s)"
    using refused [OF k3, where a = "(a1, a2, a3)"] c1(2) c2(2) c3(2) c4(2) c5(2) c6(2) c7(2) by (simp add: reg_tuple case_prod_unfold)
  show "reg_4 all_read g1 g2 g3 g4 put_r meth4 r0 (unmarshall_of_content hdr (enc1 a1 @ enc2 a2 @ enc3 a3 @ enc4 a4 @ rest)) ret s =
      Inr (unmarshal_args_failure, ret, s)"
    using refused [OF k4, where a = "(a1, a2, a3, a4)"] c1(2) c2(2) c3(2) c4(2) c5(2) c6(2) c7(2) by (simp add: reg_tuple case_prod_unfold)
  show "reg_5 all_read g1 g2 g3 g4 g5 put_r meth5 r0 (unmarshall_of_content hdr (enc1 a1 @ enc2 a2 @ enc3 a3 @ enc4 a4 @ enc5 a5 @ rest)) ret s =
      Inr (unmarshal_args_failure, ret, s)"
    using refused [OF k5, where a = "(a1, a2, a3, a4, a5)"] c1(2) c2(2) c3(2) c4(2) c5(2) c6(2) c7(2) by (simp add: reg_tuple case_prod_unfold)
  show "reg_6 all_read g1 g2 g3 g4 g5 g6 put_r meth6 r0 (unmarshall_of_content hdr (enc1 a1 @ enc2 a2 @ enc3 a3 @ enc4 a4 @ enc5 a5 @ enc6 a6 @ rest)) ret s =
      Inr (unmarshal_args_failure, ret, s)"
    using refused [OF k6, where a = "(a1, a2, a3, a4, a5, a6)"] c1(2) c2(2) c3(2) c4(2) c5(2) c6(2) c7(2) by (simp add: reg_tuple case_prod_unfold)
  show "reg_7 all_read g1 g2 g3 g4 g5 g6 g7 put_r meth7 r0 (unmarshall_of_content hdr (enc1 a1 @ enc2 a2 @ enc3 a3 @ enc4 a4 @ enc5 a5 @ enc6 a6 @ enc7 a7 @ rest)) ret s =
      Inr (unmarshal_args_failure, ret, s)"
    using refused [OF k7, where a = "(a1, a2, a3, a4, a5, a6, a7)"] c1(2) c2(2) c3(2) c4(2) c5(2) c6(2) c7(2) by (simp add: reg_tuple case_prod_unfold)
qed

section \<open>Property\<close>

text \<open>
  C18 (functional). For every number of arguments from one to seven: over a network that delivers, a call
  with the arguments of a registered method runs that method on these arguments and returns its status
  and its result, and ends the server when the status is negative; and a request that has bytes left when
  the handler has read its arguments is refused with \<^verbatim>\<open>unmarshal_args_failure\<close>, without a run of the method
  and with the reply and the state left alone.
\<close>

theorem rpc_call_runs_method:
  assumes lib: "call1 lib = loopback procs (Some b1) hdr" "okdone lib = all_read"
    and c1: "codec P1 enc1 p1 g1" "P1 a1" and c2: "codec P2 enc2 p2 g2" "P2 a2" and c3: "codec P3 enc3 p3 g3" "P3 a3"
    and c4: "codec P4 enc4 p4 g4" "P4 a4" and c5: "codec P5 enc5 p5 g5" "P5 a5" and c6: "codec P6 enc6 p6 g6" "P6 a6"
    and c7: "codec P7 enc7 p7 g7" "P7 a7" and cr: "codec (\<lambda>_. True) encr put_r get_r"
    and mem: "length b1 = DEFAULT_RPC_SZ" "length b2 = DEFAULT_RPC_SZ" "RPC_HEADER_SZ \<le> length hdr" and rest: "rest \<noteq> []"
  shows "(procs proc = Some (reg_1 (okdone lib) g1 put_r meth1 r0) \<longrightarrow>
      call_1 lib p1 get_r (Some b2) proc a1 r s = served (meth1 a1 r0 s)) \<and>
    (procs proc = Some (reg_2 (okdone lib) g1 g2 put_r meth2 r0) \<longrightarrow>
      call_2 lib p1 p2 get_r (Some b2) proc a1 a2 r s = served (meth2 a1 a2 r0 s)) \<and>
    (procs proc = Some (reg_3 (okdone lib) g1 g2 g3 put_r meth3 r0) \<longrightarrow>
      call_3 lib p1 p2 p3 get_r (Some b2) proc a1 a2 a3 r s = served (meth3 a1 a2 a3 r0 s)) \<and>
    (procs proc = Some (reg_4 (okdone lib) g1 g2 g3 g4 put_r meth4 r0) \<longrightarrow>
      call_4 lib p1 p2 p3 p4 get_r (Some b2) proc a1 a2 a3 a4 r s = served (meth4 a1 a2 a3 a4 r0 s)) \<and>
    (procs proc = Some (reg_5 (okdone lib) g1 g2 g3 g4 g5 put_r meth5 r0) \<longrightarrow>
      call_5 lib p1 p2 p3 p4 p5 get_r (Some b2) proc a1 a2 a3 a4 a5 r s = served (meth5 a1 a2 a3 a4 a5 r0 s)) \<and>
    (procs proc = Some (reg_6 (okdone lib) g1 g2 g3 g4 g5 g6 put_r meth6 r0) \<longrightarrow>
      call_6 lib p1 p2 p3 p4 p5 p6 get_r (Some b2) proc a1 a2 a3 a4 a5 a6 r s = served (meth6 a1 a2 a3 a4 a5 a6 r0 s)) \<and>
    (procs proc = Some (reg_7 (okdone lib) g1 g2 g3 g4 g5 g6 g7 put_r meth7 r0) \<longrightarrow>
      call_7 lib p1 p2 p3 p4 p5 p6 p7 get_r (Some b2) proc a1 a2 a3 a4 a5 a6 a7 r s = served (meth7 a1 a2 a3 a4 a5 a6 a7 r0 s)) \<and>
    reg_1 (okdone lib) g1 put_r meth1 r0 (unmarshall_of_content hdr (enc1 a1 @ rest)) ret s =
      Inr (unmarshal_args_failure, ret, s) \<and>
    reg_2 (okdone lib) g1 g2 put_r meth2 r0 (unmarshall_of_content hdr (enc1 a1 @ enc2 a2 @ rest)) ret s =
      Inr (unmarshal_args_failure, ret, s) \<and>
    reg_3 (okdone lib) g1 g2 g3 put_r meth3 r0 (unmarshall_of_content hdr (enc1 a1 @ enc2 a2 @ enc3 a3 @ rest)) ret s =
      Inr (unmarshal_args_failure, ret, s) \<and>
    reg_4 (okdone lib) g1 g2 g3 g4 put_r meth4 r0 (unmarshall_of_content hdr (enc1 a1 @ enc2 a2 @ enc3 a3 @ enc4 a4 @ rest)) ret s =
      Inr (unmarshal_args_failure, ret, s) \<and>
    reg_5 (okdone lib) g1 g2 g3 g4 g5 put_r meth5 r0 (unmarshall_of_content hdr (enc1 a1 @ enc2 a2 @ enc3 a3 @ enc4 a4 @ enc5 a5 @ rest)) ret s =
      Inr (unmarshal_args_failure, ret, s) \<and>
    reg_6 (okdone lib) g1 g2 g3 g4 g5 g6 put_r meth6 r0 (unmarshall_of_content hdr (enc1 a1 @ enc2 a2 @ enc3 a3 @ enc4 a4 @ enc5 a5 @ enc6 a6 @ rest)) ret s =
      Inr (unmarshal_args_failure, ret, s) \<and>
    reg_7 (okdone lib) g1 g2 g3 g4 g5 g6 g7 put_r meth7 r0 (unmarshall_of_content hdr (enc1 a1 @ enc2 a2 @ enc3 a3 @ enc4 a4 @ enc5 a5 @ enc6 a6 @ enc7 a7 @ rest)) ret s =
      Inr (unmarshal_args_failure, ret, s)"
  using call_reaches [OF lib c1 c2 c3 c4 c5 c6 c7 cr mem, of proc _ r0 r s] reg_refuses [OF c1 c2 c3 c4 c5 c6 c7 mem(3) rest, of put_r _ r0 ret s]
  unfolding lib(2) by blast

text \<open>A method of seven numbers that returns the first minus the last, under procedure number 5.\<close>

definition meth0 :: "u32 \<Rightarrow> u32 \<Rightarrow> u32 \<Rightarrow> u32 \<Rightarrow> u32 \<Rightarrow> u32 \<Rightarrow> u32 \<Rightarrow> u32 \<Rightarrow> nat \<Rightarrow> (int \<times> u32 \<times> nat) res" where
  "meth0 a1 a2 a3 a4 a5 a6 a7 r n = Inr (0, a1 - a7, Suc n)"

definition rpc_lib0 :: "nat rpcc_lib" where
  "rpc_lib0 = \<lparr>call1 = loopback [5 \<mapsto> reg_7 all_read (get_fixed 4 dec32) (get_fixed 4 dec32) (get_fixed 4 dec32) (get_fixed 4 dec32) (get_fixed 4 dec32) (get_fixed 4 dec32) (get_fixed 4 dec32)
       (\<lambda>i. put_bytes (enc32 i)) meth0 0] (Some (replicate 1024 0)) (replicate 24 0), okdone = all_read\<rparr>"

lemma codec_u32: "codec (\<lambda>_. True) enc32 (\<lambda>i. put_bytes (enc32 i)) (get_fixed 4 dec32)"
  by (rule codec_fixed; simp)

theorem rpc_call_runs_method_witness:
  "call_7 rpc_lib0 (\<lambda>i. put_bytes (enc32 i)) (\<lambda>i. put_bytes (enc32 i)) (\<lambda>i. put_bytes (enc32 i)) (\<lambda>i. put_bytes (enc32 i)) (\<lambda>i. put_bytes (enc32 i)) (\<lambda>i. put_bytes (enc32 i)) (\<lambda>i. put_bytes (enc32 i))
     (get_fixed 4 dec32) (Some (replicate 1024 9)) 5 70 2 3 4 5 6 7 0 1 = Inr (0, 63, 2)"
proof -
  have lib: "call1 rpc_lib0 = loopback [5 \<mapsto> reg_7 all_read (get_fixed 4 dec32) (get_fixed 4 dec32) (get_fixed 4 dec32) (get_fixed 4 dec32) (get_fixed 4 dec32) (get_fixed 4 dec32) (get_fixed 4 dec32)
       (\<lambda>i. put_bytes (enc32 i)) meth0 0] (Some (replicate 1024 0)) (replicate 24 0)" "okdone rpc_lib0 = all_read"
    by (simp_all add: rpc_lib0_def)
  show ?thesis
    using rpc_call_runs_method [OF lib codec_u32 TrueI codec_u32 TrueI codec_u32 TrueI codec_u32 TrueI codec_u32 TrueI codec_u32 TrueI codec_u32 TrueI codec_u32 wire_mem0, where rest = "[1]" and proc = 5
        and ?a1.0 = 70 and ?a2.0 = 2 and ?a3.0 = 3 and ?a4.0 = 4 and ?a5.0 = 5 and ?a6.0 = 6 and ?a7.0 = 7 and ?r0.0 = 0 and r = 0 and s = 1
        and ?meth7.0 = meth0] lib(2)
    by (simp add: served_def meth0_def)
qed

end
