(* ===== verification/Extent_Wire.thy ===== *)
theory Extent_Wire
  imports Rpc Extent_Client
begin

text \<open>
  The extent protocol on the wire: the marshalling of \<^verbatim>\<open>extent_protocol.h\<close>, the \<^verbatim>\<open>cl->call\<close> expressions
  of \<^verbatim>\<open>extent_client.cc\<close> and the handlers that \<^verbatim>\<open>extent_smain.cc\<close> registers. Over a network that delivers,
  the stubs of the client are the methods of the server.
\<close>

section \<open>Marshalling\<close>

definition marshall_attr :: "u32 put \<Rightarrow> attr put" where
  "marshall_attr p32 a m =
     (let m = p32 (a_type a) m;
          m = p32 (a_atime a) m;
          m = p32 (a_mtime a) m;
          m = p32 (a_ctime a) m
      in p32 (a_size a) m)"

definition unmarshall_attr :: "u32 get \<Rightarrow> attr get" where
  "unmarshall_attr g32 u =
     (let (type, u) = g32 u;
          (atime, u) = g32 u;
          (mtime, u) = g32 u;
          (ctime, u) = g32 u;
          (sz, u) = g32 u
      in (\<lparr>a_type = type, a_atime = atime, a_mtime = mtime, a_ctime = ctime, a_size = sz\<rparr>, u))"

definition marshall_full_file :: "u32 put \<Rightarrow> byte list put \<Rightarrow> full_file put" where
  "marshall_full_file p32 ps f m =
     (let m = p32 (a_type (ff_attr f)) m;
          m = p32 (a_atime (ff_attr f)) m;
          m = p32 (a_mtime (ff_attr f)) m;
          m = p32 (a_ctime (ff_attr f)) m;
          m = p32 (a_size (ff_attr f)) m
      in ps (ff_buf f) m)"

definition unmarshall_full_file :: "u32 get \<Rightarrow> byte list get \<Rightarrow> full_file get" where
  "unmarshall_full_file g32 gs u =
     (let (type, u) = g32 u;
          (atime, u) = g32 u;
          (mtime, u) = g32 u;
          (ctime, u) = g32 u;
          (sz, u) = g32 u;
          (buf, u) = gs u
      in (\<lparr>ff_attr = \<lparr>a_type = type, a_atime = atime, a_mtime = mtime, a_ctime = ctime, a_size = sz\<rparr>, ff_buf = buf\<rparr>, u))"

lemma codec_attr:
  assumes "codec (\<lambda>_. True) enc p32 g32"
  shows "codec (\<lambda>_. True) (\<lambda>a. enc (a_type a) @ enc (a_atime a) @ enc (a_mtime a) @ enc (a_ctime a) @ enc (a_size a))
    (marshall_attr p32) (unmarshall_attr g32)"
  by (rule codec_cong [OF codec_map [OF codec_pair [OF assms codec_pair [OF assms codec_pair [OF assms codec_pair [OF assms assms]]]],
          where f = "\<lambda>a. (a_type a, a_atime a, a_mtime a, a_ctime a, a_size a)" and
            g = "\<lambda>(t, a, m, c, s). \<lparr>a_type = t, a_atime = a, a_mtime = m, a_ctime = c, a_size = s\<rparr>"]])
    (auto simp: fun_eq_iff marshall_attr_def unmarshall_attr_def put_pair_def get_pair_def Let_def split: prod.splits)

lemma codec_full_file:
  assumes c: "codec (\<lambda>_. True) enc p32 g32" and s: "codec S encs ps gs"
  shows "\<exists>encf. codec (\<lambda>f. S (ff_buf f)) encf (marshall_full_file p32 ps) (unmarshall_full_file g32 gs)"
proof -
  note c6 = codec_pair [OF c codec_pair [OF c codec_pair [OF c codec_pair [OF c codec_pair [OF c s]]]]]
  show ?thesis
    by (rule exI, rule codec_cong [OF codec_map [OF c6,
            where f = "\<lambda>f. (a_type (ff_attr f), a_atime (ff_attr f), a_mtime (ff_attr f), a_ctime (ff_attr f), a_size (ff_attr f), ff_buf f)" and
              g = "\<lambda>(t, a, m, c, s, b). \<lparr>ff_attr = \<lparr>a_type = t, a_atime = a, a_mtime = m, a_ctime = c, a_size = s\<rparr>, ff_buf = b\<rparr>"]])
      (auto simp: fun_eq_iff marshall_full_file_def unmarshall_full_file_def put_pair_def get_pair_def Let_def split: prod.splits)
qed

section \<open>The stubs and the registered handlers\<close>

definition rpc_put :: u32 where rpc_put_def [simp]: "rpc_put = 0x6001"
definition rpc_get :: u32 where rpc_get_def [simp]: "rpc_get = 0x6002"
definition rpc_getattr :: u32 where rpc_getattr_def [simp]: "rpc_getattr = 0x6003"
definition rpc_remove :: u32 where rpc_remove_def [simp]: "rpc_remove = 0x6004"
definition rpc_create :: u32 where rpc_create_def [simp]: "rpc_create = 0x6005"

text \<open>The calls of \<^verbatim>\<open>extent_client\<close>; \<open>raw\<close> is the memory of the marshalling buffer and \<open>r\<close> an uninitialised \<^verbatim>\<open>int\<close>.\<close>

definition wire_rpc :: "'s rpcc_lib \<Rightarrow> wire_ops \<Rightarrow> byte list option \<Rightarrow> u32 \<Rightarrow> 's extent_rpc" where
  "wire_rpc lib w raw r =
     \<lparr>call_create = \<lambda>type eid s. call_1 lib (put_u32 w) (get_u64 w) raw rpc_create type eid s,
      call_get = \<lambda>eid f s. call_1 lib (put_u64 w) (unmarshall_full_file (get_u32 w) (get_str w)) raw rpc_get eid f s,
      call_getattr = \<lambda>eid f s. call_1 lib (put_u64 w) (unmarshall_full_file (get_u32 w) (get_str w)) raw rpc_getattr eid f s,
      call_put = \<lambda>eid buf s. bindR (call_2 lib (put_u64 w) (put_str w) (get_int w) raw rpc_put eid buf r s)
        (\<lambda>(ret, _, s). Inr (ret, s)),
      call_remove = \<lambda>eid s. bindR (call_1 lib (put_u64 w) (get_int w) raw rpc_remove eid r s) (\<lambda>(ret, _, s). Inr (ret, s))\<rparr>"

text \<open>
  The methods of \<^verbatim>\<open>extent_server\<close> return \<^verbatim>\<open>OK\<close>; \<^verbatim>\<open>put\<close> and \<^verbatim>\<open>remove\<close> do not assign their \<^verbatim>\<open>int &\<close>
  parameter.
\<close>

definition extent_procs ::
    "(unmarshall \<Rightarrow> bool) \<Rightarrow> wire_ops \<Rightarrow> u32 \<times> u32 \<times> u32 \<Rightarrow> u32 \<Rightarrow> u64 \<Rightarrow> full_file \<Rightarrow> u32 \<rightharpoonup> block_manager handler" where
  "extent_procs d w ts r e0 f0 =
     [rpc_get \<mapsto> reg_1 d (get_u64 w) (marshall_full_file (put_u32 w) (put_str w))
        (\<lambda>eid _ s. bindR (es_get (fst ts) eid s) (\<lambda>(f, s). Inr (0, f, s))) f0,
      rpc_getattr \<mapsto> reg_1 d (get_u64 w) (marshall_full_file (put_u32 w) (put_str w))
        (\<lambda>eid _ s. bindR (es_getattr (fst ts) eid s) (\<lambda>(f, s). Inr (0, f, s))) f0,
      rpc_put \<mapsto> reg_2 d (get_u64 w) (get_str w) (put_int w)
        (\<lambda>eid buf r s. bindR (es_put ts eid buf s) (\<lambda>s. Inr (0, r, s))) r,
      rpc_remove \<mapsto> reg_1 d (get_u64 w) (put_int w)
        (\<lambda>eid r s. bindR (es_remove eid s) (\<lambda>s. Inr (0, r, s))) r,
      rpc_create \<mapsto> reg_1 d (get_u32 w) (put_u64 w)
        (\<lambda>type _ s. bindR (es_create (fst ts) type s) (\<lambda>(e, s). Inr (0, e, s))) e0]"

text \<open>\<^verbatim>\<open>main\<close> of \<^verbatim>\<open>extent_smain\<close>: the port, the number of calls between two statistics, and the handlers.\<close>

definition extent_smain ::
    "(unmarshall \<Rightarrow> bool) \<Rightarrow> wire_ops \<Rightarrow> u32 \<times> u32 \<times> u32 \<Rightarrow> u32 \<Rightarrow> u64 \<Rightarrow> full_file \<Rightarrow> string list \<Rightarrow> string option \<Rightarrow>
     (int \<times> int \<times> (u32 \<rightharpoonup> block_manager handler)) option" where
  "extent_smain d w ts r e0 f0 argv rpc_count =
     map_option (\<lambda>(port, count). (port, count, extent_procs d w ts r e0 f0)) (server_args argv rpc_count)"

text \<open>
  C17 (equivalence). Over a network that delivers, each RPC stub of the extent client, with its
  arguments marshalled, dispatched by the procedure number, unmarshalled, and its result sent back the
  same way, is the method of the extent server: \<^verbatim>\<open>create\<close> and \<^verbatim>\<open>remove\<close> always, \<^verbatim>\<open>put\<close> and the reads
  when the strings are ones the library can marshal.
\<close>

theorem extent_stubs_reach_server:
  assumes lib: "call1 lib = loopback (extent_procs (okdone lib) w ts r0 e0 f0) (Some b1) hdr" "okdone lib = all_read"
    and w: "wire_ok S w"
    and mem: "length b1 = DEFAULT_RPC_SZ" "length b2 = DEFAULT_RPC_SZ" "RPC_HEADER_SZ \<le> length hdr"
  shows "call_create (wire_rpc lib w (Some b2) r) type e s = call_create (es_rpc ts) type e s \<and>
    call_remove (wire_rpc lib w (Some b2) r) e s = call_remove (es_rpc ts) e s \<and>
    (S buf \<longrightarrow> call_put (wire_rpc lib w (Some b2) r) e buf s = call_put (es_rpc ts) e buf s) \<and>
    ((\<forall>f s'. es_get (fst ts) e s = Inr (f, s') \<longrightarrow> S (ff_buf f)) \<longrightarrow>
       call_get (wire_rpc lib w (Some b2) r) e f s = call_get (es_rpc ts) e f s) \<and>
    ((\<forall>f s'. es_getattr (fst ts) e s = Inr (f, s') \<longrightarrow> S (ff_buf f)) \<longrightarrow>
       call_getattr (wire_rpc lib w (Some b2) r) e f s = call_getattr (es_rpc ts) e f s)"
proof (intro conjI impI)
  obtain e32 ei e64 es where c: "codec (\<lambda>_. True) e32 (put_u32 w) (get_u32 w)" "codec (\<lambda>_. True) ei (put_int w) (get_int w)"
    "codec (\<lambda>_. True) e64 (put_u64 w) (get_u64 w)" "codec S es (put_str w) (get_str w)"
    using w unfolding wire_ok_def by blast
  obtain ef where cf: "codec (\<lambda>f. S (ff_buf f)) ef (marshall_full_file (put_u32 w) (put_str w)) (unmarshall_full_file (get_u32 w) (get_str w))"
    using codec_full_file [OF c(1,4)] by blast
  note reach = call_1_reaches [OF lib _ _ _ _ _ refl mem(1) refl mem(2,3)]
  have 1: "extent_procs (okdone lib) w ts r0 e0 f0 rpc_create = Some (reg_1 (okdone lib) (get_u32 w) (put_u64 w)
        (\<lambda>type _ s. bindR (es_create (fst ts) type s) (\<lambda>(e, s). Inr (0, e, s))) e0)"
    by (simp add: extent_procs_def)
  show "call_create (wire_rpc lib w (Some b2) r) type e s = call_create (es_rpc ts) type e s"
    using reach [OF 1 c(1) TrueI c(3), of type s e]
    by (cases "es_create (fst ts) type s") (auto simp: wire_rpc_def es_rpc_def direct_rpc_def served_def)
  have 2: "extent_procs (okdone lib) w ts r0 e0 f0 rpc_remove = Some (reg_1 (okdone lib) (get_u64 w) (put_int w)
        (\<lambda>eid r s. bindR (es_remove eid s) (\<lambda>s. Inr (0, r, s))) r0)"
    by (simp add: extent_procs_def)
  show "call_remove (wire_rpc lib w (Some b2) r) e s = call_remove (es_rpc ts) e s"
    using reach [OF 2 c(3) TrueI c(2), of e s r]
    by (cases "es_remove e s") (auto simp: wire_rpc_def es_rpc_def direct_rpc_def served_def)
  have 3: "extent_procs (okdone lib) w ts r0 e0 f0 rpc_put = Some (reg_1 (okdone lib) (get_pair (get_u64 w) (get_str w)) (put_int w)
        (\<lambda>(eid, buf) r s. bindR (es_put ts eid buf s) (\<lambda>s. Inr (0, r, s))) r0)"
    by (simp add: extent_procs_def reg_tuple)
  show "call_put (wire_rpc lib w (Some b2) r) e buf s = call_put (es_rpc ts) e buf s" if "S buf"
    using reach [OF 3 codec_pair [OF c(3,4)] _ c(2), of "(e, buf)" s r] that
    by (cases "es_put ts e buf s") (auto simp: wire_rpc_def es_rpc_def direct_rpc_def call_tuple served_def)
  have 4: "extent_procs (okdone lib) w ts r0 e0 f0 rpc_get = Some (reg_1 (okdone lib) (get_u64 w) (marshall_full_file (put_u32 w) (put_str w))
        (\<lambda>eid _ s. bindR (es_get (fst ts) eid s) (\<lambda>(f, s). Inr (0, f, s))) f0)"
    and 5: "extent_procs (okdone lib) w ts r0 e0 f0 rpc_getattr = Some (reg_1 (okdone lib) (get_u64 w) (marshall_full_file (put_u32 w) (put_str w))
        (\<lambda>eid _ s. bindR (es_getattr (fst ts) eid s) (\<lambda>(f, s). Inr (0, f, s))) f0)"
    by (simp_all add: extent_procs_def)
  show "call_get (wire_rpc lib w (Some b2) r) e f s = call_get (es_rpc ts) e f s"
    if "\<forall>f s'. es_get (fst ts) e s = Inr (f, s') \<longrightarrow> S (ff_buf f)"
    using reach [OF 4 c(3) TrueI cf, of e s f] that
    by (cases "es_get (fst ts) e s") (auto simp: wire_rpc_def es_rpc_def direct_rpc_def served_def)
  show "call_getattr (wire_rpc lib w (Some b2) r) e f s = call_getattr (es_rpc ts) e f s"
    if "\<forall>f s'. es_getattr (fst ts) e s = Inr (f, s') \<longrightarrow> S (ff_buf f)"
    using reach [OF 5 c(3) TrueI cf, of e s f] that
    by (cases "es_getattr (fst ts) e s") (auto simp: wire_rpc_def es_rpc_def direct_rpc_def served_def)
qed

definition lib0 :: "block_manager rpcc_lib" where
  "lib0 = \<lparr>call1 = loopback (extent_procs all_read wire0 (1, 2, 3) 0 0 (new_full_file env0)) (Some (replicate 1024 0)) (replicate 24 0),
     okdone = all_read\<rparr>"

theorem extent_stubs_reach_server_witness:
  "\<exists>im'. call_put (wire_rpc lib0 wire0 (Some (replicate 1024 9)) 0) 1 [5, 6] fs0 = Inr (0, im') \<and> im_inv im' \<and>
     file_at im' 1 = Some (1, [5, 6])"
proof -
  let ?w = "wire_rpc lib0 wire0 (Some (replicate 1024 9)) 0"
  have lib: "call1 lib0 = loopback (extent_procs (okdone lib0) wire0 (1, 2, 3) 0 0 (new_full_file env0)) (Some (replicate 1024 0)) (replicate 24 0)"
    "okdone lib0 = all_read" by (simp_all add: lib0_def)
  have mem: "length (replicate 1024 (0 :: byte)) = DEFAULT_RPC_SZ" "length (replicate 1024 (9 :: byte)) = DEFAULT_RPC_SZ"
    "RPC_HEADER_SZ \<le> length (replicate 24 (0 :: byte))" by simp_all
  from extent_stubs_reach_server [OF lib wire0_ok mem, where buf = "[5, 6]" and e = 1 and s = fs0 and r = 0 and type = 0 and f = "new_full_file env0"]
  have put: "call_put ?w 1 [5, 6] fs0 = call_put (es_rpc (1, 2, 3)) 1 [5, 6] fs0" by simp
  have e: "es_id 1 = 1" by (simp add: word_unat_eq_iff unat_es_id)
  have f: "file_at fs0 (es_id 1) = Some (1, [])" by (simp add: e fs0_inv)
  have r: "es_room fs0 1 [5, 6]" by (simp add: es_room_def addressable_def blk_count_alt)
  obtain im' where p: "es_put (1, 2, 3) 1 [5, 6] fs0 = Inr im'"
    using es_put_run [OF fs0_inv(1) f r, of "(1, 2, 3)"] free_count_fs0 by (auto simp: blk_count_alt split: sum.splits)
  from es.put_stores [OF fs0_inv(1) f r p] have "im_inv im'" "file_at im' 1 = Some (1, [5, 6])" by (simp_all add: e)
  with put p show ?thesis by (simp add: es_rpc_def direct_rpc_def)
qed

end
