(* ===== verification/Lock_Server.thy ===== *)
theory Lock_Server
  imports Prelude
begin

text \<open>
  The blocking lock server of \<^verbatim>\<open>lock_server.cc\<close> and its client stubs in \<^verbatim>\<open>lock_client.cc\<close>. Each
  stretch of a handler between taking the mutex (or returning from \<^verbatim>\<open>pthread_cond_wait\<close>) and
  releasing it is one function; the interleaving of the handlers is a step relation in which a
  waiting thread may also wake up without a signal, as POSIX allows.
\<close>

section \<open>The server\<close>

record lock_server =
  nacquire :: int
  conditions :: "u64 set"
  locked :: "u64 \<rightharpoonup> bool"

definition lock_server_init :: lock_server where
  "lock_server_init = \<lparr>nacquire = 0, conditions = {}, locked = Map.empty\<rparr>"

definition ls_lock :: "u64 \<Rightarrow> lock_server \<Rightarrow> lock_server" where
  "ls_lock lid ls = ls\<lparr>locked := (locked ls)(lid \<mapsto> True)\<rparr>"

definition ls_unlock :: "u64 \<Rightarrow> lock_server \<Rightarrow> lock_server" where
  "ls_unlock lid ls = ls\<lparr>locked := (locked ls)(lid \<mapsto> False)\<rparr>"

definition ls_stat :: "lock_server \<Rightarrow> int \<times> int" where
  "ls_stat ls = (0, nacquire ls)"

text \<open>
  \<^verbatim>\<open>acquire\<close> from its entry: the result says whether the lock is granted or the thread goes to wait
  on the lock's condition variable.
\<close>

definition ls_acquire :: "u64 \<Rightarrow> lock_server \<Rightarrow> bool \<times> lock_server" where
  "ls_acquire lid ls =
     (case locked ls lid of
        None \<Rightarrow> (True, ls_lock lid (ls\<lparr>conditions := insert lid (conditions ls)\<rparr>))
      | Some b \<Rightarrow> if \<not> b then (True, ls_lock lid ls) else (False, ls))"

text \<open>The loop \<^verbatim>\<open>while (locked[lid])\<close> after a wake-up.\<close>

definition ls_woken :: "u64 \<Rightarrow> lock_server \<Rightarrow> bool \<times> lock_server" where
  "ls_woken lid ls = (if map_get (locked ls) lid False then (False, ls) else (True, ls_lock lid ls))"

text \<open>\<^verbatim>\<open>release\<close>; signalling a condition variable that was never allocated is undefined.\<close>

definition ls_release :: "u64 \<Rightarrow> lock_server \<Rightarrow> lock_server res" where
  "ls_release lid ls =
     (if lid \<in> conditions ls then Inr (ls_unlock lid ls) else Inl Undefined)"

section \<open>The client stubs\<close>

text \<open>\<open>call\<close> is the RPC: it returns the status, the reply and the server.\<close>

definition lc_stat :: "(u64 \<Rightarrow> 's \<Rightarrow> (int \<times> int \<times> 's) res) \<Rightarrow> u64 \<Rightarrow> 's \<Rightarrow> (int \<times> 's) res" where
  "lc_stat call lid s = bindR (call lid s) (\<lambda>(ret, r, s). bindR (guardR (ret = 0) Abort) (\<lambda>_. Inr (r, s)))"

definition lc_acquire :: "(u64 \<Rightarrow> 's \<Rightarrow> (int \<times> int \<times> 's) res) \<Rightarrow> u64 \<Rightarrow> 's \<Rightarrow> (int \<times> 's) res" where
  "lc_acquire call lid s = bindR (call lid s) (\<lambda>(ret, r, s). bindR (guardR (ret = 0) Abort) (\<lambda>_. Inr (r, s)))"

definition lc_release :: "(u64 \<Rightarrow> 's \<Rightarrow> (int \<times> int \<times> 's) res) \<Rightarrow> u64 \<Rightarrow> 's \<Rightarrow> (int \<times> 's) res" where
  "lc_release call lid s = bindR (call lid s) (\<lambda>(ret, r, s). bindR (guardR (ret = 0) Abort) (\<lambda>_. Inr (r, s)))"

section \<open>Interleaving\<close>

text \<open>
  One handler thread per pending acquire: it waits on the condition variable of its lock, or has
  been woken and competes for the mutex.
\<close>

datatype ls_thread = Idle | Waiting u64 | Woken u64

record 't ls_sys =
  srv :: lock_server
  thread :: "'t \<Rightarrow> ls_thread"
  holds :: "'t \<Rightarrow> u64 set"

definition grant :: "'t \<Rightarrow> u64 \<Rightarrow> lock_server \<Rightarrow> 't ls_sys \<Rightarrow> 't ls_sys" where
  "grant t lid ls s = s\<lparr>srv := ls, thread := (thread s)(t := Idle), holds := (holds s)(t := insert lid (holds s t))\<rparr>"

inductive ls_step :: "'t ls_sys \<Rightarrow> 't ls_sys \<Rightarrow> bool" where
  acquire_granted: "thread s t = Idle \<Longrightarrow> ls_acquire lid (srv s) = (True, ls) \<Longrightarrow> ls_step s (grant t lid ls s)"
| acquire_waits: "thread s t = Idle \<Longrightarrow> ls_acquire lid (srv s) = (False, ls) \<Longrightarrow>
    ls_step s (s\<lparr>srv := ls, thread := (thread s)(t := Waiting lid)\<rparr>)"
| woken_granted: "thread s t = Woken lid \<Longrightarrow> ls_woken lid (srv s) = (True, ls) \<Longrightarrow> ls_step s (grant t lid ls s)"
| woken_waits: "thread s t = Woken lid \<Longrightarrow> ls_woken lid (srv s) = (False, ls) \<Longrightarrow>
    ls_step s (s\<lparr>srv := ls, thread := (thread s)(t := Waiting lid)\<rparr>)"
| spurious: "thread s t = Waiting lid \<Longrightarrow> ls_step s (s\<lparr>thread := (thread s)(t := Woken lid)\<rparr>)"
| release_signals: "lid \<in> holds s t \<Longrightarrow> ls_release lid (srv s) = Inr ls \<Longrightarrow> thread s u = Waiting lid \<Longrightarrow>
    ls_step s (s\<lparr>srv := ls, holds := (holds s)(t := holds s t - {lid}), thread := (thread s)(u := Woken lid)\<rparr>)"
| release_nobody: "lid \<in> holds s t \<Longrightarrow> ls_release lid (srv s) = Inr ls \<Longrightarrow> \<forall>u. thread s u \<noteq> Waiting lid \<Longrightarrow>
    ls_step s (s\<lparr>srv := ls, holds := (holds s)(t := holds s t - {lid})\<rparr>)"

definition ls_start :: "'t ls_sys \<Rightarrow> bool" where
  "ls_start s \<longleftrightarrow> srv s = lock_server_init \<and> (\<forall>t. thread s t = Idle \<and> holds s t = {})"

section \<open>Invariant\<close>

definition is_locked :: "lock_server \<Rightarrow> u64 \<Rightarrow> bool" where
  "is_locked ls lid = map_get (locked ls) lid False"

lemma is_locked_simps [simp]:
  "is_locked (ls_lock lid ls) = (is_locked ls)(lid := True)"
  "is_locked (ls_unlock lid ls) = (is_locked ls)(lid := False)"
  "is_locked (ls\<lparr>conditions := C\<rparr>) = is_locked ls"
  by (auto simp: is_locked_def ls_lock_def ls_unlock_def fun_eq_iff)

lemma conditions_simps [simp]:
  "conditions (ls_lock lid ls) = conditions ls" "conditions (ls_unlock lid ls) = conditions ls"
  "dom (locked (ls_lock lid ls)) = insert lid (dom (locked ls))"
  "dom (locked (ls_unlock lid ls)) = insert lid (dom (locked ls))"
  by (simp_all add: ls_lock_def ls_unlock_def)

text \<open>Every lock that was ever acquired has its condition variable.\<close>

definition ls_wf :: "lock_server \<Rightarrow> bool" where
  "ls_wf ls \<longleftrightarrow> dom (locked ls) = conditions ls"

lemma ls_acquire_True:
  assumes "ls_acquire lid ls = (True, ls')" and "ls_wf ls"
  shows "\<not> is_locked ls lid" "is_locked ls' = (is_locked ls)(lid := True)" "ls_wf ls'"
    "conditions ls \<subseteq> conditions ls'"
proof -
  from assms consider "locked ls lid = None" "ls' = ls_lock lid (ls\<lparr>conditions := insert lid (conditions ls)\<rparr>)"
    | "locked ls lid = Some False" "ls' = ls_lock lid ls" "lid \<in> conditions ls"
    by (auto simp: ls_acquire_def ls_wf_def split: option.splits if_splits)
  note c = this
  show "is_locked ls' = (is_locked ls)(lid := True)" "conditions ls \<subseteq> conditions ls'"
    by (cases rule: c; auto)+
  show "\<not> is_locked ls lid" by (cases rule: c) (simp_all add: is_locked_def map_get_def)
  show "ls_wf ls'" using assms(2) by (cases rule: c) (simp_all add: ls_wf_def ls_lock_def insert_absorb)
qed

lemma ls_acquire_False:
  assumes "ls_acquire lid ls = (False, ls')" and "ls_wf ls"
  shows "is_locked ls lid" "ls' = ls" "lid \<in> conditions ls"
  using assms by (auto simp: ls_acquire_def is_locked_def map_get_def ls_wf_def split: option.splits if_splits)

lemma ls_woken_True:
  assumes "ls_woken lid ls = (True, ls')" and "ls_wf ls" and "lid \<in> conditions ls"
  shows "\<not> is_locked ls lid" "is_locked ls' = (is_locked ls)(lid := True)" "ls_wf ls'"
    "conditions ls \<subseteq> conditions ls'"
proof -
  from assms have ls': "ls' = ls_lock lid ls" and free: "\<not> is_locked ls lid"
    by (auto simp: ls_woken_def is_locked_def split: if_splits)
  show "\<not> is_locked ls lid" by (rule free)
  show "is_locked ls' = (is_locked ls)(lid := True)" "ls_wf ls'" "conditions ls \<subseteq> conditions ls'"
    using assms(2,3) by (simp_all add: ls' ls_wf_def insert_absorb)
qed

lemma ls_woken_False: "ls_woken lid ls = (False, ls') \<Longrightarrow> is_locked ls lid \<and> ls' = ls"
  by (auto simp: ls_woken_def is_locked_def split: if_splits)

lemma ls_release_Inr:
  assumes "ls_release lid ls = Inr ls'" and "ls_wf ls"
  shows "is_locked ls' = (is_locked ls)(lid := False)" "ls_wf ls'" "conditions ls' = conditions ls"
    "lid \<in> conditions ls"
proof -
  from assms(1) have ls': "ls' = ls_unlock lid ls" and c: "lid \<in> conditions ls"
    by (auto simp: ls_release_def split: if_splits)
  show "lid \<in> conditions ls" by (rule c)
  show "is_locked ls' = (is_locked ls)(lid := False)" "ls_wf ls'" "conditions ls' = conditions ls"
    using assms(2) c by (simp_all add: ls' ls_wf_def insert_absorb)
qed

definition waits :: "'t ls_sys \<Rightarrow> u64 \<Rightarrow> bool" where
  "waits s lid \<longleftrightarrow> (\<exists>t. thread s t = Waiting lid)"

definition wakes :: "'t ls_sys \<Rightarrow> u64 \<Rightarrow> bool" where
  "wakes s lid \<longleftrightarrow> (\<exists>t. thread s t = Woken lid)"

text \<open>Changing the state of one thread.\<close>

lemma ex_upd:
  "f t \<noteq> y \<Longrightarrow> (\<exists>u. (f(t := x)) u = y) \<longleftrightarrow> x = y \<or> (\<exists>u. f u = y)"
  by (metis fun_upd_apply)

lemma ex_updD: "\<exists>u. (f(t := x)) u = y \<Longrightarrow> (\<exists>u. f u = y) \<or> x = y"
  by (metis fun_upd_apply)

lemma wake_thread:
  assumes th: "thread s t = Waiting lid" and s': "thread s' = (thread s)(t := Woken lid)"
  shows "waits s' l \<Longrightarrow> waits s l" "wakes s l \<Longrightarrow> wakes s' l" "wakes s' l \<Longrightarrow> wakes s l \<or> l = lid"
    "wakes s' lid"
proof -
  have "thread s t \<noteq> Woken l" using th by simp
  then show "wakes s' l \<Longrightarrow> wakes s l \<or> l = lid" "wakes s l \<Longrightarrow> wakes s' l"
    by (auto simp add: wakes_def s' ex_upd simp del: fun_upd_apply)
  show "waits s' l \<Longrightarrow> waits s l" by (simp add: waits_def s' del: fun_upd_apply) (drule ex_updD, simp)
  show "wakes s' lid" unfolding wakes_def s' by (rule exI [of _ t]) simp
qed

text \<open>
  The lock flag is set exactly when some thread holds the lock, at most one does, and a thread that
  waits for a free lock is not forgotten: some thread has been woken for it.
\<close>

definition ls_inv :: "'t ls_sys \<Rightarrow> bool" where
  "ls_inv s \<longleftrightarrow> ls_wf (srv s) \<and>
     (\<forall>lid. is_locked (srv s) lid \<longleftrightarrow> (\<exists>t. lid \<in> holds s t)) \<and>
     (\<forall>lid t u. lid \<in> holds s t \<and> lid \<in> holds s u \<longrightarrow> t = u) \<and>
     (\<forall>lid. waits s lid \<or> wakes s lid \<longrightarrow> lid \<in> conditions (srv s)) \<and>
     (\<forall>lid. waits s lid \<and> \<not> is_locked (srv s) lid \<longrightarrow> wakes s lid)"

lemma ls_invD:
  assumes "ls_inv s"
  shows "ls_wf (srv s)" "is_locked (srv s) lid \<longleftrightarrow> (\<exists>t. lid \<in> holds s t)"
    "lid \<in> holds s t \<Longrightarrow> lid \<in> holds s u \<Longrightarrow> t = u"
    "waits s lid \<or> wakes s lid \<Longrightarrow> lid \<in> conditions (srv s)"
    "waits s lid \<Longrightarrow> \<not> is_locked (srv s) lid \<Longrightarrow> wakes s lid"
  using assms unfolding ls_inv_def by blast+

lemma grant_inv:
  assumes inv: "ls_inv s" and free: "\<not> is_locked (srv s) lid"
    and th: "thread s t = Idle \<or> thread s t = Woken lid"
    and ls: "is_locked ls = (is_locked (srv s))(lid := True)" "ls_wf ls" "conditions (srv s) \<subseteq> conditions ls"
  shows "ls_inv (grant t lid ls s)"
proof -
  note i = ls_invD [OF inv]
  have nobody: "lid \<notin> holds s u" for u using i(2) [of lid] free by blast
  have w: "waits (grant t lid ls s) l \<longleftrightarrow> waits s l" for l
  proof -
    have "thread s t \<noteq> Waiting l" using th by auto
    then show ?thesis by (simp add: waits_def grant_def ex_upd del: fun_upd_apply)
  qed
  have k: "wakes s l \<Longrightarrow> l \<noteq> lid \<Longrightarrow> wakes (grant t lid ls s) l" for l
  proof -
    assume *: "wakes s l" "l \<noteq> lid"
    then have "thread s t \<noteq> Woken l" using th by auto
    then show ?thesis using * by (simp add: wakes_def grant_def ex_upd del: fun_upd_apply)
  qed
  have k': "wakes (grant t lid ls s) l \<Longrightarrow> wakes s l" for l
    by (auto simp: wakes_def grant_def split: if_splits)
  have h: "l \<in> holds (grant t lid ls s) u \<longleftrightarrow> l \<in> holds s u \<or> l = lid \<and> u = t" for l u
    by (auto simp: grant_def)
  have srv: "srv (grant t lid ls s) = ls" by (simp add: grant_def)
  show ?thesis unfolding ls_inv_def srv w h
  proof (intro conjI allI impI)
    show "ls_wf ls" by (rule ls)
    show "is_locked ls l = (\<exists>u. l \<in> holds s u \<or> l = lid \<and> u = t)" for l
      using i(2) [of l] by (auto simp: ls(1))
    show "u = v" if "(l \<in> holds s u \<or> l = lid \<and> u = t) \<and> (l \<in> holds s v \<or> l = lid \<and> v = t)" for l u v
      using that nobody i(3) [of l u v] by blast
    show "l \<in> conditions ls" if "waits s l \<or> wakes (grant t lid ls s) l" for l
      using that k' i(4) [of l] ls(3) by blast
    show "wakes (grant t lid ls s) l" if "waits s l \<and> \<not> is_locked ls l" for l
      using that k i(5) [of l] by (simp add: ls(1) split: if_splits)
  qed
qed

lemma release_inv:
  assumes inv: "ls_inv s" and hold: "lid \<in> holds s t"
    and ls: "is_locked ls = (is_locked (srv s))(lid := False)" "ls_wf ls" "conditions ls = conditions (srv s)"
    and s': "srv s' = ls" "holds s' = (holds s)(t := holds s t - {lid})"
    and w: "\<And>l. waits s' l \<Longrightarrow> waits s l" "\<And>l. wakes s l \<Longrightarrow> wakes s' l"
      "\<And>l. wakes s' l \<Longrightarrow> wakes s l \<or> l = lid" "waits s lid \<Longrightarrow> wakes s' lid"
  shows "ls_inv s'"
proof -
  note i = ls_invD [OF inv]
  have only: "lid \<in> holds s u \<longleftrightarrow> u = t" for u using i(3) hold by blast
  have h: "l \<in> holds s' u \<longleftrightarrow> l \<in> holds s u \<and> l \<noteq> lid" for l u
    using only by (auto simp: s')
  have c: "lid \<in> conditions (srv s)"
    using i(1) i(2) [of lid] hold by (force simp: ls_wf_def is_locked_def map_get_def split: option.splits)
  show ?thesis unfolding ls_inv_def s'(1) h
  proof (intro conjI allI impI)
    show "ls_wf ls" by (rule ls)
    show "is_locked ls l = (\<exists>u. l \<in> holds s u \<and> l \<noteq> lid)" for l
      using i(2) [of l] by (auto simp: ls(1))
    show "u = v" if "(l \<in> holds s u \<and> l \<noteq> lid) \<and> (l \<in> holds s v \<and> l \<noteq> lid)" for l u v
      using that i(3) [of l u v] by blast
    show "l \<in> conditions ls" if "waits s' l \<or> wakes s' l" for l
      using that w(1,3) i(4) [of l] c ls(3) by blast
    show "wakes s' l" if "waits s' l \<and> \<not> is_locked ls l" for l
      using that w i(5) [of l] by (cases "l = lid") (auto simp: ls(1))
  qed
qed

lemma wait_inv:
  assumes inv: "ls_inv s" and lk: "is_locked (srv s) lid" and c: "lid \<in> conditions (srv s)"
    and th: "thread s t = Idle \<or> thread s t = Woken lid"
  shows "ls_inv (s\<lparr>thread := (thread s)(t := Waiting lid)\<rparr>)"
proof -
  let ?s = "s\<lparr>thread := (thread s)(t := Waiting lid)\<rparr>"
  note i = ls_invD [OF inv]
  have w: "waits ?s l \<Longrightarrow> waits s l \<or> l = lid" and k: "wakes ?s l \<Longrightarrow> wakes s l"
    and k': "wakes s l \<Longrightarrow> l \<noteq> lid \<Longrightarrow> wakes ?s l" for l
  proof -
    have "thread s t \<noteq> Waiting l" "l \<noteq> lid \<Longrightarrow> thread s t \<noteq> Woken l" using th by auto
    then show "waits ?s l \<Longrightarrow> waits s l \<or> l = lid" "wakes s l \<Longrightarrow> l \<noteq> lid \<Longrightarrow> wakes ?s l"
      by (auto simp add: waits_def wakes_def ex_upd simp del: fun_upd_apply)
    show "wakes ?s l \<Longrightarrow> wakes s l" by (simp add: wakes_def del: fun_upd_apply) (drule ex_updD, simp)
  qed
  show ?thesis unfolding ls_inv_def
  proof (intro conjI allI impI)
    show "l \<in> conditions (srv ?s)" if "waits ?s l \<or> wakes ?s l" for l
      using that w k i(4) [of l] c by auto
    show "wakes ?s l" if "waits ?s l \<and> \<not> is_locked (srv ?s) l" for l
    proof -
      have "l \<noteq> lid" using that lk by auto
      moreover have "wakes s l" using that w [of l] i(5) [of l] calculation by auto
      ultimately show ?thesis by (rule k' [rotated])
    qed
  qed (use i in auto)
qed

lemma spurious_inv:
  assumes inv: "ls_inv s" and th: "thread s t = Waiting lid"
  shows "ls_inv (s\<lparr>thread := (thread s)(t := Woken lid)\<rparr>)"
proof -
  let ?s = "s\<lparr>thread := (thread s)(t := Woken lid)\<rparr>"
  note i = ls_invD [OF inv]
  note w = wake_thread [OF th, of ?s]
  have "waits s lid" using th by (auto simp: waits_def)
  with w show ?thesis unfolding ls_inv_def using i by simp blast
qed

lemma ls_step_inv:
  assumes "ls_inv s" and "ls_step s s'"
  shows "ls_inv s'"
  using assms(2)
proof cases
  case (acquire_granted t lid ls)
  note a = ls_acquire_True [OF acquire_granted(3) ls_invD(1) [OF assms(1)]]
  show ?thesis unfolding acquire_granted(1) by (rule grant_inv [OF assms(1) a(1)]) (simp_all add: acquire_granted(2) a)
next
  case (acquire_waits t lid ls)
  note a = ls_acquire_False [OF acquire_waits(3) ls_invD(1) [OF assms(1)]]
  have "s' = s\<lparr>thread := (thread s)(t := Waiting lid)\<rparr>" by (simp add: acquire_waits(1) a(2))
  then show ?thesis using wait_inv [OF assms(1) a(1,3)] acquire_waits(2) by simp
next
  case (woken_granted t lid ls)
  have "lid \<in> conditions (srv s)" using ls_invD(4) [OF assms(1)] woken_granted(2) by (auto simp: wakes_def)
  note a = ls_woken_True [OF woken_granted(3) ls_invD(1) [OF assms(1)] this]
  show ?thesis unfolding woken_granted(1) by (rule grant_inv [OF assms(1) a(1)]) (simp_all add: woken_granted(2) a)
next
  case (woken_waits t lid ls)
  have c: "lid \<in> conditions (srv s)" using ls_invD(4) [OF assms(1)] woken_waits(2) by (auto simp: wakes_def)
  note a = ls_woken_False [OF woken_waits(3)]
  have "s' = s\<lparr>thread := (thread s)(t := Waiting lid)\<rparr>" by (simp add: woken_waits(1) a)
  then show ?thesis using wait_inv [OF assms(1) conjunct1 [OF a] c] woken_waits(2) by simp
next
  case (spurious t lid)
  then show ?thesis using spurious_inv [OF assms(1)] by simp
next
  case (release_signals lid t ls u)
  note a = ls_release_Inr [OF release_signals(3) ls_invD(1) [OF assms(1)]]
  have "thread s' = (thread s)(u := Woken lid)" by (simp add: release_signals(1))
  note w = wake_thread [OF release_signals(4) this]
  show ?thesis
    by (rule release_inv [OF assms(1) release_signals(2) a(1-3)]) (use w in \<open>auto simp: release_signals(1)\<close>)
next
  case (release_nobody lid t ls)
  note a = ls_release_Inr [OF release_nobody(3) ls_invD(1) [OF assms(1)]]
  show ?thesis
    by (rule release_inv [OF assms(1) release_nobody(2) a(1-3)])
      (use release_nobody(4) in \<open>auto simp: release_nobody(1) waits_def wakes_def\<close>)
qed

interpretation lsys: invariant_system ls_start ls_step ls_inv
proof
  show "ls_inv s" if "ls_start s" for s :: "'a ls_sys"
    using that by (simp add: ls_inv_def ls_start_def lock_server_init_def ls_wf_def is_locked_def waits_def wakes_def)
qed (rule ls_step_inv)

lemma woken_progress:
  assumes inv: "ls_inv s" and "thread s t = Waiting lid" and free: "\<not> is_locked (srv s) lid"
  shows "\<exists>u s'. thread s u = Woken lid \<and> ls_step s s' \<and> lid \<in> holds s' u"
proof -
  have "waits s lid" using assms(2) by (auto simp: waits_def)
  then obtain u where u: "thread s u = Woken lid" using ls_invD(5) [OF inv] free by (auto simp: wakes_def)
  have "ls_woken lid (srv s) = (True, ls_lock lid (srv s))"
    using free by (simp add: ls_woken_def is_locked_def)
  then have "ls_step s (grant u lid (ls_lock lid (srv s)) s)" by (rule woken_granted [OF u])
  moreover have "lid \<in> holds (grant u lid (ls_lock lid (srv s)) s) u" by (simp add: grant_def)
  ultimately show ?thesis using u by blast
qed

section \<open>Properties\<close>

text \<open>A run: thread 0 takes lock 7, threads 1 and 2 wait for it, thread 0 releases it.\<close>

definition ls_sys0 :: "nat ls_sys" where
  "ls_sys0 = \<lparr>srv = lock_server_init, thread = \<lambda>_. Idle, holds = \<lambda>_. {}\<rparr>"

definition ls_held :: lock_server where
  "ls_held = \<lparr>nacquire = 0, conditions = {7}, locked = [7 \<mapsto> True]\<rparr>"

definition ls_sys1 :: "nat ls_sys" where
  "ls_sys1 = \<lparr>srv = ls_held, thread = \<lambda>_. Idle, holds = (\<lambda>_. {})(0 := {7})\<rparr>"

definition ls_sys2 :: "nat ls_sys" where
  "ls_sys2 = \<lparr>srv = ls_held, thread = (\<lambda>_. Idle)(1 := Waiting 7, 2 := Waiting 7), holds = (\<lambda>_. {})(0 := {7})\<rparr>"

definition ls_sys3 :: "nat ls_sys" where
  "ls_sys3 = \<lparr>srv = ls_unlock 7 ls_held, thread = (\<lambda>_. Idle)(1 := Woken 7, 2 := Waiting 7), holds = \<lambda>_. {}\<rparr>"

lemma ls_run:
  "reach ls_start ls_step ls_sys1" "reach ls_start ls_step ls_sys3"
proof -
  have r0: "reach ls_start ls_step ls_sys0" by (rule reach_start) (simp add: ls_start_def ls_sys0_def)
  have "ls_step ls_sys0 (grant 0 7 ls_held ls_sys0)"
    by (rule acquire_granted) (simp_all add: ls_sys0_def ls_acquire_def lock_server_init_def ls_lock_def ls_held_def)
  moreover have "grant 0 7 ls_held ls_sys0 = ls_sys1"
    by (simp add: grant_def ls_sys0_def ls_sys1_def fun_eq_iff)
  ultimately show r1: "reach ls_start ls_step ls_sys1" using reach_step [OF r0] by simp
  have wait: "ls_acquire 7 ls_held = (False, ls_held)" by (simp add: ls_acquire_def ls_held_def)
  have "ls_step ls_sys1 (ls_sys1\<lparr>srv := ls_held, thread := (thread ls_sys1)(1 := Waiting 7)\<rparr>)" (is "ls_step _ ?s")
    by (rule acquire_waits) (simp_all add: ls_sys1_def wait)
  note r = reach_step [OF r1 this]
  have "ls_step ?s (?s\<lparr>srv := ls_held, thread := (thread ?s)(2 := Waiting 7)\<rparr>)" (is "ls_step _ ?s'")
    by (rule acquire_waits) (simp_all add: ls_sys1_def wait)
  moreover have "?s' = ls_sys2" by (simp add: ls_sys1_def ls_sys2_def)
  ultimately have r2: "reach ls_start ls_step ls_sys2" using reach_step [OF r] by simp
  have "ls_release 7 (srv ls_sys2) = Inr (ls_unlock 7 ls_held)" by (simp add: ls_release_def ls_sys2_def ls_held_def)
  from release_signals [OF _ this, of 0 1]
  have "ls_step ls_sys2 (ls_sys2\<lparr>srv := ls_unlock 7 ls_held, holds := (holds ls_sys2)(0 := holds ls_sys2 0 - {7}),
      thread := (thread ls_sys2)(1 := Woken 7)\<rparr>)" by (simp add: ls_sys2_def)
  moreover have "\<dots> = ls_sys3" by (auto simp: ls_sys2_def ls_sys3_def fun_eq_iff)
  ultimately show "reach ls_start ls_step ls_sys3" using reach_step [OF r2] by simp
qed

text \<open>
  C28 (safety). Mutual exclusion of the blocking lock server: in every reachable interleaving of
  acquire and release handlers, spurious wake-ups included, a lock has at most one holder, and
  the server's flag says whether it has one.
\<close>

theorem ls_mutual_exclusion:
  assumes "reach ls_start ls_step s"
  shows "(lid \<in> holds s t \<and> lid \<in> holds s u \<longrightarrow> t = u) \<and>
    (map_get (locked (srv s)) lid False \<longleftrightarrow> (\<exists>v. lid \<in> holds s v))"
  using ls_invD(2,3) [OF lsys.reach_invar [OF assms]] by (auto simp: is_locked_def)

theorem ls_mutual_exclusion_witness:
  "7 \<in> holds ls_sys1 0 \<and> 7 \<notin> holds ls_sys1 1 \<and>
     map_get (locked (srv ls_sys1)) 7 False"
  using ls_mutual_exclusion [OF ls_run(1), of 7 0 1] by (simp add: ls_sys1_def)

text \<open>
  C29 (liveness). No wake-up is lost: whenever a thread waits for a lock that is free, some thread
  has been woken for that lock, and its next step takes it.
\<close>

theorem ls_no_lost_wakeup:
  assumes "reach ls_start ls_step s" and "thread s t = Waiting lid" and "\<not> map_get (locked (srv s)) lid False"
  shows "\<exists>u s'. thread s u = Woken lid \<and> ls_step s s' \<and> lid \<in> holds s' u"
  using woken_progress [OF lsys.reach_invar [OF assms(1)] assms(2)] assms(3) by (simp add: is_locked_def)

theorem ls_no_lost_wakeup_witness:
  "\<exists>u s'. thread ls_sys3 u = Woken 7 \<and> ls_step ls_sys3 s' \<and> 7 \<in> holds s' u"
  by (rule ls_no_lost_wakeup [OF ls_run(2), of 2]) (simp_all add: ls_sys3_def ls_unlock_def)

end
