(* ===== verification/Lock_Wire.thy ===== *)
theory Lock_Wire
  imports Rpc Lock_Server_Cache Lock_Client_Cache Lock_Server
begin

text \<open>
  The lock protocol on the wire: the calls that \<^verbatim>\<open>lock_client.cc\<close>, \<^verbatim>\<open>lock_client_cache.cc\<close> and
  \<^verbatim>\<open>lock_server_cache.cc\<close> make, the handlers that \<^verbatim>\<open>lock_smain.cc\<close> and the constructor of the caching client
  register, and the program \<^verbatim>\<open>lock_demo.cc\<close>. Over a network that delivers, the calls of the caching
  client and the callbacks of the server reach their handlers; the call of \<^verbatim>\<open>lock_demo\<close> does not fit the handler.
\<close>

section \<open>Procedure numbers\<close>

definition lp_acquire :: u32 where lp_acquire_def [simp]: "lp_acquire = 0x7001"
definition lp_release :: u32 where lp_release_def [simp]: "lp_release = 0x7002"
definition lp_stat :: u32 where lp_stat_def [simp]: "lp_stat = 0x7003"
definition rlp_revoke :: u32 where rlp_revoke_def [simp]: "rlp_revoke = 0x8001"
definition rlp_retry :: u32 where rlp_retry_def [simp]: "rlp_retry = 0x8002"

section \<open>The lock server process\<close>

text \<open>
  The methods of the server with their \<^verbatim>\<open>int &r\<close> parameter. A method that calls a client passes \<^verbatim>\<open>r\<close> on as the
  result of that call: \<open>ans\<close> is what the client's handler leaves there. The calls are noted in the order
  in which they are made.
\<close>

type_synonym lock_world = "lock_server_cache \<times> outcall list"

definition callback :: "(outcall \<Rightarrow> u32) \<Rightarrow> outcall option \<Rightarrow> u32 \<Rightarrow> u32" where
  "callback ans out r = (case out of None \<Rightarrow> r | Some c \<Rightarrow> ans c)"

definition outbox :: "outcall option \<Rightarrow> outcall list" where
  "outbox out = (case out of None \<Rightarrow> [] | Some c \<Rightarrow> [c])"

definition meth_acquire :: "(outcall \<Rightarrow> u32) \<Rightarrow> u64 \<Rightarrow> byte list \<Rightarrow> u32 \<Rightarrow> lock_world \<Rightarrow> (int \<times> u32 \<times> lock_world) res" where
  "meth_acquire ans lid cid r s =
     (let (ret, st, out) = lsc_acquire lid (bstring cid) (fst s) in Inr (ret, callback ans out r, st, snd s @ outbox out))"

definition meth_release :: "(outcall \<Rightarrow> u32) \<Rightarrow> u64 \<Rightarrow> byte list \<Rightarrow> u32 \<Rightarrow> lock_world \<Rightarrow> (int \<times> u32 \<times> lock_world) res" where
  "meth_release ans lid cid r s =
     bindR (lsc_release lid (bstring cid) (fst s)) (\<lambda>(ret, st, out). Inr (ret, callback ans out r, st, snd s @ outbox out))"

definition meth_stat :: "u64 \<Rightarrow> u32 \<Rightarrow> lock_world \<Rightarrow> (int \<times> u32 \<times> lock_world) res" where
  "meth_stat lid r s = (let (ret, n) = lsc_stat lid (fst s) in Inr (ret, word_of_int n, s))"

definition lock_procs :: "(unmarshall \<Rightarrow> bool) \<Rightarrow> wire_ops \<Rightarrow> (outcall \<Rightarrow> u32) \<Rightarrow> u32 \<Rightarrow> u32 \<rightharpoonup> lock_world handler" where
  "lock_procs d w ans r =
     [lp_stat \<mapsto> reg_1 d (get_u64 w) (put_int w) meth_stat r,
      lp_release \<mapsto> reg_2 d (get_u64 w) (get_str w) (put_int w) (meth_release ans) r,
      lp_acquire \<mapsto> reg_2 d (get_u64 w) (get_str w) (put_int w) (meth_acquire ans) r]"

text \<open>\<^verbatim>\<open>main\<close> of \<^verbatim>\<open>lock_smain\<close>: the port, the number of calls between two statistics, and the handlers.\<close>

definition lock_smain :: "(unmarshall \<Rightarrow> bool) \<Rightarrow> wire_ops \<Rightarrow> (outcall \<Rightarrow> u32) \<Rightarrow> u32 \<Rightarrow> string list \<Rightarrow> string option \<Rightarrow>
    (int \<times> int \<times> (u32 \<rightharpoonup> lock_world handler)) option" where
  "lock_smain d w ans r argv rpc_count = map_option (\<lambda>(port, count). (port, count, lock_procs d w ans r)) (server_args argv rpc_count)"

section \<open>Clients\<close>

text \<open>
  The constructor of \<^verbatim>\<open>lock_client_cache\<close>: the port of its callback server is made of a random number, and its
  identity is the address of that server. \<open>rand_after seed\<close> is the first \<^verbatim>\<open>rand()\<close> after \<^verbatim>\<open>srand(seed)\<close>.
\<close>

definition rlock_port :: "(u32 \<Rightarrow> u32) \<Rightarrow> u32 \<Rightarrow> u32 \<Rightarrow> u32" where
  "rlock_port rand_after now last_port = or (rand_after (xor now last_port) mod 32000) (push_bit 10 1)"

definition client_id :: "u32 \<Rightarrow> string" where
  "client_id port = ''127.0.0.1'' @ '':'' @ decimal (unat port)"

text \<open>The handlers of its callback server.\<close>

definition rlock_procs ::
    "(unmarshall \<Rightarrow> bool) \<Rightarrow> wire_ops \<Rightarrow> (u64 \<Rightarrow> u32 \<Rightarrow> 's \<Rightarrow> (int \<times> u32 \<times> 's) res) \<Rightarrow> (u64 \<Rightarrow> u32 \<Rightarrow> 's \<Rightarrow> (int \<times> u32 \<times> 's) res) \<Rightarrow>
     u32 \<Rightarrow> u32 \<rightharpoonup> 's handler" where
  "rlock_procs d w revoke retry r =
     [rlp_revoke \<mapsto> reg_1 d (get_u64 w) (put_int w) revoke r,
      rlp_retry \<mapsto> reg_1 d (get_u64 w) (put_int w) retry r]"

text \<open>The calls that the caching client makes; \<open>r\<close> is the uninitialised result variable.\<close>

definition rpc_acquire_call :: "'s rpcc_lib \<Rightarrow> wire_ops \<Rightarrow> byte list option \<Rightarrow> u32 \<Rightarrow> string \<Rightarrow> u64 \<Rightarrow> 's \<Rightarrow> (int \<times> 's) res" where
  "rpc_acquire_call lib w raw r cid lid s =
     bindR (call_2 lib (put_u64 w) (put_str w) (get_int w) raw lp_acquire lid (sbytes cid) r s) (\<lambda>(ret, _, s). Inr (ret, s))"

definition rpc_release_call :: "'s rpcc_lib \<Rightarrow> wire_ops \<Rightarrow> byte list option \<Rightarrow> u32 \<Rightarrow> string \<Rightarrow> u64 \<Rightarrow> 's \<Rightarrow> (int \<times> 's) res" where
  "rpc_release_call lib w raw r cid lid s =
     bindR (call_2 lib (put_u64 w) (put_str w) (get_int w) raw lp_release lid (sbytes cid) r s) (\<lambda>(ret, _, s). Inr (ret, s))"

text \<open>The callbacks of the server over the connection to a client, with \<^verbatim>\<open>int &r\<close>.\<close>

definition revoke_call :: "'s rpcc_lib \<Rightarrow> wire_ops \<Rightarrow> byte list option \<Rightarrow> u64 \<Rightarrow> u32 \<Rightarrow> 's \<Rightarrow> (int \<times> u32 \<times> 's) res" where
  "revoke_call lib w raw lid r s = call_1 lib (put_u64 w) (get_int w) raw rlp_revoke lid r s"

definition retry_call :: "'s rpcc_lib \<Rightarrow> wire_ops \<Rightarrow> byte list option \<Rightarrow> u64 \<Rightarrow> u32 \<Rightarrow> 's \<Rightarrow> (int \<times> u32 \<times> 's) res" where
  "retry_call lib w raw lid r s = call_1 lib (put_u64 w) (get_int w) raw rlp_retry lid r s"

section \<open>The plain client and its demonstration\<close>

text \<open>The constructor goes on when the connection cannot be bound; the result is what it prints.\<close>

definition lock_client_new :: "int \<Rightarrow> string" where
  "lock_client_new bind = (if bind < 0 then ''lock_client: call bind\<newline>'' else '''')"

text \<open>The call of \<^verbatim>\<open>lock_client::stat\<close>: \<open>nonce\<close> is \<^verbatim>\<open>cl->id()\<close>.\<close>

definition lc_stat_call :: "'s rpcc_lib \<Rightarrow> wire_ops \<Rightarrow> byte list option \<Rightarrow> u32 \<Rightarrow> u32 \<Rightarrow> u64 \<Rightarrow> 's \<Rightarrow> (int \<times> int \<times> 's) res" where
  "lc_stat_call lib w raw nonce r lid s =
     bindR (call_2 lib (put_u32 w) (put_u64 w) (get_int w) raw lp_stat nonce lid r s) (\<lambda>(ret, r, s). Inr (ret, sint r, s))"

text \<open>\<^verbatim>\<open>main\<close> of \<^verbatim>\<open>lock_demo\<close>: the exit status and the output.\<close>

definition lock_demo_main :: "(u64 \<Rightarrow> 's \<Rightarrow> (int \<times> int \<times> 's) res) \<Rightarrow> int \<Rightarrow> string list \<Rightarrow> 's \<Rightarrow> (int \<times> string \<times> 's) res" where
  "lock_demo_main stat_call bind argv s =
     (if length argv \<noteq> 2 then Inr (1, '''', s)
      else bindR (lc_stat stat_call 1 s) (\<lambda>(r, s). Inr (0, lock_client_new bind @ ''stat returned '' @ print_int r @ ''\<newline>'', s)))"

section \<open>Properties\<close>

text \<open>The statuses of the server's handlers are not negative.\<close>

lemma lsc_status:
  "0 \<le> fst (lsc_acquire lid cid st)" "lsc_release lid cid st = Inr (ret, st', out) \<Longrightarrow> 0 \<le> ret"
  by (auto simp: lsc_acquire_alt lsc_acquire_lock_def lsc_release_def Let_def split: server_states.splits option.splits if_splits prod.splits)

text \<open>
  C19 (equivalence). Over a network that delivers, an acquire or release call of a caching client is the
  handler of the lock server for that client and lock, with the handler's status as its result, and a
  revoke or retry callback of the server is the handler that the client has registered for it, which must
  not return a negative status.
\<close>

theorem lock_calls_reach_handlers:
  assumes lib: "call1 lib = loopback (lock_procs (okdone lib) w ans r0) (Some b1) hdr" "okdone lib = all_read"
    and lib': "call1 lib' = loopback (rlock_procs (okdone lib') w revoke retry r0') (Some b1) hdr" "okdone lib' = all_read"
    and w: "wire_ok S w" and cid: "S (sbytes cid)"
    and mem: "length b1 = DEFAULT_RPC_SZ" "length b2 = DEFAULT_RPC_SZ" "RPC_HEADER_SZ \<le> length hdr"
  shows "rpc_acquire_call lib w (Some b2) r cid lid (st, outs) =
      (let (ret, st', out) = lsc_acquire lid cid st in Inr (ret, st', outs @ outbox out)) \<and>
    rpc_release_call lib w (Some b2) r cid lid (st, outs) =
      bindR (lsc_release lid cid st) (\<lambda>(ret, st', out). Inr (ret, st', outs @ outbox out)) \<and>
    revoke_call lib' w (Some b2) lid r s = served (revoke lid r0' s) \<and>
    retry_call lib' w (Some b2) lid r s = served (retry lid r0' s)"
proof (intro conjI)
  obtain ei e64 es where c: "codec (\<lambda>_. True) ei (put_int w) (get_int w)" "codec (\<lambda>_. True) e64 (put_u64 w) (get_u64 w)"
    "codec S es (put_str w) (get_str w)" using w unfolding wire_ok_def by blast
  note reach = call_1_reaches [OF lib _ _ _ _ _ refl mem(1) refl mem(2,3)]
    and reach' = call_1_reaches [OF lib' _ c(2) TrueI c(1) TrueI refl mem(1) refl mem(2,3), of _ _ _ lid r s]
  have 1: "lock_procs (okdone lib) w ans r0 lp_acquire =
      Some (reg_1 (okdone lib) (get_pair (get_u64 w) (get_str w)) (put_int w) (\<lambda>(lid, cid). meth_acquire ans lid cid) r0)"
    and 2: "lock_procs (okdone lib) w ans r0 lp_release =
      Some (reg_1 (okdone lib) (get_pair (get_u64 w) (get_str w)) (put_int w) (\<lambda>(lid, cid). meth_release ans lid cid) r0)"
    by (simp_all add: lock_procs_def reg_tuple)
  show "rpc_acquire_call lib w (Some b2) r cid lid (st, outs) =
      (let (ret, st', out) = lsc_acquire lid cid st in Inr (ret, st', outs @ outbox out))"
    using reach [OF 1 codec_pair [OF c(2,3)] _ c(1), of "(lid, sbytes cid)" "(st, outs)" r] cid lsc_status(1) [of lid cid st]
    by (simp add: rpc_acquire_call_def call_tuple meth_acquire_def case_prod_unfold Let_def served_def)
  show "rpc_release_call lib w (Some b2) r cid lid (st, outs) =
      bindR (lsc_release lid cid st) (\<lambda>(ret, st', out). Inr (ret, st', outs @ outbox out))"
    using reach [OF 2 codec_pair [OF c(2,3)] _ c(1), of "(lid, sbytes cid)" "(st, outs)" r] cid lsc_status(2) [of lid cid st]
    by (cases "lsc_release lid cid st") (auto simp: rpc_release_call_def call_tuple meth_release_def served_def)
  show "revoke_call lib' w (Some b2) lid r s = served (revoke lid r0' s)"
    unfolding revoke_call_def by (rule reach') (simp add: rlock_procs_def)
  show "retry_call lib' w (Some b2) lid r s = served (retry lid r0' s)"
    unfolding retry_call_def by (rule reach') (simp add: rlock_procs_def)
qed

definition lock_lib0 :: "lock_world rpcc_lib" where
  "lock_lib0 = \<lparr>call1 = loopback (lock_procs all_read wire0 (\<lambda>_. 0) 0) (Some (replicate 1024 0)) (replicate 24 0), okdone = all_read\<rparr>"

definition revoke0 :: "u64 \<Rightarrow> u32 \<Rightarrow> nat lock_cache \<Rightarrow> (int \<times> u32 \<times> nat lock_cache) res" where
  "revoke0 lid r cache = bindR (cache_revoke lid cache) (\<lambda>(_, cache). Inr (0, r, cache))"

definition retry0 :: "u64 \<Rightarrow> u32 \<Rightarrow> nat lock_cache \<Rightarrow> (int \<times> u32 \<times> nat lock_cache) res" where
  "retry0 lid r cache = bindR (cache_retry lid cache) (\<lambda>(_, cache). Inr (0, r, cache))"

definition rlock_lib0 :: "nat lock_cache rpcc_lib" where
  "rlock_lib0 = \<lparr>call1 = loopback (rlock_procs all_read wire0 revoke0 retry0 0) (Some (replicate 1024 0)) (replicate 24 0), okdone = all_read\<rparr>"

lemma lock_libs0:
  "call1 lock_lib0 = loopback (lock_procs (okdone lock_lib0) wire0 (\<lambda>_. 0) 0) (Some (replicate 1024 0)) (replicate 24 0)" "okdone lock_lib0 = all_read"
  "call1 rlock_lib0 = loopback (rlock_procs (okdone rlock_lib0) wire0 revoke0 retry0 0) (Some (replicate 1024 0)) (replicate 24 0)"
  "okdone rlock_lib0 = all_read"
  by (simp_all add: lock_lib0_def rlock_lib0_def)

theorem lock_calls_reach_handlers_witness:
  "\<exists>st'. rpc_acquire_call lock_lib0 wire0 (Some (replicate 1024 9)) 0 ''127.0.0.1:1024'' 7 (lock_server_cache_init 0, []) = Inr (lp_OK, st', []) \<and>
     holder (lock_of st' 7) = Some ''127.0.0.1:1024''"
proof -
  have "length (sbytes ''127.0.0.1:1024'') < 2 ^ 32" by simp
  from lock_calls_reach_handlers [OF lock_libs0 wire0_ok this wire_mem0, where lid = 7 and st = "lock_server_cache_init 0" and outs = "[]" and r = 0 and s = "Map.empty"]
  show ?thesis by (simp add: lsc_acquire_alt lsc_acquire_lock_def lock_of_def lock_server_cache_init_def new_server_lock_def outbox_def Let_def holder_def)
qed

text \<open>
  The widths of the numbers on the wire: an \<^verbatim>\<open>unsigned int\<close> takes four bytes and an \<^verbatim>\<open>unsigned long long\<close> eight,
  and every eight bytes are such a number.
\<close>

definition wire_fixed :: "wire_ops \<Rightarrow> bool" where
  "wire_fixed w \<longleftrightarrow> (\<exists>e32 e64. codec (\<lambda>_. True) e32 (put_u32 w) (get_u32 w) \<and> codec (\<lambda>_. True) e64 (put_u64 w) (get_u64 w) \<and>
     (\<forall>x. length (e32 x) = 4) \<and> (\<forall>x. length (e64 x) = 8) \<and> (\<forall>bs. length bs = 8 \<longrightarrow> (\<exists>x. e64 x = bs)))"

lemma wire0_fixed: "wire_fixed wire0"
proof -
  have "codec (\<lambda>_. True) enc32 (\<lambda>i. put_bytes (enc32 i)) (get_fixed 4 dec32)"
    "codec (\<lambda>_. True) enc64 (\<lambda>i. put_bytes (enc64 i)) (get_fixed 8 dec64)" by (rule codec_fixed; simp)+
  then show ?thesis unfolding wire_fixed_def wire0_def using enc64_onto length_enc(2,3) by (intro exI [of _ enc32] exI [of _ enc64]) auto
qed

text \<open>
  C39 (error, a defect). \<^verbatim>\<open>lock_client::stat\<close> sends the client's number and the lock, but the lock server registers a
  \<^verbatim>\<open>stat\<close> that takes the lock alone. The registered handler refuses the bytes that \<^verbatim>\<open>lock_demo\<close> sends, without a run
  of the method, whatever the state of the server; and since the library asserts in \<^verbatim>\<open>rpcs::dispatch\<close> that no handler
  returns a negative status, the run of \<^verbatim>\<open>lock_demo\<close> with an address always ends in a failed assertion, which is the lock
  server's.
\<close>

theorem lock_demo_ends_server:
  assumes lib: "call1 lib = loopback (lock_procs (okdone lib) w ans r0) (Some b1) hdr" "okdone lib = all_read"
    and w: "wire_fixed w"
    and mem: "length b1 = DEFAULT_RPC_SZ" "length b2 = DEFAULT_RPC_SZ" "RPC_HEADER_SZ \<le> length hdr"
  shows "(\<exists>m c h. marshall_init (Some b2) = Inr m \<and> get_content (put_u64 w 1 (put_u32 w nonce m)) = Inr c \<and>
      lock_procs (okdone lib) w ans r0 lp_stat = Some h \<and>
      (\<forall>rep s. h (unmarshall_of_content hdr c) rep s = Inr (unmarshal_args_failure, rep, s))) \<and>
    lock_demo_main (lc_stat_call lib w (Some b2) nonce r) bind [argv0, dst] s = Inl Abort"
proof -
  obtain e32 e64 where c: "codec (\<lambda>_. True) e32 (put_u32 w) (get_u32 w)" "codec (\<lambda>_. True) e64 (put_u64 w) (get_u64 w)"
    and len: "\<And>x. length (e32 x) = 4" "\<And>x. length (e64 x) = 8" "\<And>bs. length bs = 8 \<Longrightarrow> \<exists>x. e64 x = bs"
    using w unfolding wire_fixed_def by blast
  let ?bs = "e32 nonce @ e64 1"
  obtain x where x: "e64 x = take 8 ?bs" using len(3) [of "take 8 ?bs"] len(1,2) by auto
  have bs: "?bs = e64 x @ drop 8 ?bs" "drop 8 ?bs \<noteq> []" using x len(1,2) by (metis append_take_drop_id, simp)
  obtain m where m: "marshall_init (Some b2) = Inr m" "m_wf m" "written m = take RPC_HEADER_SZ b2" using fresh_marshall [OF mem(2)] by auto
  have "written (put_u64 w 1 (put_u32 w nonce m)) = take RPC_HEADER_SZ b2 @ ?bs" "m_wf (put_u64 w 1 (put_u32 w nonce m))"
    using codec_put [OF c(1) TrueI m(2)] codec_put [OF c(2) TrueI] m(3) by simp_all
  then have req: "get_content (put_u64 w 1 (put_u32 w nonce m)) = Inr ?bs" using mem(2) by (intro content_written)
  obtain rep where rep: "marshall_init (Some b1) = Inr rep" using fresh_marshall [OF mem(1)] by auto
  let ?h = "reg_1 (okdone lib) (get_u64 w) (put_int w) meth_stat r0"
  have h: "lock_procs (okdone lib) w ans r0 lp_stat = Some ?h" by (simp add: lock_procs_def)
  have refused: "?h (unmarshall_of_content hdr ?bs) rep' s' = Inr (unmarshal_args_failure, rep', s')" for rep' s'
    unfolding lib(2) by (rule short_read_refused [OF c(2) TrueI bs mem(3)])
  have "call1 lib lp_stat (put_u64 w 1 (put_u32 w nonce m)) unmarshall_init s = Inl Abort"
    using req rep h refused [of rep s] by (simp only: lib(1)) (simp add: loopback_def guardR_def)
  then have "lock_demo_main (lc_stat_call lib w (Some b2) nonce r) bind [argv0, dst] s = Inl Abort"
    using m(1) by (simp add: lock_demo_main_def lc_stat_def lc_stat_call_def call_2_def call_m_def)
  with m(1) req h refused show ?thesis by blast
qed

theorem lock_demo_ends_server_witness:
  "lock_demo_main (lc_stat_call lock_lib0 wire0 (Some (replicate 1024 9)) 5 0) 0 [''lock_demo'', ''3772''] (lock_server_cache_init 0, []) = Inl Abort"
  by (rule lock_demo_ends_server [OF lock_libs0(1,2) wire0_fixed wire_mem0, THEN conjunct2])

text \<open>
  A caching client listens on a port from 1024 to 32767, outside the privileged ones, and two clients have
  the same identity at the lock server just when they have chosen the same port.
\<close>

lemma rlock_port_bounds: "1024 \<le> rlock_port rand_after now last_port" "rlock_port rand_after now last_port < 32768"
proof -
  let ?x = "rand_after (xor now last_port) mod 32000"
  have x: "?x < 32000" by (rule word_mod_less_divisor) simp
  then have "unat ?x < 2 ^ 15" by (simp add: word_less_nat_alt)
  then have "or (unat ?x) 1024 = take_bit 15 (or (unat ?x) 1024)" by (simp add: take_bit_or take_bit_nat_eq_self)
  then have "or (unat ?x) 1024 < 2 ^ 15" by (metis take_bit_nat_less_exp)
  then show "rlock_port rand_after now last_port < 32768"
    by (simp add: rlock_port_def word_less_nat_alt unsigned_or_eq)
  have "int 1024 \<le> int (or 1024 (unat ?x))" unfolding of_nat_or_eq by (rule or_greater_eq) simp
  then have "1024 \<le> or (unat ?x) 1024" by (simp add: or.commute)
  then show "1024 \<le> rlock_port rand_after now last_port" by (simp add: rlock_port_def word_le_nat_alt unsigned_or_eq)
qed

lemma client_id_inj: "client_id port = client_id port' \<longleftrightarrow> port = port'"
  by (simp add: client_id_def decimal_inj word_unat_eq_iff)

end
