(* ===== verification/Demo.thy ===== *)
theory Demo
  imports Rpc
begin

text \<open>
  The example of a typed call: \<^verbatim>\<open>demo_protocol.h\<close>, \<^verbatim>\<open>demo_server.cc\<close> and \<^verbatim>\<open>demo_client.cc\<close>. The state of the server is
  what it has printed.
\<close>

definition dp_stat :: u32 where dp_stat_def [simp]: "dp_stat = 0x7001"
definition dp_rpcA :: u32 where dp_rpcA_def [simp]: "dp_rpcA = 0x7002"
definition dp_rpcB :: u32 where dp_rpcB_def [simp]: "dp_rpcB = 0x7003"

section \<open>The server\<close>

definition demo_server_stat :: "u32 \<Rightarrow> u64 \<Rightarrow> u32 \<Rightarrow> string \<Rightarrow> (int \<times> u32 \<times> string) res" where
  "demo_server_stat clt var r out = Inr (0, 0, out @ ''stat request from clt '' @ print_int (sint clt) @ ''\<newline>'')"

definition demo_procs :: "(unmarshall \<Rightarrow> bool) \<Rightarrow> wire_ops \<Rightarrow> u32 \<Rightarrow> u32 \<rightharpoonup> string handler" where
  "demo_procs d w r = [dp_stat \<mapsto> reg_2 d (get_int w) (get_u64 w) (put_int w) demo_server_stat r]"

definition demo_server_main ::
    "(unmarshall \<Rightarrow> bool) \<Rightarrow> wire_ops \<Rightarrow> u32 \<Rightarrow> string list \<Rightarrow> string option \<Rightarrow> (int \<times> int \<times> (u32 \<rightharpoonup> string handler)) option" where
  "demo_server_main d w r argv rpc_count = map_option (\<lambda>(port, count). (port, count, demo_procs d w r)) (server_args argv rpc_count)"

section \<open>The client\<close>

text \<open>The constructor goes on when the connection cannot be bound; the result is what it prints.\<close>

definition demo_client_new :: "int \<Rightarrow> string" where
  "demo_client_new bind = (if bind < 0 then ''demo_client: call bind\<newline>'' else '''')"

text \<open>\<open>nonce\<close> is \<^verbatim>\<open>cl->id()\<close>, an \<^verbatim>\<open>unsigned int\<close>, which the server reads as an \<^verbatim>\<open>int\<close>.\<close>

definition demo_client_stat :: "'s rpcc_lib \<Rightarrow> wire_ops \<Rightarrow> byte list option \<Rightarrow> u32 \<Rightarrow> u32 \<Rightarrow> u64 \<Rightarrow> 's \<Rightarrow> (int \<times> 's) res" where
  "demo_client_stat lib w raw nonce r var s =
     bindR (call_2 lib (put_u32 w) (put_u64 w) (get_int w) raw dp_stat nonce var r s) (\<lambda>(ret, r, s).
     bindR (guardR (ret = 0) Abort) (\<lambda>_. Inr (sint r, s)))"

text \<open>The exit status, the output and the state of the world.\<close>

definition demo_client_main ::
    "'s rpcc_lib \<Rightarrow> wire_ops \<Rightarrow> byte list option \<Rightarrow> u32 \<Rightarrow> u32 \<Rightarrow> int \<Rightarrow> string list \<Rightarrow> 's \<Rightarrow> (int \<times> string \<times> 's) res" where
  "demo_client_main lib w raw nonce r bind argv s =
     (if length argv \<noteq> 2 then Inr (1, '''', s)
      else bindR (demo_client_stat lib w raw nonce r 1 s) (\<lambda>(r, s). Inr (0, demo_client_new bind @ ''stat returned '' @ print_int r @ ''\<newline>'', s)))"

section \<open>Property\<close>

text \<open>
  Over a network that delivers, the demonstration client, given an address, ends with
  status 0 and prints that the call returned 0, and the server prints the client's number; this needs
  that an \<^verbatim>\<open>int\<close> can be read where an \<^verbatim>\<open>unsigned int\<close> was written.
\<close>

lemma demo_prints_zero:
  assumes lib: "call1 lib = loopback (demo_procs (okdone lib) w r0) (Some b1) hdr" "okdone lib = all_read"
    and w: "wire_ok S w" and int: "codec (\<lambda>_. True) enc (put_u32 w) (get_int w)"
    and mem: "length b1 = DEFAULT_RPC_SZ" "length b2 = DEFAULT_RPC_SZ" "RPC_HEADER_SZ \<le> length hdr"
  shows "demo_client_main lib w (Some b2) nonce r bind [argv0, dst] out =
    Inr (0, demo_client_new bind @ ''stat returned 0\<newline>'', out @ ''stat request from clt '' @ print_int (sint nonce) @ ''\<newline>'')"
proof -
  obtain ei e64 where c: "codec (\<lambda>_. True) ei (put_int w) (get_int w)" "codec (\<lambda>_. True) e64 (put_u64 w) (get_u64 w)"
    using w unfolding wire_ok_def by blast
  have proc: "demo_procs (okdone lib) w r0 dp_stat =
      Some (reg_1 (okdone lib) (get_pair (get_int w) (get_u64 w)) (put_int w) (\<lambda>(clt, var). demo_server_stat clt var) r0)"
    by (simp add: demo_procs_def reg_tuple)
  have "print_int 0 = ''0''" by code_simp
  then show ?thesis
    using call_1_reaches [OF lib proc codec_pair [OF int c(2)] _ c(1) TrueI refl mem(1) refl mem(2,3), where a = "(nonce, 1)" and s = out and r = r]
    by (simp add: demo_client_main_def demo_client_stat_def call_tuple demo_server_stat_def guardR_def served_def)
qed

end
