(* ===== verification/Method_Thread.thy ===== *)
theory Method_Thread
  imports Prelude
begin

text \<open>
  Threads that run a method of an object, \<^verbatim>\<open>rpc/method_thread.h\<close>, and the jobs of the thread pool, \<^verbatim>\<open>rpc/thr_pool.h\<close>.
  The object, the method and its arguments travel to the new thread in a heap cell, which the thread
  deletes. The heap is a map from addresses to cells, so that a use after the deletion is a fault. The results of the
  pthread library are arguments.
\<close>

section \<open>Cells\<close>

text \<open>
  The local classes \<^verbatim>\<open>XXX\<close> for no to three arguments. A method works on an object, its arguments and the
  rest of the program's state. A type-erased pointer to a cell of one class may be used as another only
  by mistake.
\<close>

datatype ('o, 'a, 'b, 'c, 's) XXX =
    XXX0 'o "'o \<Rightarrow> 's \<Rightarrow> 's"
  | XXX1 'o "'o \<Rightarrow> 'a \<Rightarrow> 's \<Rightarrow> 's" 'a
  | XXX2 'o "'o \<Rightarrow> 'a \<Rightarrow> 'b \<Rightarrow> 's \<Rightarrow> 's" 'a 'b
  | XXX3 'o "'o \<Rightarrow> 'a \<Rightarrow> 'b \<Rightarrow> 'c \<Rightarrow> 's \<Rightarrow> 's" 'a 'b 'c

text \<open>The four functions \<^verbatim>\<open>XXX::yyy\<close>.\<close>

datatype yyy = YYY0 | YYY1 | YYY2 | YYY3

text \<open>The heap, the first address that was never used, the threads that have not run yet, and the rest of the state.\<close>

record ('o, 'a, 'b, 'c, 's) tsys =
  cells :: "nat \<rightharpoonup> ('o, 'a, 'b, 'c, 's) XXX"
  limit :: nat
  threads :: "nat \<rightharpoonup> yyy \<times> nat"
  tworld :: 's

section \<open>Starting a thread\<close>

text \<open>What the library answers: the new thread's number and error code, and the results of detaching it and of the two calls in the child.\<close>

record pthread_lib =
  pl_create :: "nat \<times> int"
  pl_detach :: int

definition method_thread_parent ::
    "pthread_lib \<Rightarrow> yyy \<Rightarrow> nat \<Rightarrow> bool \<Rightarrow> ('o, 'a, 'b, 'c, 's) tsys \<Rightarrow> (nat \<times> ('o, 'a, 'b, 'c, 's) tsys) res" where
  "method_thread_parent lib fn arg detach s =
     (let (th, err) = pl_create lib in
      if err \<noteq> 0 then Inl Exit
      else
        let s = s\<lparr>threads := (threads s)(th \<mapsto> (fn, arg))\<rparr> in
        if detach \<and> pl_detach lib \<noteq> 0 then Inl Abort else Inr (th, s))"

definition new_cell :: "('o, 'a, 'b, 'c, 's) XXX \<Rightarrow> ('o, 'a, 'b, 'c, 's) tsys \<Rightarrow> nat \<times> ('o, 'a, 'b, 'c, 's) tsys" where
  "new_cell x s = (limit s, s\<lparr>cells := (cells s)(limit s \<mapsto> x), limit := Suc (limit s)\<rparr>)"

definition method_thread0 ::
    "pthread_lib \<Rightarrow> 'o \<Rightarrow> bool \<Rightarrow> ('o \<Rightarrow> 's \<Rightarrow> 's) \<Rightarrow> ('o, 'a, 'b, 'c, 's) tsys \<Rightarrow> (nat \<times> ('o, 'a, 'b, 'c, 's) tsys) res" where
  "method_thread0 lib ob detach m s = (let (x, s) = new_cell (XXX0 ob m) s in method_thread_parent lib YYY0 x detach s)"

definition method_thread1 ::
    "pthread_lib \<Rightarrow> 'o \<Rightarrow> bool \<Rightarrow> ('o \<Rightarrow> 'a \<Rightarrow> 's \<Rightarrow> 's) \<Rightarrow> 'a \<Rightarrow> ('o, 'a, 'b, 'c, 's) tsys \<Rightarrow> (nat \<times> ('o, 'a, 'b, 'c, 's) tsys) res" where
  "method_thread1 lib ob detach m a s = (let (x, s) = new_cell (XXX1 ob m a) s in method_thread_parent lib YYY1 x detach s)"

definition method_thread2 ::
    "pthread_lib \<Rightarrow> 'o \<Rightarrow> bool \<Rightarrow> ('o \<Rightarrow> 'a \<Rightarrow> 'b \<Rightarrow> 's \<Rightarrow> 's) \<Rightarrow> 'a \<Rightarrow> 'b \<Rightarrow> ('o, 'a, 'b, 'c, 's) tsys \<Rightarrow>
     (nat \<times> ('o, 'a, 'b, 'c, 's) tsys) res" where
  "method_thread2 lib ob detach m a1 a2 s = (let (x, s) = new_cell (XXX2 ob m a1 a2) s in method_thread_parent lib YYY2 x detach s)"

definition method_thread3 ::
    "pthread_lib \<Rightarrow> 'o \<Rightarrow> bool \<Rightarrow> ('o \<Rightarrow> 'a \<Rightarrow> 'b \<Rightarrow> 'c \<Rightarrow> 's \<Rightarrow> 's) \<Rightarrow> 'a \<Rightarrow> 'b \<Rightarrow> 'c \<Rightarrow> ('o, 'a, 'b, 'c, 's) tsys \<Rightarrow>
     (nat \<times> ('o, 'a, 'b, 'c, 's) tsys) res" where
  "method_thread3 lib ob detach m a1 a2 a3 s =
     (let (x, s) = new_cell (XXX3 ob m a1 a2 a3) s in method_thread_parent lib YYY3 x detach s)"

section \<open>The thread\<close>

text \<open>The two calls of \<^verbatim>\<open>method_thread_child\<close> are asserted to succeed.\<close>

definition method_thread_child :: "int \<Rightarrow> int \<Rightarrow> unit res" where
  "method_thread_child setcancelstate setcanceltype =
     bindR (guardR (setcancelstate = 0) Abort) (\<lambda>_. guardR (setcanceltype = 0) Abort)"

text \<open>\<^verbatim>\<open>delete\<close> of a cell that is not there is undefined, like reading it.\<close>

definition delete_cell :: "nat \<Rightarrow> ('o, 'a, 'b, 'c, 's) tsys \<Rightarrow> ('o, 'a, 'b, 'c, 's) tsys res" where
  "delete_cell x s = (if cells s x = None then Inl Undefined else Inr (s\<lparr>cells := (cells s)(x := None)\<rparr>))"

definition run_method :: "('s \<Rightarrow> 's) \<Rightarrow> ('o, 'a, 'b, 'c, 's) tsys \<Rightarrow> ('o, 'a, 'b, 'c, 's) tsys res" where
  "run_method f s = Inr (s\<lparr>tworld := f (tworld s)\<rparr>)"

text \<open>\<^verbatim>\<open>yyy\<close> copies the fields out of its cell, deletes the cell and calls the method.\<close>

definition yyy0 :: "int \<Rightarrow> int \<Rightarrow> nat \<Rightarrow> ('o, 'a, 'b, 'c, 's) tsys \<Rightarrow> ('o, 'a, 'b, 'c, 's) tsys res" where
  "yyy0 cs ct vvv s = (case cells s vvv of
     Some (XXX0 ob m) \<Rightarrow>
       bindR (delete_cell vvv s) (\<lambda>s. bindR (method_thread_child cs ct) (\<lambda>_. run_method (m ob) s))
   | _ \<Rightarrow> Inl Undefined)"

definition yyy1 :: "int \<Rightarrow> int \<Rightarrow> nat \<Rightarrow> ('o, 'a, 'b, 'c, 's) tsys \<Rightarrow> ('o, 'a, 'b, 'c, 's) tsys res" where
  "yyy1 cs ct vvv s = (case cells s vvv of
     Some (XXX1 ob m a) \<Rightarrow>
       bindR (delete_cell vvv s) (\<lambda>s. bindR (method_thread_child cs ct) (\<lambda>_. run_method (m ob a) s))
   | _ \<Rightarrow> Inl Undefined)"

definition yyy2 :: "int \<Rightarrow> int \<Rightarrow> nat \<Rightarrow> ('o, 'a, 'b, 'c, 's) tsys \<Rightarrow> ('o, 'a, 'b, 'c, 's) tsys res" where
  "yyy2 cs ct vvv s = (case cells s vvv of
     Some (XXX2 ob m a1 a2) \<Rightarrow>
       bindR (delete_cell vvv s) (\<lambda>s. bindR (method_thread_child cs ct) (\<lambda>_. run_method (m ob a1 a2) s))
   | _ \<Rightarrow> Inl Undefined)"

definition yyy3 :: "int \<Rightarrow> int \<Rightarrow> nat \<Rightarrow> ('o, 'a, 'b, 'c, 's) tsys \<Rightarrow> ('o, 'a, 'b, 'c, 's) tsys res" where
  "yyy3 cs ct vvv s = (case cells s vvv of
     Some (XXX3 ob m a1 a2 a3) \<Rightarrow>
       bindR (delete_cell vvv s) (\<lambda>s. bindR (method_thread_child cs ct) (\<lambda>_. run_method (m ob a1 a2 a3) s))
   | _ \<Rightarrow> Inl Undefined)"

definition run_thread :: "nat \<Rightarrow> int \<Rightarrow> int \<Rightarrow> ('o, 'a, 'b, 'c, 's) tsys \<Rightarrow> ('o, 'a, 'b, 'c, 's) tsys res" where
  "run_thread th cs ct s = (case threads s th of None \<Rightarrow> Inl Undefined | Some (fn, x) \<Rightarrow>
     let s = s\<lparr>threads := (threads s)(th := None)\<rparr> in
     (case fn of YYY0 \<Rightarrow> yyy0 cs ct x s | YYY1 \<Rightarrow> yyy1 cs ct x s | YYY2 \<Rightarrow> yyy2 cs ct x s | YYY3 \<Rightarrow> yyy3 cs ct x s))"

section \<open>The thread pool\<close>

text \<open>
  \<^verbatim>\<open>addObjJob\<close>: the cell of \<^verbatim>\<open>objfunc_wrapper\<close> has the layout of \<open>XXX1\<close>; \<open>add_job\<close> is the library's \<^verbatim>\<open>addJob\<close>, which
  queues the cell's address or refuses it. \<^verbatim>\<open>func\<close> deletes the cell after the method has returned.
\<close>

definition add_obj_job ::
    "(nat \<Rightarrow> 'q \<Rightarrow> bool \<times> 'q) \<Rightarrow> 'o \<Rightarrow> ('o \<Rightarrow> 'a \<Rightarrow> 's \<Rightarrow> 's) \<Rightarrow> 'a \<Rightarrow> ('o, 'a, 'b, 'c, 's) tsys \<Rightarrow> 'q \<Rightarrow>
     bool \<times> ('o, 'a, 'b, 'c, 's) tsys \<times> 'q" where
  "add_obj_job add_job ob m a s q = (let (x, s) = new_cell (XXX1 ob m a) s; (ok, q) = add_job x q in (ok, s, q))"

definition objfunc :: "nat \<Rightarrow> ('o, 'a, 'b, 'c, 's) tsys \<Rightarrow> ('o, 'a, 'b, 'c, 's) tsys res" where
  "objfunc vvv s = (case cells s vvv of
     Some (XXX1 ob m a) \<Rightarrow> bindR (run_method (m ob a) s) (\<lambda>s. delete_cell vvv s)
   | _ \<Rightarrow> Inl Undefined)"

section \<open>Every thread runs its method once\<close>

text \<open>What a cell asks for, and which function reads it.\<close>

fun effect :: "('o, 'a, 'b, 'c, 's) XXX \<Rightarrow> 's \<Rightarrow> 's" where
  "effect (XXX0 ob m) = m ob"
| "effect (XXX1 ob m a) = m ob a"
| "effect (XXX2 ob m a1 a2) = m ob a1 a2"
| "effect (XXX3 ob m a1 a2 a3) = m ob a1 a2 a3"

fun reads :: "yyy \<Rightarrow> ('o, 'a, 'b, 'c, 's) XXX \<Rightarrow> bool" where
  "reads YYY0 (XXX0 ob m) \<longleftrightarrow> True"
| "reads YYY1 (XXX1 ob m a) \<longleftrightarrow> True"
| "reads YYY2 (XXX2 ob m a1 a2) \<longleftrightarrow> True"
| "reads YYY3 (XXX3 ob m a1 a2 a3) \<longleftrightarrow> True"
| "reads fn x \<longleftrightarrow> False"

text \<open>
  A program that starts threads and whose threads run in any order, with what each thread was asked to do.
  The number of a new thread is not that of one that has still to run.
\<close>

type_synonym ('o, 'a, 'b, 'c, 's) mt_sys = "('o, 'a, 'b, 'c, 's) tsys \<times> (nat \<rightharpoonup> ('o, 'a, 'b, 'c, 's) XXX)"

inductive mt_step :: "('o, 'a, 'b, 'c, 's) mt_sys \<Rightarrow> ('o, 'a, 'b, 'c, 's) mt_sys \<Rightarrow> bool" where
  mt0: "method_thread0 lib ob d m s = Inr (th, s') \<Longrightarrow> threads s th = None \<Longrightarrow> mt_step (s, asked) (s', asked(th \<mapsto> XXX0 ob m))"
| mt1: "method_thread1 lib ob d m1 a1 s = Inr (th, s') \<Longrightarrow> threads s th = None \<Longrightarrow> mt_step (s, asked) (s', asked(th \<mapsto> XXX1 ob m1 a1))"
| mt2: "method_thread2 lib ob d m2 a1 a2 s = Inr (th, s') \<Longrightarrow> threads s th = None \<Longrightarrow> mt_step (s, asked) (s', asked(th \<mapsto> XXX2 ob m2 a1 a2))"
| mt3: "method_thread3 lib ob d m3 a1 a2 a3 s = Inr (th, s') \<Longrightarrow> threads s th = None \<Longrightarrow>
    mt_step (s, asked) (s', asked(th \<mapsto> XXX3 ob m3 a1 a2 a3))"
| mt_run: "run_thread th 0 0 s = Inr s' \<Longrightarrow> mt_step (s, asked) (s', asked)"

definition mt_start :: "('o, 'a, 'b, 'c, 's) mt_sys \<Rightarrow> bool" where
  "mt_start S \<longleftrightarrow> cells (fst S) = Map.empty \<and> threads (fst S) = Map.empty"

text \<open>The cells are exactly those of the threads that have still to run, one for each.\<close>

definition mt_inv :: "('o, 'a, 'b, 'c, 's) mt_sys \<Rightarrow> bool" where
  "mt_inv S \<longleftrightarrow>
     (\<forall>th fn x. threads (fst S) th = Some (fn, x) \<longrightarrow> (\<exists>j. cells (fst S) x = Some j \<and> reads fn j \<and> snd S th = Some j)) \<and>
     (\<forall>th th' fn fn' x. threads (fst S) th = Some (fn, x) \<and> threads (fst S) th' = Some (fn', x) \<longrightarrow> th = th') \<and>
     (\<forall>x. cells (fst S) x \<noteq> None \<longrightarrow> x < limit (fst S) \<and> (\<exists>th fn. threads (fst S) th = Some (fn, x)))"

lemma mt_invD:
  assumes "mt_inv (s, asked)"
  shows "threads s th = Some (fn, x) \<Longrightarrow> \<exists>j. cells s x = Some j \<and> reads fn j \<and> asked th = Some j"
    and "threads s th = Some (fn, x) \<Longrightarrow> threads s th' = Some (fn', x) \<Longrightarrow> th = th'"
    and "cells s x = Some j \<Longrightarrow> x < limit s" and "cells s x = Some j \<Longrightarrow> \<exists>th fn. threads s th = Some (fn, x)"
  using assms unfolding mt_inv_def fst_conv snd_conv by blast+

lemma mt_invI:
  assumes "\<And>th fn x. threads s th = Some (fn, x) \<Longrightarrow> \<exists>j. cells s x = Some j \<and> reads fn j \<and> asked th = Some j"
    and "\<And>th th' fn fn' x. threads s th = Some (fn, x) \<Longrightarrow> threads s th' = Some (fn', x) \<Longrightarrow> th = th'"
    and "\<And>x j. cells s x = Some j \<Longrightarrow> x < limit s" and "\<And>x j. cells s x = Some j \<Longrightarrow> \<exists>th fn. threads s th = Some (fn, x)"
  shows "mt_inv (s, asked)"
  using assms unfolding mt_inv_def fst_conv snd_conv by blast

definition started :: "nat \<Rightarrow> yyy \<Rightarrow> ('o, 'a, 'b, 'c, 's) XXX \<Rightarrow> ('o, 'a, 'b, 'c, 's) tsys \<Rightarrow> ('o, 'a, 'b, 'c, 's) tsys" where
  "started th fn j s = s\<lparr>cells := (cells s)(limit s \<mapsto> j), limit := Suc (limit s), threads := (threads s)(th \<mapsto> (fn, limit s))\<rparr>"

lemma method_thread_started:
  "method_thread0 lib ob d m s = Inr (th, s') \<Longrightarrow> s' = started th YYY0 (XXX0 ob m) s"
  "method_thread1 lib ob d m1 a1 s = Inr (th, s') \<Longrightarrow> s' = started th YYY1 (XXX1 ob m1 a1) s"
  "method_thread2 lib ob d m2 a1 a2 s = Inr (th, s') \<Longrightarrow> s' = started th YYY2 (XXX2 ob m2 a1 a2) s"
  "method_thread3 lib ob d m3 a1 a2 a3 s = Inr (th, s') \<Longrightarrow> s' = started th YYY3 (XXX3 ob m3 a1 a2 a3) s"
  by (auto simp: method_thread0_def method_thread1_def method_thread2_def method_thread3_def method_thread_parent_def new_cell_def
      started_def Let_def split: if_splits prod.splits)

lemma started_inv:
  assumes inv: "mt_inv (s, asked)" and new: "threads s th = None" and j: "reads fn j"
  shows "mt_inv (started th fn j s, asked(th \<mapsto> j))"
proof -
  note D = mt_invD [OF inv]
  have old: "x \<noteq> limit s" if "threads s th' = Some (fn', x)" for th' fn' x using D(1) [OF that] D(3) by fastforce
  show ?thesis
  proof (rule mt_invI)
    show "\<exists>j'. cells (started th fn j s) x = Some j' \<and> reads fn' j' \<and> (asked(th \<mapsto> j)) th' = Some j'"
      if "threads (started th fn j s) th' = Some (fn', x)" for th' fn' x
      using that j old [of th' fn' x] D(1) [of th' fn' x] by (auto simp: started_def split: if_splits)
    show "t = t'" if "threads (started th fn j s) t = Some (f, x)" "threads (started th fn j s) t' = Some (f', x)" for t t' f f' x
      using that old D(2) by (auto simp: started_def split: if_splits)
    show "x < limit (started th fn j s)" if "cells (started th fn j s) x = Some j'" for x j'
      using that D(3) by (auto simp: started_def less_Suc_eq split: if_splits)
    show "\<exists>t f. threads (started th fn j s) t = Some (f, x)" if c: "cells (started th fn j s) x = Some j'" for x j'
    proof (cases "x = limit s")
      case False
      then obtain t f where "threads s t = Some (f, x)" using D(4) [of x j'] c by (auto simp: started_def)
      with new have "threads (started th fn j s) t = Some (f, x)" by (auto simp: started_def)
      then show ?thesis by blast
    qed (auto simp: started_def)
  qed
qed

text \<open>Running a thread: it finds its cell, calls what it was asked for and leaves no cell behind.\<close>

definition finished :: "nat \<Rightarrow> nat \<Rightarrow> ('o, 'a, 'b, 'c, 's) XXX \<Rightarrow> ('o, 'a, 'b, 'c, 's) tsys \<Rightarrow> ('o, 'a, 'b, 'c, 's) tsys" where
  "finished th x j s = s\<lparr>threads := (threads s)(th := None), cells := (cells s)(x := None), tworld := effect j (tworld s)\<rparr>"

lemma run_thread_finished:
  assumes "threads s th = Some (fn, x)" and "cells s x = Some j" and "reads fn j"
  shows "run_thread th 0 0 s = Inr (finished th x j s)"
  using assms by (cases fn; cases j)
    (simp_all add: run_thread_def yyy0_def yyy1_def yyy2_def yyy3_def delete_cell_def method_thread_child_def guardR_def run_method_def
      finished_def Let_def)

lemma finished_inv:
  assumes inv: "mt_inv (s, asked)" and th: "threads s th = Some (fn, x)"
  shows "mt_inv (finished th x j s, asked)"
proof -
  note D = mt_invD [OF inv]
  have old: "x' \<noteq> x" if "threads s th' = Some (fn', x')" "th' \<noteq> th" for th' fn' x' using D(2) [OF th, of th' fn'] that by auto
  show ?thesis
  proof (rule mt_invI)
    show "\<exists>j'. cells (finished th x j s) x' = Some j' \<and> reads fn' j' \<and> asked th' = Some j'"
      if "threads (finished th x j s) th' = Some (fn', x')" for th' fn' x'
      using that old [of th' fn' x'] D(1) [of th' fn' x'] by (auto simp: finished_def split: if_splits)
    show "t = t'" if "threads (finished th x j s) t = Some (f, y)" "threads (finished th x j s) t' = Some (f', y)" for t t' f f' y
      using that D(2) by (auto simp: finished_def split: if_splits)
    show "y < limit (finished th x j s)" if "cells (finished th x j s) y = Some j'" for y j'
      using that D(3) by (auto simp: finished_def split: if_splits)
    show "\<exists>t f. threads (finished th x j s) t = Some (f, y)" if c: "cells (finished th x j s) y = Some j'" for y j'
    proof -
      have y: "y \<noteq> x" "cells s y = Some j'" using c by (auto simp: finished_def split: if_splits)
      then obtain t f where "threads s t = Some (f, y)" using D(4) by blast
      moreover from this have "t \<noteq> th" using th y(1) by auto
      ultimately have "threads (finished th x j s) t = Some (f, y)" by (simp add: finished_def)
      then show ?thesis by blast
    qed
  qed
qed

interpretation mt: invariant_system mt_start mt_step mt_inv
proof
  show "mt_inv S" if "mt_start S" for S using that by (simp add: mt_inv_def mt_start_def)
  show "mt_inv T" if inv: "mt_inv S" and step: "mt_step S T" for S T
    using step
  proof cases
    case (mt_run th s s' asked)
    then obtain fn x where th: "threads s th = Some (fn, x)" by (auto simp: run_thread_def split: option.splits)
    then obtain j where "cells s x = Some j" "reads fn j" using inv mt_run(1) mt_invD(1) by blast
    from run_thread_finished [OF th this] finished_inv [OF _ th] show ?thesis using inv mt_run by simp
  qed (use inv in \<open>auto dest!: method_thread_started intro!: started_inv\<close>)
qed

section \<open>Property\<close>

text \<open>
  C20 (safety). However threads are started with methods of no to three arguments and however they run, a
  thread that has still to run finds its cell alive and of the right class, calls the method it was
  started with on the object and the arguments it was given, once, and deletes the cell; when all threads
  have run no cell is left.
\<close>

theorem method_thread_runs_method:
  assumes "reach mt_start mt_step (s, asked)"
  shows "(\<forall>th fn x. threads s th = Some (fn, x) \<longrightarrow>
      (\<exists>j s'. asked th = Some j \<and> run_thread th 0 0 s = Inr s' \<and> tworld s' = effect j (tworld s) \<and>
        cells s' = (cells s)(x := None) \<and> threads s' = (threads s)(th := None))) \<and>
    (threads s = Map.empty \<longrightarrow> cells s = Map.empty)"
proof (intro conjI allI impI)
  note inv = mt.reach_invar [OF assms, unfolded mt_inv_def fst_conv snd_conv]
  show "\<exists>j s'. asked th = Some j \<and> run_thread th 0 0 s = Inr s' \<and> tworld s' = effect j (tworld s) \<and>
      cells s' = (cells s)(x := None) \<and> threads s' = (threads s)(th := None)" if th: "threads s th = Some (fn, x)" for th fn x
  proof -
    obtain j where "cells s x = Some j" "reads fn j" "asked th = Some j" using inv th by blast
    with run_thread_finished [OF th this(1,2)] show ?thesis by (simp add: finished_def)
  qed
  show "cells s = Map.empty" if "threads s = Map.empty" using inv that by (auto simp: fun_eq_iff)
qed

definition tsys0 :: "(nat, nat, nat, nat, nat list) tsys" where
  "tsys0 = \<lparr>cells = Map.empty, limit = 0, threads = Map.empty, tworld = []\<rparr>"

definition log2 :: "nat \<Rightarrow> nat \<Rightarrow> nat \<Rightarrow> nat list \<Rightarrow> nat list" where
  "log2 ob a1 a2 l = l @ [ob, a1, a2]"

theorem method_thread_runs_method_witness:
  "\<exists>s s'. method_thread2 \<lparr>pl_create = (7, 0), pl_detach = 0\<rparr> 1 True log2 5 6 tsys0 = Inr (7, s) \<and>
     run_thread 7 0 0 s = Inr s' \<and> tworld s' = [1, 5, 6]"
proof -
  obtain s where s: "method_thread2 \<lparr>pl_create = (7, 0), pl_detach = 0\<rparr> 1 True log2 5 6 tsys0 = Inr (7, s)" and th: "threads s 7 = Some (YYY2, 0)"
    and w: "tworld s = []" by (simp add: method_thread2_def method_thread_parent_def new_cell_def tsys0_def)
  have "reach mt_start mt_step (s, [7 \<mapsto> XXX2 1 log2 5 6])"
    by (rule reach.reach_step, rule reach.reach_start) (use mt_step.mt2 [OF s, of Map.empty] in \<open>auto simp: mt_start_def tsys0_def\<close>)
  from conjunct1 [OF method_thread_runs_method [OF this], rule_format, OF th] w
  have "\<exists>s'. run_thread 7 0 0 s = Inr s' \<and> tworld s' = [1, 5, 6]" by (auto simp: log2_def)
  with s show ?thesis by blast
qed

text \<open>
  A job of the pool that \<^verbatim>\<open>addJob\<close> has taken runs its method and deletes its cell; a job that is refused leaves its
  cell behind.
\<close>

lemma add_obj_job_runs:
  assumes "add_obj_job add_job ob m a s q = (ok, s', q')"
  shows "\<exists>s''. objfunc (limit s) s' = Inr s'' \<and> tworld s'' = m ob a (tworld s) \<and> cells s'' = (cells s)(limit s := None)"
    and "cells s' (limit s) = Some (XXX1 ob m a)"
  using assms by (auto simp: add_obj_job_def objfunc_def new_cell_def run_method_def delete_cell_def Let_def split: prod.splits)

end
