(* ===== verification/Fifo.thy ===== *)
theory Fifo
  imports Prelude
begin

text \<open>
  The bounded queue \<^verbatim>\<open>rpc/fifo.h\<close> of the RPC library's thread pool. Each pass through the loop of \<^verbatim>\<open>enq\<close>
  or \<^verbatim>\<open>deq\<close> runs under the queue's mutex and is one function; its result says whether the thread returns
  or waits on a condition variable, and whether it signals one.
\<close>

section \<open>Operations\<close>

record 'a fifo =
  fq :: "'a list"
  fmax :: u32

definition fifo_init :: "u32 \<Rightarrow> 'a fifo" where
  "fifo_init limit = \<lparr>fq = [], fmax = limit\<rparr>"

text \<open>\<^verbatim>\<open>size\<close> returns a \<^verbatim>\<open>bool\<close>: the number of elements, converted.\<close>

definition fifo_size :: "'a fifo \<Rightarrow> bool" where
  "fifo_size f \<longleftrightarrow> length (fq f) \<noteq> 0"

datatype enq_result = Enq_True | Enq_False | Enq_Blocks

text \<open>\<open>Enq_True\<close> also signals \<^verbatim>\<open>non_empty_c_\<close>; \<open>Enq_Blocks\<close> waits on \<^verbatim>\<open>has_space_c_\<close> and tries again.\<close>

definition fifo_enq :: "'a \<Rightarrow> bool \<Rightarrow> 'a fifo \<Rightarrow> enq_result \<times> 'a fifo" where
  "fifo_enq e blocking f =
     (if fmax f = 0 \<or> length (fq f) < unat (fmax f) then (Enq_True, f\<lparr>fq := fq f @ [e]\<rparr>)
      else if blocking then (Enq_Blocks, f)
      else (Enq_False, f))"

text \<open>\<open>None\<close>: the queue is empty and the thread waits on \<^verbatim>\<open>non_empty_c_\<close>. The flag says that \<^verbatim>\<open>has_space_c_\<close> is signalled.\<close>

definition fifo_deq :: "'a fifo \<Rightarrow> ('a \<times> bool) option \<times> 'a fifo" where
  "fifo_deq f =
     (case fq f of
        [] \<Rightarrow> (None, f)
      | e # es \<Rightarrow> (Some (e, fmax f \<noteq> 0 \<and> length es < unat (fmax f)), f\<lparr>fq := es\<rparr>))"

section \<open>Producers and consumers\<close>

text \<open>
  Threads that use one queue. A waiting thread goes on when it is signalled, or without a reason, as
  POSIX allows; it then runs the loop again. The history of the elements is kept beside the state.
\<close>

datatype 'a fpc = Out | Enq_Wait 'a | Enq_Woke 'a | Deq_Wait | Deq_Woke

record ('t, 'a) fifo_sys =
  queue :: "'a fifo"
  fpcs :: "'t \<Rightarrow> 'a fpc"
  put_in :: "'a list"
  taken_out :: "'a list"

text \<open>\<^verbatim>\<open>pthread_cond_signal\<close>: one of the waiting threads, if there is one.\<close>

definition signal_deq :: "('t \<Rightarrow> 'a fpc) \<Rightarrow> ('t \<Rightarrow> 'a fpc) \<Rightarrow> bool" where
  "signal_deq p p' \<longleftrightarrow> (\<exists>t. p t = Deq_Wait \<and> p' = p(t := Deq_Woke)) \<or> (\<forall>t. p t \<noteq> Deq_Wait) \<and> p' = p"

definition signal_enq :: "('t \<Rightarrow> 'a fpc) \<Rightarrow> ('t \<Rightarrow> 'a fpc) \<Rightarrow> bool" where
  "signal_enq p p' \<longleftrightarrow> (\<exists>t e. p t = Enq_Wait e \<and> p' = p(t := Enq_Woke e)) \<or> (\<forall>t e. p t \<noteq> Enq_Wait e) \<and> p' = p"

inductive fifo_step :: "('t, 'a) fifo_sys \<Rightarrow> ('t, 'a) fifo_sys \<Rightarrow> bool" where
  enq_done: "fpcs s t \<in> {Out, Enq_Woke e} \<Longrightarrow> fifo_enq e b (queue s) = (Enq_True, f) \<Longrightarrow> signal_deq ((fpcs s)(t := Out)) p \<Longrightarrow>
    fifo_step s (s\<lparr>queue := f, fpcs := p, put_in := put_in s @ [e]\<rparr>)"
| enq_wait: "fpcs s t \<in> {Out, Enq_Woke e} \<Longrightarrow> fifo_enq e True (queue s) = (Enq_Blocks, f) \<Longrightarrow>
    fifo_step s (s\<lparr>queue := f, fpcs := (fpcs s)(t := Enq_Wait e)\<rparr>)"
| enq_fails: "fpcs s t = Out \<Longrightarrow> fifo_enq e False (queue s) = (Enq_False, f) \<Longrightarrow> fifo_step s (s\<lparr>queue := f\<rparr>)"
| deq_signals: "fpcs s t \<in> {Out, Deq_Woke} \<Longrightarrow> fifo_deq (queue s) = (Some (e, True), f) \<Longrightarrow> signal_enq ((fpcs s)(t := Out)) p \<Longrightarrow>
    fifo_step s (s\<lparr>queue := f, fpcs := p, taken_out := taken_out s @ [e]\<rparr>)"
| deq_quiet: "fpcs s t \<in> {Out, Deq_Woke} \<Longrightarrow> fifo_deq (queue s) = (Some (e, False), f) \<Longrightarrow>
    fifo_step s (s\<lparr>queue := f, fpcs := (fpcs s)(t := Out), taken_out := taken_out s @ [e]\<rparr>)"
| deq_wait: "fpcs s t \<in> {Out, Deq_Woke} \<Longrightarrow> fifo_deq (queue s) = (None, f) \<Longrightarrow>
    fifo_step s (s\<lparr>queue := f, fpcs := (fpcs s)(t := Deq_Wait)\<rparr>)"
| spurious_deq: "fpcs s t = Deq_Wait \<Longrightarrow> fifo_step s (s\<lparr>fpcs := (fpcs s)(t := Deq_Woke)\<rparr>)"
| spurious_enq: "fpcs s t = Enq_Wait e \<Longrightarrow> fifo_step s (s\<lparr>fpcs := (fpcs s)(t := Enq_Woke e)\<rparr>)"

definition fifo_start :: "u32 \<Rightarrow> ('t, 'a) fifo_sys \<Rightarrow> bool" where
  "fifo_start limit s \<longleftrightarrow> queue s = fifo_init limit \<and> (\<forall>t. fpcs s t = Out) \<and> put_in s = [] \<and> taken_out s = []"

section \<open>Invariant\<close>

text \<open>How many threads have been woken.\<close>

definition deq_woken :: "('t :: finite \<Rightarrow> 'a fpc) \<Rightarrow> nat" where
  "deq_woken p = card {t. p t = Deq_Woke}"

definition enq_woken :: "('t :: finite \<Rightarrow> 'a fpc) \<Rightarrow> nat" where
  "enq_woken p = card {t. \<exists>e. p t = Enq_Woke e}"

lemma woken_upd:
  "deq_woken (p(t := x)) + (if p t = Deq_Woke then 1 else 0) = deq_woken p + (if x = Deq_Woke then 1 else 0)"
  "enq_woken (p(t := x)) + (if \<exists>e. p t = Enq_Woke e then 1 else 0) = enq_woken p + (if \<exists>e. x = Enq_Woke e then 1 else 0)"
  using card_fun_upd [of "\<lambda>c. c = Deq_Woke" p t x] card_fun_upd [of "\<lambda>c. \<exists>e. c = Enq_Woke e" p t x]
  by (simp_all add: deq_woken_def enq_woken_def)

text \<open>
  As long as a consumer waits there is a woken consumer for every element, and as long as a producer
  waits there is a woken producer for every free place.
\<close>

definition fifo_inv :: "u32 \<Rightarrow> ('t :: finite, 'a) fifo_sys \<Rightarrow> bool" where
  "fifo_inv limit s \<longleftrightarrow> fmax (queue s) = limit \<and> put_in s = taken_out s @ fq (queue s) \<and>
     (limit \<noteq> 0 \<longrightarrow> length (fq (queue s)) \<le> unat limit) \<and>
     ((\<exists>t. fpcs s t = Deq_Wait) \<longrightarrow> length (fq (queue s)) \<le> deq_woken (fpcs s)) \<and>
     ((\<exists>t e. fpcs s t = Enq_Wait e) \<longrightarrow> limit \<noteq> 0 \<and> unat limit \<le> length (fq (queue s)) + enq_woken (fpcs s))"

lemma signal_deq_woken:
  assumes "signal_deq p p'"
  shows "enq_woken p' = enq_woken p" and "(\<exists>t. p' t = Deq_Wait) \<Longrightarrow> deq_woken p' = Suc (deq_woken p)"
    and "(\<exists>t. p' t = Deq_Wait) \<Longrightarrow> \<exists>t. p t = Deq_Wait" and "p' t = Enq_Wait e \<longleftrightarrow> p t = Enq_Wait e"
proof -
  consider u where "p u = Deq_Wait" "p' = p(u := Deq_Woke)" | "\<forall>t. p t \<noteq> Deq_Wait" "p' = p"
    using assms by (auto simp: signal_deq_def)
  note c = this
  show "enq_woken p' = enq_woken p"
  proof (cases rule: c)
    case (1 u)
    then show ?thesis using woken_upd(2) [of p u Deq_Woke] by simp
  qed simp
  show "deq_woken p' = Suc (deq_woken p)" if "\<exists>t. p' t = Deq_Wait"
  proof (cases rule: c)
    case (1 u)
    then show ?thesis using woken_upd(1) [of p u Deq_Woke] by simp
  next
    case 2
    then show ?thesis using that by simp
  qed
  show "\<exists>t. p t = Deq_Wait" if "\<exists>t. p' t = Deq_Wait" by (cases rule: c) (use that in \<open>auto split: if_splits\<close>)
  show "p' t = Enq_Wait e \<longleftrightarrow> p t = Enq_Wait e" by (cases rule: c) auto
qed

lemma signal_enq_woken:
  assumes "signal_enq p p'"
  shows "deq_woken p' = deq_woken p" and "(\<exists>t e. p' t = Enq_Wait e) \<Longrightarrow> enq_woken p' = Suc (enq_woken p)"
    and "(\<exists>t e. p' t = Enq_Wait e) \<Longrightarrow> \<exists>t e. p t = Enq_Wait e" and "p' t = Deq_Wait \<longleftrightarrow> p t = Deq_Wait"
proof -
  consider u e where "p u = Enq_Wait e" "p' = p(u := Enq_Woke e)" | "\<forall>t e. p t \<noteq> Enq_Wait e" "p' = p"
    using assms by (auto simp: signal_enq_def)
  note c = this
  show "deq_woken p' = deq_woken p"
  proof (cases rule: c)
    case (1 u e)
    then show ?thesis using woken_upd(1) [of p u "Enq_Woke e"] by simp
  qed simp
  show "enq_woken p' = Suc (enq_woken p)" if "\<exists>t e. p' t = Enq_Wait e"
  proof (cases rule: c)
    case (1 u e)
    then show ?thesis using woken_upd(2) [of p u "Enq_Woke e"] by simp
  next
    case 2
    then show ?thesis using that by simp
  qed
  show "\<exists>t e. p t = Enq_Wait e" if "\<exists>t e. p' t = Enq_Wait e" by (cases rule: c) (use that in \<open>auto split: if_splits\<close>)
  show "p' t = Deq_Wait \<longleftrightarrow> p t = Deq_Wait" by (cases rule: c) auto
qed

text \<open>A thread leaves the queue's code, or goes to wait.\<close>

lemma woken_out:
  "p t \<in> {Out, Enq_Woke e} \<Longrightarrow> deq_woken (p(t := Out)) = deq_woken p \<and> enq_woken p \<le> Suc (enq_woken (p(t := Out)))"
  "p t \<in> {Out, Deq_Woke} \<Longrightarrow> enq_woken (p(t := Out)) = enq_woken p \<and> deq_woken p \<le> Suc (deq_woken (p(t := Out)))"
  using woken_upd [of p t Out] by auto

lemma fifo_enq_cases:
  "fifo_enq e b f = (Enq_True, f') \<Longrightarrow> f' = f\<lparr>fq := fq f @ [e]\<rparr> \<and> (fmax f = 0 \<or> length (fq f) < unat (fmax f))"
  "fifo_enq e b f = (Enq_Blocks, f') \<Longrightarrow> f' = f \<and> fmax f \<noteq> 0 \<and> unat (fmax f) \<le> length (fq f)"
  "fifo_enq e b f = (Enq_False, f') \<Longrightarrow> f' = f"
  by (auto simp: fifo_enq_def split: if_splits)

lemma fifo_deq_cases:
  "fifo_deq f = (Some (e, sig), f') \<Longrightarrow> fq f = e # fq f' \<and> fmax f' = fmax f \<and>
     (sig \<longleftrightarrow> fmax f \<noteq> 0 \<and> length (fq f') < unat (fmax f))"
  "fifo_deq f = (None, f') \<Longrightarrow> f' = f \<and> fq f = []"
  by (auto simp: fifo_deq_def split: list.splits)

lemma fifo_step_inv:
  assumes inv: "fifo_inv limit s" and "fifo_step s s'"
  shows "fifo_inv limit s'"
  using assms(2)
proof cases
  case (enq_done t e b f p)
  note f = fifo_enq_cases(1) [OF enq_done(3)] and w = woken_out(1) [of "fpcs s" t e, OF enq_done(2)] and sg = signal_deq_woken [OF enq_done(4)]
  have dw: "length (fq f) \<le> deq_woken p" if "\<exists>t. p t = Deq_Wait"
  proof -
    from sg(3) [OF that] have "\<exists>t. fpcs s t = Deq_Wait" by (auto split: if_splits)
    then have "length (fq (queue s)) \<le> deq_woken (fpcs s)" using inv unfolding fifo_inv_def by blast
    then show ?thesis using sg(2) [OF that] w f by simp
  qed
  have ew: "limit \<noteq> 0 \<and> unat limit \<le> length (fq f) + enq_woken p" if ex: "\<exists>t e. p t = Enq_Wait e"
  proof -
    from ex sg(4) have "\<exists>t e. fpcs s t = Enq_Wait e" by (auto split: if_splits)
    then have "limit \<noteq> 0 \<and> unat limit \<le> length (fq (queue s)) + enq_woken (fpcs s)" using inv unfolding fifo_inv_def by blast
    then show ?thesis using sg(1) w f by simp
  qed
  show ?thesis using inv dw ew f enq_done(1) unfolding fifo_inv_def by auto
next
  case (enq_wait t e f)
  note f = fifo_enq_cases(2) [OF enq_wait(3)]
  have "deq_woken ((fpcs s)(t := Enq_Wait e)) = deq_woken (fpcs s)" using woken_upd(1) [of "fpcs s" t "Enq_Wait e"] enq_wait(2) by auto
  then show ?thesis using inv f enq_wait(1) unfolding fifo_inv_def by (auto split: if_splits)
next
  case (enq_fails t e f)
  then show ?thesis using inv fifo_enq_cases(3) [OF enq_fails(3)] by (simp add: fifo_inv_def)
next
  case (deq_signals t e f p)
  note f = fifo_deq_cases(1) [OF deq_signals(3)] and w = woken_out(2) [of "fpcs s" t, OF deq_signals(2)] and sg = signal_enq_woken [OF deq_signals(4)]
  have dw: "length (fq f) \<le> deq_woken p" if "\<exists>t. p t = Deq_Wait"
  proof -
    from that sg(4) have "\<exists>t. fpcs s t = Deq_Wait" by (auto split: if_splits)
    then have "length (fq (queue s)) \<le> deq_woken (fpcs s)" using inv unfolding fifo_inv_def by blast
    then show ?thesis using sg(1) w f by simp
  qed
  have ew: "limit \<noteq> 0 \<and> unat limit \<le> length (fq f) + enq_woken p" if ex: "\<exists>t e. p t = Enq_Wait e"
  proof -
    from sg(3) [OF ex] have "\<exists>t e. fpcs s t = Enq_Wait e" by (auto split: if_splits)
    then have "limit \<noteq> 0 \<and> unat limit \<le> length (fq (queue s)) + enq_woken (fpcs s)" using inv unfolding fifo_inv_def by blast
    then show ?thesis using sg(2) [OF ex] w f by simp
  qed
  show ?thesis using inv dw ew f deq_signals(1) unfolding fifo_inv_def by auto
next
  case (deq_quiet t e f)
  note f = fifo_deq_cases(1) [OF deq_quiet(3)] and w = woken_out(2) [of "fpcs s" t, OF deq_quiet(2)]
  have "limit = 0" using f inv unfolding fifo_inv_def by auto
  moreover have "length (fq f) \<le> deq_woken ((fpcs s)(t := Out))" if "\<exists>u. ((fpcs s)(t := Out)) u = Deq_Wait"
  proof -
    from that have "\<exists>t. fpcs s t = Deq_Wait" by (auto split: if_splits)
    then have "length (fq (queue s)) \<le> deq_woken (fpcs s)" using inv unfolding fifo_inv_def by blast
    then show ?thesis using w f by simp
  qed
  ultimately show ?thesis using inv f deq_quiet(1) unfolding fifo_inv_def by (auto split: if_splits)
next
  case (deq_wait t f)
  note f = fifo_deq_cases(2) [OF deq_wait(3)]
  have "enq_woken ((fpcs s)(t := Deq_Wait)) = enq_woken (fpcs s)" using woken_upd(2) [of "fpcs s" t Deq_Wait] deq_wait(2) by auto
  then show ?thesis using inv f deq_wait(1) unfolding fifo_inv_def by (auto split: if_splits)
next
  case (spurious_deq t)
  then show ?thesis using inv woken_upd [of "fpcs s" t Deq_Woke] unfolding fifo_inv_def by (auto split: if_splits)
next
  case (spurious_enq t e)
  then show ?thesis using inv woken_upd [of "fpcs s" t "Enq_Woke e"] unfolding fifo_inv_def by (auto split: if_splits)
qed

interpretation fifo: invariant_system "fifo_start limit" fifo_step "fifo_inv limit" for limit
proof
  show "fifo_inv limit s" if "fifo_start limit s" for s
    using that by (simp add: fifo_start_def fifo_init_def fifo_inv_def)
qed (rule fifo_step_inv)

section \<open>Progress\<close>

lemma signal_deq_ex:
  assumes "p u = Out"
  shows "\<exists>p'. signal_deq p p' \<and> p' u = Out"
proof (cases "\<exists>t. p t = Deq_Wait")
  case True
  then obtain t where t: "p t = Deq_Wait" by blast
  then have "signal_deq p (p(t := Deq_Woke))" "(p(t := Deq_Woke)) u = Out" using assms by (auto simp: signal_deq_def)
  then show ?thesis by blast
qed (use assms in \<open>auto simp: signal_deq_def\<close>)

lemma signal_enq_ex:
  assumes "p u = Out"
  shows "\<exists>p'. signal_enq p p' \<and> p' u = Out"
proof (cases "\<exists>t e. p t = Enq_Wait e")
  case True
  then obtain t e where t: "p t = Enq_Wait e" by blast
  then have "signal_enq p (p(t := Enq_Woke e))" "(p(t := Enq_Woke e)) u = Out" using assms by (auto simp: signal_enq_def)
  then show ?thesis by blast
qed (use assms in \<open>auto simp: signal_enq_def\<close>)

lemma consumer_progress:
  assumes inv: "fifo_inv limit s" and t: "fpcs s t = Deq_Wait" and q: "fq (queue s) = e # es"
  shows "\<exists>u s'. fpcs s u = Deq_Woke \<and> fifo_step s s' \<and> fpcs s' u = Out \<and> taken_out s' = taken_out s @ [e]"
proof -
  have "0 < deq_woken (fpcs s)" using inv t q unfolding fifo_inv_def by force
  then obtain u where u: "fpcs s u = Deq_Woke" by (auto simp: deq_woken_def card_gt_0_iff)
  obtain b where d: "fifo_deq (queue s) = (Some (e, b), (queue s)\<lparr>fq := es\<rparr>)" using q by (simp add: fifo_deq_def)
  obtain p' where p': "signal_enq ((fpcs s)(u := Out)) p'" "p' u = Out" using signal_enq_ex [of "(fpcs s)(u := Out)" u] by auto
  show ?thesis
  proof (cases b)
    case True
    then have "fifo_step s (s\<lparr>queue := (queue s)\<lparr>fq := es\<rparr>, fpcs := p', taken_out := taken_out s @ [e]\<rparr>)"
      using d u p'(1) by (intro deq_signals [of s u]) simp_all
    then show ?thesis using u p'(2) by (intro exI conjI) (assumption | simp)+
  next
    case False
    then have "fifo_step s (s\<lparr>queue := (queue s)\<lparr>fq := es\<rparr>, fpcs := (fpcs s)(u := Out), taken_out := taken_out s @ [e]\<rparr>)"
      using d u by (intro deq_quiet [of s u]) simp_all
    then show ?thesis using u by (intro exI conjI) (assumption | simp)+
  qed
qed

lemma producer_progress:
  assumes inv: "fifo_inv limit s" and t: "fpcs s t = Enq_Wait x" and q: "length (fq (queue s)) < unat limit"
  shows "\<exists>u y s'. fpcs s u = Enq_Woke y \<and> fifo_step s s' \<and> fpcs s' u = Out \<and> put_in s' = put_in s @ [y]"
proof -
  have m: "fmax (queue s) = limit" using inv by (simp add: fifo_inv_def)
  have "0 < enq_woken (fpcs s)" using inv t q unfolding fifo_inv_def by force
  then obtain u y where u: "fpcs s u = Enq_Woke y" by (auto simp: enq_woken_def card_gt_0_iff)
  have d: "fifo_enq y True (queue s) = (Enq_True, (queue s)\<lparr>fq := fq (queue s) @ [y]\<rparr>)" using q m by (simp add: fifo_enq_def)
  obtain p' where p': "signal_deq ((fpcs s)(u := Out)) p'" "p' u = Out" using signal_deq_ex [of "(fpcs s)(u := Out)" u] by auto
  have "fifo_step s (s\<lparr>queue := (queue s)\<lparr>fq := fq (queue s) @ [y]\<rparr>, fpcs := p', put_in := put_in s @ [y]\<rparr>)"
    using d u p'(1) by (intro enq_done [of s u]) simp_all
  then show ?thesis using u p'(2) by (intro exI conjI) (assumption | simp)+
qed

section \<open>Properties\<close>

text \<open>A run with one place and three threads: two consumers wait, then an element is put in.\<close>

definition fifo0 :: "(bool option, nat) fifo_sys" where
  "fifo0 = \<lparr>queue = fifo_init 1, fpcs = \<lambda>_. Out, put_in = [], taken_out = []\<rparr>"

definition fifo1 :: "(bool option, nat) fifo_sys" where
  "fifo1 = \<lparr>queue = \<lparr>fq = [7], fmax = 1\<rparr>, fpcs = (\<lambda>_. Out)(Some True := Deq_Woke, Some False := Deq_Wait), put_in = [7], taken_out = []\<rparr>"

lemma fifo1_reach: "reach (fifo_start 1) fifo_step fifo1"
proof -
  have 0: "reach (fifo_start 1) fifo_step fifo0" by (rule reach_start) (simp add: fifo_start_def fifo0_def)
  have e: "fifo_deq (queue fifo0) = (None, queue fifo0)" by (simp add: fifo0_def fifo_init_def fifo_deq_def)
  let ?s1 = "fifo0\<lparr>queue := queue fifo0, fpcs := (fpcs fifo0)(Some True := Deq_Wait)\<rparr>"
  have 1: "reach (fifo_start 1) fifo_step ?s1"
    by (rule reach_step [OF 0 deq_wait [OF _ e]]) (simp add: fifo0_def)
  let ?s2 = "?s1\<lparr>queue := queue fifo0, fpcs := (fpcs ?s1)(Some False := Deq_Wait)\<rparr>"
  have 2: "reach (fifo_start 1) fifo_step ?s2"
    by (rule reach_step [OF 1 deq_wait]) (simp_all add: e, simp add: fifo0_def)
  let ?s3 = "?s2\<lparr>queue := \<lparr>fq = [7], fmax = 1\<rparr>, fpcs := (fpcs ?s2)(None := Out, Some True := Deq_Woke), put_in := put_in ?s2 @ [7]\<rparr>"
  have "fifo_step ?s2 ?s3"
    by (rule enq_done [where t = None and b = True])
      (simp_all add: fifo0_def fifo_init_def fifo_enq_def signal_deq_def exI [of _ "Some True"] fun_upd_twist)
  then have 3: "reach (fifo_start 1) fifo_step ?s3" by (rule reach_step [OF 2])
  have "(fpcs ?s2)(None := Out, Some True := Deq_Woke) = fpcs fifo1" by (rule ext) (simp add: fifo0_def fifo1_def)
  with 3 show ?thesis by (simp add: fifo0_def fifo1_def)
qed

text \<open>
  C22 (invariant). Elements leave the queue in the order in which they entered it, none is lost or
  duplicated, and a queue with a limit never holds more than the limit, in every interleaving of
  producers and consumers.
\<close>

theorem fifo_order:
  fixes s :: "('t :: finite, 'a) fifo_sys"
  assumes "reach (fifo_start limit) fifo_step s"
  shows "put_in s = taken_out s @ fq (queue s) \<and> (limit \<noteq> 0 \<longrightarrow> length (fq (queue s)) \<le> unat limit)"
  using fifo.reach_invar [OF assms] by (simp add: fifo_inv_def)

theorem fifo_order_witness:
  "put_in fifo1 = taken_out fifo1 @ fq (queue fifo1) \<and> length (fq (queue fifo1)) \<le> 1"
  using fifo_order [OF fifo1_reach] by simp

text \<open>
  C23 (liveness). No wake-up is lost: when a consumer waits although the queue has an element, another
  consumer has been woken and takes the first element with its next step, and when a producer waits
  although there is room, a woken producer puts its element in with its next step.
\<close>

theorem fifo_no_lost_wakeup:
  fixes s :: "('t :: finite, 'a) fifo_sys"
  assumes "reach (fifo_start limit) fifo_step s"
  shows "(fpcs s t = Deq_Wait \<and> fq (queue s) = e # es \<longrightarrow>
      (\<exists>u s'. fpcs s u = Deq_Woke \<and> fifo_step s s' \<and> fpcs s' u = Out \<and> taken_out s' = taken_out s @ [e])) \<and>
    (fpcs s t = Enq_Wait x \<and> length (fq (queue s)) < unat limit \<longrightarrow>
      (\<exists>u y s'. fpcs s u = Enq_Woke y \<and> fifo_step s s' \<and> fpcs s' u = Out \<and> put_in s' = put_in s @ [y]))"
  using consumer_progress [OF fifo.reach_invar [OF assms]] producer_progress [OF fifo.reach_invar [OF assms]] by blast

theorem fifo_no_lost_wakeup_witness:
  "\<exists>u s'. fpcs fifo1 u = Deq_Woke \<and> fifo_step fifo1 s' \<and> fpcs s' u = Out \<and> taken_out s' = [7]"
  using fifo_no_lost_wakeup [OF fifo1_reach, of "Some False" 7 "[]"] by (simp add: fifo1_def)

end
