(* ===== verification/Handle.thy ===== *)
theory Handle
  imports Prelude
begin

text \<open>
  The cache of RPC connections, \<^verbatim>\<open>handle.cc\<close>: a \<^verbatim>\<open>handle\<close> object points to a reference-counted
  \<^verbatim>\<open>hinfo\<close>, which is freed when it has been marked deleted and its last handle is gone. Structures
  on the heap are numbered; reading one that is not allocated is undefined.
\<close>

section \<open>Operations\<close>

text \<open>The count is a 32-bit \<^verbatim>\<open>int\<close>, by its two's complement; signed overflow is undefined.\<close>

definition int_incr :: "u32 \<Rightarrow> u32 res" where
  "int_incr n = (if sint n = 2 ^ 31 - 1 then Inl Undefined else Inr (n + 1))"

definition int_decr :: "u32 \<Rightarrow> u32 res" where
  "int_decr n = (if sint n = - (2 ^ 31) then Inl Undefined else Inr (n - 1))"

lemma sint_bounds: "- (2 ^ 31) \<le> sint (n :: u32)" "sint (n :: u32) \<le> 2 ^ 31 - 1"
  using sint_greater_eq [of n] sint_less [of n] by simp_all

lemma int_incr_Inr: "int_incr n = Inr m \<longleftrightarrow> sint n \<noteq> 2 ^ 31 - 1 \<and> m = n + 1"
  by (auto simp: int_incr_def)

lemma int_decr_Inr: "int_decr n = Inr m \<longleftrightarrow> sint n \<noteq> - (2 ^ 31) \<and> m = n - 1"
  by (auto simp: int_decr_def)

lemma sint_incr: "sint n \<noteq> 2 ^ 31 - 1 \<Longrightarrow> sint (n + 1 :: u32) = sint n + 1"
  using sint_bounds [of n] by (simp add: sint_word_ariths signed_take_bit_int_eq_self)

lemma sint_decr: "sint n \<noteq> - (2 ^ 31) \<Longrightarrow> sint (n - 1 :: u32) = sint n - 1"
  using sint_bounds [of n] by (simp add: sint_word_ariths signed_take_bit_int_eq_self)

lemma sint_zero_iff: "sint (n :: u32) = 0 \<longleftrightarrow> n = 0"
  by (simp add: signed_eq_0_iff)

record hinfo =
  hi_cl :: "nat option"
  hi_refcnt :: u32
  hi_del :: bool
  hi_m :: string

record handle_mgr =
  hmap :: "string \<rightharpoonup> nat"
  hheap :: "nat \<rightharpoonup> hinfo"

definition handle_mgr_init :: handle_mgr where
  "handle_mgr_init = \<lparr>hmap = Map.empty, hheap = Map.empty\<rparr>"

definition deref :: "nat \<Rightarrow> handle_mgr \<Rightarrow> hinfo res" where
  "deref h st = (case hheap st h of None \<Rightarrow> Inl Undefined | Some i \<Rightarrow> Inr i)"

definition set_hinfo :: "nat \<Rightarrow> hinfo \<Rightarrow> handle_mgr \<Rightarrow> handle_mgr" where
  "set_hinfo h i st = st\<lparr>hheap := (hheap st)(h \<mapsto> i)\<rparr>"

text \<open>\<open>new\<close> is the address of a fresh \<^verbatim>\<open>hinfo\<close>.\<close>

definition get_handle :: "nat \<Rightarrow> string \<Rightarrow> handle_mgr \<Rightarrow> (nat option \<times> handle_mgr) res" where
  "get_handle new m st =
     (case hmap st m of
        None \<Rightarrow>
          Inr (Some new, (set_hinfo new \<lparr>hi_cl = None, hi_refcnt = 1, hi_del = False, hi_m = m\<rparr> st)
                 \<lparr>hmap := (hmap st)(m \<mapsto> new)\<rparr>)
      | Some h \<Rightarrow>
          bindR (deref h st) (\<lambda>i.
          if \<not> hi_del i then bindR (int_incr (hi_refcnt i)) (\<lambda>n. Inr (Some h, set_hinfo h (i\<lparr>hi_refcnt := n\<rparr>) st))
          else Inr (None, st)))"

definition delete_handle_wo :: "string \<Rightarrow> handle_mgr \<Rightarrow> handle_mgr res" where
  "delete_handle_wo m st =
     (case hmap st m of
        None \<Rightarrow> Inr st
      | Some h \<Rightarrow>
          bindR (deref h st) (\<lambda>i.
          if hi_refcnt i = 0 then Inr (st\<lparr>hmap := (hmap st)(m := None), hheap := (hheap st)(h := None)\<rparr>)
          else Inr (set_hinfo h (i\<lparr>hi_del := True\<rparr>) st)))"

definition done_handle :: "nat \<Rightarrow> handle_mgr \<Rightarrow> handle_mgr res" where
  "done_handle h st =
     bindR (deref h st) (\<lambda>i.
     bindR (int_decr (hi_refcnt i)) (\<lambda>n.
     let i = i\<lparr>hi_refcnt := n\<rparr>; st = set_hinfo h i st in
     if hi_refcnt i = 0 \<and> hi_del i then delete_handle_wo (hi_m i) st else Inr st))"

definition delete_handle :: "string \<Rightarrow> handle_mgr \<Rightarrow> handle_mgr res" where
  "delete_handle m st = delete_handle_wo m st"

text \<open>The methods of a \<^verbatim>\<open>handle\<close> object that holds the pointer \<open>h\<close>.\<close>

definition handle_new :: "nat \<Rightarrow> string \<Rightarrow> handle_mgr \<Rightarrow> (nat option \<times> handle_mgr) res" where
  "handle_new new m st = get_handle new m st"

text \<open>\<open>ret\<close> is what \<^verbatim>\<open>bind\<close> of the new connection \<open>cl\<close> returns.\<close>

definition safebind :: "int \<Rightarrow> nat \<Rightarrow> nat option \<Rightarrow> handle_mgr \<Rightarrow> (nat option \<times> handle_mgr) res" where
  "safebind ret cl h st =
     (case h of
        None \<Rightarrow> Inr (None, st)
      | Some h \<Rightarrow>
          bindR (deref h st) (\<lambda>i.
          if hi_del i then Inr (None, st)
          else if hi_cl i \<noteq> None then Inr (hi_cl i, st)
          else
            let i = (if ret < 0 then i\<lparr>hi_del := True\<rparr> else i\<lparr>hi_cl := Some cl\<rparr>)
            in Inr (hi_cl i, set_hinfo h i st)))"

definition handle_destroy :: "nat option \<Rightarrow> handle_mgr \<Rightarrow> handle_mgr res" where
  "handle_destroy h st = (case h of None \<Rightarrow> Inr st | Some h \<Rightarrow> done_handle h st)"

section \<open>Handles in a program\<close>

datatype hobj = Dead | Live "nat option"

record 'o hsys =
  hmgr :: handle_mgr
  hobjs :: "'o \<Rightarrow> hobj"

inductive h_step :: "'o hsys \<Rightarrow> 'o hsys \<Rightarrow> bool" where
  construct: "hobjs s x = Dead \<Longrightarrow> hheap (hmgr s) new = None \<Longrightarrow> handle_new new m (hmgr s) = Inr (h, st) \<Longrightarrow>
    h_step s (s\<lparr>hmgr := st, hobjs := (hobjs s)(x := Live h)\<rparr>)"
| bind: "hobjs s x = Live h \<Longrightarrow> safebind ret cl h (hmgr s) = Inr (r, st) \<Longrightarrow> h_step s (s\<lparr>hmgr := st\<rparr>)"
| destroy: "hobjs s x = Live h \<Longrightarrow> handle_destroy h (hmgr s) = Inr st \<Longrightarrow>
    h_step s (s\<lparr>hmgr := st, hobjs := (hobjs s)(x := Dead)\<rparr>)"
| delete: "delete_handle m (hmgr s) = Inr st \<Longrightarrow> h_step s (s\<lparr>hmgr := st\<rparr>)"

definition h_start :: "'o hsys \<Rightarrow> bool" where
  "h_start s \<longleftrightarrow> hmgr s = handle_mgr_init \<and> (\<forall>x. hobjs s x = Dead)"

section \<open>Invariant\<close>

definition holders :: "nat \<Rightarrow> ('o :: finite \<Rightarrow> hobj) \<Rightarrow> nat" where
  "holders h objs = card {x. objs x = Live (Some h)}"

lemma holders_upd:
  "holders h (objs(x := v)) + (if objs x = Live (Some h) then 1 else 0) = holders h objs + (if v = Live (Some h) then 1 else 0)"
  using card_fun_upd [of "\<lambda>c. c = Live (Some h)" objs x v] by (simp add: holders_def)

text \<open>
  The map and the allocated structures correspond, the reference counts are the numbers of handles, and
  no handle points to freed memory.
\<close>

definition h_inv :: "'o :: finite hsys \<Rightarrow> bool" where
  "h_inv s \<longleftrightarrow>
     (\<forall>m h. hmap (hmgr s) m = Some h \<longrightarrow> (\<exists>i. hheap (hmgr s) h = Some i \<and> hi_m i = m)) \<and>
     (\<forall>h i. hheap (hmgr s) h = Some i \<longrightarrow> hmap (hmgr s) (hi_m i) = Some h \<and> sint (hi_refcnt i) = int (holders h (hobjs s))) \<and>
     (\<forall>x h. hobjs s x = Live (Some h) \<longrightarrow> hheap (hmgr s) h \<noteq> None)"

lemma h_invD:
  assumes "h_inv s"
  shows "hmap (hmgr s) m = Some h \<Longrightarrow> \<exists>i. hheap (hmgr s) h = Some i \<and> hi_m i = m"
    and "hheap (hmgr s) h = Some i \<Longrightarrow> hmap (hmgr s) (hi_m i) = Some h"
    and "hheap (hmgr s) h = Some i \<Longrightarrow> sint (hi_refcnt i) = int (holders h (hobjs s))"
    and "hobjs s x = Live (Some h) \<Longrightarrow> \<exists>i. hheap (hmgr s) h = Some i"
  using assms unfolding h_inv_def by blast+

text \<open>A change of one structure that keeps its name, with the handles that point to it.\<close>

lemma h_inv_set:
  assumes inv: "h_inv s" and h: "hheap (hmgr s) h = Some i" and m: "hi_m i' = hi_m i"
    and c: "sint (hi_refcnt i') = int (holders h objs)" and o: "\<And>g. g \<noteq> h \<Longrightarrow> holders g objs = holders g (hobjs s)"
    and p: "\<And>x g. objs x = Live (Some g) \<Longrightarrow> g \<noteq> h \<Longrightarrow> \<exists>y. hobjs s y = Live (Some g)"
  shows "h_inv (s\<lparr>hmgr := set_hinfo h i' (hmgr s), hobjs := objs\<rparr>)"
proof -
  have "\<exists>j. ((hheap (hmgr s))(h \<mapsto> i')) g = Some j \<and> hi_m j = n" if "hmap (hmgr s) n = Some g" for n g
    using h_invD(1) [OF inv that] h m by (cases "g = h") auto
  moreover have "hmap (hmgr s) (hi_m j) = Some g \<and> sint (hi_refcnt j) = int (holders g objs)"
    if "((hheap (hmgr s))(h \<mapsto> i')) g = Some j" for g j
    using that h_invD(2,3) [OF inv] h m c o by (cases "g = h") auto
  moreover have "((hheap (hmgr s))(h \<mapsto> i')) g \<noteq> None" if "objs x = Live (Some g)" for x g
    using p [OF that] h_invD(4) [OF inv] by (cases "g = h") auto
  ultimately show ?thesis unfolding h_inv_def by (simp add: set_hinfo_def)
qed

lemma holders_0: "objs x = Live (Some h) \<Longrightarrow> holders h objs \<noteq> 0"
  by (auto simp: holders_def)

lemma h_inv_free:
  assumes inv: "h_inv s" and h: "hheap (hmgr s) h = Some i" and z: "holders h (hobjs s) = 0"
  shows "h_inv (s\<lparr>hmgr := (hmgr s)\<lparr>hmap := (hmap (hmgr s))(hi_m i := None), hheap := (hheap (hmgr s))(h := None)\<rparr>\<rparr>)"
proof -
  have "hi_m j \<noteq> hi_m i" if "hheap (hmgr s) g = Some j" "g \<noteq> h" for g j
    using h_invD(2) [OF inv that(1)] h_invD(2) [OF inv h] that(2) by force
  moreover have "g \<noteq> h" if "hobjs s x = Live (Some g)" for x g using holders_0 [of "hobjs s" x g] that z by auto
  moreover have "g \<noteq> h" if "hmap (hmgr s) n = Some g" "n \<noteq> hi_m i" for n g
    using h_invD(1) [OF inv that(1)] that(2) h by auto
  moreover have "\<exists>j. ((hheap (hmgr s))(h := None)) g = Some j \<and> hi_m j = n"
    if "((hmap (hmgr s))(hi_m i := None)) n = Some g" for n g
    using that calculation(3) h_invD(1) [OF inv] by (cases "n = hi_m i") auto
  moreover have "((hmap (hmgr s))(hi_m i := None)) (hi_m j) = Some g \<and> sint (hi_refcnt j) = int (holders g (hobjs s))"
    if "((hheap (hmgr s))(h := None)) g = Some j" for g j
    using that calculation(1) h_invD(2,3) [OF inv] by (cases "g = h") auto
  moreover have "((hheap (hmgr s))(h := None)) g \<noteq> None" if "hobjs s x = Live (Some g)" for x g
    using calculation(2) [OF that] h_invD(4) [OF inv that] by auto
  ultimately show ?thesis unfolding h_inv_def by simp
qed

lemma delete_inv:
  assumes inv: "h_inv s" and del: "delete_handle_wo m (hmgr s) = Inr st"
  shows "h_inv (s\<lparr>hmgr := st\<rparr>)"
proof (cases "hmap (hmgr s) m")
  case None
  then have "st = hmgr s" using del by (simp add: delete_handle_wo_def)
  then show ?thesis using inv by simp
next
  case (Some h)
  then obtain i where i: "hheap (hmgr s) h = Some i" "hi_m i = m" using h_invD(1) [OF inv] by blast
  show ?thesis
  proof (cases "hi_refcnt i = 0")
    case True
    then have "holders h (hobjs s) = 0" using h_invD(3) [OF inv i(1)] by (simp add: sint_zero_iff)
    from h_inv_free [OF inv i(1) this] show ?thesis
      using del Some i True by (simp add: delete_handle_wo_def deref_def)
  next
    case False
    have "h_inv (s\<lparr>hmgr := set_hinfo h (i\<lparr>hi_del := True\<rparr>) (hmgr s), hobjs := hobjs s\<rparr>)"
      by (rule h_inv_set [OF inv i(1)]) (use h_invD(3) [OF inv i(1)] in auto)
    then show ?thesis using del Some i(1) False by (simp add: delete_handle_wo_def deref_def)
  qed
qed

lemma construct_inv:
  assumes inv: "h_inv s" and x: "hobjs s x = Dead" and new: "hheap (hmgr s) new = None"
    and run: "get_handle new m (hmgr s) = Inr (h, st)"
  shows "h_inv (s\<lparr>hmgr := st, hobjs := (hobjs s)(x := Live h)\<rparr>)"
proof (cases "hmap (hmgr s) m")
  case None
  have z: "holders new (hobjs s) = 0" using h_invD(4) [OF inv] new by (force simp: holders_def)
  have cnt: "holders g ((hobjs s)(x := Live (Some new))) = (if g = new then 1 else holders g (hobjs s))" for g
    using holders_upd [of g "hobjs s" x "Live (Some new)"] x z by auto
  have "g \<noteq> new" if "hmap (hmgr s) n = Some g" for n g using h_invD(1) [OF inv that] new by auto
  moreover have "hi_m i \<noteq> m" if "hheap (hmgr s) g = Some i" for g i using h_invD(2) [OF inv that] None by auto
  ultimately have "h_inv (s\<lparr>hmgr := (set_hinfo new \<lparr>hi_cl = None, hi_refcnt = 1, hi_del = False, hi_m = m\<rparr> (hmgr s))
        \<lparr>hmap := (hmap (hmgr s))(m \<mapsto> new)\<rparr>, hobjs := (hobjs s)(x := Live (Some new))\<rparr>)"
    using inv cnt x unfolding h_inv_def set_hinfo_def by (simp split: if_splits)
  then show ?thesis using run None by (auto simp: get_handle_def)
next
  case (Some g)
  then obtain i where i: "hheap (hmgr s) g = Some i" "hi_m i = m" using h_invD(1) [OF inv] by blast
  have cnt: "holders k ((hobjs s)(x := Live h)) = (if h = Some k then 1 else 0) + holders k (hobjs s)" for k
    using holders_upd [of k "hobjs s" x "Live h"] x by auto
  show ?thesis
  proof (cases "hi_del i")
    case True
    then have "h = None" "st = hmgr s" using run Some i(1) by (auto simp: get_handle_def deref_def)
    then show ?thesis using inv cnt unfolding h_inv_def by simp
  next
    case False
    then have r: "h = Some g" "st = set_hinfo g (i\<lparr>hi_refcnt := hi_refcnt i + 1\<rparr>) (hmgr s)" "sint (hi_refcnt i) \<noteq> 2 ^ 31 - 1"
      using run Some i(1) by (auto simp: get_handle_def deref_def bindR_eq_Inr int_incr_Inr)
    show ?thesis unfolding r(2)
      by (rule h_inv_set [OF inv i(1)]) (use h_invD(3) [OF inv i(1)] cnt r(1) sint_incr [OF r(3)] in \<open>auto split: if_splits\<close>)
  qed
qed

lemma bind_inv:
  assumes inv: "h_inv s" and run: "safebind ret cl h (hmgr s) = Inr (r, st)"
  shows "h_inv (s\<lparr>hmgr := st\<rparr>)"
proof -
  have same: ?thesis if "st = hmgr s" using inv that by simp
  show ?thesis
  proof (cases h)
    case (Some g)
    then obtain i where i: "hheap (hmgr s) g = Some i"
      using run by (auto simp: safebind_def deref_def split: option.splits)
    have upd: "h_inv (s\<lparr>hmgr := set_hinfo g i' (hmgr s), hobjs := hobjs s\<rparr>)" if "hi_m i' = hi_m i" "hi_refcnt i' = hi_refcnt i" for i'
      by (rule h_inv_set [OF inv i]) (use h_invD(3) [OF inv i] that in auto)
    show ?thesis
      using run Some i same upd [of "i\<lparr>hi_del := True\<rparr>"] upd [of "i\<lparr>hi_cl := Some cl\<rparr>"]
      by (auto simp: safebind_def deref_def Let_def split: if_splits)
  qed (use run same in \<open>simp add: safebind_def\<close>)
qed

lemma destroy_inv:
  assumes inv: "h_inv s" and x: "hobjs s x = Live h" and run: "handle_destroy h (hmgr s) = Inr st"
  shows "h_inv (s\<lparr>hmgr := st, hobjs := (hobjs s)(x := Dead)\<rparr>)"
proof (cases h)
  case None
  then have "holders g ((hobjs s)(x := Dead)) = holders g (hobjs s)" for g
    using holders_upd [of g "hobjs s" x Dead] x by simp
  moreover have "st = hmgr s" using run None by (simp add: handle_destroy_def)
  ultimately show ?thesis using inv unfolding h_inv_def by simp
next
  case (Some g)
  then obtain i where i: "hheap (hmgr s) g = Some i" using h_invD(4) [OF inv] x by blast
  have cnt: "holders k ((hobjs s)(x := Dead)) + (if k = g then 1 else 0) = holders k (hobjs s)" for k
    using holders_upd [of k "hobjs s" x Dead] x Some by auto
  have pos: "0 < sint (hi_refcnt i)" using h_invD(3) [OF inv i] cnt [of g] by simp
  then have dec: "int_decr (hi_refcnt i) = Inr (hi_refcnt i - 1)" "sint (hi_refcnt i - 1) = sint (hi_refcnt i) - 1"
    using sint_decr [of "hi_refcnt i"] by (auto simp: int_decr_def)
  let ?i = "i\<lparr>hi_refcnt := hi_refcnt i - 1\<rparr>"
  let ?s = "s\<lparr>hmgr := set_hinfo g ?i (hmgr s), hobjs := (hobjs s)(x := Dead)\<rparr>"
  have inv': "h_inv ?s"
  proof (rule h_inv_set [OF inv i])
    show "holders k ((hobjs s)(x := Dead)) = holders k (hobjs s)" if "k \<noteq> g" for k using cnt [of k] that by simp
    show "sint (hi_refcnt ?i) = int (holders g ((hobjs s)(x := Dead)))" using h_invD(3) [OF inv i] cnt [of g] dec(2) by simp
  qed (auto split: if_splits)
  show ?thesis
  proof (cases "hi_refcnt ?i = 0 \<and> hi_del ?i")
    case True
    then have "delete_handle_wo (hi_m i) (hmgr ?s) = Inr st"
      using run Some i dec(1) by (simp add: handle_destroy_def done_handle_def deref_def Let_def)
    from delete_inv [OF inv' this]
    have "h_inv (s\<lparr>hobjs := (hobjs s)(x := Dead), hmgr := st\<rparr>)" by simp
    moreover have "s\<lparr>hobjs := (hobjs s)(x := Dead), hmgr := st\<rparr> = s\<lparr>hmgr := st, hobjs := (hobjs s)(x := Dead)\<rparr>" by simp
    ultimately show ?thesis by metis
  next
    case False
    then show ?thesis using run Some i inv' dec(1) by (auto simp: handle_destroy_def done_handle_def deref_def Let_def split: if_splits)
  qed
qed

interpretation hs: invariant_system h_start h_step h_inv
proof
  show "h_inv s" if "h_start s" for s using that by (simp add: h_start_def h_inv_def handle_mgr_init_def)
  show "h_inv t" if "h_inv s" "h_step s t" for s t
    using that(2,1) by cases (auto simp: handle_new_def delete_handle_def intro: construct_inv bind_inv destroy_inv delete_inv)
qed

section \<open>Safety of the cache\<close>

lemma h_inv_get_handle:
  assumes inv: "h_inv s"
  shows "(\<exists>r. get_handle new m (hmgr s) = Inr r) \<or> (\<exists>h. hmap (hmgr s) m = Some h \<and> holders h (hobjs s) = 2 ^ 31 - 1)"
proof (cases "hmap (hmgr s) m")
  case (Some h)
  then obtain i where i: "hheap (hmgr s) h = Some i" using h_invD(1) [OF inv] by blast
  have "holders h (hobjs s) = 2 ^ 31 - 1" if "sint (hi_refcnt i) = 2 ^ 31 - 1" using h_invD(3) [OF inv i] that by simp
  then show ?thesis using Some i by (auto simp: get_handle_def deref_def int_incr_def)
qed (simp add: get_handle_def)

lemma h_inv_delete_handle: "h_inv s \<Longrightarrow> \<exists>r. delete_handle_wo m (hmgr s) = Inr r"
  using h_invD(1) [of s m] by (auto simp: delete_handle_wo_def deref_def split: option.splits)

lemma h_inv_safebind:
  assumes "h_inv s" and "hobjs s x = Live h"
  shows "\<exists>r. safebind ret cl h (hmgr s) = Inr r"
  using assms h_invD(4) [of s x] by (auto simp: safebind_def deref_def Let_def split: option.splits)

lemma h_inv_handle_destroy:
  assumes inv: "h_inv s" and x: "hobjs s x = Live h"
  shows "\<exists>r. handle_destroy h (hmgr s) = Inr r"
proof (cases h)
  case (Some g)
  then obtain i where i: "hheap (hmgr s) g = Some i" using h_invD(4) [OF inv] x by blast
  then have "hmap (hmgr s) (hi_m i) = Some g" by (rule h_invD(2) [OF inv])
  moreover have "int_decr (hi_refcnt i) = Inr (hi_refcnt i - 1)" using h_invD(3) [OF inv i] by (simp add: int_decr_def)
  ultimately show ?thesis using Some i
    by (simp add: handle_destroy_def done_handle_def delete_handle_wo_def set_hinfo_def deref_def Let_def)
qed (simp add: handle_destroy_def)

text \<open>
  C21. In every state that a program reaches by creating, binding and destroying handles and by deleting
  names, the reference count of each allocated structure is the number of the live handles that point
  to it, and no operation touches freed memory: a name can be deleted at any time, binding or destroying a
  live handle never dereferences a freed structure, and a new handle can be made for any name, unless
  the name has \<open>2 ^ 31 - 1\<close> live handles, when the 32-bit count would overflow.
\<close>

theorem handle_refcount_safe:
  fixes s :: "'o :: finite hsys"
  assumes "reach h_start h_step s"
  shows "(\<forall>h i. hheap (hmgr s) h = Some i \<longrightarrow> sint (hi_refcnt i) = int (card {x. hobjs s x = Live (Some h)})) \<and>
    (\<forall>x h ret cl. hobjs s x = Live h \<longrightarrow>
       (\<exists>r. safebind ret cl h (hmgr s) = Inr r) \<and> (\<exists>st. handle_destroy h (hmgr s) = Inr st)) \<and>
    (\<forall>new m. (\<exists>r. handle_new new m (hmgr s) = Inr r) \<or>
       (\<exists>h. hmap (hmgr s) m = Some h \<and> card {x. hobjs s x = Live (Some h)} = 2 ^ 31 - 1)) \<and>
    (\<forall>m. \<exists>st. delete_handle m (hmgr s) = Inr st)"
proof -
  have inv: "h_inv s" using assms by (rule hs.reach_invar)
  then show ?thesis
    using h_invD(3) [OF inv] h_inv_safebind [OF inv] h_inv_handle_destroy [OF inv]
      h_inv_get_handle [OF inv] h_inv_delete_handle [OF inv]
    by (auto simp: holders_def handle_new_def delete_handle_def)
qed

text \<open>Two handles on one address, bound, after the address has been deleted.\<close>

definition handle_run :: "bool hsys" where
  "handle_run = \<lparr>hmgr = \<lparr>hmap = [''3772'' \<mapsto> 5], hheap = [5 \<mapsto> \<lparr>hi_cl = Some 9, hi_refcnt = 2, hi_del = True, hi_m = ''3772''\<rparr>]\<rparr>,
     hobjs = (\<lambda>x. Live (Some 5))\<rparr>"

lemma handle_run_reach: "reach h_start h_step handle_run"
proof -
  let ?i = "\<lambda>cl n d. \<lparr>hi_cl = cl, hi_refcnt = n, hi_del = d, hi_m = ''3772''\<rparr>"
  let ?mgr = "\<lambda>cl n d. \<lparr>hmap = [''3772'' \<mapsto> 5], hheap = [5 \<mapsto> ?i cl n d]\<rparr>"
  let ?s0 = "\<lparr>hmgr = handle_mgr_init, hobjs = (\<lambda>x::bool. Dead)\<rparr>"
  let ?s1 = "?s0\<lparr>hmgr := ?mgr None 1 False, hobjs := (hobjs ?s0)(True := Live (Some 5))\<rparr>"
  let ?s2 = "?s1\<lparr>hmgr := ?mgr (Some 9) 1 False\<rparr>"
  let ?s3 = "?s2\<lparr>hmgr := ?mgr (Some 9) 2 False, hobjs := (hobjs ?s2)(False := Live (Some 5))\<rparr>"
  have "reach h_start h_step ?s0" by (rule reach_start) (simp add: h_start_def)
  moreover have "h_step ?s0 ?s1"
    by (rule construct [of _ _ 5 "''3772''"]) (simp_all add: handle_new_def get_handle_def handle_mgr_init_def set_hinfo_def)
  moreover have "h_step ?s1 ?s2"
    by (rule bind [of _ True "Some 5" 0 9]) (simp_all add: safebind_def deref_def set_hinfo_def)
  moreover have "h_step ?s2 ?s3"
    by (rule construct [of _ _ 6 "''3772''"]) (simp_all add: handle_new_def get_handle_def deref_def set_hinfo_def int_incr_def)
  moreover have "h_step ?s3 (?s3\<lparr>hmgr := ?mgr (Some 9) 2 True\<rparr>)"
    by (rule delete [of "''3772''"]) (simp_all add: delete_handle_def delete_handle_wo_def deref_def set_hinfo_def)
  ultimately have "reach h_start h_step (?s3\<lparr>hmgr := ?mgr (Some 9) 2 True\<rparr>)" by (meson reach_step)
  moreover have "?s3\<lparr>hmgr := ?mgr (Some 9) 2 True\<rparr> = handle_run" by (auto simp: handle_run_def)
  ultimately show ?thesis by simp
qed

theorem handle_refcount_safe_witness:
  "(\<exists>st. handle_destroy (Some 5) (hmgr handle_run) = Inr st) \<and> card {x. hobjs handle_run x = Live (Some 5)} = 2"
proof -
  note safe = handle_refcount_safe [OF handle_run_reach]
  have "hheap (hmgr handle_run) 5 = Some \<lparr>hi_cl = Some 9, hi_refcnt = 2, hi_del = True, hi_m = ''3772''\<rparr>"
    by (simp add: handle_run_def)
  with safe have "2 = int (card {x. hobjs handle_run x = Live (Some 5)})" by fastforce
  moreover have "hobjs handle_run True = Live (Some 5)" by (simp add: handle_run_def)
  with safe have "\<exists>st. handle_destroy (Some 5) (hmgr handle_run) = Inr st" by blast
  ultimately show ?thesis by simp
qed

end
