(* ===== verification/Spec2Isabelle.thy ===== *)
theory Spec2Isabelle
  imports Fuse_Props Test_Props Dist_Files Lock_Liveness Lock_Tester Extent_Wire Lock_Wire Demo Method_Thread
    Fifo Handle
begin

text \<open>
  YFS is a distributed file system: a FUSE process on every client machine, one extent server that keeps
  the files on a simulated disk, and one lock server. This development models the C++ sources under
  \<^verbatim>\<open>src/\<close> as executable definitions and proves them correct, from the blocks of the disk to the answers that
  FUSE gives to the kernel, and from one lock handler to the coherence of the whole system.

  \<^bold>\<open>The parts and how they interact.\<close> The kernel sends a request to \<^verbatim>\<open>fuse.cc\<close>, whose handlers call
  \<^verbatim>\<open>yfs_client.cc\<close>. That takes the lock of the inode from the caching lock client (\<^verbatim>\<open>lock_client_cache.cc\<close>), works
  on the whole content of files and directories in the write-back cache of \<^verbatim>\<open>extent_client.cc\<close>, and releases the
  lock. The lock client talks to \<^verbatim>\<open>lock_server_cache.cc\<close>, which calls back with revoke and retry through the
  connections of \<^verbatim>\<open>handle.cc\<close>; before a lock goes back to the server the client writes the extent back. The extent
  cache talks to \<^verbatim>\<open>extent_server.cc\<close>, which stores each extent as a file of \<^verbatim>\<open>inode_manager.cc\<close>. All calls go through
  the templates of \<^verbatim>\<open>rpc/rpc.h\<close> and \<^verbatim>\<open>rpc/marshall.h\<close>; the transport itself is a binary library.

  \<^bold>\<open>Theories, bottom up.\<close>
  \<^item> \<open>Prelude\<close>: integer widths (\<open>u32\<close>, \<open>u64\<close>), the result type \<open>'a res\<close> with the faults a C++ function can end
    in (\<open>Exit\<close>, \<open>Undefined\<close> and so on), its sequencing \<open>bindR\<close>, the counted loop \<open>for_u32\<close>, \<^verbatim>\<open>std::map\<close> indexing,
    byte encodings, strings and decimal numbers, the arguments of the server programs, and \<open>reach\<close> with the locale \<open>invariant_system\<close> that every step relation interprets.
  \<^item> \<open>Block_Layer\<close>, \<open>Inode_Layer\<close>: \<^verbatim>\<open>disk\<close>, \<^verbatim>\<open>block_manager\<close> and \<^verbatim>\<open>inode_manager\<close>, one function per method, on a byte
    image of the disk with 32-bit block numbers. \<open>Inode_Blocks\<close> and \<open>Inode_Spec\<close> hold the invariant \<open>im_inv\<close>
    (blocks of live inodes are disjoint, allocated and in range) and the abstraction \<open>file_at\<close>, a map from inode
    numbers to types and contents; \<open>Inode_Props\<close> states what each operation does to it.
  \<^item> \<open>Extent_Server\<close>: the RPC handlers and the locale \<open>extent_store\<close>, the contract the client cache relies on,
    interpreted by the server. Every history of requests is one of an abstract table.
  \<^item> \<open>Extent_Client\<close>: the cache. \<open>dfs_step\<close> is the ownership discipline (read and write only while you own the
    extent, \<^verbatim>\<open>sync\<close> before you give it up), under which reads return the last write.
  \<^item> \<open>Marshall\<close>, \<open>Rpc\<close>: buffers, headers, containers; the \<^verbatim>\<open>call\<close> and \<^verbatim>\<open>reg\<close> templates of all
    arities. \<open>Extent_Wire\<close>, \<open>Lock_Wire\<close>, \<open>Demo\<close>: over them the extent protocol with \<^verbatim>\<open>extent_smain.cc\<close>, the calls and
    callbacks of the lock protocol with \<^verbatim>\<open>lock_smain.cc\<close>, the constructor of the caching lock client and \<^verbatim>\<open>lock_demo.cc\<close>, and the
    demonstration protocol with \<^verbatim>\<open>demo_server.cc\<close> and \<^verbatim>\<open>demo_client.cc\<close>. A codec law describes the operators of the basic types, which
    are not in the sources, and \<open>loopback\<close> a network that delivers to a server which, as the library's \<^verbatim>\<open>rpcs::dispatch\<close>
    does, asserts that no handler returns a negative status.
  \<^item> \<open>Fifo\<close>, \<open>Handle\<close>: the bounded queue and the reference-counted connections, each with all its threads or users.
  \<^item> \<open>Method_Thread\<close>: \<^verbatim>\<open>rpc/method_thread.h\<close> and the jobs of \<^verbatim>\<open>rpc/thr_pool.h\<close>, with the heap cells that carry a method and its
    arguments to a new thread.
  \<^item> \<open>Lock_Server\<close>: the blocking lock server and its client, with the condition variable.
  \<^item> \<open>Lock_Server_Cache\<close>, \<open>Lock_Client_Cache\<close>: the handlers of the caching lock service. A stretch of code under a
    mutex is one function, and the places where the mutex is given up are program positions.
  \<^item> \<open>Lock_Protocol\<close>, \<open>Lock_Liveness\<close>: one server and any number of clients with any number of threads, with
    calls, callbacks and replies as messages in flight. The invariant gives each client a role at the server
    and says which states of the client and of its call go with it. The weight of a client counts down
    what it still has to do.
  \<^item> \<open>Lock_Tester\<close>: the test program \<^verbatim>\<open>lock_tester.cc\<close> as a client of the protocol, and that its checks never fail, up
    to the first use of the \<^verbatim>\<open>ec_handle\<close> that its \<^verbatim>\<open>main\<close> leaves uninitialised (\<open>lock_tester_undefined\<close>).
  \<^item> \<open>Dist_Coherence\<close>: that protocol for every extent together with the extent caches and the extent server,
    shown to refine \<open>dfs_step\<close>. \<open>Dist_Files\<close>: the operations of \<^verbatim>\<open>yfs_client.cc\<close> on one file, cut into their calls and run by
    threads of many clients over that system, and that they are linearizable.
  \<^item> \<open>Yfs_Client\<close>, \<open>Yfs_Spec\<close>, \<open>Yfs_Props\<close>: the file-system operations on directories and files, with the
    invariant \<open>y_inv\<close> and the view a client has of the contents.
  \<^item> \<open>Fuse\<close>, \<open>Fuse_Spec\<close>, \<open>Fuse_Refine\<close>, \<open>Fuse_Props\<close>: the request handlers, an abstract tree of named nodes with a
    precondition, reply and effect for every request, and the proof that each handler and each session
    of requests implements it.
  \<^item> \<open>Posix\<close>: programs as trees of system calls, a machine of processes that run in any order, and the locale
    \<open>posix_kernel\<close>, the laws of a kernel with a mounted file system. A rely-guarantee calculus \<open>rg\<close> for one
    process is lifted through the locale to a parent with its child.
  \<^item> \<open>Test_Programs\<close>: the five test programs of a mounted file system (\<^verbatim>\<open>test-lab2-part1-g.c\<close>, \<^verbatim>\<open>test-lab2-part2-a.c\<close>,
    \<^verbatim>\<open>test-lab2-part2-b.c\<close>, \<^verbatim>\<open>test-lab-3-a.c\<close>, \<^verbatim>\<open>test-lab-3-b.c\<close>), with the helper functions that each file has in a copy
    of its own. \<open>Test_Rules\<close>, \<open>Test_Seq\<close>, \<open>Test_Conc\<close>: what each helper, each sequential and each concurrent test does.
    \<open>Test_Props\<close>: that each program inevitably ends with exit code 0 and the expected output.
  \<^item> \<open>Posix_Yfs\<close>, \<open>Yfs_Kernel\<close>: a small kernel over the FUSE handlers and the proof that it keeps the laws of
    \<open>posix_kernel\<close>; with it the test programs run on the whole modelled stack down to the disk.

  \<^bold>\<open>What is proved.\<close> Functional correctness of each operation of the disk, inode, extent and file-system layers
  on every branch, including the faults and when exactly they occur; refinement of abstract files, of an abstract
  file table, of an abstract lock and of an abstract file tree; equivalence of the RPC stubs with the server methods, for
  the templates of every number of arguments; round trips of all encodings; mutual exclusion, absence of lost
  wake-ups, termination and progress of the lock services; coherence of the distributed store and atomicity of the file operations on it; that threads run the methods they were
  started with; and that the
  testers accept every file system with the promised behaviour, in particular this one. Where the
  code does not do what it should, the theorem says what it does (\<open>large_write_clobbers_other_file\<close>,
  \<open>getattr_loses_put\<close>, \<open>stale_writeback_resurfaces\<close>, \<open>created_entry_hides_write\<close>, \<open>lock_demo_ends_server\<close>, \<open>symlink_leaks_lock\<close>, \<open>symlink_target_not_on_server\<close>, \<open>yfs_read_aborts\<close>, \<open>long_name_overflows\<close>,
  \<open>spurious_wakeup_breaks_exclusion\<close>, \<open>unlink_removes_directory\<close>, \<open>lock_tester_undefined\<close>), and the positive theorems have the condition that excludes it.

  \<^bold>\<open>Bounds.\<close> Integers have the width of the source, and the overflow of the reference counts is a fault. Exceptions are statuses and the small
  counters of the testers, which are \<open>int\<close>, and the indices and sizes of the marshalling buffers, \<^verbatim>\<open>int\<close> in the source, which are natural numbers (a buffer has
  fewer than 2^31 bytes). The FUSE theorems are about the requests
  that meet \<open>fuse_req_ok\<close>: the tests of names, offsets and targets that the handlers leave out are its conditions. In
  \<open>Lock_Protocol\<close>, \<open>Lock_Tester\<close>, \<open>Dist_Coherence\<close> and \<open>Dist_Files\<close> a \<^verbatim>\<open>pthread_cond_wait\<close> returns only when it is signalled; in \<open>Lock_Client_Cache\<close> the wait
  of \<^verbatim>\<open>rpc_acquire\<close> may return at any time, and \<open>spurious_wakeup_breaks_exclusion\<close> shows what an unsignalled return of the
  other waits does; \<open>Fifo\<close> and \<open>Lock_Server\<close> allow them all. The handlers of the extent server are atomic steps, although the
  server has no mutex and the library runs handlers on a pool of threads. Loops are structural or have a measure; no function uses fuel. The
  positive theorems on \<^verbatim>\<open>write_file\<close> allow at most one file beyond its direct blocks, because all such files
  share block 0 as their indirect block. File-system operations and the FUSE session are run in a quiet
  environment, in which calls are delivered and no lock is taken away during an operation; the lock protocol, the
  coherence theorem and \<open>Dist_Files\<close> cover the interleavings, on files that exist. Operations that create or remove
  files are not in \<open>Dist_Files\<close>: they touch the cache of an extent whose lock they do not hold, and are not
  atomic (\<open>created_entry_hides_write\<close>, \<open>stale_writeback_resurfaces\<close>). A test program starts with room for the files it makes (78, or 202 with its two
  directories), short mount paths and 16 bytes for a name; the instance has room for 1000 files and directories, fewer
  than the 1023 free inodes. In the laws of \<open>posix_kernel\<close> the calls that the testers make succeed: \<^verbatim>\<open>fork\<close> makes a process and
  descriptors do not run out. The kernel of \<open>Posix_Yfs\<close> serves both mount points with one client, where \<^verbatim>\<open>start.sh\<close> starts two; the sharing between
  two clients is the subject of \<open>Dist_Coherence\<close> and \<open>Dist_Files\<close>. An RPC is delivered once, as the library promises; crashes and
  network failures are not modelled beyond the error statuses that the functions handle.

  \<^bold>\<open>Not modelled.\<close> The binary RPC library (connections, polling, dispatch, at-most-once bookkeeping, the threads of the pool), of
  which \<^verbatim>\<open>rpc/\<close> has only declarations; \<^verbatim>\<open>ScopedLock\<close>, which shows as the atomic steps of the code that uses it; logging and the
  debugging printout \<^verbatim>\<open>xlock\<close>; the clock shim for macOS, which is not compiled on Linux and rounds in floating point. The
  Linux kernel under the testers is a parameter; the kernel of \<open>Posix_Yfs\<close> stands for it in the examples.
\<close>

end
